(* ===== verification/Zedis_Prelude.thy ===== *)
theory Zedis_Prelude
  imports Main "HOL-Library.Word"
begin

text \<open>
  What every component of the development shares: C integers of fixed width written over
  \<open>int\<close> and \<open>nat\<close>, byte strings, and the part of the C library the sources call
  (decimal printing and scanning, C strings, bounded copies), each with the lemmas the
  component theories use.

  Conventions. A byte buffer is a \<open>string\<close> (a list of 8-bit \<open>char\<close>s). A \<open>size_t\<close>
  that counts bytes or objects present in memory is a \<open>nat\<close>; where the code can wrap it,
  the wrap-around is written out or a \<open>word\<close> is used. A signed 64-bit value is an
  \<open>int\<close> kept in range by \<open>wrap_i64\<close>: signed overflow is undefined in C, and the model
  takes the two's complement result that the supported compilers produce.
\<close>

named_theorems c_arith \<open>facts on C integers\<close>
named_theorems c_bytes \<open>facts on byte strings\<close>

section \<open>C integers\<close>

definition wrap_i64 :: "int \<Rightarrow> int" where
  "wrap_i64 x = (x + 2 ^ 63) mod 2 ^ 64 - 2 ^ 63"

definition wrap_i32 :: "int \<Rightarrow> int" where
  "wrap_i32 x = (x + 2 ^ 31) mod 2 ^ 32 - 2 ^ 31"

definition in_i64 :: "int \<Rightarrow> bool" where
  "in_i64 x \<longleftrightarrow> - (2 ^ 63) \<le> x \<and> x < 2 ^ 63"

definition in_i32 :: "int \<Rightarrow> bool" where
  "in_i32 x \<longleftrightarrow> - (2 ^ 31) \<le> x \<and> x < 2 ^ 31"

definition UINT32_MAX :: nat where
  "UINT32_MAX = 4294967295"

definition wrap_u32 :: "nat \<Rightarrow> nat" where
  "wrap_u32 n = n mod 2 ^ 32"

definition wrap_u64 :: "nat \<Rightarrow> nat" where
  "wrap_u64 n = n mod 2 ^ 64"

lemma wrap_i64_id [c_arith]: "in_i64 x \<Longrightarrow> wrap_i64 x = x"
  by (simp add: wrap_i64_def in_i64_def)

lemma wrap_i64_in [simp, c_arith]: "in_i64 (wrap_i64 x)"
proof -
  have "0 \<le> (x + 2 ^ 63) mod 2 ^ 64" "(x + 2 ^ 63) mod 2 ^ 64 < (2 ^ 64 :: int)"
    by simp_all
  then show ?thesis by (simp add: wrap_i64_def in_i64_def)
qed

lemma wrap_i32_id [c_arith]: "in_i32 x \<Longrightarrow> wrap_i32 x = x"
  by (simp add: wrap_i32_def in_i32_def)

lemma wrap_i32_in [simp, c_arith]: "in_i32 (wrap_i32 x)"
proof -
  have "0 \<le> (x + 2 ^ 31) mod 2 ^ 32" "(x + 2 ^ 31) mod 2 ^ 32 < (2 ^ 32 :: int)"
    by simp_all
  then show ?thesis by (simp add: wrap_i32_def in_i32_def)
qed

lemma wrap_u32_id [c_arith]: "n < 2 ^ 32 \<Longrightarrow> wrap_u32 n = n"
  by (simp add: wrap_u32_def)

lemma wrap_u64_id [c_arith]: "n < 2 ^ 64 \<Longrightarrow> wrap_u64 n = n"
  by (simp add: wrap_u64_def)

section \<open>Byte strings and C strings\<close>

abbreviation NUL :: char where "NUL \<equiv> CHR 0x00"
abbreviation CR :: char where "CR \<equiv> CHR 0x0D"
abbreviation LF :: char where "LF \<equiv> CHR 0x0A"
abbreviation crlf :: string where "crlf \<equiv> [CR, LF]"

text \<open>The bytes a C string function sees of a buffer: everything before the first NUL.\<close>

definition cstr :: "string \<Rightarrow> string" where
  "cstr s = takeWhile (\<lambda>c. c \<noteq> NUL) s"

text \<open>\<open>slice off len bs\<close>: the \<open>len\<close> bytes of \<open>bs\<close> from \<open>off\<close> on.\<close>

definition slice :: "nat \<Rightarrow> nat \<Rightarrow> 'a list \<Rightarrow> 'a list" where
  "slice off len bs = take len (drop off bs)"

text \<open>\<open>memcpy(dst + off, src, strlen src)\<close> on a buffer that is long enough.\<close>

definition write_at :: "nat \<Rightarrow> 'a list \<Rightarrow> 'a list \<Rightarrow> 'a list" where
  "write_at off src dst = take off dst @ src @ drop (off + length src) dst"

lemma cstr_id [c_bytes]: "NUL \<notin> set s \<Longrightarrow> cstr s = s"
  by (auto simp: cstr_def takeWhile_eq_all_conv)

lemma cstr_append_NUL [c_bytes]: "NUL \<notin> set s \<Longrightarrow> cstr (s @ NUL # t) = s"
  by (auto simp: cstr_def takeWhile_append takeWhile_eq_all_conv)

lemma length_cstr_le: "length (cstr s) \<le> length s"
  by (simp add: cstr_def length_takeWhile_le)

lemma length_slice [simp, c_bytes]: "off + len \<le> length bs \<Longrightarrow> length (slice off len bs) = len"
  by (simp add: slice_def)

lemma slice_append1 [c_bytes]: "off + len \<le> length xs \<Longrightarrow> slice off len (xs @ ys) = slice off len xs"
  by (simp add: slice_def)

lemma nth_slice [c_bytes]: "i < len \<Longrightarrow> off + i < length bs \<Longrightarrow> slice off len bs ! i = bs ! (off + i)"
  by (simp add: slice_def)

lemma length_write_at [simp, c_bytes]:
  "off + length src \<le> length dst \<Longrightarrow> length (write_at off src dst) = length dst"
  by (simp add: write_at_def)

lemma slice_write_at [simp, c_bytes]:
  "off \<le> length dst \<Longrightarrow> slice off (length src) (write_at off src dst) = src"
  by (simp add: slice_def write_at_def)

section \<open>Decimal numbers: printing and scanning\<close>

text \<open>What \<open>printf\<close> prints for \<open>%u\<close>, \<open>%zu\<close> (\<open>show_nat\<close>) and \<open>%d\<close>, \<open>%lld\<close> (\<open>show_int\<close>).\<close>

definition digit_char :: "nat \<Rightarrow> char" where
  "digit_char d = char_of (48 + d)"

fun show_nat :: "nat \<Rightarrow> string" where
  "show_nat n =
     (if n < 10 then [digit_char n] else show_nat (n div 10) @ [digit_char (n mod 10)])"

declare show_nat.simps [simp del]

definition show_int :: "int \<Rightarrow> string" where
  "show_int i = (if i < 0 then CHR ''-'' # show_nat (nat (- i)) else show_nat (nat i))"

definition is_digit :: "char \<Rightarrow> bool" where
  "is_digit c \<longleftrightarrow> 48 \<le> (of_char c :: nat) \<and> (of_char c :: nat) \<le> 57"

definition digit_val :: "char \<Rightarrow> int" where
  "digit_val c = int (of_char c) - 48"

text \<open>The digit loop shared by the scanners of the program: \<open>value = value * 10 + digit\<close>
  on 64 bits, \<open>None\<close> at the first byte that is not a digit.\<close>

fun scan_digits :: "int \<Rightarrow> string \<Rightarrow> int option" where
  "scan_digits v [] = Some v"
| "scan_digits v (c # cs) =
     (if is_digit c then scan_digits (wrap_i64 (v * 10 + digit_val c)) cs else None)"

text \<open>\<open>strtoul(s, NULL, 10)\<close> and \<open>strtoull\<close> on a 64-bit target: white space, an optional sign,
  then digits; saturation at \<open>ULONG_MAX\<close>; a minus sign negates modulo \<open>2 ^ 64\<close>.\<close>

definition is_space :: "char \<Rightarrow> bool" where
  "is_space c \<longleftrightarrow> c = CHR '' '' \<or> (9 \<le> (of_char c :: nat) \<and> (of_char c :: nat) \<le> 13)"

fun dec_value :: "nat \<Rightarrow> string \<Rightarrow> nat" where
  "dec_value v [] = v"
| "dec_value v (c # cs) = dec_value (v * 10 + nat (digit_val c)) cs"

definition strtoul10 :: "string \<Rightarrow> nat" where
  "strtoul10 s =
     (let t = dropWhile is_space (cstr s);
          neg = (t \<noteq> [] \<and> hd t = CHR ''-'');
          u = (if t \<noteq> [] \<and> (hd t = CHR ''-'' \<or> hd t = CHR ''+'') then tl t else t);
          v = dec_value 0 (takeWhile is_digit u)
      in if v > 2 ^ 64 - 1 then 2 ^ 64 - 1
         else if neg then (2 ^ 64 - v) mod 2 ^ 64 else v)"

lemma of_digit_char: "d < 10 \<Longrightarrow> (of_char (digit_char d) :: nat) = 48 + d"
  by (simp add: digit_char_def)

lemma is_digit_digit_char [simp]: "d < 10 \<Longrightarrow> is_digit (digit_char d)"
  by (simp add: is_digit_def of_digit_char)

lemma digit_val_digit_char [simp]: "d < 10 \<Longrightarrow> digit_val (digit_char d) = int d"
  by (simp add: digit_val_def of_digit_char)

lemma digit_val_range: "is_digit c \<Longrightarrow> 0 \<le> digit_val c \<and> digit_val c \<le> 9"
  by (auto simp: is_digit_def digit_val_def)

lemma show_nat_not_Nil [simp]: "show_nat n \<noteq> []"
  by (subst show_nat.simps) simp

lemma show_nat_digits: "c \<in> set (show_nat n) \<Longrightarrow> is_digit c"
proof (induction n arbitrary: c rule: show_nat.induct)
  case (1 n)
  then show ?case
    by (auto simp: show_nat.simps [of n] split: if_splits)
qed

lemma show_nat_takeWhile [simp]: "takeWhile is_digit (show_nat n) = show_nat n"
  using show_nat_digits by (auto simp: takeWhile_eq_all_conv)

lemma dec_value_append [simp]: "dec_value v (xs @ ys) = dec_value (dec_value v xs) ys"
  by (induction xs arbitrary: v) auto

lemma dec_value_show_nat: "dec_value 0 (show_nat n) = n"
proof (induction n rule: show_nat.induct)
  case (1 n)
  show ?case
  proof (cases "n < 10")
    case True
    then show ?thesis by (simp add: show_nat.simps [of n])
  next
    case False
    with "1.IH" show ?thesis by (simp add: show_nat.simps [of n])
  qed
qed

lemma not_digit_chars [simp]:
  "\<not> is_digit NUL" "\<not> is_digit CR" "\<not> is_digit LF" "\<not> is_digit (CHR ''-'')" "\<not> is_digit (CHR ''+'')"
  by (simp_all add: is_digit_def)

lemma NUL_notin_show_nat [simp]: "NUL \<notin> set (show_nat n)"
  using show_nat_digits [of NUL n] by auto

lemma CR_notin_show_nat [simp]: "CR \<notin> set (show_nat n)"
  using show_nat_digits [of CR n] by auto

lemma LF_notin_show_nat [simp]: "LF \<notin> set (show_nat n)"
  using show_nat_digits [of LF n] by auto

lemma is_digit_not_space: "is_digit c \<Longrightarrow> \<not> is_space c"
  by (auto simp: is_digit_def is_space_def)

lemma hd_show_nat_digit: "is_digit (hd (show_nat n))"
  using show_nat_digits hd_in_set show_nat_not_Nil by blast

lemma strtoul10_show_nat:
  assumes "n < 2 ^ 64"
  shows "strtoul10 (show_nat n @ NUL # junk) = n"
proof -
  let ?s = "show_nat n"
  have c: "cstr (?s @ NUL # junk) = ?s"
    by (simp add: cstr_append_NUL)
  have h: "is_digit (hd ?s)" by (rule hd_show_nat_digit)
  then have d: "dropWhile is_space ?s = ?s"
    by (cases ?s) (auto dest: is_digit_not_space)
  have m: "hd ?s \<noteq> CHR ''-''" "hd ?s \<noteq> CHR ''+''"
    using h by auto
  show ?thesis
    using assms by (simp add: strtoul10_def Let_def c d m dec_value_show_nat)
qed

lemma scan_digits_append:
  "scan_digits v (xs @ ys) = Option.bind (scan_digits v xs) (\<lambda>w. scan_digits w ys)"
  by (induction xs arbitrary: v) auto

lemma scan_digits_in: "in_i64 v \<Longrightarrow> scan_digits v s = Some w \<Longrightarrow> in_i64 w"
  by (induction v s rule: scan_digits.induct) (auto split: if_splits)

lemma scan_digits_nondigit: "c \<in> set s \<Longrightarrow> \<not> is_digit c \<Longrightarrow> scan_digits v s = None"
  by (induction v s rule: scan_digits.induct) auto

lemma scan_digits_Some_iff: "(\<exists>w. scan_digits v s = Some w) \<longleftrightarrow> (\<forall>c \<in> set s. is_digit c)"
  by (induction v s rule: scan_digits.induct) auto

lemma scan_digits_show_nat:
  assumes "n < 2 ^ 63"
  shows "scan_digits 0 (show_nat n) = Some (int n)"
  using assms
proof (induction n rule: show_nat.induct)
  case (1 n)
  show ?case
  proof (cases "n < 10")
    case True
    then show ?thesis
      by (simp add: show_nat.simps [of n] wrap_i64_id in_i64_def)
  next
    case False
    have lt: "n div 10 < 2 ^ 63" using "1.prems" by simp
    have "int (n div 10) * 10 + int (n mod 10) = int n"
      by (simp add: of_nat_div of_nat_mod)
    moreover have "in_i64 (int n)"
      using "1.prems" by (simp add: in_i64_def)
    ultimately show ?thesis
      using False "1.IH" [OF False lt]
      by (simp add: show_nat.simps [of n] scan_digits_append wrap_i64_id)
  qed
qed

section \<open>Lists indexed like C arrays\<close>

lemma nth_list_update_if: "j < length xs \<Longrightarrow> xs[i := x] ! j = (if i = j then x else xs ! j)"
  by simp

lemma mod_succ_inj:
  fixes i j n :: nat
  assumes "i < n" "j < n" "(i + 1) mod n = (j + 1) mod n"
  shows "i = j"
  using assms by (metis Suc_eq_plus1 mod_Suc mod_less nat.inject nat.simps(3))

end
