(* ===== verification/Arena.thy ===== *)
theory Arena
  imports Zedis_Prelude
begin

text \<open>
  The memory arena of \<^verbatim>\<open>src/src/arena.c\<close>: one mapping obtained at start-up, handed out by a bump
  pointer. All sizes are \<open>size_t\<close>, modelled at their 64-bit width because the bound check of
  \<open>zedis_arena_alloc\<close> adds two of them. The two \<open>mmap\<close> calls are parameters of
  \<open>zedis_arena_init\<close>: the address the kernel returns, or \<open>None\<close> for \<open>MAP_FAILED\<close>.
\<close>

unbundle bit_operations_syntax

section \<open>Model\<close>

type_synonym u64 = "64 word"
type_synonym mem = "u64 \<Rightarrow> 8 word"

record zedis_arena =
  ar_base :: u64
  ar_size :: u64
  ar_offset :: u64
  ar_used_hugepages :: bool

definition arena_zero :: zedis_arena where
  "arena_zero = \<lparr>ar_base = 0, ar_size = 0, ar_offset = 0, ar_used_hugepages = False\<rparr>"

definition align_up :: "u64 \<Rightarrow> u64 \<Rightarrow> u64" where
  "align_up v align = (v + align - 1) AND NOT (align - 1)"

definition zedis_arena_init ::
  "(u64 \<Rightarrow> u64 option) \<Rightarrow> (u64 \<Rightarrow> u64 option) \<Rightarrow> zedis_arena \<Rightarrow> u64 \<Rightarrow> int \<times> zedis_arena" where
  "zedis_arena_init mmap_huge mmap_plain arena sz =
     (if sz = 0 then (-1, arena)
      else let map_size = align_up sz (2 * 1024 * 1024) in
        (case mmap_huge map_size of
           Some m \<Rightarrow> (0, \<lparr>ar_base = m, ar_size = map_size, ar_offset = 0, ar_used_hugepages = True\<rparr>)
         | None \<Rightarrow>
             (case mmap_plain map_size of
                Some m \<Rightarrow> (0, \<lparr>ar_base = m, ar_size = map_size, ar_offset = 0, ar_used_hugepages = False\<rparr>)
              | None \<Rightarrow> (-1, arena_zero))))"

definition zedis_arena_destroy :: "zedis_arena \<Rightarrow> zedis_arena" where
  "zedis_arena_destroy arena = (if ar_base arena = 0 then arena else arena_zero)"

definition zedis_arena_alloc :: "zedis_arena \<Rightarrow> u64 \<Rightarrow> u64 \<Rightarrow> u64 option \<times> zedis_arena" where
  "zedis_arena_alloc arena sz align =
     (if sz = 0 then (None, arena)
      else let al = (if align = 0 then 64 else align);
               start = align_up (ar_offset arena) al in
        if start + sz > ar_size arena then (None, arena)
        else (Some (ar_base arena + start), arena\<lparr>ar_offset := start + sz\<rparr>))"

definition memset :: "u64 \<Rightarrow> 8 word \<Rightarrow> u64 \<Rightarrow> mem \<Rightarrow> mem" where
  "memset p v n m = (\<lambda>a. if a - p < n then v else m a)"

definition zedis_arena_calloc ::
  "zedis_arena \<Rightarrow> u64 \<Rightarrow> u64 \<Rightarrow> u64 \<Rightarrow> mem \<Rightarrow> u64 option \<times> zedis_arena \<times> mem" where
  "zedis_arena_calloc arena count sz align m =
     (let total = count * sz in
      case zedis_arena_alloc arena total align of
        (None, arena') \<Rightarrow> (None, arena', m)
      | (Some p, arena') \<Rightarrow> (Some p, arena', memset p 0 total m))"

text \<open>A sequence of allocations, as the components issue them at start-up: the blocks
  (address, size) of the requests that succeeded, newest last.\<close>

fun arena_run :: "zedis_arena \<Rightarrow> (u64 \<times> u64) list \<Rightarrow> (u64 \<times> u64) list \<times> zedis_arena" where
  "arena_run a [] = ([], a)"
| "arena_run a ((sz, align) # rs) =
     (case zedis_arena_alloc a sz align of
        (None, a') \<Rightarrow> arena_run a' rs
      | (Some p, a') \<Rightarrow> (let (bs, a'') = arena_run a' rs in ((p, sz) # bs, a'')))"

section \<open>Specification\<close>

text \<open>The mapping does not wrap around the address space and the bump pointer is inside it.\<close>

definition arena_wf :: "zedis_arena \<Rightarrow> bool" where
  "arena_wf a \<longleftrightarrow> ar_offset a \<le> ar_size a \<and> unat (ar_base a) + unat (ar_size a) < 2 ^ 64"

definition pow2_align :: "u64 \<Rightarrow> bool" where
  "pow2_align al \<longleftrightarrow> (\<exists>k < 64. al = 2 ^ k)"

text \<open>The request fits the 64-bit arithmetic of the bound check from any offset of an arena
  of this size. Every request for less than \<open>2 ^ 63\<close> bytes on an arena below that size does.\<close>

definition request_ok :: "zedis_arena \<Rightarrow> u64 \<Rightarrow> u64 \<Rightarrow> bool" where
  "request_ok a sz align \<longleftrightarrow>
     (align = 0 \<or> pow2_align align) \<and>
     unat (ar_size a) + max 64 (unat align) + unat sz < 2 ^ 64"

definition block_in :: "zedis_arena \<Rightarrow> nat \<Rightarrow> u64 \<times> u64 \<Rightarrow> bool" where
  "block_in a lo b \<longleftrightarrow>
     unat (ar_base a) + lo \<le> unat (fst b) \<and>
     unat (fst b) + unat (snd b) \<le> unat (ar_base a) + unat (ar_size a)"

definition blocks_disjoint :: "u64 \<times> u64 \<Rightarrow> u64 \<times> u64 \<Rightarrow> bool" where
  "blocks_disjoint b c \<longleftrightarrow>
     unat (fst b) + unat (snd b) \<le> unat (fst c) \<or> unat (fst c) + unat (snd c) \<le> unat (fst b)"

section \<open>Alignment\<close>

lemma and_not_mask_eq: "(x :: 'a::len word) AND NOT (mask k) = x - take_bit k x"
proof -
  have "x = (x AND NOT (mask k)) + (x AND mask k)"
  proof (rule sym, subst disjunctive_add)
    show "\<not> bit (x AND NOT (mask k)) n \<or> \<not> bit (x AND mask k) n" for n
      by (auto simp: bit_simps)
  next
    show "(x AND NOT (mask k)) OR (x AND mask k) = x"
      by (rule bit_word_eqI) (auto simp: bit_simps)
  qed
  then show ?thesis
    by (metis add_diff_cancel_right' take_bit_eq_mask)
qed

lemma unat_pow2: "k < 64 \<Longrightarrow> unat (2 ^ k :: u64) = 2 ^ k"
proof -
  assume k: "k < 64"
  have lt: "(2 ^ k :: nat) < 2 ^ 64" using k by (rule power_strict_increasing) simp
  have "unat (2 ^ k :: u64) = unat (of_nat (2 ^ k) :: u64)" by simp
  also have "\<dots> = 2 ^ k" using lt by (subst unat_of_nat) simp
  finally show ?thesis .
qed

lemma align_up_pow2:
  assumes "k < 64" and "unat v + 2 ^ k \<le> (2 ^ 64 :: nat)"
  shows "unat (align_up v (2 ^ k)) = (unat v + 2 ^ k - 1) div 2 ^ k * 2 ^ k"
proof -
  define n where "n = unat v + 2 ^ k - 1"
  let ?x = "v + 2 ^ k - 1 :: u64"
  have n_lt: "n < 2 ^ 64"
    using assms(2) by (simp add: n_def)
  have "of_nat n = (of_nat (unat v + 2 ^ k) - 1 :: u64)"
    unfolding n_def by (subst of_nat_diff) (simp_all add: Suc_le_eq)
  then have "?x = of_nat n"
    by simp
  then have ux: "unat ?x = n"
    using n_lt by (simp add: unat_of_nat)
  have "align_up v (2 ^ k) = ?x - take_bit k ?x"
    by (simp add: align_up_def flip: and_not_mask_eq mask_eq_exp_minus_1)
  moreover have ut: "unat (take_bit k ?x) = n mod 2 ^ k"
    by (simp only: unsigned_take_bit_eq ux) (simp add: take_bit_eq_mod)
  moreover have "take_bit k ?x \<le> ?x"
    by (simp add: word_le_nat_alt ut ux)
  ultimately have "unat (align_up v (2 ^ k)) = n - n mod 2 ^ k"
    by (simp only: unat_sub ut ux)
  then show ?thesis
    by (simp add: n_def minus_mod_eq_div_mult)
qed

lemma div_mult_bounds:
  fixes n m :: nat
  assumes "0 < m"
  shows "n \<le> (n + m - 1) div m * m" and "(n + m - 1) div m * m < n + m"
proof -
  have "(n + m - 1) div m * m + (n + m - 1) mod m = n + m - 1" by simp
  moreover have "(n + m - 1) mod m < m" using assms by simp
  ultimately show "n \<le> (n + m - 1) div m * m" "(n + m - 1) div m * m < n + m"
    using assms by linarith+
qed

lemma align_up_bounds:
  assumes "pow2_align al" and "unat v + unat al \<le> (2 ^ 64 :: nat)"
  shows "unat v \<le> unat (align_up v al)"
    and "unat (align_up v al) < unat v + unat al"
    and "unat (align_up v al) mod unat al = 0"
proof -
  from assms(1) obtain k where k: "k < 64" "al = 2 ^ k"
    by (auto simp: pow2_align_def)
  have al: "unat al = 2 ^ k" using k by (simp add: unat_pow2)
  have e: "unat (align_up v al) = (unat v + 2 ^ k - 1) div 2 ^ k * 2 ^ k"
    using align_up_pow2 [of k v] k assms(2) al by simp
  show "unat v \<le> unat (align_up v al)" "unat (align_up v al) < unat v + unat al"
    "unat (align_up v al) mod unat al = 0"
    unfolding e al using div_mult_bounds [of "2 ^ k" "unat v"] by simp_all
qed

section \<open>Allocation\<close>

lemma pow2_align_64: "pow2_align 64"
  unfolding pow2_align_def by (rule exI [of _ 6]) simp

lemma zedis_arena_alloc_SomeD:
  assumes wf: "arena_wf a" and ok: "request_ok a sz align"
    and r: "zedis_arena_alloc a sz align = (Some p, a')"
  shows "block_in a (unat (ar_offset a)) (p, sz)"
    and "unat p + unat sz = unat (ar_base a) + unat (ar_offset a')"
    and "(unat p - unat (ar_base a)) mod (if align = 0 then 64 else unat align) = 0"
    and "a' = a\<lparr>ar_offset := ar_offset a'\<rparr>" and "arena_wf a'"
proof -
  define al where "al = (if align = 0 then 64 else align)"
  define start where "start = align_up (ar_offset a) al"
  from r have sz: "sz \<noteq> 0" and fit: "start + sz \<le> ar_size a" and p: "p = ar_base a + start"
    and a': "a' = a\<lparr>ar_offset := start + sz\<rparr>"
    by (auto simp: zedis_arena_alloc_def Let_def al_def start_def split: if_splits)
  have al2: "pow2_align al" and al_le: "unat al \<le> max 64 (unat align)"
    using ok by (auto simp: al_def request_ok_def pow2_align_64)
  have off: "unat (ar_offset a) \<le> unat (ar_size a)"
    using wf by (simp add: arena_wf_def word_le_nat_alt)
  have room: "unat (ar_size a) + unat al + unat sz < 2 ^ 64"
    using ok al_le by (simp add: request_ok_def)
  have v: "unat (ar_offset a) + unat al \<le> (2 ^ 64 :: nat)"
    using room off by linarith
  note st = align_up_bounds [OF al2 v, folded start_def]
  have "unat start + unat sz < 2 ^ 64"
    using st(2) room off by linarith
  then have u1: "unat (start + sz) = unat start + unat sz"
    by (simp add: unat_word_ariths)
  have u2: "unat start + unat sz \<le> unat (ar_size a)"
    using fit u1 by (simp add: word_le_nat_alt)
  have "unat (ar_base a) + unat start < 2 ^ 64"
    using wf u2 by (simp add: arena_wf_def)
  then have u3: "unat p = unat (ar_base a) + unat start"
    by (simp add: p unat_word_ariths)
  show "block_in a (unat (ar_offset a)) (p, sz)"
    using st(1) u2 u3 by (simp add: block_in_def)
  show "unat p + unat sz = unat (ar_base a) + unat (ar_offset a')"
    using u1 u3 by (simp add: a')
  show "(unat p - unat (ar_base a)) mod (if align = 0 then 64 else unat align) = 0"
    using st(3) u3 by (simp add: al_def split: if_splits)
  show "a' = a\<lparr>ar_offset := ar_offset a'\<rparr>" by (simp add: a')
  show "arena_wf a'"
    using wf fit by (simp add: a' arena_wf_def)
qed


lemma zedis_arena_alloc_NoneD:
  "zedis_arena_alloc a sz align = (None, a') \<Longrightarrow> a' = a"
  by (auto simp: zedis_arena_alloc_def Let_def split: if_splits)

lemma zedis_arena_alloc_fixes:
  "zedis_arena_alloc a sz align = (r, a') \<Longrightarrow> ar_size a' = ar_size a \<and> ar_base a' = ar_base a"
  by (auto simp: zedis_arena_alloc_def Let_def split: if_splits)

lemma request_ok_cong: "ar_size a' = ar_size a \<Longrightarrow> request_ok a' = request_ok a"
  by (simp add: request_ok_def fun_eq_iff)

lemma block_in_cong:
  "ar_size a' = ar_size a \<Longrightarrow> ar_base a' = ar_base a \<Longrightarrow> block_in a' = block_in a"
  by (simp add: block_in_def fun_eq_iff)

lemma block_in_mono: "block_in a n b \<Longrightarrow> m \<le> n \<Longrightarrow> block_in a m b"
  by (simp add: block_in_def)

lemma arena_run_blocks:
  assumes "arena_wf a" and "\<forall>(sz, al) \<in> set rs. request_ok a sz al"
    and "arena_run a rs = (bs, a')"
  shows "arena_wf a' \<and> (\<forall>b \<in> set bs. block_in a (unat (ar_offset a)) b) \<and>
    sorted_wrt blocks_disjoint bs"
  using assms
proof (induction a rs arbitrary: bs a' rule: arena_run.induct)
  case (1 a)
  then show ?case by simp
next
  case (2 a sz al rs)
  obtain r a1 where r: "zedis_arena_alloc a sz al = (r, a1)" by fastforce
  have fx: "ar_size a1 = ar_size a" "ar_base a1 = ar_base a"
    using zedis_arena_alloc_fixes [OF r] by simp_all
  have ok: "request_ok a sz al" "\<forall>(sz, al) \<in> set rs. request_ok a1 sz al"
    using "2.prems"(2) by (auto simp: request_ok_cong [OF fx(1)])
  show ?case
  proof (cases r)
    case None
    then have "a1 = a" using r by (auto dest: zedis_arena_alloc_NoneD)
    then show ?thesis using 2 None r ok by auto
  next
    case (Some p)
    obtain bs1 where bs1: "arena_run a1 rs = (bs1, a')" "bs = (p, sz) # bs1"
      using "2.prems"(3) r Some by (auto split: prod.splits)
    note D = zedis_arena_alloc_SomeD [OF "2.prems"(1) ok(1) r [unfolded Some]]
    have I: "arena_wf a' \<and> (\<forall>b \<in> set bs1. block_in a1 (unat (ar_offset a1)) b) \<and>
        sorted_wrt blocks_disjoint bs1"
      using "2.IH"(2) [OF r [symmetric] Some D(5) ok(2) bs1(1)] .
    have mono: "unat (ar_offset a) \<le> unat (ar_offset a1)"
      using D(1,2) by (simp add: block_in_def)
    have dis: "blocks_disjoint (p, sz) b" if "b \<in> set bs1" for b
      using I that D(2) fx by (auto simp: blocks_disjoint_def block_in_def)
    have "\<forall>b \<in> set bs1. block_in a (unat (ar_offset a)) b"
      using I mono block_in_mono block_in_cong [OF fx] by metis
    then show ?thesis using I D(1) dis by (simp add: bs1)
  qed
qed

lemma memset_inside: "unat i < unat n \<Longrightarrow> memset p v n m (p + i) = v"
  by (simp add: memset_def word_less_nat_alt)

lemma memset_outside:
  assumes "unat p + unat n \<le> 2 ^ 64" and "unat a < unat p \<or> unat p + unat n \<le> unat a"
  shows "memset p v n m a = m a"
proof -
  have "\<not> a - p < n"
  proof (cases "unat a < unat p")
    case True
    then have "unat (a - p) = unat a + 2 ^ 64 - unat p"
      by (simp add: unat_sub_if')
    with assms(1) show ?thesis by (simp add: word_less_nat_alt)
  next
    case False
    with assms(2) have "unat (a - p) = unat a - unat p" by (simp add: unat_sub_if')
    with False assms(2) show ?thesis by (simp add: word_less_nat_alt)
  qed
  then show ?thesis by (simp add: memset_def)
qed

section \<open>Properties\<close>

text \<open>
  C25. Memory safety of start-up. From a well-formed arena, any sequence of allocations whose sizes
  fit the 64-bit bound check hands out blocks that lie inside the mapping, above what was already
  handed out, and that are pairwise disjoint; the arena stays well formed.
\<close>

theorem arena_blocks_disjoint:
  assumes "arena_wf a" and "\<forall>(sz, al) \<in> set rs. request_ok a sz al"
    and "arena_run a rs = (bs, a')"
  shows "arena_wf a' \<and> (\<forall>b \<in> set bs. block_in a (unat (ar_offset a)) b) \<and>
    (\<forall>i j. i < j \<longrightarrow> j < length bs \<longrightarrow> blocks_disjoint (bs ! i) (bs ! j))"
  using arena_run_blocks [OF assms] by (auto simp: sorted_wrt_iff_nth_less)

definition demo_arena :: zedis_arena where
  "demo_arena = \<lparr>ar_base = 4096, ar_size = 4096, ar_offset = 10, ar_used_hugepages = False\<rparr>"

theorem arena_blocks_disjoint_witness:
  "arena_run demo_arena [(100, 64), (5000, 64), (8, 0)] =
     ([(4160, 100), (4288, 8)], demo_arena\<lparr>ar_offset := 200\<rparr>) \<and>
   blocks_disjoint (4160, 100) (4288, 8)"
proof -
  have run: "arena_run demo_arena [(100, 64), (5000, 64), (8, 0)] =
     ([(4160, 100), (4288, 8)], demo_arena\<lparr>ar_offset := 200\<rparr>)"
    by code_simp
  have wf: "arena_wf demo_arena" by (simp add: demo_arena_def arena_wf_def)
  have ok: "\<forall>(sz, al) \<in> set [(100, 64), (5000, 64), (8, 0)]. request_ok demo_arena sz al"
    using pow2_align_64 by (simp add: request_ok_def demo_arena_def)
  show ?thesis
    using arena_blocks_disjoint [OF wf ok run, THEN conjunct2, THEN conjunct2, rule_format, of 0 1]
      run by simp
qed

text \<open>
  \<open>zedis_arena_calloc\<close> returns a block of the arena in which every byte is zero, aligned as
  requested, and changes no byte outside it, provided \<open>count * size\<close> does not wrap.
\<close>

lemma arena_calloc_zeroed:
  assumes "arena_wf a" and "request_ok a (count * sz) al" and "unat count * unat sz < 2 ^ 64"
    and "zedis_arena_calloc a count sz al m = (Some p, a', m')"
  shows "(\<forall>i. unat i < unat count * unat sz \<longrightarrow> m' (p + i) = 0) \<and>
    (\<forall>x. unat x < unat p \<or> unat p + unat count * unat sz \<le> unat x \<longrightarrow> m' x = m x) \<and>
    block_in a (unat (ar_offset a)) (p, count * sz) \<and>
    (unat p - unat (ar_base a)) mod (if al = 0 then 64 else unat al) = 0"
proof -
  have u: "unat (count * sz) = unat count * unat sz"
    using assms(3) by (simp add: unat_word_ariths)
  have alloc: "zedis_arena_alloc a (count * sz) al = (Some p, a')"
    and m': "m' = memset p 0 (count * sz) m"
    using assms(4) by (auto simp: zedis_arena_calloc_def Let_def split: prod.splits option.splits)
  note D = zedis_arena_alloc_SomeD [OF assms(1,2) alloc]
  have top: "unat p + unat (count * sz) \<le> 2 ^ 64"
    using D(1) assms(1) by (simp add: block_in_def arena_wf_def)
  have "\<forall>i. unat i < unat count * unat sz \<longrightarrow> m' (p + i) = 0"
    using u by (simp add: m' memset_inside)
  moreover have "\<forall>x. unat x < unat p \<or> unat p + unat count * unat sz \<le> unat x \<longrightarrow> m' x = m x"
    using memset_outside [OF top] u by (simp add: m')
  ultimately show ?thesis using D(1,3) by blast
qed

text \<open>
  The bound check of \<open>zedis_arena_alloc\<close> adds two \<open>size_t\<close> values without an overflow test:
  a request close to \<open>2 ^ 64\<close> bytes is granted by an arena of one page, and the bump pointer moves
  backwards, so the next block overlaps memory already handed out.
\<close>

lemma arena_alloc_overflow:
  "zedis_arena_alloc demo_arena (2 ^ 64 - 64) 64 = (Some (4096 + 64), demo_arena\<lparr>ar_offset := 0\<rparr>)"
  by (simp add: zedis_arena_alloc_def demo_arena_def align_up_def)

end
