(* ===== verification/Slab.thy ===== *)
theory Slab
  imports Arena
begin

text \<open>
  The slab allocator of \<^verbatim>\<open>src/src/slab.c\<close>: four pools of fixed-size blocks, each with a free list
  threaded through the first word of its free blocks. Addresses are \<open>nat\<close> with 0 for \<open>NULL\<close>; the
  \<open>next\<close> words of all blocks live in one store \<open>heap\<close>, so aliasing between pools and stray writes
  can be expressed. The compare-exchange loops may fail spuriously; the number of failures before
  success is a parameter of the operations. The server is single threaded, so no other writer
  interferes.
\<close>

section \<open>Model\<close>

type_synonym addr = nat
type_synonym heap = "addr \<Rightarrow> addr"

definition ZEDIS_SLAB_64 :: nat where "ZEDIS_SLAB_64 = 64"
definition ZEDIS_SLAB_256 :: nat where "ZEDIS_SLAB_256 = 256"
definition ZEDIS_SLAB_512 :: nat where "ZEDIS_SLAB_512 = 512"
definition ZEDIS_SLAB_4096 :: nat where "ZEDIS_SLAB_4096 = 4096"

text \<open>\<open>offsetof(slab_block_t, data)\<close>: the \<open>next\<close> pointer precedes the payload.\<close>

definition slab_hdr :: nat where "slab_hdr = 8"

record zedis_slab_pool =
  sp_block_size :: nat
  sp_block_count :: nat
  sp_free_list :: addr
  sp_storage :: addr

record zedis_slab =
  sl_pools :: "zedis_slab_pool list"

definition pool_zero :: zedis_slab_pool where
  "pool_zero = \<lparr>sp_block_size = 0, sp_block_count = 0, sp_free_list = 0, sp_storage = 0\<rparr>"

text \<open>The loop of \<open>init_pool\<close> after its first \<open>n\<close> rounds: the list head and the store.\<close>

primrec link_blocks :: "addr \<Rightarrow> nat \<Rightarrow> nat \<Rightarrow> heap \<Rightarrow> addr \<times> heap" where
  "link_blocks storage stride 0 h = (0, h)"
| "link_blocks storage stride (Suc i) h =
     (let (head, h') = link_blocks storage stride i h;
          block = storage + i * stride
      in (block, h'(block := head)))"

definition init_pool ::
  "zedis_arena \<Rightarrow> nat \<Rightarrow> nat \<Rightarrow> heap \<Rightarrow> int \<times> zedis_slab_pool \<times> zedis_arena \<times> heap" where
  "init_pool arena block_size block_count h =
     (let pool = \<lparr>sp_block_size = block_size, sp_block_count = block_count,
                  sp_free_list = 0, sp_storage = 0\<rparr>;
          stride = block_size in
      case zedis_arena_alloc arena (of_nat (stride * block_count)) 64 of
        (None, arena') \<Rightarrow> (-1, pool, arena', h)
      | (Some p, arena') \<Rightarrow>
          (let (head, h') = link_blocks (unat p) stride block_count h
           in (0, pool\<lparr>sp_storage := unat p, sp_free_list := head\<rparr>, arena', h')))"

text \<open>\<open>zedis_slab_init\<close> fills the four pools in order and stops at the first failure.\<close>

fun init_pools ::
  "zedis_arena \<Rightarrow> (nat \<times> nat) list \<Rightarrow> heap \<Rightarrow> int \<times> zedis_slab_pool list \<times> zedis_arena \<times> heap" where
  "init_pools arena [] h = (0, [], arena, h)"
| "init_pools arena ((bs, count) # rest) h =
     (case init_pool arena bs count h of
        (rc, pool, arena', h') \<Rightarrow>
          if rc \<noteq> 0 then (-1, pool # map (\<lambda>_. pool_zero) rest, arena', h')
          else (case init_pools arena' rest h' of
                  (rc', pools, arena'', h'') \<Rightarrow> (rc', pool # pools, arena'', h'')))"

definition zedis_slab_init ::
  "zedis_arena \<Rightarrow> nat \<Rightarrow> nat \<Rightarrow> nat \<Rightarrow> nat \<Rightarrow> heap \<Rightarrow> int \<times> zedis_slab \<times> zedis_arena \<times> heap" where
  "zedis_slab_init arena count_64 count_256 count_512 count_4096 h =
     (case init_pools arena [(ZEDIS_SLAB_64, count_64), (ZEDIS_SLAB_256, count_256),
                             (ZEDIS_SLAB_512, count_512), (ZEDIS_SLAB_4096, count_4096)] h of
        (rc, pools, arena', h') \<Rightarrow> (rc, \<lparr>sl_pools = pools\<rparr>, arena', h'))"

definition zedis_slab_destroy :: "zedis_slab \<Rightarrow> zedis_slab" where
  "zedis_slab_destroy slab = \<lparr>sl_pools = replicate 4 pool_zero\<rparr>"

definition pool_for_size :: "nat \<Rightarrow> nat option" where
  "pool_for_size sz =
     (if sz \<le> ZEDIS_SLAB_64 then Some 0
      else if sz \<le> ZEDIS_SLAB_256 then Some 1
      else if sz \<le> ZEDIS_SLAB_512 then Some 2
      else if sz \<le> ZEDIS_SLAB_4096 then Some 3
      else None)"

text \<open>The two compare-exchange loops, with the number of spurious failures still to come.\<close>

fun pool_pop :: "nat \<Rightarrow> zedis_slab_pool \<Rightarrow> heap \<Rightarrow> addr option \<times> zedis_slab_pool \<times> heap" where
  "pool_pop fails pool h =
     (let head = sp_free_list pool in
      if head = 0 then (None, pool, h)
      else (case fails of
              Suc k \<Rightarrow> pool_pop k pool h
            | 0 \<Rightarrow> (Some (head + slab_hdr), pool\<lparr>sp_free_list := h head\<rparr>, h(head := 0))))"

fun pool_push :: "nat \<Rightarrow> zedis_slab_pool \<Rightarrow> addr \<Rightarrow> heap \<Rightarrow> zedis_slab_pool \<times> heap" where
  "pool_push fails pool block h =
     (let head = sp_free_list pool; h' = h(block := head) in
      case fails of
        Suc k \<Rightarrow> pool_push k pool block h'
      | 0 \<Rightarrow> (pool\<lparr>sp_free_list := block\<rparr>, h'))"

definition zedis_slab_alloc :: "nat \<Rightarrow> zedis_slab \<Rightarrow> heap \<Rightarrow> nat \<Rightarrow> addr option \<times> zedis_slab \<times> heap" where
  "zedis_slab_alloc fails slab h sz =
     (case pool_for_size sz of
        None \<Rightarrow> (None, slab, h)
      | Some i \<Rightarrow>
          (case pool_pop fails (sl_pools slab ! i) h of
             (r, pool, h') \<Rightarrow> (r, slab\<lparr>sl_pools := (sl_pools slab)[i := pool]\<rparr>, h')))"

definition zedis_slab_free :: "nat \<Rightarrow> zedis_slab \<Rightarrow> heap \<Rightarrow> addr \<Rightarrow> nat \<Rightarrow> zedis_slab \<times> heap" where
  "zedis_slab_free fails slab h ptr sz =
     (if ptr = 0 then (slab, h)
      else (case pool_for_size sz of
              None \<Rightarrow> (slab, h)
            | Some i \<Rightarrow>
                (case pool_push fails (sl_pools slab ! i) (ptr - slab_hdr) h of
                   (pool, h') \<Rightarrow> (slab\<lparr>sl_pools := (sl_pools slab)[i := pool]\<rparr>, h'))))"

declare pool_pop.simps [simp del] pool_push.simps [simp del]

section \<open>Specification\<close>

definition pool_blocks :: "zedis_slab_pool \<Rightarrow> addr list" where
  "pool_blocks p = map (\<lambda>i. sp_storage p + i * sp_block_size p) [0..<sp_block_count p]"

fun chain :: "heap \<Rightarrow> addr \<Rightarrow> addr list \<Rightarrow> bool" where
  "chain h p [] \<longleftrightarrow> p = 0"
| "chain h p (b # bs) \<longleftrightarrow> p = b \<and> b \<noteq> 0 \<and> chain h (h b) bs"

definition pool_inv :: "heap \<Rightarrow> zedis_slab_pool \<Rightarrow> addr list \<Rightarrow> bool" where
  "pool_inv h p fs \<longleftrightarrow>
     chain h (sp_free_list p) fs \<and> distinct fs \<and> set fs \<subseteq> set (pool_blocks p) \<and>
     0 < sp_storage p \<and> slab_hdr \<le> sp_block_size p"

text \<open>The abstract state: the free blocks of each of the four size classes.\<close>

definition slab_inv :: "heap \<Rightarrow> zedis_slab \<Rightarrow> addr list list \<Rightarrow> bool" where
  "slab_inv h s fss \<longleftrightarrow>
     length (sl_pools s) = 4 \<and> length fss = 4 \<and>
     (\<forall>i < 4. pool_inv h (sl_pools s ! i) (fss ! i)) \<and>
     (\<forall>i < 4. \<forall>j < 4. i \<noteq> j \<longrightarrow> set (pool_blocks (sl_pools s ! i)) \<inter> set (pool_blocks (sl_pools s ! j)) = {})"

section \<open>Free lists\<close>

lemma chain_upd [simp]: "b \<notin> set bs \<Longrightarrow> chain (h(b := v)) p bs = chain h p bs"
  by (induction bs arbitrary: p) auto

lemma pool_pop_spurious: "pool_pop fails pool h = pool_pop 0 pool h"
proof (induction fails)
  case (Suc k)
  then show ?case
    by (simp add: pool_pop.simps [of "Suc k"] Let_def) (simp add: pool_pop.simps [of 0] Let_def)
qed simp

lemma pool_push_spurious: "pool_push fails pool block h = pool_push 0 pool block h"
proof (induction fails arbitrary: h)
  case (Suc k)
  then show ?case
    by (simp add: pool_push.simps [of "Suc k"] Let_def) (simp add: pool_push.simps [of 0] Let_def)
qed simp

lemma pool_pop_Nil: "pool_inv h p [] \<Longrightarrow> pool_pop fails p h = (None, p, h)"
  by (subst pool_pop_spurious) (simp add: pool_inv_def pool_pop.simps Let_def)

lemma pool_pop_Cons:
  "pool_inv h p (b # fs) \<Longrightarrow>
     pool_pop fails p h = (Some (b + slab_hdr), p\<lparr>sp_free_list := h b\<rparr>, h(b := 0)) \<and>
     pool_inv (h(b := 0)) (p\<lparr>sp_free_list := h b\<rparr>) fs"
  by (subst pool_pop_spurious) (auto simp: pool_inv_def pool_pop.simps Let_def pool_blocks_def)

lemma pool_push_Cons:
  assumes "pool_inv h p fs" and "b \<in> set (pool_blocks p)" and "b \<notin> set fs"
  shows "pool_push fails p b h = (p\<lparr>sp_free_list := b\<rparr>, h(b := sp_free_list p)) \<and>
     pool_inv (h(b := sp_free_list p)) (p\<lparr>sp_free_list := b\<rparr>) (b # fs)"
proof -
  have "b \<noteq> 0" using assms(1,2) by (auto simp: pool_inv_def pool_blocks_def)
  then show ?thesis
    using assms
    by (subst pool_push_spurious) (auto simp: pool_inv_def pool_push.simps Let_def pool_blocks_def)
qed

lemma pool_inv_other:
  assumes "b \<notin> set (pool_blocks p)"
  shows "pool_inv (h(b := v)) p fs = pool_inv h p fs"
proof (cases "set fs \<subseteq> set (pool_blocks p)")
  case True
  then have "b \<notin> set fs" using assms by blast
  then show ?thesis by (simp add: pool_inv_def)
qed (simp add: pool_inv_def)

lemma link_blocks_chain:
  assumes "0 < storage" and "0 < stride"
  shows "link_blocks storage stride n h = (p, h') \<Longrightarrow>
    chain h' p (rev (map (\<lambda>i. storage + i * stride) [0..<n])) \<and>
    (\<forall>a. a \<notin> (\<lambda>i. storage + i * stride) ` {..<n} \<longrightarrow> h' a = h a)"
proof (induction n arbitrary: p h')
  case 0
  then show ?case by simp
next
  case (Suc n)
  obtain q h1 where q: "link_blocks storage stride n h = (q, h1)" by fastforce
  have "storage + n * stride \<notin> (\<lambda>i. storage + i * stride) ` {..<n}"
    using assms(2) by auto
  then have "storage + n * stride \<notin> set (rev (map (\<lambda>i. storage + i * stride) [0..<n]))"
    by (simp add: atLeast0LessThan)
  then show ?case
    using Suc.IH [OF q] Suc.prems q assms(1) by (auto simp: Let_def lessThan_Suc)
qed

lemma distinct_pool_blocks: "0 < sp_block_size p \<Longrightarrow> distinct (pool_blocks p)"
  by (simp add: pool_blocks_def distinct_map inj_on_def)

section \<open>The allocator contract\<close>

text \<open>
  What a client may rely on: per size class a list of free payload pointers; allocation takes the
  first of them, release puts a pointer back, and nothing else changes. Clients only release what
  they own, with the size they asked for; \<open>alloc_run\<close> runs such a client.
\<close>

datatype slab_op = Alloc nat | Free addr nat

fun alloc_run ::
  "('s \<Rightarrow> nat \<Rightarrow> addr option \<times> 's) \<Rightarrow> ('s \<Rightarrow> addr \<Rightarrow> nat \<Rightarrow> 's) \<Rightarrow>
   's \<Rightarrow> (addr \<times> nat) list \<Rightarrow> slab_op list \<Rightarrow> 's \<times> (addr \<times> nat) list" where
  "alloc_run al rel s own [] = (s, own)"
| "alloc_run al rel s own (Alloc sz # ops) =
     (case al s sz of
        (None, s') \<Rightarrow> alloc_run al rel s' own ops
      | (Some p, s') \<Rightarrow> alloc_run al rel s' ((p, sz) # own) ops)"
| "alloc_run al rel s own (Free p sz # ops) =
     (if (p, sz) \<in> set own then alloc_run al rel (rel s p sz) (remove1 (p, sz) own) ops
      else alloc_run al rel s own ops)"

locale size_class_allocator =
  fixes cls :: "nat \<Rightarrow> nat option"
    and R :: "'s \<Rightarrow> (nat \<Rightarrow> addr list) \<Rightarrow> bool"
    and blk :: "'s \<Rightarrow> nat \<Rightarrow> addr set"
    and al :: "'s \<Rightarrow> nat \<Rightarrow> addr option \<times> 's"
    and rel :: "'s \<Rightarrow> addr \<Rightarrow> nat \<Rightarrow> 's"
  assumes al_unsupported: "R s f \<Longrightarrow> cls sz = None \<Longrightarrow> al s sz = (None, s)"
    and al_empty: "R s f \<Longrightarrow> cls sz = Some c \<Longrightarrow> f c = [] \<Longrightarrow> al s sz = (None, s)"
    and al_first: "R s f \<Longrightarrow> cls sz = Some c \<Longrightarrow> f c = p # ps \<Longrightarrow>
      \<exists>s'. al s sz = (Some p, s') \<and> R s' (f(c := ps)) \<and> blk s' = blk s"
    and rel_back: "R s f \<Longrightarrow> cls sz = Some c \<Longrightarrow> p \<in> blk s c \<Longrightarrow> p \<notin> set (f c) \<Longrightarrow>
      R (rel s p sz) (f(c := p # f c)) \<and> blk (rel s p sz) = blk s"
    and free_in_blk: "R s f \<Longrightarrow> cls sz = Some c \<Longrightarrow> set (f c) \<subseteq> blk s c \<and> distinct (f c)"
    and blk_disjoint: "R s f \<Longrightarrow> cls sz = Some c \<Longrightarrow> cls sz' = Some c' \<Longrightarrow> c \<noteq> c' \<Longrightarrow>
      blk s c \<inter> blk s c' = {}"
begin

definition owned_ok :: "'s \<Rightarrow> (nat \<Rightarrow> addr list) \<Rightarrow> (addr \<times> nat) list \<Rightarrow> bool" where
  "owned_ok s f own \<longleftrightarrow> distinct (map fst own) \<and>
     (\<forall>(p, sz) \<in> set own. \<exists>c. cls sz = Some c \<and> p \<in> blk s c \<and> p \<notin> set (f c))"

definition class_total :: "(nat \<Rightarrow> addr list) \<Rightarrow> (addr \<times> nat) list \<Rightarrow> nat \<Rightarrow> nat" where
  "class_total f own c = length (f c) + length (filter (\<lambda>(p, sz). cls sz = Some c) own)"

lemma alloc_step:
  assumes R: "R s f" and own: "owned_ok s f own" and al: "al s sz = (Some p, s')"
  obtains c ps where "cls sz = Some c" "f c = p # ps" "R s' (f(c := ps))" "blk s' = blk s"
    "owned_ok s' (f(c := ps)) ((p, sz) # own)"
    "\<And>d. class_total (f(c := ps)) ((p, sz) # own) d = class_total f own d"
proof -
  obtain c where c: "cls sz = Some c"
    using al_unsupported [OF R] al by fastforce
  obtain q ps where f: "f c = q # ps"
    using al_empty [OF R c] al by (cases "f c") auto
  have q: "q = p" and R': "R s' (f(c := ps))" and b: "blk s' = blk s"
    using al_first [OF R c f] al by auto
  have fd: "p \<in> blk s c" "p \<notin> set ps" "set ps \<subseteq> set (f c)"
    using free_in_blk [OF R c] f q by auto
  have "p \<noteq> x" if x: "(x, sz') \<in> set own" for x sz'
  proof -
    obtain c' where c': "cls sz' = Some c'" "x \<in> blk s c'" "x \<notin> set (f c')"
      using own x by (fastforce simp: owned_ok_def)
    show ?thesis
    proof (cases "c = c'")
      case True
      then show ?thesis using c'(3) f q by auto
    next
      case False
      then show ?thesis using blk_disjoint [OF R c c'(1)] c'(2) fd(1) by blast
    qed
  qed
  then have "p \<notin> fst ` set own" by force
  then have "owned_ok s' (f(c := ps)) ((p, sz) # own)"
    using own c fd b by (fastforce simp: owned_ok_def)
  moreover have "class_total (f(c := ps)) ((p, sz) # own) d = class_total f own d" for d
    using c f by (cases "c = d") (simp_all add: class_total_def)
  ultimately show thesis using that c f q R' b by simp
qed

lemma free_step:
  assumes R: "R s f" and own: "owned_ok s f own" and mem: "(p, sz) \<in> set own"
  obtains c where "cls sz = Some c" "R (rel s p sz) (f(c := p # f c))" "blk (rel s p sz) = blk s"
    "owned_ok (rel s p sz) (f(c := p # f c)) (remove1 (p, sz) own)"
    "\<And>d. class_total (f(c := p # f c)) (remove1 (p, sz) own) d = class_total f own d"
proof -
  obtain c where c: "cls sz = Some c" "p \<in> blk s c" "p \<notin> set (f c)"
    using own mem by (fastforce simp: owned_ok_def)
  note R' = rel_back [OF R c]
  have d: "distinct (map fst own)" using own by (simp add: owned_ok_def)
  then have do: "distinct own" by (simp add: distinct_map)
  have ne: "x \<noteq> p" if "(x, sz') \<in> set (remove1 (p, sz) own)" for x sz'
  proof -
    have "(x, sz') \<in> set own" "(x, sz') \<noteq> (p, sz)"
      using that do by (simp_all add: set_remove1_eq)
    then show ?thesis using d mem by (metis eq_key_imp_eq_value)
  qed
  have "distinct (map fst (remove1 (p, sz) own))"
    using d by (simp add: distinct_map inj_on_def set_remove1_eq [OF do] do)
  moreover have "\<exists>c'. cls z = Some c' \<and> x \<in> blk s c' \<and> x \<notin> set ((f(c := p # f c)) c')"
    if x: "(x, z) \<in> set (remove1 (p, sz) own)" for x z
  proof -
    have "(x, z) \<in> set own" using x do by (simp add: set_remove1_eq)
    then obtain c' where "cls z = Some c'" "x \<in> blk s c'" "x \<notin> set (f c')"
      using own by (auto simp: owned_ok_def)
    then show ?thesis using ne [OF x] by auto
  qed
  ultimately have o: "owned_ok (rel s p sz) (f(c := p # f c)) (remove1 (p, sz) own)"
    using R' by (auto simp: owned_ok_def simp del: fun_upd_apply)
  have "class_total (f(c := p # f c)) (remove1 (p, sz) own) d = class_total f own d" for d
  proof -
    have "length (filter (\<lambda>(q, z). cls z = Some d) own) =
        length (filter (\<lambda>(q, z). cls z = Some d) (remove1 (p, sz) own)) + (if d = c then 1 else 0)"
      using mem c by (induction own) auto
    then show ?thesis by (simp add: class_total_def)
  qed
  then show thesis using that c(1) R' o by blast
qed

lemma run_safe:
  assumes "R s f" and "owned_ok s f own" and "alloc_run al rel s own ops = (s', own')"
  shows "\<exists>f'. R s' f' \<and> blk s' = blk s \<and> owned_ok s' f' own' \<and>
    (\<forall>c. class_total f' own' c = class_total f own c)"
  using assms
proof (induction ops arbitrary: s own f)
  case Nil
  then show ?case by auto
next
  case (Cons op ops)
  show ?case
  proof (cases op)
    case (Alloc sz)
    obtain r s1 where r: "al s sz = (r, s1)" by fastforce
    show ?thesis
    proof (cases r)
      case None
      have "s1 = s"
        using al_unsupported [OF Cons.prems(1), of sz] al_empty [OF Cons.prems(1), of sz]
          al_first [OF Cons.prems(1), of sz] r None
        by (cases "cls sz"; cases "f (the (cls sz))") auto
      then show ?thesis using Cons.IH Cons.prems r None Alloc by simp
    next
      case (Some p)
      obtain c ps where A: "R s1 (f(c := ps))" "blk s1 = blk s"
        "owned_ok s1 (f(c := ps)) ((p, sz) # own)"
        "\<And>d. class_total (f(c := ps)) ((p, sz) # own) d = class_total f own d"
        using alloc_step [OF Cons.prems(1,2) r [unfolded Some]] by metis
      have "alloc_run al rel s1 ((p, sz) # own) ops = (s', own')"
        using Cons.prems(3) r Some Alloc by simp
      from Cons.IH [OF A(1,3) this] show ?thesis unfolding A(2,4) .
    qed
  next
    case (Free p sz)
    show ?thesis
    proof (cases "(p, sz) \<in> set own")
      case True
      obtain c where A: "R (rel s p sz) (f(c := p # f c))" "blk (rel s p sz) = blk s"
        "owned_ok (rel s p sz) (f(c := p # f c)) (remove1 (p, sz) own)"
        "\<And>d. class_total (f(c := p # f c)) (remove1 (p, sz) own) d = class_total f own d"
        using free_step [OF Cons.prems(1,2) True] by metis
      have "alloc_run al rel (rel s p sz) (remove1 (p, sz) own) ops = (s', own')"
        using Cons.prems(3) True Free by simp
      from Cons.IH [OF A(1,3) this] show ?thesis unfolding A(2,4) .
    next
      case False
      then show ?thesis using Cons Free by simp
    qed
  qed
qed

end

section \<open>The slab provides the contract\<close>

text \<open>The operations as the contract names them, on the pair of store and slab.\<close>

definition slab_alloc_op :: "nat \<Rightarrow> heap \<times> zedis_slab \<Rightarrow> nat \<Rightarrow> addr option \<times> heap \<times> zedis_slab" where
  "slab_alloc_op fails st sz =
     (case zedis_slab_alloc fails (snd st) (fst st) sz of (r, s, h) \<Rightarrow> (r, h, s))"

definition slab_free_op :: "nat \<Rightarrow> heap \<times> zedis_slab \<Rightarrow> addr \<Rightarrow> nat \<Rightarrow> heap \<times> zedis_slab" where
  "slab_free_op fails st p sz =
     (case zedis_slab_free fails (snd st) (fst st) p sz of (s, h) \<Rightarrow> (h, s))"

definition payloads :: "addr list \<Rightarrow> addr list" where
  "payloads bs = map (\<lambda>b. b + slab_hdr) bs"

definition slab_R :: "heap \<times> zedis_slab \<Rightarrow> (nat \<Rightarrow> addr list) \<Rightarrow> bool" where
  "slab_R st f \<longleftrightarrow> (\<exists>fss. slab_inv (fst st) (snd st) fss \<and> (\<forall>c < 4. f c = payloads (fss ! c)))"

definition slab_blk :: "heap \<times> zedis_slab \<Rightarrow> nat \<Rightarrow> addr set" where
  "slab_blk st c = set (payloads (pool_blocks (sl_pools (snd st) ! c)))"

lemma pool_for_size_less: "pool_for_size sz = Some c \<Longrightarrow> c < 4"
  by (auto simp: pool_for_size_def split: if_splits)

lemma pool_blocks_fl [simp]: "pool_blocks (p\<lparr>sp_free_list := v\<rparr>) = pool_blocks p"
  by (simp add: pool_blocks_def)

lemma pool_blocks_update [simp]:
  "pool_blocks ((ps[c := (ps ! c)\<lparr>sp_free_list := v\<rparr>]) ! x) = pool_blocks (ps ! x)"
  by (cases "x = c"; cases "c < length ps") (simp_all add: list_update_beyond)

lemma slab_RD:
  assumes "slab_R st f" and "pool_for_size sz = Some c"
  obtains fss where "slab_inv (fst st) (snd st) fss" "\<forall>c < 4. f c = payloads (fss ! c)" "c < 4"
    "f c = payloads (fss ! c)" "pool_inv (fst st) (sl_pools (snd st) ! c) (fss ! c)"
proof -
  from assms(1) obtain fss where "slab_inv (fst st) (snd st) fss" "\<forall>c < 4. f c = payloads (fss ! c)"
    by (auto simp: slab_R_def)
  then show thesis using pool_for_size_less [OF assms(2)] by (intro that [of fss]) (simp_all add: slab_inv_def)
qed

lemma slab_inv_update:
  assumes inv: "slab_inv h s fss" and c: "c < 4"
    and p: "pool_inv (h(b := v)) ((sl_pools s ! c)\<lparr>sp_free_list := w\<rparr>) fs"
    and b: "b \<in> set (pool_blocks (sl_pools s ! c))"
  shows "slab_inv (h(b := v)) (s\<lparr>sl_pools := (sl_pools s)[c := (sl_pools s ! c)\<lparr>sp_free_list := w\<rparr>]\<rparr>)
    (fss[c := fs])"
proof -
  have "pool_inv (h(b := v)) (sl_pools s ! i) (fss ! i)" if "i < 4" "i \<noteq> c" for i
  proof -
    have "b \<notin> set (pool_blocks (sl_pools s ! i))"
      using inv c b that by (auto simp: slab_inv_def)
    then show ?thesis using inv that by (simp add: slab_inv_def pool_inv_other)
  qed
  then show ?thesis
    using inv c p by (auto simp: slab_inv_def nth_list_update)
qed

lemma slab_alloc_first:
  assumes inv: "slab_inv h s fss" and c: "pool_for_size sz = Some c" and f: "fss ! c = b # fs"
  obtains h' s' where "zedis_slab_alloc fails s h sz = (Some (b + slab_hdr), s', h')"
    "slab_inv h' s' (fss[c := fs])" "slab_blk (h', s') = slab_blk (h, s)"
proof -
  have c4: "c < 4" using c by (rule pool_for_size_less)
  have pi: "pool_inv h (sl_pools s ! c) (b # fs)"
    using inv c4 f by (metis slab_inv_def)
  note P = pool_pop_Cons [OF pi, of fails]
  have b: "b \<in> set (pool_blocks (sl_pools s ! c))" using pi by (simp add: pool_inv_def)
  show thesis
    by (rule that [OF _ slab_inv_update [OF inv c4 _ b]])
      (use P c in \<open>auto simp: zedis_slab_alloc_def slab_blk_def fun_eq_iff\<close>)
qed

lemma slab_free_back:
  assumes inv: "slab_inv h s fss" and c: "pool_for_size sz = Some c"
    and b: "b \<in> set (pool_blocks (sl_pools s ! c))" "b \<notin> set (fss ! c)"
  obtains h' s' where "zedis_slab_free fails s h (b + slab_hdr) sz = (s', h')"
    "slab_inv h' s' (fss[c := b # fss ! c])" "slab_blk (h', s') = slab_blk (h, s)"
proof -
  have c4: "c < 4" using c by (rule pool_for_size_less)
  have pi: "pool_inv h (sl_pools s ! c) (fss ! c)"
    using inv c4 by (simp add: slab_inv_def)
  note P = pool_push_Cons [OF pi b, of fails]
  show thesis
    by (rule that [OF _ slab_inv_update [OF inv c4 _ b(1)]])
      (use P c in \<open>auto simp: zedis_slab_free_def slab_hdr_def slab_blk_def fun_eq_iff\<close>)
qed

lemma payloads_eq_Cons: "payloads bs = p # ps \<longleftrightarrow> (\<exists>b fs. bs = b # fs \<and> p = b + slab_hdr \<and> ps = payloads fs)"
  by (cases bs) (auto simp: payloads_def)

lemma mem_payloads: "b + slab_hdr \<in> set (payloads bs) \<longleftrightarrow> b \<in> set bs"
  by (auto simp: payloads_def)

interpretation slab: size_class_allocator pool_for_size slab_R slab_blk
  "slab_alloc_op fails" "slab_free_op fails"
proof (unfold_locales, goal_cases)
  case (1 st f sz)
  then show ?case by (simp add: slab_alloc_op_def zedis_slab_alloc_def)
next
  case (2 st f sz c)
  obtain fss where inv: "slab_inv (fst st) (snd st) fss" "\<forall>c < 4. f c = payloads (fss ! c)" "c < 4"
    "f c = payloads (fss ! c)" "pool_inv (fst st) (sl_pools (snd st) ! c) (fss ! c)"
    by (rule slab_RD [OF 2(1,2)])
  then have "pool_inv (fst st) (sl_pools (snd st) ! c) []"
    using 2(3) inv(4,5) by (simp add: payloads_def)
  then show ?case
    using pool_pop_Nil [of _ _ fails] 2(2) by (simp add: slab_alloc_op_def zedis_slab_alloc_def)
next
  case (3 st f sz c p ps)
  obtain fss where inv: "slab_inv (fst st) (snd st) fss" "\<forall>c < 4. f c = payloads (fss ! c)" "c < 4"
    "f c = payloads (fss ! c)" "pool_inv (fst st) (sl_pools (snd st) ! c) (fss ! c)"
    by (rule slab_RD [OF 3(1,2)])
  obtain b fs where b: "fss ! c = b # fs" "p = b + slab_hdr" "ps = payloads fs"
    using 3(3) inv(4) payloads_eq_Cons by metis
  obtain h' s' where A: "zedis_slab_alloc fails (snd st) (fst st) sz = (Some (b + slab_hdr), s', h')"
    "slab_inv h' s' (fss[c := fs])" "slab_blk (h', s') = slab_blk (fst st, snd st)"
    by (rule slab_alloc_first [OF inv(1) 3(2) b(1)])
  have "length fss = 4" using inv(1) by (simp add: slab_inv_def)
  then have "\<forall>d < 4. (f(c := ps)) d = payloads (fss[c := fs] ! d)"
    using inv(2) b(3) by (simp add: nth_list_update)
  then have "slab_R (h', s') (f(c := ps))"
    using A(2) by (auto simp: slab_R_def)
  then show ?case using A(1,3) b(2) by (simp add: slab_alloc_op_def)
next
  case (4 st f sz c p)
  obtain fss where inv: "slab_inv (fst st) (snd st) fss" "\<forall>c < 4. f c = payloads (fss ! c)" "c < 4"
    "f c = payloads (fss ! c)" "pool_inv (fst st) (sl_pools (snd st) ! c) (fss ! c)"
    by (rule slab_RD [OF 4(1,2)])
  obtain b where b: "b \<in> set (pool_blocks (sl_pools (snd st) ! c))" "p = b + slab_hdr"
    using 4(3) by (auto simp: slab_blk_def payloads_def)
  have nb: "b \<notin> set (fss ! c)" using 4(4) inv(4) b(2) by (simp add: mem_payloads)
  obtain h' s' where A: "zedis_slab_free fails (snd st) (fst st) (b + slab_hdr) sz = (s', h')"
    "slab_inv h' s' (fss[c := b # fss ! c])" "slab_blk (h', s') = slab_blk (fst st, snd st)"
    by (rule slab_free_back [OF inv(1) 4(2) b(1) nb])
  have "length fss = 4" using inv(1) by (simp add: slab_inv_def)
  then have "\<forall>d < 4. (f(c := p # f c)) d = payloads (fss[c := b # fss ! c] ! d)"
    using inv(2,4) b(2) by (simp add: nth_list_update payloads_def)
  then have "slab_R (h', s') (f(c := p # f c))"
    using A(2) by (auto simp: slab_R_def)
  then show ?case using A(1,3) b(2) by (simp add: slab_free_op_def)
next
  case (5 st f sz c)
  obtain fss where inv: "slab_inv (fst st) (snd st) fss" "\<forall>c < 4. f c = payloads (fss ! c)" "c < 4"
    "f c = payloads (fss ! c)" "pool_inv (fst st) (sl_pools (snd st) ! c) (fss ! c)"
    by (rule slab_RD [OF 5(1,2)])
  show ?case using inv(4,5) by (auto simp: pool_inv_def slab_blk_def payloads_def distinct_map inj_on_def)
next
  case (6 st f sz c sz' c')
  obtain fss where inv: "slab_inv (fst st) (snd st) fss" "\<forall>c < 4. f c = payloads (fss ! c)" "c < 4"
    "f c = payloads (fss ! c)" "pool_inv (fst st) (sl_pools (snd st) ! c) (fss ! c)"
    by (rule slab_RD [OF 6(1,2)])
  have "c' < 4" by (rule pool_for_size_less [OF 6(3)])
  then have "set (pool_blocks (sl_pools (snd st) ! c)) \<inter> set (pool_blocks (sl_pools (snd st) ! c')) = {}"
    using 6(4) inv(1,3) by (simp add: slab_inv_def)
  then show ?case by (auto simp: slab_blk_def payloads_def)
qed

section \<open>Initialisation\<close>

text \<open>The region of a pool: every block lies between the two bump-pointer positions.\<close>

lemma init_pool_ok:
  assumes wf: "arena_wf a" and base: "0 < unat (ar_base a)" and bs: "slab_hdr \<le> bs"
    and fit: "bs * count < 2 ^ 64" "request_ok a (of_nat (bs * count)) 64"
    and r: "init_pool a bs count h = (0, pool, a', h')"
  shows "pool_inv h' pool (rev (pool_blocks pool))" and "arena_wf a'"
    and "ar_size a' = ar_size a" and "ar_base a' = ar_base a"
    and "\<forall>b \<in> set (pool_blocks pool). unat (ar_base a) + unat (ar_offset a) \<le> b \<and>
      b < unat (ar_base a) + unat (ar_offset a')"
    and "\<forall>b. b \<notin> set (pool_blocks pool) \<longrightarrow> h' b = h b"
    and "unat (ar_offset a) \<le> unat (ar_offset a')"
proof -
  from r obtain p where p: "zedis_arena_alloc a (of_nat (bs * count)) 64 = (Some p, a')"
    and pool: "pool = \<lparr>sp_block_size = bs, sp_block_count = count,
      sp_free_list = fst (link_blocks (unat p) bs count h), sp_storage = unat p\<rparr>"
    and h': "h' = snd (link_blocks (unat p) bs count h)"
    by (auto simp: init_pool_def Let_def split: prod.splits option.splits)
  note D = zedis_arena_alloc_SomeD [OF wf fit(2) p]
  have bs0: "0 < bs" using bs by (simp add: slab_hdr_def)
  have u: "unat (of_nat (bs * count) :: u64) = bs * count"
    using fit(1) by (subst unat_of_nat) simp
  have p0: "0 < unat p" using D(1) base by (simp add: block_in_def)
  have L: "chain h' (sp_free_list pool) (rev (pool_blocks pool))"
    "\<forall>b. b \<notin> set (pool_blocks pool) \<longrightarrow> h' b = h b"
    using link_blocks_chain [OF p0 bs0, of count h "sp_free_list pool" h']
    by (auto simp: pool h' pool_blocks_def atLeast0LessThan)
  show "\<forall>b. b \<notin> set (pool_blocks pool) \<longrightarrow> h' b = h b" by (rule L(2))
  show "pool_inv h' pool (rev (pool_blocks pool))"
    using L(1) p0 bs bs0 distinct_pool_blocks [of pool] by (simp add: pool_inv_def pool)
  show "arena_wf a'" "ar_size a' = ar_size a" "ar_base a' = ar_base a"
    using D(5) zedis_arena_alloc_fixes [OF p] by simp_all
  show "unat (ar_offset a) \<le> unat (ar_offset a')"
    using D(1,2) by (simp add: block_in_def)
  show "\<forall>b \<in> set (pool_blocks pool). unat (ar_base a) + unat (ar_offset a) \<le> b \<and>
      b < unat (ar_base a) + unat (ar_offset a')"
  proof
    fix b assume "b \<in> set (pool_blocks pool)"
    then obtain i where i: "i < count" "b = unat p + i * bs"
      by (auto simp: pool pool_blocks_def)
    have "b < unat p + bs * count" using i bs0 by simp
    also have "\<dots> = unat (ar_base a) + unat (ar_offset a')" using D(2) u by simp
    finally show "unat (ar_base a) + unat (ar_offset a) \<le> b \<and> b < unat (ar_base a) + unat (ar_offset a')"
      using D(1) i(2) by (simp add: block_in_def)
  qed
qed

lemma pool_inv_frame:
  assumes "\<forall>b \<in> set (pool_blocks p). h' b = h b" and "pool_inv h p fs"
  shows "pool_inv h' p fs"
proof -
  have "chain h q bs \<Longrightarrow> set bs \<subseteq> set (pool_blocks p) \<Longrightarrow> chain h' q bs" for q bs
    using assms(1) by (induction bs arbitrary: q) auto
  then show ?thesis using assms(2) by (auto simp: pool_inv_def)
qed

lemma init_pools_ok:
  assumes "arena_wf a" and "0 < unat (ar_base a)"
    and "\<forall>(bs, count) \<in> set cs. slab_hdr \<le> bs \<and> bs * count < 2 ^ 64 \<and> request_ok a (of_nat (bs * count)) 64"
    and "init_pools a cs h = (0, pools, a', h')"
  shows "length pools = length cs \<and>
    (\<forall>i < length cs. pool_inv h' (pools ! i) (rev (pool_blocks (pools ! i)))) \<and>
    (\<forall>i < length cs. \<forall>b \<in> set (pool_blocks (pools ! i)). unat (ar_base a) + unat (ar_offset a) \<le> b) \<and>
    (\<forall>b. b < unat (ar_base a) + unat (ar_offset a) \<longrightarrow> h' b = h b) \<and>
    (\<forall>i j. i < j \<longrightarrow> j < length cs \<longrightarrow>
       set (pool_blocks (pools ! i)) \<inter> set (pool_blocks (pools ! j)) = {})"
  using assms
proof (induction a cs h arbitrary: pools a' h' rule: init_pools.induct)
  case (1 a h)
  then show ?case by simp
next
  case (2 a bs count rest h)
  obtain rc pool a1 h1 where p: "init_pool a bs count h = (rc, pool, a1, h1)"
    by (cases "init_pool a bs count h") auto
  have rc: "rc = 0" using "2.prems"(4) p by (auto split: if_splits)
  obtain ps where ps: "init_pools a1 rest h1 = (0, ps, a', h')" "pools = pool # ps"
    using "2.prems"(4) p rc by (auto split: prod.splits)
  have ok: "slab_hdr \<le> bs" "bs * count < 2 ^ 64" "request_ok a (of_nat (bs * count)) 64"
    using "2.prems"(3) by auto
  note P = init_pool_ok [OF "2.prems"(1,2) ok p [unfolded rc]]
  have rest: "\<forall>(bs, count) \<in> set rest. slab_hdr \<le> bs \<and> bs * count < 2 ^ 64 \<and>
      request_ok a1 (of_nat (bs * count)) 64"
    using "2.prems"(3) by (auto simp: request_ok_cong [OF P(3)])
  have I: "length ps = length rest"
    "\<forall>i < length rest. pool_inv h' (ps ! i) (rev (pool_blocks (ps ! i)))"
    "\<forall>i < length rest. \<forall>b \<in> set (pool_blocks (ps ! i)). unat (ar_base a1) + unat (ar_offset a1) \<le> b"
    "\<forall>b. b < unat (ar_base a1) + unat (ar_offset a1) \<longrightarrow> h' b = h1 b"
    "\<forall>i j. i < j \<longrightarrow> j < length rest \<longrightarrow> set (pool_blocks (ps ! i)) \<inter> set (pool_blocks (ps ! j)) = {}"
    using "2.IH" [OF p [symmetric] refl refl _ P(2) _ rest ps(1)] "2.prems"(2) rc P(4) by simp_all
  have lt: "\<forall>b \<in> set (pool_blocks pool). b < unat (ar_base a1) + unat (ar_offset a1)"
    using P(4,5) by simp
  have first: "pool_inv h' pool (rev (pool_blocks pool))"
    by (rule pool_inv_frame [OF _ P(1)]) (use lt I(4) in auto)
  have apart: "set (pool_blocks pool) \<inter> set (pool_blocks (ps ! j)) = {}" if "j < length rest" for j
    using lt I(3) that by fastforce
  have low: "h' b = h b" if "b < unat (ar_base a) + unat (ar_offset a)" for b
  proof -
    have "b \<notin> set (pool_blocks pool)" using P(5) that by fastforce
    then have "h1 b = h b" using P(6) by blast
    moreover have "h' b = h1 b" using I(4) that P(4,7) by simp
    ultimately show ?thesis by simp
  qed
  have disj: "set (pool_blocks ((pool # ps) ! i)) \<inter> set (pool_blocks ((pool # ps) ! j)) = {}"
    if "i < j" "j < Suc (length rest)" for i j
    using that apart I(5) by (cases i; cases j) auto
  have "unat (ar_base a) + unat (ar_offset a) \<le> b" if "i < Suc (length rest)"
    "b \<in> set (pool_blocks ((pool # ps) ! i))" for i b
    using that P(4,5,7) I(3) by (cases i) fastforce+
  moreover have "pool_inv h' ((pool # ps) ! i) (rev (pool_blocks ((pool # ps) ! i)))"
    if "i < Suc (length rest)" for i
    using that first I(2) by (cases i) auto
  ultimately show ?case using I(1) low disj ps(2) by simp
qed

lemma request_ok_small:
  assumes "unat (ar_size a) < 2 ^ 62" and "n < 2 ^ 60"
  shows "request_ok a (of_nat n) 64"
proof -
  have "unat (of_nat n :: u64) = n" using assms(2) by (subst unat_of_nat) simp
  then show ?thesis using assms pow2_align_64 by (simp add: request_ok_def)
qed

lemma zedis_slab_init_inv:
  assumes wf: "arena_wf a" "0 < unat (ar_base a)" "unat (ar_size a) < 2 ^ 62"
    and counts: "c64 < 2 ^ 40" "c256 < 2 ^ 40" "c512 < 2 ^ 40" "c4096 < 2 ^ 40"
    and r: "zedis_slab_init a c64 c256 c512 c4096 h = (0, s, a', h')"
  shows "slab_inv h' s (map (\<lambda>p. rev (pool_blocks p)) (sl_pools s))"
proof -
  let ?cs = "[(64, c64), (256, c256), (512, c512), (4096, c4096)]"
  obtain pools where p: "init_pools a ?cs h = (0, pools, a', h')" "s = \<lparr>sl_pools = pools\<rparr>"
    using r by (auto simp: zedis_slab_init_def ZEDIS_SLAB_64_def ZEDIS_SLAB_256_def
        ZEDIS_SLAB_512_def ZEDIS_SLAB_4096_def split: prod.splits simp del: init_pools.simps)
  have ok: "\<forall>(bs, count) \<in> set ?cs. slab_hdr \<le> bs \<and> bs * count < 2 ^ 64 \<and>
      request_ok a (of_nat (bs * count)) 64"
    using counts request_ok_small [OF wf(3)] by (auto simp: slab_hdr_def simp del: of_nat_mult)
  have I: "length pools = 4" "\<forall>i < 4. pool_inv h' (pools ! i) (rev (pool_blocks (pools ! i)))"
    "\<forall>i j. i < j \<longrightarrow> j < 4 \<longrightarrow> set (pool_blocks (pools ! i)) \<inter> set (pool_blocks (pools ! j)) = {}"
    using init_pools_ok [OF wf(1,2) ok p(1)] by simp_all
  have "set (pool_blocks (pools ! i)) \<inter> set (pool_blocks (pools ! j)) = {}"
    if "i < 4" "j < 4" "i \<noteq> j" for i j
    using I(3) [rule_format, of i j] I(3) [rule_format, of j i] that
    by (cases "i < j") (auto simp: Int_commute)
  then show ?thesis using I(1,2) by (simp add: slab_inv_def p(2))
qed

lemma init_pools_counts:
  assumes "init_pools a cs h = (0, pools, a', h')"
  shows "map sp_block_count pools = map snd cs \<and> map sp_block_size pools = map fst cs"
  using assms
proof (induction a cs h arbitrary: pools a' h' rule: init_pools.induct)
  case (2 a bs count rest h)
  obtain rc pool a1 h1 where p: "init_pool a bs count h = (rc, pool, a1, h1)"
    by (cases "init_pool a bs count h") auto
  have rc: "rc = 0" using "2.prems" p by (auto split: if_splits)
  have "sp_block_count pool = count" "sp_block_size pool = bs"
    using p by (auto simp: init_pool_def Let_def split: prod.splits option.splits)
  then show ?case using "2.IH" [OF p [symmetric] refl refl] "2.prems" p rc
    by (auto split: prod.splits)
qed simp

section \<open>Properties\<close>

text \<open>
  C8. The allocator never hands a block out twice. After \<open>zedis_slab_init\<close>, let a client allocate and
  release in any order, releasing only what it holds with the size it asked for, and let the
  compare-exchange loops fail spuriously any number of times. Then the pointers it holds are
  pairwise distinct, each is the payload of a block of the pool for its size and is on no free
  list, every free list is intact, and each pool still accounts for all of its blocks.
\<close>

theorem slab_no_double_alloc:
  assumes "arena_wf a" "0 < unat (ar_base a)" "unat (ar_size a) < 2 ^ 62"
    and "c64 < 2 ^ 40" "c256 < 2 ^ 40" "c512 < 2 ^ 40" "c4096 < 2 ^ 40"
    and "zedis_slab_init a c64 c256 c512 c4096 h = (0, s, a', h')"
    and "alloc_run (slab_alloc_op fails) (slab_free_op fails) (h', s) [] ops = ((h2, s2), own)"
  shows "\<exists>fss. slab_inv h2 s2 fss \<and> distinct (map fst own) \<and>
    (\<forall>(p, sz) \<in> set own. \<exists>c < 4. pool_for_size sz = Some c \<and>
       p \<in> set (payloads (pool_blocks (sl_pools s2 ! c))) \<and> p \<notin> set (payloads (fss ! c))) \<and>
    (\<forall>c < 4. length (fss ! c) + length (filter (\<lambda>(p, sz). pool_for_size sz = Some c) own) =
       [c64, c256, c512, c4096] ! c)"
proof -
  let ?fss = "map (\<lambda>p. rev (pool_blocks p)) (sl_pools s)"
  let ?f = "\<lambda>c. payloads (?fss ! c)"
  have inv: "slab_inv h' s ?fss" by (rule zedis_slab_init_inv [OF assms(1-8)])
  then have R: "slab_R (h', s) ?f" by (auto simp: slab_R_def)
  have o: "slab.owned_ok (h', s) ?f []" by (simp add: slab.owned_ok_def)
  obtain f' where f': "slab_R (h2, s2) f'" "slab_blk (h2, s2) = slab_blk (h', s)"
    "slab.owned_ok (h2, s2) f' own" "\<forall>c. slab.class_total f' own c = slab.class_total ?f [] c"
    using slab.run_safe [OF R o assms(9)] by blast
  obtain fss where fss: "slab_inv h2 s2 fss" "\<forall>c < 4. f' c = payloads (fss ! c)"
    using f'(1) by (auto simp: slab_R_def)
  have len: "length (sl_pools s) = 4" using inv by (simp add: slab_inv_def)
  have counts: "map sp_block_count (sl_pools s) = [c64, c256, c512, c4096]"
    using assms(8)
    by (auto simp: zedis_slab_init_def simp del: init_pools.simps split: prod.splits
        dest!: init_pools_counts)
  have tot: "length (fss ! c) + length (filter (\<lambda>(p, sz). pool_for_size sz = Some c) own) =
      [c64, c256, c512, c4096] ! c" if c: "c < 4" for c
  proof -
    have "length (f' c) + length (filter (\<lambda>(p, sz). pool_for_size sz = Some c) own) =
        length (pool_blocks (sl_pools s ! c))"
      using f'(4) c len by (simp add: slab.class_total_def payloads_def)
    also have "\<dots> = map sp_block_count (sl_pools s) ! c"
      using c len by (simp add: pool_blocks_def)
    finally show ?thesis using fss(2) c by (simp add: counts payloads_def)
  qed
  have "\<exists>c < 4. pool_for_size sz = Some c \<and> p \<in> set (payloads (pool_blocks (sl_pools s2 ! c))) \<and>
      p \<notin> set (payloads (fss ! c))" if ps: "(p, sz) \<in> set own" for p sz
  proof -
    obtain c where c: "pool_for_size sz = Some c" "p \<in> slab_blk (h2, s2) c" "p \<notin> set (f' c)"
      using f'(3) ps by (auto simp: slab.owned_ok_def)
    then show ?thesis using fss(2) pool_for_size_less [OF c(1)] by (auto simp: slab_blk_def)
  qed
  then show ?thesis
    using fss(1) f'(3) tot by (intro exI [of _ fss]) (auto simp: slab.owned_ok_def)
qed

definition slab_arena :: zedis_arena where
  "slab_arena = \<lparr>ar_base = 4096, ar_size = 65536, ar_offset = 0, ar_used_hugepages = False\<rparr>"

definition slab_demo :: "int \<times> zedis_slab \<times> zedis_arena \<times> heap" where
  "slab_demo = zedis_slab_init slab_arena 2 1 1 1 (\<lambda>_. 0)"

definition slab_demo_run :: "(heap \<times> zedis_slab) \<times> (addr \<times> nat) list" where
  "slab_demo_run = alloc_run (slab_alloc_op 2) (slab_free_op 2)
     (snd (snd (snd slab_demo)), fst (snd slab_demo)) []
     [Alloc 64, Alloc 8, Alloc 1, Free 4168 64, Alloc 4096, Alloc 40]"

lemma link_blocks_2: "link_blocks st d 2 h = (st + d, h(st := 0, st + d := st))"
  by (simp add: numeral_2_eq_2 Let_def)

lemma slab_demo_eq: "slab_demo =
  (0, \<lparr>sl_pools = [\<lparr>sp_block_size = 64, sp_block_count = 2, sp_free_list = 4160, sp_storage = 4096\<rparr>,
     \<lparr>sp_block_size = 256, sp_block_count = 1, sp_free_list = 4224, sp_storage = 4224\<rparr>,
     \<lparr>sp_block_size = 512, sp_block_count = 1, sp_free_list = 4480, sp_storage = 4480\<rparr>,
     \<lparr>sp_block_size = 4096, sp_block_count = 1, sp_free_list = 4992, sp_storage = 4992\<rparr>]\<rparr>,
   slab_arena\<lparr>ar_offset := 4992\<rparr>, (\<lambda>_. 0)(4160 := 4096))" 
  by (simp add: slab_demo_def zedis_slab_init_def init_pool_def ZEDIS_SLAB_64_def ZEDIS_SLAB_256_def
        ZEDIS_SLAB_512_def ZEDIS_SLAB_4096_def zedis_arena_alloc_def slab_arena_def align_up_def
        link_blocks_2 fun_eq_iff)

lemma slab_demo_run_own: "snd slab_demo_run = [(4168, 40), (5000, 4096), (4104, 8)]"
  by (simp add: slab_demo_run_def slab_demo_eq slab_alloc_op_def slab_free_op_def zedis_slab_alloc_def
     zedis_slab_free_def pool_for_size_def ZEDIS_SLAB_64_def ZEDIS_SLAB_256_def
        ZEDIS_SLAB_512_def ZEDIS_SLAB_4096_def pool_pop_spurious [of 2] pool_push_spurious [of 2] pool_pop.simps [of 0] pool_push.simps [of 0] slab_hdr_def)

theorem slab_no_double_alloc_witness:
  "fst slab_demo = 0 \<and> snd slab_demo_run = [(4168, 40), (5000, 4096), (4104, 8)] \<and>
   distinct (map fst (snd slab_demo_run))"
proof -
  have wf: "arena_wf slab_arena" "0 < unat (ar_base slab_arena)" "unat (ar_size slab_arena) < 2 ^ 62"
    by (simp_all add: slab_arena_def arena_wf_def)
  have rc: "fst slab_demo = 0" by (simp add: slab_demo_eq)
  have init: "zedis_slab_init slab_arena 2 1 1 1 (\<lambda>_. 0) =
      (0, fst (snd slab_demo), fst (snd (snd slab_demo)), snd (snd (snd slab_demo)))"
    using rc by (metis slab_demo_def prod.collapse)
  have run: "alloc_run (slab_alloc_op 2) (slab_free_op 2)
     (snd (snd (snd slab_demo)), fst (snd slab_demo)) []
     [Alloc 64, Alloc 8, Alloc 1, Free 4168 64, Alloc 4096, Alloc 40] =
     ((fst (fst slab_demo_run), snd (fst slab_demo_run)), snd slab_demo_run)"
    by (simp only: slab_demo_run_def prod.collapse)
  have "distinct (map fst (snd slab_demo_run))"
    using slab_no_double_alloc [OF wf _ _ _ _ init run] by auto
  then show ?thesis using rc slab_demo_run_own by blast
qed



end
