(* ===== verification/Hash_Table.thy ===== *)
theory Hash_Table
  imports Arena
begin

text \<open>
  The open-addressing hash table of \<^verbatim>\<open>src/src/hash_table.c\<close>: FNV-1a hashing, Robin Hood insertion,
  tombstone deletion, fixed capacity. An entry keeps the bytes of its key and value; the fields
  \<open>key_len\<close> and \<open>value_len\<close> are the lengths of these strings (bytes of the C arrays past the
  lengths are never read). Probe distances are \<open>uint32_t\<close>: the increment wraps at \<open>2 ^ 32\<close>.

  The probe loops of the code have no bound of their own. They are modelled with
  \<^theory_text>\<open>partial_function (option)\<close>, so \<open>None\<close> means that the loop does not return.
\<close>

section \<open>Model\<close>

definition ZEDIS_HT_MAX_KEY :: nat where "ZEDIS_HT_MAX_KEY = 256"
definition ZEDIS_HT_MAX_VALUE :: nat where "ZEDIS_HT_MAX_VALUE = 4096"

datatype ht_state = HT_EMPTY | HT_OCCUPIED | HT_TOMBSTONE

record ht_entry =
  e_state :: ht_state
  e_psl :: nat
  e_hash :: "32 word"
  e_key :: string
  e_value :: string

record zedis_hash_table =
  ht_entries :: "ht_entry list"
  ht_capacity :: nat
  ht_count :: nat

definition empty_entry :: ht_entry where
  "empty_entry = \<lparr>e_state = HT_EMPTY, e_psl = 0, e_hash = 0, e_key = [], e_value = []\<rparr>"

definition ht_zero :: zedis_hash_table where
  "ht_zero = \<lparr>ht_entries = [], ht_capacity = 0, ht_count = 0\<rparr>"

fun ht_hash_loop :: "32 word \<Rightarrow> string \<Rightarrow> 32 word" where
  "ht_hash_loop h [] = h"
| "ht_hash_loop h (c # cs) = ht_hash_loop ((h XOR of_char c) * 16777619) cs"

definition ht_hash :: "string \<Rightarrow> 32 word" where
  "ht_hash key = ht_hash_loop 2166136261 key"

text \<open>\<open>sizeof(ht_entry_t)\<close> on the 64-bit target. The array of a fresh table is the zeroed block of the
  arena read as entries, which is faithful as long as \<open>capacity * sizeof(ht_entry_t)\<close> does not wrap.\<close>

definition sizeof_ht_entry :: nat where
  "sizeof_ht_entry = 4384"

definition zedis_ht_init ::
  "zedis_hash_table \<Rightarrow> zedis_arena \<Rightarrow> nat \<Rightarrow> mem \<Rightarrow> int \<times> zedis_hash_table \<times> zedis_arena \<times> mem" where
  "zedis_ht_init ht arena capacity m =
     (if capacity = 0 then (-1, ht, arena, m)
      else (case zedis_arena_calloc arena (of_nat capacity) (of_nat sizeof_ht_entry) 64 m of
              (None, arena', m') \<Rightarrow> (-1, ht\<lparr>ht_entries := []\<rparr>, arena', m')
            | (Some p, arena', m') \<Rightarrow>
                (0, \<lparr>ht_entries = replicate capacity empty_entry, ht_capacity = capacity,
                     ht_count = 0\<rparr>, arena', m')))"

definition zedis_ht_destroy :: "zedis_hash_table \<Rightarrow> zedis_hash_table" where
  "zedis_ht_destroy ht = ht_zero"

definition entry_key_match :: "ht_entry \<Rightarrow> 32 word \<Rightarrow> string \<Rightarrow> bool" where
  "entry_key_match e hash key \<longleftrightarrow>
     e_state e = HT_OCCUPIED \<and> e_hash e = hash \<and> length (e_key e) = length key \<and> e_key e = key"

partial_function (option) ht_set_loop ::
  "nat \<Rightarrow> 32 word \<Rightarrow> string \<Rightarrow> string \<Rightarrow> ht_entry list \<Rightarrow> nat \<Rightarrow> nat \<Rightarrow> nat \<Rightarrow> ht_entry \<Rightarrow>
   (ht_entry list \<times> nat) option" where
  "ht_set_loop cap hash key val es count idx psl incoming =
     (if e_state (es ! idx) = HT_EMPTY \<or> e_state (es ! idx) = HT_TOMBSTONE then
        Some (es[idx := incoming\<lparr>e_state := HT_OCCUPIED, e_psl := psl\<rparr>], count + 1)
      else if entry_key_match (es ! idx) hash key then
        Some (es[idx := (es ! idx)\<lparr>e_value := val\<rparr>], count)
      else if psl > e_psl (es ! idx) then
        ht_set_loop cap hash key val (es[idx := incoming\<lparr>e_state := HT_OCCUPIED, e_psl := psl\<rparr>]) count
          ((idx + 1) mod cap) (wrap_u32 (e_psl (es ! idx) + 1)) (es ! idx)
      else
        ht_set_loop cap hash key val es count ((idx + 1) mod cap) (wrap_u32 (psl + 1)) incoming)"

definition zedis_ht_set ::
  "zedis_hash_table \<Rightarrow> string \<Rightarrow> string \<Rightarrow> (int \<times> zedis_hash_table) option" where
  "zedis_ht_set ht key val =
     (if length key > ZEDIS_HT_MAX_KEY \<or> length val > ZEDIS_HT_MAX_VALUE then Some (-1, ht)
      else if ht_count ht * 10 \<ge> ht_capacity ht * 7 then Some (-1, ht)
      else let hash = ht_hash key;
               idx = unat hash mod ht_capacity ht;
               incoming = \<lparr>e_state = HT_EMPTY, e_psl = 0, e_hash = hash, e_key = key, e_value = val\<rparr>
           in case ht_set_loop (ht_capacity ht) hash key val (ht_entries ht) (ht_count ht) idx 0 incoming of
                None \<Rightarrow> None
              | Some (es, count) \<Rightarrow> Some (0, ht\<lparr>ht_entries := es, ht_count := count\<rparr>))"

text \<open>The probe loop shared by \<open>zedis_ht_get\<close> and \<open>zedis_ht_del\<close>: the slot of the key, if any.\<close>

partial_function (option) ht_probe ::
  "nat \<Rightarrow> 32 word \<Rightarrow> string \<Rightarrow> ht_entry list \<Rightarrow> nat \<Rightarrow> nat \<Rightarrow> nat option option" where
  "ht_probe cap hash key es idx psl =
     (if e_state (es ! idx) = HT_EMPTY then Some None
      else if entry_key_match (es ! idx) hash key then Some (Some idx)
      else if psl > e_psl (es ! idx) then Some None
      else ht_probe cap hash key es ((idx + 1) mod cap) (wrap_u32 (psl + 1)))"

text \<open>The bytes \<open>zedis_ht_get\<close> writes to a caller's buffer of \<open>value_cap > 0\<close> bytes: the value cut
  to fit, and a terminating NUL.\<close>

definition ht_copy_out :: "string \<Rightarrow> nat \<Rightarrow> string" where
  "ht_copy_out v value_cap =
     take (if length v < value_cap then length v else value_cap - 1) v @ [NUL]"

text \<open>\<open>Some None\<close> is the return value -1; \<open>Some (Some (out, len))\<close> is 0 with the buffer contents and
  the length reported to the caller.\<close>

definition zedis_ht_get ::
  "zedis_hash_table \<Rightarrow> string \<Rightarrow> nat \<Rightarrow> (string \<times> nat) option option" where
  "zedis_ht_get ht key value_cap =
     (if ht_capacity ht = 0 then Some None
      else let hash = ht_hash key; idx = unat hash mod ht_capacity ht
           in case ht_probe (ht_capacity ht) hash key (ht_entries ht) idx 0 of
                None \<Rightarrow> None
              | Some None \<Rightarrow> Some None
              | Some (Some i) \<Rightarrow>
                  (let v = e_value (ht_entries ht ! i)
                   in Some (Some (if value_cap > 0 then ht_copy_out v value_cap else [], length v))))"

definition zedis_ht_del :: "zedis_hash_table \<Rightarrow> string \<Rightarrow> (int \<times> zedis_hash_table) option" where
  "zedis_ht_del ht key =
     (let hash = ht_hash key; idx = unat hash mod ht_capacity ht
      in case ht_probe (ht_capacity ht) hash key (ht_entries ht) idx 0 of
           None \<Rightarrow> None
         | Some None \<Rightarrow> Some (-1, ht)
         | Some (Some i) \<Rightarrow>
             Some (0, ht\<lparr>ht_entries := (ht_entries ht)
                           [i := (ht_entries ht ! i)\<lparr>e_state := HT_TOMBSTONE, e_psl := 0\<rparr>],
                         ht_count := (if ht_count ht = 0 then 2 ^ 64 - 1 else ht_count ht - 1)\<rparr>))"

section \<open>Specification\<close>

text \<open>What the table means: a finite map from keys to values.\<close>

definition ht_map :: "ht_entry list \<Rightarrow> string \<Rightarrow> string option" where
  "ht_map es k = map_option e_value (find (\<lambda>e. e_state e = HT_OCCUPIED \<and> e_key e = k) es)"

abbreviation occ :: "ht_entry list \<Rightarrow> nat \<Rightarrow> bool" where
  "occ es i \<equiv> e_state (es ! i) = HT_OCCUPIED"

abbreviation home :: "nat \<Rightarrow> string \<Rightarrow> nat" where
  "home cap k \<equiv> unat (ht_hash k) mod cap"

text \<open>The Robin Hood invariant on the slots: every entry sits at its probe distance from its home
  slot, a probe sequence has no hole and its distances grow by at most one, keys are distinct.\<close>

definition rh_placed :: "nat \<Rightarrow> ht_entry list \<Rightarrow> bool" where
  "rh_placed cap es \<longleftrightarrow> (\<forall>i < cap. occ es i \<longrightarrow>
     e_hash (es ! i) = ht_hash (e_key (es ! i)) \<and> e_psl (es ! i) < cap \<and>
     (home cap (e_key (es ! i)) + e_psl (es ! i)) mod cap = i)"

definition rh_ordered :: "nat \<Rightarrow> ht_entry list \<Rightarrow> bool" where
  "rh_ordered cap es \<longleftrightarrow> (\<forall>i < cap. let j = (i + 1) mod cap in
     occ es j \<longrightarrow> 0 < e_psl (es ! j) \<longrightarrow> occ es i \<and> e_psl (es ! j) \<le> e_psl (es ! i) + 1)"

definition rh_distinct :: "nat \<Rightarrow> ht_entry list \<Rightarrow> bool" where
  "rh_distinct cap es \<longleftrightarrow> (\<forall>i < cap. \<forall>j < cap. occ es i \<longrightarrow> occ es j \<longrightarrow>
     e_key (es ! i) = e_key (es ! j) \<longrightarrow> i = j)"

definition occ_slots :: "nat \<Rightarrow> ht_entry list \<Rightarrow> nat set" where
  "occ_slots cap es = {i. i < cap \<and> occ es i}"

definition rh_slots :: "nat \<Rightarrow> ht_entry list \<Rightarrow> bool" where
  "rh_slots cap es \<longleftrightarrow> length es = cap \<and> 0 < cap \<and> cap < 2 ^ 32 \<and>
     rh_placed cap es \<and> rh_ordered cap es \<and> rh_distinct cap es"

text \<open>The invariant of a table from which nothing has been deleted.\<close>

definition rh_inv :: "zedis_hash_table \<Rightarrow> bool" where
  "rh_inv ht \<longleftrightarrow> rh_slots (ht_capacity ht) (ht_entries ht) \<and>
     (\<forall>e \<in> set (ht_entries ht). e_state e \<noteq> HT_TOMBSTONE) \<and>
     ht_count ht = card (occ_slots (ht_capacity ht) (ht_entries ht))"

definition ht_lookup :: "zedis_hash_table \<Rightarrow> string \<Rightarrow> string option" where
  "ht_lookup ht = ht_map (ht_entries ht)"

definition ht_has_room :: "zedis_hash_table \<Rightarrow> bool" where
  "ht_has_room ht \<longleftrightarrow> ht_count ht * 10 < ht_capacity ht * 7"

section \<open>Slots of a probe sequence\<close>

lemma slot_succ [simp]: "Suc ((b + k) mod cap) mod cap = (b + Suc k) mod cap"
  by (simp add: mod_simps)

lemma slot_inj:
  fixes b k l cap :: nat
  assumes "k < cap" "l < cap" "(b + k) mod cap = (b + l) mod cap"
  shows "k = l"
proof -
  have "k = l" if "k \<le> l" "l < cap" "(b + l) mod cap = (b + k) mod cap" for k l
  proof -
    have "cap dvd (b + l) - (b + k)"
      using that by (subst mod_eq_dvd_iff_nat [symmetric]) simp_all
    then have "cap dvd l - k" by simp
    moreover have "l - k < cap" using that by simp
    ultimately have "l - k = 0" using dvd_imp_le by fastforce
    then show ?thesis using that by simp
  qed
  then show ?thesis using assms by (metis nat_le_linear)
qed

lemma rh_distinctD:
  assumes "rh_distinct cap es" "i < cap" "j < cap" "occ es i" "occ es j" "e_key (es ! i) = e_key (es ! j)"
  shows "i = j"
  using assms by (simp add: rh_distinct_def)

lemma ht_map_None_iff:
  "ht_map es k = None \<longleftrightarrow> (\<forall>i < length es. occ es i \<longrightarrow> e_key (es ! i) \<noteq> k)"
  by (auto simp: ht_map_def find_None_iff in_set_conv_nth)

lemma ht_map_Some_iff:
  assumes "rh_distinct (length es) es"
  shows "ht_map es k = Some v \<longleftrightarrow>
    (\<exists>i < length es. occ es i \<and> e_key (es ! i) = k \<and> e_value (es ! i) = v)"
proof
  assume "ht_map es k = Some v"
  then show "\<exists>i < length es. occ es i \<and> e_key (es ! i) = k \<and> e_value (es ! i) = v"
    by (auto simp: ht_map_def find_Some_iff)
next
  assume "\<exists>i < length es. occ es i \<and> e_key (es ! i) = k \<and> e_value (es ! i) = v"
  then obtain i where i: "i < length es" "occ es i" "e_key (es ! i) = k" "e_value (es ! i) = v"
    by blast
  have "find (\<lambda>e. e_state e = HT_OCCUPIED \<and> e_key e = k) es = Some (es ! i)"
    unfolding find_Some_iff
  proof (intro exI [of _ i] conjI allI impI)
    fix j assume j: "j < i"
    then have "j < length es" "j \<noteq> i" using i(1) by simp_all
    then show "\<not> (occ es j \<and> e_key (es ! j) = k)"
      using rh_distinctD [OF assms i(1), of j] i by auto
  qed (use i in simp_all)
  then show "ht_map es k = Some v" using i(4) by (simp add: ht_map_def)
qed

lemma rh_slotsD:
  assumes "rh_slots cap es"
  shows "length es = cap" "0 < cap" "cap < 2 ^ 32" "rh_placed cap es" "rh_ordered cap es"
    "rh_distinct cap es"
  using assms by (simp_all add: rh_slots_def)

lemma rh_placedD:
  assumes "rh_placed cap es" "i < cap" "occ es i"
  shows "e_hash (es ! i) = ht_hash (e_key (es ! i))" "e_psl (es ! i) < cap"
    "(home cap (e_key (es ! i)) + e_psl (es ! i)) mod cap = i"
  using assms unfolding rh_placed_def by blast+

lemma rh_orderedD:
  assumes "rh_ordered cap es" "i < cap" "occ es ((i + 1) mod cap)" "0 < e_psl (es ! ((i + 1) mod cap))"
  shows "occ es i" "e_psl (es ! ((i + 1) mod cap)) \<le> e_psl (es ! i) + 1"
  using assms unfolding rh_ordered_def Let_def by blast+

text \<open>Between its home slot and its slot, an entry passes only occupied slots that are at least as
  far from their own home.\<close>

lemma probe_path:
  assumes inv: "rh_slots cap es" and i: "i < cap" "occ es i" and k: "k \<le> e_psl (es ! i)"
  defines "b \<equiv> home cap (e_key (es ! i))"
  shows "occ es ((b + k) mod cap) \<and> k \<le> e_psl (es ! ((b + k) mod cap))"
proof -
  note I = rh_slotsD [OF inv]
  let ?p = "e_psl (es ! i)"
  have "occ es ((b + (?p - d)) mod cap) \<and> ?p - d \<le> e_psl (es ! ((b + (?p - d)) mod cap))"
    if "d \<le> ?p" for d
    using that
  proof (induction d)
    case 0
    then show ?case using i rh_placedD [OF I(4) i] by (simp add: b_def)
  next
    case (Suc d)
    define j where "j = (b + (?p - Suc d)) mod cap"
    have e: "(j + 1) mod cap = (b + (?p - d)) mod cap"
      using slot_succ [of b "?p - Suc d" cap] Suc_diff_Suc [of d ?p] Suc.prems
      by (simp only: j_def Suc_eq_plus1 [symmetric] Suc_le_lessD)
    have j: "j < cap" using I(2) by (simp add: j_def)
    have "occ es ((j + 1) mod cap)" "?p - d \<le> e_psl (es ! ((j + 1) mod cap))"
      using Suc unfolding e by simp_all
    then have "occ es j" "?p - Suc d \<le> e_psl (es ! j)"
      using rh_orderedD [OF I(5) j] Suc.prems by linarith+
    then show ?case by (simp add: j_def)
  qed
  from this [of "?p - k"] k show ?thesis by simp
qed

section \<open>Lookup\<close>

lemma wrap_u32_Suc: "k < cap \<Longrightarrow> cap < 2 ^ 32 \<Longrightarrow> wrap_u32 (Suc k) = Suc k"
  by (simp add: wrap_u32_def)

lemma path_step:
  assumes inv: "rh_slots cap es" and i: "i < cap" "occ es i" "e_key (es ! i) = key"
    and k: "k < e_psl (es ! i)"
  defines "j \<equiv> (home cap key + k) mod cap"
  shows "occ es j \<and> k \<le> e_psl (es ! j) \<and> \<not> entry_key_match (es ! j) (ht_hash key) key \<and>
    wrap_u32 (k + 1) = Suc k"
proof -
  note I = rh_slotsD [OF inv]
  have p: "e_psl (es ! i) < cap" "(home cap key + e_psl (es ! i)) mod cap = i"
    using rh_placedD [OF I(4) i(1,2)] i(3) by simp_all
  have path: "occ es j" "k \<le> e_psl (es ! j)"
    using probe_path [OF inv i(1,2), of k] i(3) k by (simp_all add: j_def)
  have "j \<noteq> i"
    using slot_inj [of k cap "e_psl (es ! i)" "home cap key"] p k unfolding j_def by auto
  then have "e_key (es ! j) \<noteq> key"
    using rh_distinctD [OF I(6) _ i(1) path(1) i(2)] I(2) i(3) by (auto simp: j_def)
  then show ?thesis
    using path wrap_u32_Suc [of k cap] k p(1) I(3) by (simp add: entry_key_match_def)
qed

lemma ht_probe_found:
  assumes inv: "rh_slots cap es" and i: "i < cap" "occ es i" "e_key (es ! i) = key"
    and k: "k \<le> e_psl (es ! i)"
  shows "ht_probe cap (ht_hash key) key es ((home cap key + k) mod cap) k = Some (Some i)"
  using k
proof (induction "e_psl (es ! i) - k" arbitrary: k)
  case 0
  then have "(home cap key + k) mod cap = i"
    using rh_placedD [OF rh_slotsD(4) [OF inv] i(1,2)] i(3) by simp
  moreover have "entry_key_match (es ! i) (ht_hash key) key"
    using rh_placedD [OF rh_slotsD(4) [OF inv] i(1,2)] i by (simp add: entry_key_match_def)
  ultimately show ?case
    using i(2) by (subst ht_probe.simps) simp
next
  case (Suc d)
  have k: "k < e_psl (es ! i)" using Suc by simp
  note path_step [OF inv i k]
  moreover have "ht_probe cap (ht_hash key) key es ((home cap key + Suc k) mod cap) (Suc k) = Some (Some i)"
    using Suc.hyps(1) [of "Suc k"] Suc.hyps(2) k by simp
  ultimately show ?case by (subst ht_probe.simps) simp
qed

lemma ht_probe_missing:
  assumes inv: "rh_slots cap es" and no_tomb: "\<forall>e \<in> set es. e_state e \<noteq> HT_TOMBSTONE"
    and miss: "\<forall>i < cap. occ es i \<longrightarrow> e_key (es ! i) \<noteq> key"
  shows "k \<le> cap \<Longrightarrow> ht_probe cap (ht_hash key) key es ((b + k) mod cap) k = Some None"
proof (induction "cap - k" arbitrary: k rule: less_induct)
  case less
  note I = rh_slotsD [OF inv]
  let ?j = "(b + k) mod cap"
  have j: "?j < cap" using I(2) by simp
  have nm: "\<not> entry_key_match (es ! ?j) (ht_hash key) key"
    using miss j by (auto simp: entry_key_match_def)
  show ?case
  proof (cases "occ es ?j \<and> k \<le> e_psl (es ! ?j)")
    case True
    then have k: "k < cap" using rh_placedD(2) [OF I(4) j] by linarith
    then have "ht_probe cap (ht_hash key) key es ((b + Suc k) mod cap) (Suc k) = Some None"
      using less.hyps [of "Suc k"] by simp
    moreover have "wrap_u32 (k + 1) = Suc k" using wrap_u32_Suc [OF k I(3)] by simp
    ultimately show ?thesis using True nm by (subst ht_probe.simps) simp
  next
    case False
    have "e_state (es ! ?j) \<noteq> HT_TOMBSTONE" using no_tomb I(1) j by simp
    then have "occ es ?j \<or> e_state (es ! ?j) = HT_EMPTY" by (cases "e_state (es ! ?j)") auto
    then show ?thesis using False nm by (subst ht_probe.simps) auto
  qed
qed

lemma ht_probe_spec:
  assumes "rh_slots cap es" and "\<forall>e \<in> set es. e_state e \<noteq> HT_TOMBSTONE"
  shows "\<exists>r. ht_probe cap (ht_hash key) key es (home cap key) 0 = Some r \<and>
    (case r of None \<Rightarrow> ht_map es key = None
     | Some i \<Rightarrow> i < cap \<and> occ es i \<and> e_key (es ! i) = key \<and> ht_map es key = Some (e_value (es ! i)))"
proof (cases "\<exists>i < cap. occ es i \<and> e_key (es ! i) = key")
  case True
  then obtain i where i: "i < cap" "occ es i" "e_key (es ! i) = key" by blast
  then have "ht_probe cap (ht_hash key) key es (home cap key) 0 = Some (Some i)"
    using ht_probe_found [OF assms(1) i, of 0] by simp
  then show ?thesis
    using i ht_map_Some_iff [of es key] rh_slotsD [OF assms(1)] by auto
next
  case False
  then have "ht_probe cap (ht_hash key) key es (home cap key) 0 = Some None"
    using ht_probe_missing [OF assms, of key 0 "home cap key"] by auto
  then show ?thesis
    using False rh_slotsD(1) [OF assms(1)] by (auto simp: ht_map_None_iff)
qed

lemma zedis_ht_get_lookup:
  assumes "rh_inv ht"
  shows "zedis_ht_get ht key value_cap =
    Some (map_option (\<lambda>v. (if value_cap > 0 then ht_copy_out v value_cap else [], length v)) (ht_lookup ht key))"
proof -
  have I: "rh_slots (ht_capacity ht) (ht_entries ht)" "\<forall>e \<in> set (ht_entries ht). e_state e \<noteq> HT_TOMBSTONE"
    using assms by (simp_all add: rh_inv_def)
  then show ?thesis
    using ht_probe_spec [OF I, of key] rh_slotsD(2) [OF I(1)]
    by (auto simp: zedis_ht_get_def ht_lookup_def Let_def split: option.splits)
qed

section \<open>Insertion\<close>

abbreviation placed :: "ht_entry \<Rightarrow> nat \<Rightarrow> ht_entry" where
  "placed e p \<equiv> e\<lparr>e_state := HT_OCCUPIED, e_psl := p\<rparr>"

definition pairs :: "nat \<Rightarrow> ht_entry list \<Rightarrow> (string \<times> string) set" where
  "pairs cap es = (\<lambda>i. (e_key (es ! i), e_value (es ! i))) ` occ_slots cap es"

text \<open>An entry \<open>inc\<close> at distance \<open>p\<close> may be written to slot \<open>idx\<close>.\<close>

definition can_place :: "nat \<Rightarrow> ht_entry list \<Rightarrow> nat \<Rightarrow> nat \<Rightarrow> ht_entry \<Rightarrow> bool" where
  "can_place cap es idx p inc \<longleftrightarrow> idx < cap \<and> p < cap \<and> e_hash inc = ht_hash (e_key inc) \<and>
     (home cap (e_key inc) + p) mod cap = idx \<and>
     (\<forall>i < cap. occ es i \<longrightarrow> e_key (es ! i) \<noteq> e_key inc) \<and>
     (\<forall>i < cap. (i + 1) mod cap = idx \<longrightarrow> 0 < p \<longrightarrow> occ es i \<and> p \<le> e_psl (es ! i) + 1)"

lemma rh_update:
  assumes inv: "rh_slots cap es" and can: "can_place cap es idx p inc"
    and next_ok: "occ es idx \<Longrightarrow> e_psl (es ! idx) \<le> p"
  shows "rh_slots cap (es[idx := placed inc p])"
proof -
  note I = rh_slotsD [OF inv]
  have idx: "idx < cap" "idx < length es" and p: "p < cap"
    using can I(1) by (simp_all add: can_place_def)
  let ?es = "es[idx := placed inc p]"
  have nth: "?es ! i = (if i = idx then placed inc p else es ! i)" for i
    using idx by (simp add: nth_list_update)
  have c: "e_hash inc = ht_hash (e_key inc)" "(home cap (e_key inc) + p) mod cap = idx"
    "\<And>i. i < cap \<Longrightarrow> occ es i \<Longrightarrow> e_key (es ! i) \<noteq> e_key inc"
    using can by (simp_all add: can_place_def)
  have "rh_placed cap ?es"
    unfolding rh_placed_def
  proof (intro allI impI)
    fix i assume i: "i < cap" "occ ?es i"
    show "e_hash (?es ! i) = ht_hash (e_key (?es ! i)) \<and> e_psl (?es ! i) < cap \<and>
        (home cap (e_key (?es ! i)) + e_psl (?es ! i)) mod cap = i"
    proof (cases "i = idx")
      case True
      then show ?thesis using c p by (simp only: nth) simp
    next
      case False
      then show ?thesis using rh_placedD [OF I(4) i(1)] i(2) by (simp only: nth if_False)
    qed
  qed
  moreover have "rh_distinct cap ?es"
    unfolding rh_distinct_def
  proof (intro allI impI)
    fix i j assume ij: "i < cap" "j < cap" "occ ?es i" "occ ?es j" "e_key (?es ! i) = e_key (?es ! j)"
    then show "i = j"
      using rh_distinctD [OF I(6) ij(1,2)] c(3) [OF ij(1)] c(3) [OF ij(2)]
      by (cases "i = idx"; cases "j = idx") (simp_all add: nth)
  qed
  moreover have "rh_ordered cap ?es"
    unfolding rh_ordered_def Let_def
  proof (intro allI impI)
    fix i assume i: "i < cap" and o: "occ ?es ((i + 1) mod cap)" "0 < e_psl (?es ! ((i + 1) mod cap))"
    show "occ ?es i \<and> e_psl (?es ! ((i + 1) mod cap)) \<le> e_psl (?es ! i) + 1"
    proof (cases "(i + 1) mod cap = idx")
      case True
      then have "0 < p" using o by (simp add: nth)
      then have "occ es i \<and> p \<le> e_psl (es ! i) + 1"
        using can i True by (simp add: can_place_def)
      then show ?thesis using True by (simp add: nth)
    next
      case False
      then have "occ es i \<and> e_psl (es ! ((i + 1) mod cap)) \<le> e_psl (es ! i) + 1"
        using rh_orderedD [OF I(5) i] o by (simp add: nth)
      then show ?thesis using False next_ok by (auto simp: nth)
    qed
  qed
  ultimately show ?thesis using I by (simp add: rh_slots_def)
qed

lemma occ_slots_update: "idx < cap \<Longrightarrow> length es = cap \<Longrightarrow>
    occ_slots cap (es[idx := placed inc p]) = insert idx (occ_slots cap es)"
  by (auto simp: occ_slots_def nth_list_update)

lemma pairs_update:
  assumes "idx < cap" "length es = cap"
  shows "(occ es idx \<longrightarrow> insert (e_key (es ! idx), e_value (es ! idx)) (pairs cap (es[idx := placed inc p])) =
      insert (e_key inc, e_value inc) (pairs cap es)) \<and>
    (\<not> occ es idx \<longrightarrow> pairs cap (es[idx := placed inc p]) = insert (e_key inc, e_value inc) (pairs cap es))"
proof -
  let ?f = "\<lambda>i. (e_key (es ! i), e_value (es ! i))"
  let ?S = "occ_slots cap es - {idx}"
  let ?g = "\<lambda>i. (e_key (es[idx := placed inc p] ! i), e_value (es[idx := placed inc p] ! i))"
  have "insert idx (occ_slots cap es) = insert idx ?S" by simp
  then have "pairs cap (es[idx := placed inc p]) = insert (?g idx) (?g ` ?S)"
    unfolding pairs_def occ_slots_update [OF assms] by (simp only: image_insert)
  also have "?g idx = (e_key inc, e_value inc)" using assms by simp
  also have "?g ` ?S = ?f ` ?S" by (rule image_cong) auto
  finally have upd: "pairs cap (es[idx := placed inc p]) = insert (e_key inc, e_value inc) (?f ` ?S)" .
  show ?thesis
  proof (cases "occ es idx")
    case True
    then have "occ_slots cap es = insert idx ?S" using assms by (auto simp: occ_slots_def)
    from arg_cong [OF this, of "(`) ?f"] have "pairs cap es = insert (?f idx) (?f ` ?S)"
      by (simp only: pairs_def image_insert)
    then show ?thesis using True upd by (simp add: insert_commute)
  next
    case False
    then have "?S = occ_slots cap es" by (auto simp: occ_slots_def)
    then show ?thesis using False upd by (simp add: pairs_def)
  qed
qed

text \<open>A run of occupied slots that starts at the home of an entry and ends before a free slot is
  shorter than the table.\<close>

lemma run_bound:
  assumes inv: "rh_slots cap es" and i: "i < cap" "occ es i" and d: "d < cap"
    and free: "\<not> occ es ((i + d) mod cap)"
  shows "e_psl (es ! i) + d < cap"
proof (rule ccontr)
  assume "\<not> e_psl (es ! i) + d < cap"
  define k where "k = e_psl (es ! i) + d - cap"
  let ?b = "home cap (e_key (es ! i))"
  have P: "(?b + e_psl (es ! i)) mod cap = i" using rh_placedD [OF rh_slotsD(4) [OF inv] i] by simp
  have k: "k + cap = e_psl (es ! i) + d" using \<open>\<not> e_psl (es ! i) + d < cap\<close> by (simp add: k_def)
  have "(?b + k) mod cap = (?b + (k + cap)) mod cap" by (metis add.assoc mod_add_self2)
  also have "\<dots> = (i + d) mod cap"
    unfolding k by (metis P add.assoc mod_add_left_eq)
  finally have "\<not> occ es ((?b + k) mod cap)" using free by simp
  moreover have "k \<le> e_psl (es ! i)" using k d by simp
  ultimately show False using probe_path [OF inv i] by blast
qed

lemma can_place_step:
  assumes can: "can_place cap es idx p inc" and o: "occ es idx" "p \<le> e_psl (es ! idx)" and p: "Suc p < cap"
  shows "can_place cap es ((idx + 1) mod cap) (Suc p) inc"
proof -
  have "(home cap (e_key inc) + Suc p) mod cap = (idx + 1) mod cap"
    using slot_succ [of "home cap (e_key inc)" p cap] can
    by (metis Suc_eq_plus1 can_place_def)
  moreover have "occ es i \<and> Suc p \<le> e_psl (es ! i) + 1"
    if "i < cap" "(i + 1) mod cap = (idx + 1) mod cap" for i
    using mod_succ_inj [OF that(1) _ that(2)] can o by (simp add: can_place_def)
  ultimately show ?thesis using can p by (simp add: can_place_def)
qed

lemma can_place_swap:
  assumes inv: "rh_slots cap es" and can: "can_place cap es idx p inc" and o: "occ es idx"
    and p: "e_psl (es ! idx) < p" and pe: "Suc (e_psl (es ! idx)) < cap"
  shows "can_place cap (es[idx := placed inc p]) ((idx + 1) mod cap) (Suc (e_psl (es ! idx))) (es ! idx)"
proof -
  note I = rh_slotsD [OF inv]
  let ?es = "es[idx := placed inc p]" and ?e = "es ! idx"
  have idx: "idx < cap" using can by (simp add: can_place_def)
  have nth: "?es ! i = (if i = idx then placed inc p else es ! i)" if "i < cap" for i
    using that I(1) by (simp add: nth_list_update)
  have P: "e_hash ?e = ht_hash (e_key ?e)" "(home cap (e_key ?e) + e_psl ?e) mod cap = idx"
    using rh_placedD [OF I(4) idx o] by simp_all
  have fresh: "e_key inc \<noteq> e_key ?e" using can idx o unfolding can_place_def by metis
  have "e_key (?es ! i) \<noteq> e_key ?e" if i: "i < cap" "occ ?es i" for i
    using fresh rh_distinctD [OF I(6) i(1) idx _ o] i nth [OF i(1)] by (cases "i = idx") auto
  moreover have "occ ?es i \<and> Suc (e_psl ?e) \<le> e_psl (?es ! i) + 1"
    if "i < cap" "(i + 1) mod cap = (idx + 1) mod cap" for i
    using mod_succ_inj [OF that(1) idx that(2)] p idx nth by simp
  moreover have "(home cap (e_key ?e) + Suc (e_psl ?e)) mod cap = (idx + 1) mod cap"
    using slot_succ [of "home cap (e_key ?e)" "e_psl ?e" cap] P(2) by simp
  ultimately show ?thesis using pe P(1) I(2) by (simp add: can_place_def)
qed

lemma ht_set_loop_insert:
  assumes "rh_slots cap es" and "can_place cap es idx psl inc" and "psl + d < cap"
    and "\<not> occ es ((idx + d) mod cap)"
    and "\<forall>j < d. occ es ((idx + j) mod cap) \<and> e_key (es ! ((idx + j) mod cap)) \<noteq> key"
  shows "\<exists>es'. ht_set_loop cap hash key val es count idx psl inc = Some (es', count + 1) \<and>
    rh_slots cap es' \<and> occ_slots cap es' = insert ((idx + d) mod cap) (occ_slots cap es) \<and>
    pairs cap es' = insert (e_key inc, e_value inc) (pairs cap es) \<and>
    (\<forall>i < cap. e_state (es' ! i) = HT_TOMBSTONE \<longrightarrow> e_state (es ! i) = HT_TOMBSTONE)"
  using assms
proof (induction d arbitrary: es idx psl inc)
  case 0
  note I = rh_slotsD [OF 0(1)]
  have idx: "idx < cap" and f: "\<not> occ es idx" using 0 by (simp_all add: can_place_def)
  then have "ht_set_loop cap hash key val es count idx psl inc = Some (es[idx := placed inc psl], count + 1)"
    by (subst ht_set_loop.simps) (cases "e_state (es ! idx)"; simp)
  then show ?case
    using rh_update [OF 0(1,2)] f idx occ_slots_update [OF idx I(1)] pairs_update [OF idx I(1), where inc = inc and p = psl]
    by (auto simp: nth_list_update I(1))
next
  case (Suc d)
  note I = rh_slotsD [OF Suc.prems(1)]
  let ?e = "es ! idx" and ?idx = "(idx + 1) mod cap"
  have idx: "idx < cap" and d: "Suc d < cap" using Suc.prems(2,3) by (simp_all add: can_place_def)
  have o: "occ es idx" and nk: "e_key ?e \<noteq> key"
    using Suc.prems(5)[rule_format, of 0] idx by simp_all
  have nm: "\<not> entry_key_match ?e hash key" using nk by (simp add: entry_key_match_def)
  have step: "(?idx + j) mod cap = (idx + Suc j) mod cap" for j by (simp add: mod_simps)
  have ahead: "(idx + Suc j) mod cap \<noteq> idx" if "j \<le> d" for j
    using slot_inj [of "Suc j" cap 0 idx] that d idx by auto
  have occ_ahead: "occ es ((idx + Suc j) mod cap) \<and> e_key (es ! ((idx + Suc j) mod cap)) \<noteq> key"
    if "j < d" for j
    using Suc.prems(5) that by (metis Suc_mono)
  show ?case
  proof (cases "psl > e_psl ?e")
    case True
    let ?es = "es[idx := placed inc psl]"
    have nth: "?es ! i = (if i = idx then placed inc psl else es ! i)" if "i < cap" for i
      using that I(1) by (simp add: nth_list_update)
    have pe: "e_psl ?e + Suc d < cap"
      using run_bound [OF Suc.prems(1) idx o d Suc.prems(4)] .
    have inv': "rh_slots cap ?es" using rh_update [OF Suc.prems(1,2)] True by simp
    have can': "can_place cap ?es ?idx (Suc (e_psl ?e)) ?e"
      using can_place_swap [OF Suc.prems(1,2) o True] pe by simp
    have free': "\<not> occ ?es ((?idx + d) mod cap)"
      using Suc.prems(4) ahead [of d] I(2) by (simp only: step) (simp add: nth)
    have occ': "\<forall>j < d. occ ?es ((?idx + j) mod cap) \<and> e_key (?es ! ((?idx + j) mod cap)) \<noteq> key"
      using occ_ahead ahead I(2) by (simp only: step) (simp add: nth)
    have len: "Suc (e_psl ?e) + d < cap" using pe by simp
    have w: "wrap_u32 (e_psl ?e + 1) = Suc (e_psl ?e)"
      using wrap_u32_Suc [of "e_psl ?e" cap] pe I(3) by simp
    have "ht_set_loop cap hash key val es count idx psl inc =
        ht_set_loop cap hash key val ?es count ?idx (Suc (e_psl ?e)) ?e"
      using o nm True w by (subst ht_set_loop.simps) simp
    moreover obtain es' where es': "ht_set_loop cap hash key val ?es count ?idx (Suc (e_psl ?e)) ?e = Some (es', count + 1)"
      "rh_slots cap es'" "occ_slots cap es' = insert ((?idx + d) mod cap) (occ_slots cap ?es)"
      "pairs cap es' = insert (e_key ?e, e_value ?e) (pairs cap ?es)"
      "\<forall>i < cap. e_state (es' ! i) = HT_TOMBSTONE \<longrightarrow> e_state (?es ! i) = HT_TOMBSTONE"
      using Suc.IH [OF inv' can' len free' occ'] by blast
    moreover have "occ_slots cap ?es = occ_slots cap es"
      using occ_slots_update [OF idx I(1), where inc = inc and p = psl] o idx
      by (simp add: occ_slots_def insert_absorb)
    moreover have "pairs cap es' = insert (e_key inc, e_value inc) (pairs cap es)"
      using pairs_update [OF idx I(1), where inc = inc and p = psl] o es'(4) by (simp only: simp_thms)
    moreover have "\<forall>i < cap. e_state (es' ! i) = HT_TOMBSTONE \<longrightarrow> e_state (es ! i) = HT_TOMBSTONE"
      using es'(5) nth by (metis ht_entry.select_convs(1) ht_entry.surjective ht_entry.update_convs(1,2) ht_state.distinct)
    ultimately show ?thesis by (simp only: step) blast
  next
    case False
    have can': "can_place cap es ?idx (Suc psl) inc"
      using can_place_step [OF Suc.prems(2) o] False Suc.prems(3) by simp
    have len: "Suc psl + d < cap" using Suc.prems(3) by simp
    have free': "\<not> occ es ((?idx + d) mod cap)" using Suc.prems(4) by (simp only: step) simp
    have occ': "\<forall>j < d. occ es ((?idx + j) mod cap) \<and> e_key (es ! ((?idx + j) mod cap)) \<noteq> key"
      using occ_ahead by (simp only: step) simp
    have w: "wrap_u32 (psl + 1) = Suc psl"
      using wrap_u32_Suc [of psl cap] Suc.prems(3) I(3) by simp
    have "ht_set_loop cap hash key val es count idx psl inc =
        ht_set_loop cap hash key val es count ?idx (Suc psl) inc"
      using o nm False w by (subst ht_set_loop.simps) simp
    then show ?thesis
      using Suc.IH [OF Suc.prems(1) can' len free' occ'] by (simp only: step)
  qed
qed

text \<open>A table below its load limit has a free slot, which a walk from any slot reaches.\<close>

lemma free_slot_ahead:
  assumes "card (occ_slots cap es) < cap"
  obtains d where "d < cap" "\<not> occ es ((idx + d) mod cap)" "\<forall>j < d. occ es ((idx + j) mod cap)"
proof -
  let ?P = "\<lambda>d. d < cap \<and> \<not> occ es ((idx + d) mod cap)"
  have cap: "0 < cap" using assms by simp
  have "\<exists>d. ?P d"
  proof (rule ccontr)
    assume no: "\<nexists>d. ?P d"
    have "(\<lambda>d. (idx + d) mod cap) ` {..<cap} \<subseteq> occ_slots cap es"
      using no cap by (auto simp: occ_slots_def)
    moreover have "inj_on (\<lambda>d. (idx + d) mod cap) {..<cap}"
      by (auto intro!: inj_onI dest: slot_inj)
    moreover have "finite (occ_slots cap es)" by (simp add: occ_slots_def)
    ultimately show False using assms card_inj_on_le [of _ "{..<cap}" "occ_slots cap es"] by fastforce
  qed
  then obtain d where "?P d" "\<forall>j < d. \<not> ?P j" unfolding exists_least_iff [of ?P] by blast
  then show ?thesis using that [of d] by auto
qed

lemma has_room_card:
  assumes "ht_has_room ht" "ht_count ht = card (occ_slots cap es)" "ht_capacity ht = cap"
  shows "card (occ_slots cap es) < cap"
  using assms by (simp add: ht_has_room_def)

text \<open>A key that is in the table: the loop swaps nothing and overwrites the value in place.\<close>

lemma ht_set_loop_update:
  assumes inv: "rh_slots cap es" and i: "i < cap" "occ es i" "e_key (es ! i) = key"
    and k: "k \<le> e_psl (es ! i)"
  shows "ht_set_loop cap (ht_hash key) key val es count ((home cap key + k) mod cap) k inc =
    Some (es[i := (es ! i)\<lparr>e_value := val\<rparr>], count)"
  using k
proof (induction "e_psl (es ! i) - k" arbitrary: k)
  case 0
  then have "(home cap key + k) mod cap = i"
    using rh_placedD [OF rh_slotsD(4) [OF inv] i(1,2)] i(3) by simp
  moreover have "entry_key_match (es ! i) (ht_hash key) key"
    using rh_placedD [OF rh_slotsD(4) [OF inv] i(1,2)] i by (simp add: entry_key_match_def)
  ultimately show ?case using i(2) by (subst ht_set_loop.simps) simp
next
  case (Suc d)
  have k: "k < e_psl (es ! i)" using Suc by simp
  note path_step [OF inv i k]
  moreover have "ht_set_loop cap (ht_hash key) key val es count ((home cap key + Suc k) mod cap) (Suc k) inc =
      Some (es[i := (es ! i)\<lparr>e_value := val\<rparr>], count)"
    using Suc.hyps(1) [of "Suc k"] Suc.hyps(2) k by simp
  ultimately show ?case by (subst ht_set_loop.simps) simp
qed

lemma ht_map_pairs:
  assumes "rh_slots cap es"
  shows "ht_map es k = Some v \<longleftrightarrow> (k, v) \<in> pairs cap es"
  using ht_map_Some_iff [of es k v] rh_slotsD [OF assms]
  by (auto simp: pairs_def occ_slots_def image_iff)

lemma ht_map_insert:
  assumes "rh_slots cap es" "rh_slots cap es'" "pairs cap es' = insert (k, v) (pairs cap es)"
    and "ht_map es k = None"
  shows "ht_map es' = (ht_map es)(k \<mapsto> v)"
proof (rule ext)
  fix x
  have "ht_map es' x = Some w \<longleftrightarrow> ((ht_map es)(k \<mapsto> v)) x = Some w" for w
    using ht_map_pairs [OF assms(1), of x w] ht_map_pairs [OF assms(2), of x w]
      ht_map_pairs [OF assms(1), of k w] assms(3,4) by auto
  then show "ht_map es' x = ((ht_map es)(k \<mapsto> v)) x" by (metis option.exhaust)
qed

text \<open>Overwriting a value in place keeps the invariant and updates the map.\<close>

lemma value_update:
  fixes val :: string
  assumes inv: "rh_slots cap es" and i: "i < cap" "occ es i"
  defines "es' \<equiv> es[i := (es ! i)\<lparr>e_value := val\<rparr>]"
  shows "rh_slots cap es' \<and> occ_slots cap es' = occ_slots cap es \<and>
    ht_map es' = (ht_map es)(e_key (es ! i) \<mapsto> val) \<and> map e_state es' = map e_state es"
proof -
  note I = rh_slotsD [OF inv]
  have nth: "es' ! j = (if j = i then (es ! i)\<lparr>e_value := val\<rparr> else es ! j)" for j
    using i I(1) by (simp add: es'_def nth_list_update)
  have same: "e_state (es' ! j) = e_state (es ! j)" "e_psl (es' ! j) = e_psl (es ! j)"
    "e_hash (es' ! j) = e_hash (es ! j)" "e_key (es' ! j) = e_key (es ! j)" for j
    by (simp_all add: nth)
  have R: "rh_slots cap es'"
    using inv unfolding rh_slots_def rh_placed_def rh_ordered_def rh_distinct_def same
    by (simp add: es'_def)
  have D: "rh_distinct (length es) es" "rh_distinct (length es') es'" "length es' = cap"
    using I(1,6) rh_slotsD(1,6) [OF R] by simp_all
  have "ht_map es' (e_key (es ! i)) = Some val"
    unfolding ht_map_Some_iff [OF D(2)] using i D(3) by (auto simp: nth)
  moreover have "ht_map es' x = ht_map es x" if x: "x \<noteq> e_key (es ! i)" for x
  proof -
    have "e_key (es ! j) = x \<and> e_value (es' ! j) = w \<longleftrightarrow> e_key (es ! j) = x \<and> e_value (es ! j) = w" for j w
      using x by (cases "j = i") (simp_all add: nth)
    then have "ht_map es' x = Some w \<longleftrightarrow> ht_map es x = Some w" for w
      unfolding ht_map_Some_iff [OF D(1)] ht_map_Some_iff [OF D(2)] same D(3) I(1) by simp
    then show ?thesis by (metis option.exhaust)
  qed
  ultimately have "ht_map es' = (ht_map es)(e_key (es ! i) \<mapsto> val)" by auto
  moreover have "map e_state es' = map e_state es"
    by (rule nth_equalityI) (simp_all add: D(3) I(1) same)
  ultimately show ?thesis using R by (auto simp: occ_slots_def same)
qed

lemma no_tomb_nth: "length es = cap \<Longrightarrow>
    (\<forall>e \<in> set es. e_state e \<noteq> HT_TOMBSTONE) \<longleftrightarrow> (\<forall>i < cap. e_state (es ! i) \<noteq> HT_TOMBSTONE)"
  by (simp add: all_set_conv_all_nth)

text \<open>\<open>zedis_ht_set\<close> on a table without tombstones.\<close>

lemma zedis_ht_set_spec:
  assumes inv: "rh_inv ht"
    and len: "length key \<le> ZEDIS_HT_MAX_KEY" "length val \<le> ZEDIS_HT_MAX_VALUE" and room: "ht_has_room ht"
  shows "\<exists>ht'. zedis_ht_set ht key val = Some (0, ht') \<and> rh_inv ht' \<and>
    ht_lookup ht' = (ht_lookup ht)(key \<mapsto> val) \<and> ht_capacity ht' = ht_capacity ht \<and>
    ht_count ht' = ht_count ht + (if ht_lookup ht key = None then 1 else 0)"
proof -
  let ?cap = "ht_capacity ht" and ?es = "ht_entries ht"
  have R: "rh_slots ?cap ?es" and T: "\<forall>i < ?cap. e_state (?es ! i) \<noteq> HT_TOMBSTONE"
    and C: "ht_count ht = card (occ_slots ?cap ?es)"
    using inv rh_slotsD(1) no_tomb_nth by (auto simp: rh_inv_def)
  note I = rh_slotsD [OF R]
  let ?inc = "\<lparr>e_state = HT_EMPTY, e_psl = 0, e_hash = ht_hash key, e_key = key, e_value = val\<rparr>"
  have unf: "zedis_ht_set ht key val =
      map_option (\<lambda>(es, count). (0, ht\<lparr>ht_entries := es, ht_count := count\<rparr>))
        (ht_set_loop ?cap (ht_hash key) key val ?es (ht_count ht) (home ?cap key) 0 ?inc)"
    using len room by (simp add: zedis_ht_set_def ht_has_room_def Let_def split: option.splits)
  show ?thesis
  proof (cases "\<exists>i < ?cap. occ ?es i \<and> e_key (?es ! i) = key")
    case True
    then obtain i where i: "i < ?cap" "occ ?es i" "e_key (?es ! i) = key" by blast
    let ?es' = "?es[i := (?es ! i)\<lparr>e_value := val\<rparr>]"
    have V: "rh_slots ?cap ?es'" "occ_slots ?cap ?es' = occ_slots ?cap ?es"
      "ht_map ?es' = (ht_map ?es)(key \<mapsto> val)" "map e_state ?es' = map e_state ?es"
      using value_update [OF R i(1,2), of val] i(3) by auto
    have "\<forall>e \<in> set ?es'. e_state e \<noteq> HT_TOMBSTONE"
      using V(4) inv unfolding rh_inv_def by (metis image_iff set_map)
    moreover have "ht_lookup ht key \<noteq> None"
      using i I(1) by (auto simp: ht_lookup_def ht_map_None_iff)
    ultimately show ?thesis
      using ht_set_loop_update [OF R i, of 0 val "ht_count ht" ?inc] V C
      by (simp add: unf rh_inv_def ht_lookup_def)
  next
    case False
    obtain d where d: "d < ?cap" "\<not> occ ?es ((home ?cap key + d) mod ?cap)"
      "\<forall>j < d. occ ?es ((home ?cap key + j) mod ?cap)"
      using free_slot_ahead [OF has_room_card [OF room C refl]] by metis
    have can: "can_place ?cap ?es (home ?cap key) 0 ?inc"
      using False I(2) by (auto simp: can_place_def)
    have "\<forall>j < d. occ ?es ((home ?cap key + j) mod ?cap) \<and> e_key (?es ! ((home ?cap key + j) mod ?cap)) \<noteq> key"
      using d(3) False I(2) by (meson mod_less_divisor)
    then obtain es' where es': "ht_set_loop ?cap (ht_hash key) key val ?es (ht_count ht) (home ?cap key) 0 ?inc
          = Some (es', ht_count ht + 1)" "rh_slots ?cap es'"
        "occ_slots ?cap es' = insert ((home ?cap key + d) mod ?cap) (occ_slots ?cap ?es)"
        "pairs ?cap es' = insert (key, val) (pairs ?cap ?es)"
        "\<forall>i < ?cap. e_state (es' ! i) = HT_TOMBSTONE \<longrightarrow> e_state (?es ! i) = HT_TOMBSTONE"
      using ht_set_loop_insert [OF R can _ d(2), of key "ht_hash key" val "ht_count ht"] d(1) by auto
    have none: "ht_map ?es key = None" using False I(1) by (auto simp: ht_map_None_iff)
    have "card (occ_slots ?cap es') = Suc (card (occ_slots ?cap ?es))"
      using es'(3) d(2) by (simp add: occ_slots_def)
    moreover have "\<forall>e \<in> set es'. e_state e \<noteq> HT_TOMBSTONE"
      using es'(5) T no_tomb_nth [OF rh_slotsD(1) [OF es'(2)]] by blast
    ultimately show ?thesis
      using ht_map_insert [OF R es'(2,4) none] es'(1,2) C none
      by (simp add: unf rh_inv_def ht_lookup_def)
  qed
qed

section \<open>Tables with tombstones\<close>

text \<open>What remains true after deletions: every operation returns, and a write is read back. The
  invariant is the part of \<^const>\<open>rh_inv\<close> that deletion keeps.\<close>

definition ht_wf :: "zedis_hash_table \<Rightarrow> bool" where
  "ht_wf ht \<longleftrightarrow> length (ht_entries ht) = ht_capacity ht \<and> 0 < ht_capacity ht \<and> ht_capacity ht < 2 ^ 32 \<and>
     ht_count ht = card (occ_slots (ht_capacity ht) (ht_entries ht)) \<and>
     (\<forall>i < ht_capacity ht. e_psl (ht_entries ht ! i) < ht_capacity ht)"

lemma ht_probe_returns:
  assumes "\<forall>i < cap. e_psl (es ! i) < cap" "0 < cap" "cap < 2 ^ 32" "psl \<le> cap" "idx < cap"
  shows "\<exists>r. ht_probe cap hash key es idx psl = Some r \<and>
    (\<forall>i. r = Some i \<longrightarrow> i < cap \<and> entry_key_match (es ! i) hash key)"
  using assms(4,5)
proof (induction "cap - psl" arbitrary: psl idx rule: less_induct)
  case less
  show ?case
  proof (cases "psl > e_psl (es ! idx)")
    case True
    then show ?thesis using less.prems by (subst ht_probe.simps) auto
  next
    case False
    then have psl: "psl < cap" using assms(1) less.prems(2) by (meson leI le_less_trans)
    have "\<exists>r. ht_probe cap hash key es ((idx + 1) mod cap) (Suc psl) = Some r \<and>
      (\<forall>i. r = Some i \<longrightarrow> i < cap \<and> entry_key_match (es ! i) hash key)"
      using less.hyps [of "Suc psl" "(idx + 1) mod cap"] psl assms(2) by simp
    moreover have "wrap_u32 (psl + 1) = Suc psl" using wrap_u32_Suc [OF psl assms(3)] by simp
    ultimately show ?thesis using less.prems by (subst ht_probe.simps) auto
  qed
qed

text \<open>The loop stands at slot \<open>idx\<close> with \<open>d\<close> occupied slots before the next free one.\<close>

definition run_ahead :: "nat \<Rightarrow> ht_entry list \<Rightarrow> nat \<Rightarrow> nat \<Rightarrow> nat \<Rightarrow> bool" where
  "run_ahead cap es idx psl d \<longleftrightarrow> length es = cap \<and> cap < 2 ^ 32 \<and> idx < cap \<and> psl + d < cap \<and>
     \<not> occ es ((idx + d) mod cap) \<and> (\<forall>j < d. occ es ((idx + j) mod cap)) \<and>
     (\<forall>i < cap. e_psl (es ! i) < cap)"

lemma next_slot: "((idx + 1) mod cap + j) mod cap = (idx + Suc j) mod (cap :: nat)"
  by (simp add: mod_simps)

lemma run_aheadD:
  assumes "run_ahead cap es idx psl (Suc d)"
  shows "occ es idx" "0 < cap" "idx < cap" "length es = cap"
    "wrap_u32 (e_psl (es ! idx) + 1) = Suc (e_psl (es ! idx))" "wrap_u32 (psl + 1) = Suc psl"
    "j \<le> d \<Longrightarrow> idx \<noteq> (idx + Suc j) mod cap"
proof -
  note D = assms [unfolded run_ahead_def]
  show "occ es idx" "0 < cap" "idx < cap" "length es = cap" using D by (auto dest: spec [of _ 0])
  have "e_psl (es ! idx) < cap" "psl < cap" using D by auto
  then show "wrap_u32 (e_psl (es ! idx) + 1) = Suc (e_psl (es ! idx))" "wrap_u32 (psl + 1) = Suc psl"
    using wrap_u32_Suc [of _ cap] D by (metis Suc_eq_plus1)+
  show "idx \<noteq> (idx + Suc j) mod cap" if "j \<le> d"
    using slot_inj [of "Suc j" cap 0 idx] that D by auto
qed

lemma run_ahead_next:
  assumes run: "run_ahead cap es idx psl (Suc d)" and p: "p \<le> Suc psl"
    and es1: "es1 = es \<or> es1 = es[idx := placed inc psl]"
  shows "run_ahead cap es1 ((idx + 1) mod cap) p d \<and> occ_slots cap es1 = occ_slots cap es"
proof -
  note D = run [unfolded run_ahead_def] and R = run_aheadD [OF run]
  have o1: "occ es1 i \<longleftrightarrow> occ es i" for i
    using es1 R(1,3,4) by (cases "i = idx") auto
  have "length es1 = cap" "p + d < cap" "(idx + 1) mod cap < cap" using es1 D p R(2) by auto
  moreover have "\<forall>i < cap. e_psl (es1 ! i) < cap"
    using es1 D by (elim disjE) (simp_all add: nth_list_update)
  moreover have "\<not> occ es1 (((idx + 1) mod cap + d) mod cap)" "\<forall>j < d. occ es1 (((idx + 1) mod cap + j) mod cap)"
    using D unfolding o1 next_slot by auto
  ultimately show ?thesis using D by (simp add: run_ahead_def occ_slots_def o1)
qed

lemma ht_set_loop_returns:
  assumes "run_ahead cap es idx psl d"
  shows "\<exists>es' c. ht_set_loop cap hash key val es count idx psl inc = Some (es', c) \<and> length es' = cap \<and>
    (\<forall>i < cap. e_psl (es' ! i) < cap) \<and>
    (\<forall>i < cap. (\<forall>j \<le> d. i \<noteq> (idx + j) mod cap) \<longrightarrow> es' ! i = es ! i) \<and>
    (c = count + 1 \<and> occ_slots cap es' = insert ((idx + d) mod cap) (occ_slots cap es) \<or>
     c = count \<and> occ_slots cap es' = occ_slots cap es)"
  using assms
proof (induction d arbitrary: es idx psl inc)
  case 0
  then have "\<not> occ es idx" unfolding run_ahead_def by (metis add_0_right mod_less)
  then have "ht_set_loop cap hash key val es count idx psl inc = Some (es[idx := placed inc psl], count + 1)"
    by (subst ht_set_loop.simps) (cases "e_state (es ! idx)"; simp)
  then show ?case
    using 0 occ_slots_update [of idx cap es psl inc] by (auto simp: nth_list_update run_ahead_def)
next
  case (Suc d)
  let ?idx = "(idx + 1) mod cap" and ?e = "es ! idx"
  note R = run_aheadD [OF Suc.prems]
  have IH: "\<exists>es' c. ht_set_loop cap hash key val es1 count ?idx p inc1 = Some (es', c) \<and> length es' = cap \<and>
      (\<forall>i < cap. e_psl (es' ! i) < cap) \<and>
      (\<forall>i < cap. (\<forall>j \<le> Suc d. i \<noteq> (idx + j) mod cap) \<longrightarrow> es' ! i = es ! i) \<and>
      (c = count + 1 \<and> occ_slots cap es' = insert ((idx + Suc d) mod cap) (occ_slots cap es) \<or>
       c = count \<and> occ_slots cap es' = occ_slots cap es)"
    if es1: "es1 = es \<or> es1 = es[idx := placed inc psl]" and p: "p \<le> Suc psl" for es1 p inc1
  proof -
    note N = run_ahead_next [OF Suc.prems p es1]
    obtain es' c where es': "ht_set_loop cap hash key val es1 count ?idx p inc1 = Some (es', c)"
      "length es' = cap" "\<forall>i < cap. e_psl (es' ! i) < cap"
      "\<forall>i < cap. (\<forall>j \<le> d. i \<noteq> (idx + Suc j) mod cap) \<longrightarrow> es' ! i = es1 ! i"
      "c = count + 1 \<and> occ_slots cap es' = insert ((idx + Suc d) mod cap) (occ_slots cap es) \<or>
       c = count \<and> occ_slots cap es' = occ_slots cap es"
      using Suc.IH [OF conjunct1 [OF N]] conjunct2 [OF N] unfolding next_slot by metis
    moreover have "es' ! i = es ! i" if "i < cap" "\<forall>j \<le> Suc d. i \<noteq> (idx + j) mod cap" for i
    proof -
      have "i \<noteq> idx" using that(2) R(3) by (auto dest: spec [of _ 0])
      then have "es1 ! i = es ! i" using es1 by auto
      moreover have "\<forall>j \<le> d. i \<noteq> (idx + Suc j) mod cap" using that(2) Suc_le_mono by blast
      ultimately show ?thesis using es'(4) that(1) by simp
    qed
    ultimately show ?thesis by blast
  qed
  show ?case
  proof (cases "entry_key_match ?e hash key")
    case True
    then have "ht_set_loop cap hash key val es count idx psl inc = Some (es[idx := ?e\<lparr>e_value := val\<rparr>], count)"
      using R(1) by (subst ht_set_loop.simps) simp
    moreover have "occ_slots cap (es[idx := ?e\<lparr>e_value := val\<rparr>]) = occ_slots cap es"
      using R(1,3,4) by (auto simp: occ_slots_def nth_list_update)
    ultimately show ?thesis
      using Suc.prems by (auto simp: run_ahead_def nth_list_update dest: spec [of _ 0])
  next
    case False
    then show ?thesis
      using IH [of "es[idx := placed inc psl]" "Suc (e_psl ?e)" ?e] IH [of es "Suc psl" inc] R(1,5,6)
      by (subst ht_set_loop.simps) simp
  qed
qed

text \<open>After the loop, a probe for the key finds the new value, tombstones or not.\<close>

lemma ht_set_loop_probe:
  assumes "run_ahead cap es idx psl d"
    and inc: "e_hash inc = ht_hash key" "e_key inc = key" "e_value inc = val"
    and "ht_set_loop cap (ht_hash key) key val es count idx psl inc = Some (es', c)"
  shows "\<exists>i < cap. ht_probe cap (ht_hash key) key es' idx psl = Some (Some i) \<and> e_value (es' ! i) = val"
  using assms(1,5)
proof (induction d arbitrary: es idx psl)
  case 0
  then have "\<not> occ es idx" unfolding run_ahead_def by (metis add_0_right mod_less)
  with 0(2) have "es' = es[idx := placed inc psl]"
    by (subst (asm) ht_set_loop.simps) (cases "e_state (es ! idx)"; simp)
  then show ?case
    using 0 inc by (subst ht_probe.simps) (auto simp: entry_key_match_def run_ahead_def)
next
  case (Suc d)
  let ?idx = "(idx + 1) mod cap" and ?e = "es ! idx"
  note R = run_aheadD [OF Suc.prems(1)]
  have keep: "es' ! idx = es1 ! idx"
    if es1: "es1 = es \<or> es1 = es[idx := placed inc psl]" and p: "p \<le> Suc psl"
      and run: "ht_set_loop cap (ht_hash key) key val es1 count ?idx p inc1 = Some (es', c)" for es1 p inc1
  proof -
    have "\<forall>i < cap. (\<forall>j \<le> d. i \<noteq> (idx + Suc j) mod cap) \<longrightarrow> es' ! i = es1 ! i"
      using ht_set_loop_returns [OF conjunct1 [OF run_ahead_next [OF Suc.prems(1) p es1]],
          of "ht_hash key" key val count inc1] run
      unfolding next_slot by (metis option.inject prod.inject)
    then show ?thesis using R(3,7) by blast
  qed
  consider (found) "entry_key_match ?e (ht_hash key) key"
    | (swap) "\<not> entry_key_match ?e (ht_hash key) key" "e_psl ?e < psl"
    | (pass) "\<not> entry_key_match ?e (ht_hash key) key" "psl \<le> e_psl ?e"
    by linarith
  then show ?case
  proof cases
    case found
    then have "es' = es[idx := ?e\<lparr>e_value := val\<rparr>]"
      using Suc.prems(2) R(1) by (subst (asm) ht_set_loop.simps) simp
    then show ?thesis
      using found R(1,3,4) by (subst ht_probe.simps) (simp add: entry_key_match_def)
  next
    case swap
    then have "es' ! idx = es[idx := placed inc psl] ! idx"
      using keep [of "es[idx := placed inc psl]" "Suc (e_psl ?e)" ?e] Suc.prems(2) R(1,5)
      by (subst (asm) ht_set_loop.simps) simp
    then show ?thesis
      using inc R(3,4) by (subst ht_probe.simps) (simp add: entry_key_match_def)
  next
    case pass
    then have run: "ht_set_loop cap (ht_hash key) key val es count ?idx (Suc psl) inc = Some (es', c)"
      using Suc.prems(2) R(1,6) by (subst (asm) ht_set_loop.simps) simp
    then have "\<exists>i < cap. ht_probe cap (ht_hash key) key es' ?idx (Suc psl) = Some (Some i) \<and> e_value (es' ! i) = val"
      using Suc.IH [OF _ run] run_ahead_next [OF Suc.prems(1), of "Suc psl" es inc] by blast
    moreover have "es' ! idx = ?e" using keep [of es "Suc psl" inc] run by simp
    ultimately show ?thesis
      using pass R(1,6) by (subst ht_probe.simps) simp
  qed
qed

lemma ht_wf_run_ahead:
  assumes "ht_wf ht" "ht_has_room ht" "idx < ht_capacity ht"
  obtains d where "run_ahead (ht_capacity ht) (ht_entries ht) idx 0 d"
proof -
  have "card (occ_slots (ht_capacity ht) (ht_entries ht)) < ht_capacity ht"
    using has_room_card [OF assms(2) _ refl] assms(1) by (simp add: ht_wf_def)
  then obtain d where "d < ht_capacity ht" "\<not> occ (ht_entries ht) ((idx + d) mod ht_capacity ht)"
    "\<forall>j < d. occ (ht_entries ht) ((idx + j) mod ht_capacity ht)"
    by (rule free_slot_ahead)
  then show ?thesis using that [of d] assms(1,3) by (simp add: run_ahead_def ht_wf_def)
qed

lemma zedis_ht_set_wf:
  assumes wf: "ht_wf ht"
  obtains r ht' where "zedis_ht_set ht key val = Some (r, ht')" "ht_wf ht'"
    "r = -1 \<and> ht' = ht \<and> \<not> (length key \<le> ZEDIS_HT_MAX_KEY \<and> length val \<le> ZEDIS_HT_MAX_VALUE \<and> ht_has_room ht) \<or>
     r = 0 \<and> (\<exists>i < ht_capacity ht'. ht_probe (ht_capacity ht') (ht_hash key) key (ht_entries ht')
       (home (ht_capacity ht') key) 0 = Some (Some i) \<and> e_value (ht_entries ht' ! i) = val)"
proof (cases "length key \<le> ZEDIS_HT_MAX_KEY \<and> length val \<le> ZEDIS_HT_MAX_VALUE \<and> ht_has_room ht")
  case False
  then show ?thesis
    using that [of "-1" ht] wf by (auto simp: zedis_ht_set_def ht_has_room_def not_le)
next
  case True
  let ?cap = "ht_capacity ht" and ?es = "ht_entries ht"
  let ?inc = "\<lparr>e_state = HT_EMPTY, e_psl = 0, e_hash = ht_hash key, e_key = key, e_value = val\<rparr>"
  have "home ?cap key < ?cap" using wf by (simp add: ht_wf_def)
  then obtain d where run: "run_ahead ?cap ?es (home ?cap key) 0 d"
    using ht_wf_run_ahead [OF wf] True by blast
  obtain es' c where es': "ht_set_loop ?cap (ht_hash key) key val ?es (ht_count ht) (home ?cap key) 0 ?inc = Some (es', c)"
    "length es' = ?cap" "\<forall>i < ?cap. e_psl (es' ! i) < ?cap"
    "c = ht_count ht + 1 \<and> occ_slots ?cap es' = insert ((home ?cap key + d) mod ?cap) (occ_slots ?cap ?es) \<or>
     c = ht_count ht \<and> occ_slots ?cap es' = occ_slots ?cap ?es"
    using ht_set_loop_returns [OF run, of "ht_hash key" key val "ht_count ht" ?inc] by blast
  have "(home ?cap key + d) mod ?cap \<notin> occ_slots ?cap ?es" "finite (occ_slots ?cap ?es)"
    using run by (simp_all add: run_ahead_def occ_slots_def)
  then have "c = card (occ_slots ?cap es')" using es'(4) wf by (auto simp: ht_wf_def)
  moreover have "zedis_ht_set ht key val = Some (0, ht\<lparr>ht_entries := es', ht_count := c\<rparr>)"
    using True es'(1) by (simp add: zedis_ht_set_def ht_has_room_def Let_def)
  ultimately show ?thesis
    using that [of 0 "ht\<lparr>ht_entries := es', ht_count := c\<rparr>"] es'(2,3) wf
      ht_set_loop_probe [OF run _ _ _ es'(1)] by (simp add: ht_wf_def)
qed

lemma zedis_ht_get_wf:
  assumes wf: "ht_wf ht"
  obtains r where "zedis_ht_get ht key value_cap = Some r"
    "\<And>out n. r = Some (out, n) \<Longrightarrow> \<exists>i < ht_capacity ht. entry_key_match (ht_entries ht ! i) (ht_hash key) key \<and>
       n = length (e_value (ht_entries ht ! i))"
proof -
  obtain r where "ht_probe (ht_capacity ht) (ht_hash key) key (ht_entries ht) (home (ht_capacity ht) key) 0 = Some r"
    "\<forall>i. r = Some i \<longrightarrow> i < ht_capacity ht \<and> entry_key_match (ht_entries ht ! i) (ht_hash key) key"
    using ht_probe_returns [of "ht_capacity ht" "ht_entries ht" 0 "home (ht_capacity ht) key"] wf
    unfolding ht_wf_def by fastforce
  then show ?thesis
    using that wf by (cases r) (auto simp: zedis_ht_get_def ht_wf_def Let_def)
qed

lemma zedis_ht_del_wf:
  assumes wf: "ht_wf ht"
  obtains "zedis_ht_del ht key = Some (-1, ht)"
  | i where "i < ht_capacity ht" "entry_key_match (ht_entries ht ! i) (ht_hash key) key"
    "zedis_ht_del ht key = Some (0, ht\<lparr>ht_entries := (ht_entries ht)
        [i := (ht_entries ht ! i)\<lparr>e_state := HT_TOMBSTONE, e_psl := 0\<rparr>], ht_count := ht_count ht - 1\<rparr>)"
    "ht_wf (ht\<lparr>ht_entries := (ht_entries ht)
        [i := (ht_entries ht ! i)\<lparr>e_state := HT_TOMBSTONE, e_psl := 0\<rparr>], ht_count := ht_count ht - 1\<rparr>)"
proof -
  let ?cap = "ht_capacity ht" and ?es = "ht_entries ht"
  obtain r where r: "ht_probe ?cap (ht_hash key) key ?es (home ?cap key) 0 = Some r"
    "\<forall>i. r = Some i \<longrightarrow> i < ?cap \<and> entry_key_match (?es ! i) (ht_hash key) key"
    using ht_probe_returns [of ?cap ?es 0 "home ?cap key"] wf unfolding ht_wf_def by fastforce
  show ?thesis
  proof (cases r)
    case None
    then show ?thesis using r that(1) by (simp add: zedis_ht_del_def)
  next
    case (Some i)
    let ?es' = "?es[i := (?es ! i)\<lparr>e_state := HT_TOMBSTONE, e_psl := 0\<rparr>]"
    have i: "i < ?cap" "occ ?es i" "entry_key_match (?es ! i) (ht_hash key) key"
      using r(2) Some by (auto simp: entry_key_match_def)
    have occ': "occ_slots ?cap ?es' = occ_slots ?cap ?es - {i}"
      using i(1) wf by (auto simp: occ_slots_def ht_wf_def nth_list_update)
    have "i \<in> occ_slots ?cap ?es" "finite (occ_slots ?cap ?es)" using i by (simp_all add: occ_slots_def)
    then have card': "ht_count ht \<noteq> 0" "ht_count ht - 1 = card (occ_slots ?cap ?es')"
      using wf by (auto simp: ht_wf_def occ')
    moreover have "\<forall>j < ?cap. e_psl (?es' ! j) < ?cap"
      using wf i(1) by (simp add: ht_wf_def nth_list_update)
    ultimately show ?thesis
      using that(2) [OF i(1,3)] r(1) Some wf by (simp add: zedis_ht_del_def ht_wf_def)
  qed
qed

section \<open>The table as a map\<close>

text \<open>The full invariant of a table that has seen no deletion.\<close>

definition ht_inv :: "zedis_hash_table \<Rightarrow> bool" where
  "ht_inv ht \<longleftrightarrow> rh_inv ht \<and> ht_wf ht"

definition ht_accepts :: "zedis_hash_table \<Rightarrow> string \<Rightarrow> string \<Rightarrow> bool" where
  "ht_accepts ht key val \<longleftrightarrow>
     length key \<le> ZEDIS_HT_MAX_KEY \<and> length val \<le> ZEDIS_HT_MAX_VALUE \<and> ht_has_room ht"

definition ht_out :: "nat \<Rightarrow> string \<Rightarrow> string \<times> nat" where
  "ht_out value_cap v = (if value_cap > 0 then ht_copy_out v value_cap else [], length v)"

lemma zedis_ht_set_inv:
  assumes "ht_inv ht" "ht_accepts ht key val"
  shows "\<exists>ht'. zedis_ht_set ht key val = Some (0, ht') \<and> ht_inv ht' \<and>
    ht_lookup ht' = (ht_lookup ht)(key \<mapsto> val) \<and> ht_capacity ht' = ht_capacity ht \<and>
    ht_count ht' = ht_count ht + (if ht_lookup ht key = None then 1 else 0)"
proof -
  have wf: "ht_wf ht" using assms(1) by (simp add: ht_inv_def)
  obtain r ht' where r: "zedis_ht_set ht key val = Some (r, ht')" "ht_wf ht'"
    by (rule zedis_ht_set_wf [OF wf])
  then show ?thesis
    using zedis_ht_set_spec [of ht key val] assms by (auto simp: ht_inv_def ht_accepts_def)
qed

lemma zedis_ht_set_refused: "\<not> ht_accepts ht key val \<Longrightarrow> zedis_ht_set ht key val = Some (-1, ht)"
  by (auto simp: ht_accepts_def zedis_ht_set_def ht_has_room_def)

lemma zedis_ht_get_inv: "ht_inv ht \<Longrightarrow>
    zedis_ht_get ht key value_cap = Some (map_option (ht_out value_cap) (ht_lookup ht key))"
  using zedis_ht_get_lookup [of ht key value_cap] by (simp add: ht_inv_def ht_out_def [abs_def])

lemma ht_inv_new:
  assumes "0 < capacity" "capacity < 2 ^ 32"
  shows "ht_inv \<lparr>ht_entries = replicate capacity empty_entry, ht_capacity = capacity, ht_count = 0\<rparr>"
    and "ht_lookup \<lparr>ht_entries = replicate capacity empty_entry, ht_capacity = capacity, ht_count = 0\<rparr> = Map.empty"
proof -
  have e: "e_state empty_entry = HT_EMPTY" "e_psl empty_entry = 0" by (simp_all add: empty_entry_def)
  show "ht_inv \<lparr>ht_entries = replicate capacity empty_entry, ht_capacity = capacity, ht_count = 0\<rparr>"
    using assms e by (simp add: ht_inv_def rh_inv_def ht_wf_def rh_slots_def rh_placed_def rh_ordered_def
        rh_distinct_def occ_slots_def)
  show "ht_lookup \<lparr>ht_entries = replicate capacity empty_entry, ht_capacity = capacity, ht_count = 0\<rparr> = Map.empty"
    using e by (auto simp: ht_lookup_def ht_map_def find_None_iff split: option.splits)
qed

lemma zedis_ht_init_inv:
  assumes "zedis_ht_init ht0 arena capacity m = (0, ht, arena', m')" "capacity < 2 ^ 32"
  shows "ht_inv ht \<and> ht_lookup ht = Map.empty \<and> ht_capacity ht = capacity \<and> 0 < capacity"
proof -
  have "0 < capacity \<and>
      ht = \<lparr>ht_entries = replicate capacity empty_entry, ht_capacity = capacity, ht_count = 0\<rparr>"
    using assms(1) by (auto simp: zedis_ht_init_def split: if_splits prod.splits option.splits)
  then show ?thesis using ht_inv_new [of capacity] assms(2) by auto
qed

text \<open>The contract a client of the table relies on: a fixed-capacity map from strings to strings whose
  \<open>put\<close> either refuses and changes nothing or updates exactly one key. The client lemmas are what
  the key registries need to keep array indices in decimal.\<close>

locale string_table =
  fixes inv :: "'t \<Rightarrow> bool"
    and lookup :: "'t \<Rightarrow> string \<Rightarrow> string option"
    and accepts :: "'t \<Rightarrow> string \<Rightarrow> string \<Rightarrow> bool"
    and put :: "'t \<Rightarrow> string \<Rightarrow> string \<Rightarrow> (int \<times> 't) option"
    and fetch :: "'t \<Rightarrow> string \<Rightarrow> nat \<Rightarrow> (string \<times> nat) option option"
  assumes fetch_lookup: "inv t \<Longrightarrow> fetch t k n = Some (map_option (ht_out n) (lookup t k))"
    and put_accepted: "inv t \<Longrightarrow> accepts t k v \<Longrightarrow>
      \<exists>t'. put t k v = Some (0, t') \<and> inv t' \<and> lookup t' = (lookup t)(k \<mapsto> v)"
    and put_refused: "inv t \<Longrightarrow> \<not> accepts t k v \<Longrightarrow> put t k v = Some (-1, t)"
begin

lemma put_cases:
  assumes "inv t"
  obtains (ok) t' where "put t k v = Some (0, t')" "inv t'" "lookup t' = (lookup t)(k \<mapsto> v)" "accepts t k v"
  | (refused) "put t k v = Some (-1, t)" "\<not> accepts t k v"
  using put_accepted [OF assms] put_refused [OF assms] by metis

lemma fetch_number:
  assumes "inv t" "lookup t k = Some (show_nat n)" "length (show_nat n) < cap" "n < 2 ^ 64"
  shows "\<exists>out len. fetch t k cap = Some (Some (out, len)) \<and> strtoul10 out = n"
proof -
  have "fetch t k cap = Some (Some (show_nat n @ [NUL], length (show_nat n)))"
    using fetch_lookup [OF assms(1), of k cap] assms(2,3) by (simp add: ht_out_def ht_copy_out_def)
  then show ?thesis using strtoul10_show_nat [OF assms(4), of "[]"] by simp
qed

end

interpretation ht: string_table ht_inv ht_lookup ht_accepts zedis_ht_set zedis_ht_get
proof
  show "\<And>t k v. ht_inv t \<Longrightarrow> ht_accepts t k v \<Longrightarrow>
      \<exists>t'. zedis_ht_set t k v = Some (0, t') \<and> ht_inv t' \<and> ht_lookup t' = (ht_lookup t)(k \<mapsto> v)"
    using zedis_ht_set_inv by blast
qed (simp_all add: zedis_ht_get_inv zedis_ht_set_refused)

lemma ht_map_delete:
  assumes R: "rh_slots cap es" and i: "i < cap" "occ es i"
  defines "es' \<equiv> es[i := (es ! i)\<lparr>e_state := HT_TOMBSTONE, e_psl := 0\<rparr>]"
  shows "ht_map es' = (ht_map es)(e_key (es ! i) := None)"
proof (rule ext)
  fix x
  note I = rh_slotsD [OF R]
  have nth: "es' ! j = (if j = i then (es ! i)\<lparr>e_state := HT_TOMBSTONE, e_psl := 0\<rparr> else es ! j)" for j
    using i I(1) by (simp add: es'_def nth_list_update)
  have len: "length es' = length es" by (simp add: es'_def)
  have D: "rh_distinct (length es) es" "rh_distinct (length es') es'"
    using I(1,6) len by (auto simp: rh_distinct_def nth)
  show "ht_map es' x = ((ht_map es)(e_key (es ! i) := None)) x"
  proof (cases "x = e_key (es ! i)")
    case True
    have "e_key (es' ! j) \<noteq> x" if j: "j < length es'" "occ es' j" for j
      using rh_distinctD [OF D(1), of j i] i j I(1) len True by (auto simp: nth split: if_splits)
    then have "ht_map es' x = None" by (simp add: ht_map_None_iff)
    then show ?thesis using True by simp
  next
    case False
    have "occ es' j \<and> e_key (es' ! j) = x \<and> e_value (es' ! j) = w \<longleftrightarrow>
        occ es j \<and> e_key (es ! j) = x \<and> e_value (es ! j) = w" for j w
      using False by (auto simp: nth)
    then have "ht_map es' x = Some w \<longleftrightarrow> ht_map es x = Some w" for w
      unfolding ht_map_Some_iff [OF D(1)] ht_map_Some_iff [OF D(2)] len by simp
    then have "ht_map es' x = ht_map es x" by (metis option.exhaust)
    then show ?thesis using False by simp
  qed
qed

lemma zedis_ht_get_missing:
  assumes "ht_wf ht" "ht_lookup ht key = None"
  shows "zedis_ht_get ht key value_cap = Some None"
proof -
  have "\<not> entry_key_match (ht_entries ht ! i) (ht_hash key) key" if "i < ht_capacity ht" for i
    using assms that by (auto simp: ht_lookup_def ht_map_None_iff entry_key_match_def ht_wf_def)
  then show ?thesis
    by (rule_tac zedis_ht_get_wf [OF assms(1), of key value_cap]) (metis option.exhaust surj_pair)
qed

text \<open>Requests to one table, as the command handlers issue them.\<close>

datatype ht_op = HSet string string | HGet string nat | HDel string

fun ht_step :: "ht_op \<Rightarrow> zedis_hash_table \<Rightarrow> zedis_hash_table option" where
  "ht_step (HSet k v) ht = map_option snd (zedis_ht_set ht k v)"
| "ht_step (HGet k n) ht = map_option (\<lambda>_. ht) (zedis_ht_get ht k n)"
| "ht_step (HDel k) ht = map_option snd (zedis_ht_del ht k)"

fun ht_run :: "ht_op list \<Rightarrow> zedis_hash_table \<Rightarrow> zedis_hash_table option" where
  "ht_run [] ht = Some ht"
| "ht_run (p # ps) ht = (case ht_step p ht of None \<Rightarrow> None | Some ht' \<Rightarrow> ht_run ps ht')"

lemma ht_step_wf: "ht_wf ht \<Longrightarrow> \<exists>ht'. ht_step p ht = Some ht' \<and> ht_wf ht'"
proof (cases p)
  case (HSet k v)
  assume "ht_wf ht"
  then show ?thesis
    by (rule zedis_ht_set_wf [where key = k and val = v]) (simp add: HSet)
next
  case (HGet k n)
  assume wf: "ht_wf ht"
  then show ?thesis
    by (rule zedis_ht_get_wf [where key = k and value_cap = n]) (simp add: HGet wf)
next
  case (HDel k)
  assume wf: "ht_wf ht"
  then show ?thesis
    by (rule zedis_ht_del_wf [where key = k]) (simp_all add: HDel wf)
qed

lemma ht_run_wf: "ht_wf ht \<Longrightarrow> \<exists>ht'. ht_run ps ht = Some ht' \<and> ht_wf ht'"
proof (induction ps arbitrary: ht)
  case (Cons p ps)
  then show ?case using ht_step_wf [of ht p] by (metis ht_run.simps(2) option.simps(5))
qed simp

section \<open>Properties\<close>

definition demo_table :: zedis_hash_table where
  "demo_table = \<lparr>ht_entries = replicate 8 empty_entry, ht_capacity = 8, ht_count = 0\<rparr>"

lemma demo_table_inv: "ht_inv demo_table" "ht_wf demo_table" "ht_lookup demo_table = Map.empty"
  using ht_inv_new [of 8] by (simp_all add: demo_table_def ht_inv_def)

lemma demo_table_accepts: "length k \<le> 256 \<Longrightarrow> length v \<le> 4096 \<Longrightarrow> ht_accepts demo_table k v"
  by (simp add: ht_accepts_def demo_table_def ZEDIS_HT_MAX_KEY_def ZEDIS_HT_MAX_VALUE_def ht_has_room_def)

text \<open>
  C5. The Robin Hood table implements a map. On a table without deletions that accepts the pair,
  \<open>zedis_ht_set\<close> returns 0, keeps the invariant, counts a new key once, and afterwards
  \<open>zedis_ht_get\<close> returns the new value for the key and what it returned before for every other key.
\<close>

theorem ht_set_get:
  assumes "ht_inv ht" and "ht_accepts ht key val"
  shows "\<exists>ht'. zedis_ht_set ht key val = Some (0, ht') \<and> ht_inv ht' \<and>
    ht_count ht' = ht_count ht + (if ht_lookup ht key = None then 1 else 0) \<and>
    (\<forall>k n. zedis_ht_get ht' k n = (if k = key then Some (Some (ht_out n val)) else zedis_ht_get ht k n))"
proof -
  obtain ht' where "zedis_ht_set ht key val = Some (0, ht')" "ht_inv ht'"
    "ht_lookup ht' = (ht_lookup ht)(key \<mapsto> val)"
    "ht_count ht' = ht_count ht + (if ht_lookup ht key = None then 1 else 0)"
    using zedis_ht_set_inv [OF assms] by blast
  then show ?thesis using assms(1) by (simp add: ht.fetch_lookup)
qed

theorem ht_set_get_witness:
  "\<exists>ht'. zedis_ht_set demo_table ''k'' ''v'' = Some (0, ht') \<and>
     zedis_ht_get ht' ''k'' 16 = Some (Some (''v'' @ [NUL], 1)) \<and> zedis_ht_get ht' ''x'' 16 = Some None"
proof -
  have "ht_accepts demo_table ''k'' ''v''" by (rule demo_table_accepts) simp_all
  from ht_set_get [OF demo_table_inv(1) this] show ?thesis
    using demo_table_inv(1,3) by (auto simp: ht.fetch_lookup ht_out_def ht_copy_out_def)
qed

text \<open>
  C21. No request can hang the table: from a successful \<open>zedis_ht_init\<close>, every sequence of SET, GET
  and DEL returns, in whatever order and with whatever keys, and \<open>count\<close> stays the number of
  occupied slots.
\<close>

theorem ht_ops_return:
  assumes "zedis_ht_init ht0 arena capacity m = (0, ht, arena', m')" and "capacity < 2 ^ 32"
  shows "\<exists>ht'. ht_run ops ht = Some ht' \<and> ht_wf ht'"
proof -
  have "ht_wf ht" using zedis_ht_init_inv [OF assms] by (simp add: ht_inv_def)
  then show ?thesis by (rule ht_run_wf)
qed

theorem ht_ops_return_witness:
  "\<exists>ht arena' m' ht'. zedis_ht_init ht_zero (demo_arena\<lparr>ar_size := 1048576\<rparr>) 8 (\<lambda>_. 0) = (0, ht, arena', m') \<and>
     ht_run [HSet ''a'' ''1'', HDel ''a'', HGet ''a'' 10] ht = Some ht'"
proof -
  let ?r = "zedis_ht_init ht_zero (demo_arena\<lparr>ar_size := 1048576\<rparr>) 8 (\<lambda>_. 0)"
  have "fst ?r = 0"
    by (simp add: zedis_ht_init_def zedis_arena_calloc_def zedis_arena_alloc_def demo_arena_def align_up_def
        sizeof_ht_entry_def)
  then obtain ht arena' m' where r: "?r = (0, ht, arena', m')" by (metis prod.collapse)
  then show ?thesis
    using ht_ops_return [OF r, of "[HSet ''a'' ''1'', HDel ''a'', HGet ''a'' 10]"] by auto
qed

text \<open>
  C22. Read your writes: whatever deletions came before, a SET that returned 0 is seen by the next
  GET of the same key.
\<close>

theorem ht_read_your_write:
  assumes "ht_wf ht" and "zedis_ht_set ht key val = Some (0, ht')"
  shows "zedis_ht_get ht' key n = Some (Some (ht_out n val))"
proof (rule zedis_ht_set_wf [OF assms(1), of key val])
  fix r ht''
  assume "zedis_ht_set ht key val = Some (r, ht'')" "ht_wf ht''"
    "r = - 1 \<and> ht'' = ht \<and> \<not> (length key \<le> ZEDIS_HT_MAX_KEY \<and> length val \<le> ZEDIS_HT_MAX_VALUE \<and> ht_has_room ht) \<or>
     r = 0 \<and> (\<exists>i < ht_capacity ht''. ht_probe (ht_capacity ht'') (ht_hash key) key (ht_entries ht'')
       (home (ht_capacity ht'') key) 0 = Some (Some i) \<and> e_value (ht_entries ht'' ! i) = val)"
  then obtain i where "ht_probe (ht_capacity ht') (ht_hash key) key (ht_entries ht')
      (home (ht_capacity ht') key) 0 = Some (Some i)" "e_value (ht_entries ht' ! i) = val" "ht_wf ht'"
    using assms(2) by auto
  then show ?thesis by (simp add: zedis_ht_get_def ht_out_def ht_wf_def)
qed

theorem ht_read_your_write_witness:
  "\<exists>ht'. zedis_ht_set demo_table ''k'' ''v'' = Some (0, ht') \<and>
     zedis_ht_get ht' ''k'' 1 = Some (Some ([NUL], 1))"
proof -
  obtain ht' where r: "zedis_ht_set demo_table ''k'' ''v'' = Some (0, ht')"
    using zedis_ht_set_inv [OF demo_table_inv(1) demo_table_accepts] by force
  then show ?thesis
    using ht_read_your_write [OF demo_table_inv(2) r, of 1] by (simp add: ht_out_def ht_copy_out_def)
qed

text \<open>
  C23. \<open>zedis_ht_del\<close> on a table without earlier deletions returns 0 exactly for a key that is
  present, removes this key from the contents and no other, and a GET of the key then misses.
\<close>

theorem ht_del_removes:
  assumes "ht_inv ht"
  shows "\<exists>r ht'. zedis_ht_del ht key = Some (r, ht') \<and>
    (r = 0 \<longleftrightarrow> ht_lookup ht key \<noteq> None) \<and> (r \<noteq> 0 \<longrightarrow> r = -1 \<and> ht' = ht) \<and>
    ht_lookup ht' = (ht_lookup ht)(key := None) \<and> zedis_ht_get ht' key n = Some None"
proof -
  let ?cap = "ht_capacity ht" and ?es = "ht_entries ht"
  have inv: "rh_slots ?cap ?es" "\<forall>e \<in> set ?es. e_state e \<noteq> HT_TOMBSTONE" and wf: "ht_wf ht"
    using assms by (simp_all add: ht_inv_def rh_inv_def)
  obtain p where p: "ht_probe ?cap (ht_hash key) key ?es (home ?cap key) 0 = Some p"
    "case p of None \<Rightarrow> ht_map ?es key = None
     | Some i \<Rightarrow> i < ?cap \<and> occ ?es i \<and> e_key (?es ! i) = key \<and> ht_map ?es key = Some (e_value (?es ! i))"
    using ht_probe_spec [OF inv] by blast
  show ?thesis
  proof (rule zedis_ht_del_wf [OF wf, of key])
    assume r: "zedis_ht_del ht key = Some (-1, ht)"
    then have "p = None" using p(1) by (auto simp: zedis_ht_del_def split: option.splits)
    then have "ht_lookup ht key = None" using p(2) by (simp add: ht_lookup_def)
    then show ?thesis using r zedis_ht_get_missing [OF wf] by (auto simp: fun_upd_idem)
  next
    fix i
    let ?ht = "ht\<lparr>ht_entries := ?es[i := (?es ! i)\<lparr>e_state := HT_TOMBSTONE, e_psl := 0\<rparr>],
        ht_count := ht_count ht - 1\<rparr>"
    assume i: "i < ?cap" "entry_key_match (?es ! i) (ht_hash key) key"
      and r: "zedis_ht_del ht key = Some (0, ?ht)" and wf': "ht_wf ?ht"
    have occ: "occ ?es i" "e_key (?es ! i) = key" using i(2) by (simp_all add: entry_key_match_def)
    have L: "ht_lookup ?ht = (ht_lookup ht)(key := None)"
      using ht_map_delete [OF inv(1) i(1) occ(1)] occ(2) by (simp add: ht_lookup_def)
    moreover have "ht_lookup ht key \<noteq> None"
      using i(1) occ rh_slotsD(1) [OF inv(1)] by (auto simp: ht_lookup_def ht_map_None_iff)
    moreover have "zedis_ht_get ?ht key n = Some None"
      using zedis_ht_get_missing [OF wf'] L by simp
    ultimately show ?thesis using r by auto
  qed
qed

theorem ht_del_removes_witness:
  "\<exists>ht ht'. zedis_ht_set demo_table ''k'' ''v'' = Some (0, ht) \<and> zedis_ht_del ht ''k'' = Some (0, ht') \<and>
     ht_lookup ht ''k'' = Some ''v'' \<and> zedis_ht_get ht' ''k'' 10 = Some None"
proof -
  have "ht_accepts demo_table ''k'' ''v''" by (rule demo_table_accepts) simp_all
  then obtain ht where ht: "zedis_ht_set demo_table ''k'' ''v'' = Some (0, ht)" "ht_inv ht"
      "ht_lookup ht = [''k'' \<mapsto> ''v'']"
    using zedis_ht_set_inv [OF demo_table_inv(1)] demo_table_inv(3) by metis
  then show ?thesis using ht_del_removes [OF ht(2), of "''k''" 10] by auto
qed

text \<open>Three keys whose home is slot 4 of a table of eight slots.\<close>

lemma demo_hashes:
  "ht_hash ''a'' = 3826002220" "ht_hash ''i'' = 3960223172" "ht_hash ''q'' = 4094444124"
  by (simp_all add: ht_hash_def)

definition demo_entry :: "string \<Rightarrow> string \<Rightarrow> nat \<Rightarrow> ht_entry" where
  "demo_entry k v p = \<lparr>e_state = HT_OCCUPIED, e_psl = p, e_hash = ht_hash k, e_key = k, e_value = v\<rparr>"

lemma replicate_8: "replicate 8 x = [x, x, x, x, x, x, x, x]"
  by (simp add: numeral_eq_Suc)

lemmas demo_eval = zedis_ht_set_def zedis_ht_get_def zedis_ht_del_def ht_copy_out_def demo_table_def empty_entry_def
  demo_hashes demo_entry_def replicate_8 Let_def ZEDIS_HT_MAX_KEY_def ZEDIS_HT_MAX_VALUE_def
  entry_key_match_def ht_set_loop.simps ht_probe.simps wrap_u32_def



end
