(* ===== verification/Ring_Buffer.thy ===== *)
theory Ring_Buffer
  imports Arena
begin

text \<open>
  The publish/subscribe ring of \<^verbatim>\<open>src/src/ring_buffer.c\<close>: a power-of-two array of message slots indexed
  by two 64-bit sequence numbers. \<open>zedis_ring_publish\<close> and \<open>zedis_ring_poll\<close> are composed of the
  steps between their atomic accesses (check, copy, commit), so that the same definitions serve for
  a single thread and for a producer and a consumer that interleave.
\<close>

unbundle bit_operations_syntax

section \<open>Model\<close>

definition ZEDIS_RING_MSG_MAX :: nat where "ZEDIS_RING_MSG_MAX = 512"

text \<open>The size of the channel field of a slot.\<close>

definition channel_cap :: nat where "channel_cap = 64"

record ring_slot =
  rs_channel :: string
  rs_payload :: string
  rs_seq :: u64

record zedis_ring_buffer =
  rg_slots :: "ring_slot list"
  rg_capacity :: u64
  rg_write_seq :: u64
  rg_read_seq :: u64

definition empty_slot :: ring_slot where
  "empty_slot = \<lparr>rs_channel = [], rs_payload = [], rs_seq = 0\<rparr>"

definition ring_zero :: zedis_ring_buffer where
  "ring_zero = \<lparr>rg_slots = [], rg_capacity = 0, rg_write_seq = 0, rg_read_seq = 0\<rparr>"

definition next_power_of_two :: "u64 \<Rightarrow> u64" where
  "next_power_of_two v0 =
     (if v0 < 2 then 2
      else let v = v0 - 1;
               v = v OR drop_bit 1 v;
               v = v OR drop_bit 2 v;
               v = v OR drop_bit 4 v;
               v = v OR drop_bit 8 v;
               v = v OR drop_bit 16 v;
               v = v OR drop_bit 32 v
           in v + 1)"

text \<open>\<open>sizeof(ring_slot_t)\<close> on the 64-bit target.\<close>

definition sizeof_ring_slot :: nat where "sizeof_ring_slot = 592"

definition zedis_ring_init ::
  "zedis_ring_buffer \<Rightarrow> zedis_arena \<Rightarrow> u64 \<Rightarrow> mem \<Rightarrow> int \<times> zedis_ring_buffer \<times> zedis_arena \<times> mem" where
  "zedis_ring_init ring arena capacity m =
     (if capacity = 0 then (-1, ring, arena, m)
      else let cap = next_power_of_two capacity in
        case zedis_arena_calloc arena cap (of_nat sizeof_ring_slot) 64 m of
          (None, arena', m') \<Rightarrow> (-1, ring\<lparr>rg_slots := []\<rparr>, arena', m')
        | (Some p, arena', m') \<Rightarrow>
            (0, \<lparr>rg_slots = replicate (unat cap) empty_slot, rg_capacity = cap,
                 rg_write_seq = 0, rg_read_seq = 0\<rparr>, arena', m'))"

definition zedis_ring_destroy :: "zedis_ring_buffer \<Rightarrow> zedis_ring_buffer" where
  "zedis_ring_destroy ring = ring_zero"

definition slot_index :: "zedis_ring_buffer \<Rightarrow> u64 \<Rightarrow> nat" where
  "slot_index ring seq = unat (seq AND (rg_capacity ring - 1))"

text \<open>\<open>zedis_ring_publish\<close>: the argument checks and the two atomic loads; the copy into the slot; the
  release store of the write sequence.\<close>

definition publish_check :: "zedis_ring_buffer \<Rightarrow> string \<Rightarrow> u64 option" where
  "publish_check ring payload =
     (if length payload > ZEDIS_RING_MSG_MAX then None
      else let seq = rg_write_seq ring; read = rg_read_seq ring
           in if seq - read \<ge> rg_capacity ring then None else Some seq)"

definition make_slot :: "string \<Rightarrow> string \<Rightarrow> u64 \<Rightarrow> ring_slot" where
  "make_slot channel payload seq =
     (let ch_len = length (cstr channel);
          ch_len = (if ch_len \<ge> channel_cap then channel_cap - 1 else ch_len)
      in \<lparr>rs_channel = take ch_len channel, rs_payload = payload, rs_seq = seq\<rparr>)"

definition publish_fill :: "zedis_ring_buffer \<Rightarrow> u64 \<Rightarrow> string \<Rightarrow> string \<Rightarrow> zedis_ring_buffer" where
  "publish_fill ring seq channel payload =
     ring\<lparr>rg_slots := (rg_slots ring)[slot_index ring seq := make_slot channel payload seq]\<rparr>"

definition publish_commit :: "zedis_ring_buffer \<Rightarrow> u64 \<Rightarrow> zedis_ring_buffer" where
  "publish_commit ring seq = ring\<lparr>rg_write_seq := seq + 1\<rparr>"

definition zedis_ring_publish ::
  "zedis_ring_buffer \<Rightarrow> string option \<Rightarrow> string option \<Rightarrow> int \<times> zedis_ring_buffer" where
  "zedis_ring_publish ring channel payload =
     (case (channel, payload) of
        (Some ch, Some pl) \<Rightarrow>
          (case publish_check ring pl of
             None \<Rightarrow> (-1, ring)
           | Some seq \<Rightarrow> (0, publish_commit (publish_fill ring seq ch pl) seq))
      | _ \<Rightarrow> (-1, ring))"

text \<open>\<open>zedis_ring_poll\<close>, with the slot it copies out.\<close>

definition poll_check :: "zedis_ring_buffer \<Rightarrow> u64 option" where
  "poll_check ring =
     (let read = rg_read_seq ring; write = rg_write_seq ring
      in if read \<ge> write then None else Some read)"

definition poll_copy :: "zedis_ring_buffer \<Rightarrow> u64 \<Rightarrow> ring_slot" where
  "poll_copy ring read = rg_slots ring ! slot_index ring read"

definition poll_commit :: "zedis_ring_buffer \<Rightarrow> u64 \<Rightarrow> zedis_ring_buffer" where
  "poll_commit ring read = ring\<lparr>rg_read_seq := read + 1\<rparr>"

definition zedis_ring_poll :: "zedis_ring_buffer \<Rightarrow> ring_slot option \<times> zedis_ring_buffer" where
  "zedis_ring_poll ring =
     (case poll_check ring of
        None \<Rightarrow> (None, ring)
      | Some read \<Rightarrow> (Some (poll_copy ring read), poll_commit ring read))"

section \<open>Rounding up to a power of two\<close>

lemma smear_step:
  fixes x w :: u64
  assumes "\<forall>i. bit x i \<longleftrightarrow> (\<exists>j < m. bit w (i + j))"
  shows "\<forall>i. bit (x OR drop_bit m x) i \<longleftrightarrow> (\<exists>j < 2 * m. bit w (i + j))"
proof
  fix i
  have "(\<exists>j < 2 * m. bit w (i + j)) \<longleftrightarrow> (\<exists>j < m. bit w (i + j)) \<or> (\<exists>j < m. bit w (i + m + j))"
  proof
    assume "\<exists>j < 2 * m. bit w (i + j)"
    then obtain j where j: "j < 2 * m" "bit w (i + j)" by blast
    show "(\<exists>j < m. bit w (i + j)) \<or> (\<exists>j < m. bit w (i + m + j))"
    proof (cases "j < m")
      case False
      then have "j - m < m" "bit w (i + m + (j - m))" using j by simp_all
      then show ?thesis by blast
    qed (use j in blast)
  next
    assume "(\<exists>j < m. bit w (i + j)) \<or> (\<exists>j < m. bit w (i + m + j))"
    then show "\<exists>j < 2 * m. bit w (i + j)"
    proof
      assume "\<exists>j < m. bit w (i + m + j)"
      then obtain j where "j < m" "bit w (i + m + j)" by blast
      then show ?thesis by (intro exI [of _ "m + j"]) (simp add: add.assoc)
    next
      assume "\<exists>j < m. bit w (i + j)"
      then obtain j where "j < m" "bit w (i + j)" by blast
      then show ?thesis by (intro exI [of _ j]) simp
    qed
  qed
  then show "bit (x OR drop_bit m x) i \<longleftrightarrow> (\<exists>j < 2 * m. bit w (i + j))"
    using assms by (simp add: bit_simps add.commute [of m i])
qed

definition smear :: "u64 \<Rightarrow> u64" where
  "smear w = (let v = w; v = v OR drop_bit 1 v; v = v OR drop_bit 2 v; v = v OR drop_bit 4 v;
     v = v OR drop_bit 8 v; v = v OR drop_bit 16 v; v = v OR drop_bit 32 v in v)"

lemma bit_smear: "bit (smear w) i \<longleftrightarrow> (\<exists>j < 64. bit w (i + j))"
proof -
  have "\<forall>i. bit w i \<longleftrightarrow> (\<exists>j < 1. bit w (i + j))" by simp
  note smear_step [OF this] note smear_step [OF this] note smear_step [OF this]
  note smear_step [OF this] note smear_step [OF this] note smear_step [OF this]
  then show ?thesis by (simp add: smear_def Let_def)
qed

lemma smear_mask:
  assumes "2 ^ n \<le> unat w" "unat w < 2 ^ Suc n" "n < 64"
  shows "smear w = mask (Suc n)"
proof (rule bit_word_eqI)
  fix i assume "i < LENGTH(64)"
  have b: "bit w k \<longleftrightarrow> odd (unat w div 2 ^ k)" for k
    using bit_unsigned_iff [of w k, where ?'a = nat] by (simp add: bit_iff_odd)
  have "unat w div 2 ^ n = 1" using assms(1,2) by (simp add: div_nat_eqI)
  then have top: "bit w n" by (simp add: b)
  have above: "\<not> bit w k" if "n < k" for k
  proof -
    have "(2 :: nat) ^ Suc n \<le> 2 ^ k" using that by (intro power_increasing) simp_all
    then have "unat w div 2 ^ k = 0" using assms(2) by simp
    then show ?thesis by (simp add: b)
  qed
  have "(\<exists>j < 64. bit w (i + j)) \<longleftrightarrow> i \<le> n"
  proof
    assume "i \<le> n"
    then show "\<exists>j < 64. bit w (i + j)" using top assms(3) by (intro exI [of _ "n - i"]) simp
  qed (use above in \<open>metis le_add1 le_trans not_less\<close>)
  then show "bit (smear w) i \<longleftrightarrow> bit (mask (Suc n) :: u64) i"
    using \<open>i < LENGTH(64)\<close> by (simp add: bit_smear bit_mask_iff less_Suc_eq_le)
qed

text \<open>The value of \<open>next_power_of_two\<close> up to \<open>2 ^ 63\<close>, and what it does above.\<close>

lemma next_power_of_two_spec:
  assumes "2 \<le> unat v"
  obtains n where "2 ^ n < unat v" "unat v \<le> 2 ^ Suc n" "n < 64" "next_power_of_two v = 2 ^ Suc n"
proof -
  have "v \<noteq> 0" using assms by auto
  then have v1: "unat (v - 1) = unat v - 1" and pos: "1 \<le> unat v - 1"
    using assms by (simp_all add: unat_minus_one)
  obtain n where n: "2 ^ n \<le> unat v - 1" "unat v - 1 < 2 ^ Suc n"
    using ex_power_ivl1 [OF _ pos, of 2] by auto
  have "(2 :: nat) ^ n < 2 ^ 64" using n(1) unsigned_less [of v, where ?'a = nat] by simp
  then have n64: "n < 64" by (simp only: power_strict_increasing_iff)
  have "next_power_of_two v = smear (v - 1) + 1"
    using assms by (simp add: next_power_of_two_def smear_def Let_def word_less_nat_alt)
  also have "\<dots> = mask (Suc n) + 1" using smear_mask [of n "v - 1"] n n64 v1 by simp
  also have "\<dots> = 2 ^ Suc n" by (simp add: mask_eq_exp_minus_1)
  finally show ?thesis using that [of n] n n64 assms by simp
qed

section \<open>Invariant\<close>

definition ring_shape :: "zedis_ring_buffer \<Rightarrow> nat \<Rightarrow> bool" where
  "ring_shape ring k \<longleftrightarrow> k < 64 \<and> rg_capacity ring = 2 ^ k \<and> length (rg_slots ring) = 2 ^ k"

definition slot_msg :: "ring_slot \<Rightarrow> string \<times> string" where
  "slot_msg sl = (rs_channel sl, rs_payload sl)"

text \<open>What a subscriber sees of a message: the channel cut to 63 bytes, and the payload.\<close>

definition wire_msg :: "string \<Rightarrow> string \<Rightarrow> string \<times> string" where
  "wire_msg channel payload = slot_msg (make_slot channel payload 0)"

lemma slot_msg_make_slot [simp]: "slot_msg (make_slot ch pl seq) = wire_msg ch pl"
  by (simp add: wire_msg_def slot_msg_def make_slot_def Let_def)

lemma slot_index_mod:
  assumes "ring_shape ring k"
  shows "slot_index ring seq = unat seq mod 2 ^ k"
proof -
  have "seq AND (rg_capacity ring - 1) = take_bit k seq"
    using assms by (simp add: ring_shape_def take_bit_eq_mask mask_eq_exp_minus_1)
  then show ?thesis
    by (simp only: slot_index_def unsigned_take_bit_eq) (simp add: take_bit_eq_mod)
qed

lemma unat_Suc_64: "unat (w :: u64) < 2 ^ 64 - 1 \<Longrightarrow> unat (w + 1) = Suc (unat w)"
  by (simp add: unat_word_ariths)

lemma zedis_ring_init_shape:
  assumes "zedis_ring_init ring0 arena capacity m = (0, ring, arena', m')"
  obtains k where "ring_shape ring k" "rg_write_seq ring = 0" "rg_read_seq ring = 0" "unat capacity \<le> 2 ^ k"
proof -
  define cap where "cap = next_power_of_two capacity"
  obtain p where c: "capacity \<noteq> 0" "ring = \<lparr>rg_slots = replicate (unat cap) empty_slot,
      rg_capacity = cap, rg_write_seq = 0, rg_read_seq = 0\<rparr>"
    and a: "zedis_arena_calloc arena cap (of_nat sizeof_ring_slot) 64 m = (Some p, arena', m')"
    using assms by (auto simp: zedis_ring_init_def cap_def Let_def split: if_splits prod.splits option.splits)
  have nz: "cap \<noteq> 0" using a by (auto simp: zedis_arena_calloc_def zedis_arena_alloc_def)
  show ?thesis
  proof (cases "unat capacity < 2")
    case True
    then have "cap = 2 ^ 1" by (simp add: cap_def next_power_of_two_def word_less_nat_alt)
    then show ?thesis using that [of 1] c True by (simp add: ring_shape_def)
  next
    case False
    then obtain n where n: "unat capacity \<le> 2 ^ Suc n" "n < 64" "cap = 2 ^ Suc n"
      using next_power_of_two_spec [of capacity] unfolding cap_def by auto
    have "Suc n \<noteq> 64"
    proof
      assume "Suc n = 64"
      then have "cap = 0" using n(3) by simp
      then show False using nz by simp
    qed
    then have "Suc n < 64" using n(2) by simp
    then show ?thesis using that [of "Suc n"] c n unat_pow2 [of "Suc n"] by (simp add: ring_shape_def)
  qed
qed

section \<open>A producer and a consumer\<close>

text \<open>One publishing and one polling thread over the same ring. A step is one of the phases of
  \<open>zedis_ring_publish\<close> or \<open>zedis_ring_poll\<close>; the phases of the two threads interleave freely. The
  lists record the messages whose publish has committed and those whose poll has committed.\<close>

datatype prod_pc = PIdle | PChecked u64 string string | PFilled u64 string string
datatype cons_pc = CIdle | CChecked u64 | CCopied u64 ring_slot

record spsc =
  sp_ring :: zedis_ring_buffer
  sp_prod :: prod_pc
  sp_cons :: cons_pc
  sp_sent :: "(string \<times> string) list"
  sp_recv :: "(string \<times> string) list"

inductive spsc_step :: "spsc \<Rightarrow> spsc \<Rightarrow> bool" where
  p_check: "sp_prod s = PIdle \<Longrightarrow> publish_check (sp_ring s) pl = Some seq \<Longrightarrow>
    spsc_step s (s\<lparr>sp_prod := PChecked seq ch pl\<rparr>)"
| p_fill: "sp_prod s = PChecked seq ch pl \<Longrightarrow>
    spsc_step s (s\<lparr>sp_ring := publish_fill (sp_ring s) seq ch pl, sp_prod := PFilled seq ch pl\<rparr>)"
| p_commit: "sp_prod s = PFilled seq ch pl \<Longrightarrow>
    spsc_step s (s\<lparr>sp_ring := publish_commit (sp_ring s) seq, sp_prod := PIdle,
      sp_sent := sp_sent s @ [wire_msg ch pl]\<rparr>)"
| c_check: "sp_cons s = CIdle \<Longrightarrow> poll_check (sp_ring s) = Some read \<Longrightarrow>
    spsc_step s (s\<lparr>sp_cons := CChecked read\<rparr>)"
| c_copy: "sp_cons s = CChecked read \<Longrightarrow>
    spsc_step s (s\<lparr>sp_cons := CCopied read (poll_copy (sp_ring s) read)\<rparr>)"
| c_commit: "sp_cons s = CCopied read sl \<Longrightarrow>
    spsc_step s (s\<lparr>sp_ring := poll_commit (sp_ring s) read, sp_cons := CIdle,
      sp_recv := sp_recv s @ [slot_msg sl]\<rparr>)"

inductive_cases spsc_stepE: "spsc_step s t"

text \<open>The invariant. \<open>w\<close> and \<open>r\<close> count the committed publishes and polls.\<close>

definition window_ok :: "zedis_ring_buffer \<Rightarrow> nat \<Rightarrow> nat \<Rightarrow> (string \<times> string) list \<Rightarrow> bool" where
  "window_ok ring k r sent \<longleftrightarrow>
     (\<forall>i. r \<le> i \<and> i < length sent \<longrightarrow> slot_msg (rg_slots ring ! (i mod 2 ^ k)) = sent ! i)"

fun prod_ok :: "prod_pc \<Rightarrow> zedis_ring_buffer \<Rightarrow> nat \<Rightarrow> nat \<Rightarrow> nat \<Rightarrow> bool" where
  "prod_ok PIdle ring k w r \<longleftrightarrow> True"
| "prod_ok (PChecked seq ch pl) ring k w r \<longleftrightarrow> unat seq = w \<and> w < r + 2 ^ k"
| "prod_ok (PFilled seq ch pl) ring k w r \<longleftrightarrow> unat seq = w \<and> w < r + 2 ^ k \<and>
     slot_msg (rg_slots ring ! (w mod 2 ^ k)) = wire_msg ch pl"

fun cons_ok :: "cons_pc \<Rightarrow> nat \<Rightarrow> nat \<Rightarrow> (string \<times> string) list \<Rightarrow> bool" where
  "cons_ok CIdle w r sent \<longleftrightarrow> True"
| "cons_ok (CChecked read) w r sent \<longleftrightarrow> unat read = r \<and> r < w"
| "cons_ok (CCopied read sl) w r sent \<longleftrightarrow> unat read = r \<and> r < w \<and> slot_msg sl = sent ! r"

definition spsc_inv :: "nat \<Rightarrow> spsc \<Rightarrow> bool" where
  "spsc_inv k s \<longleftrightarrow> (let ring = sp_ring s; w = length (sp_sent s); r = length (sp_recv s) in
     ring_shape ring k \<and> unat (rg_write_seq ring) = w \<and> unat (rg_read_seq ring) = r \<and>
     r \<le> w \<and> w \<le> r + 2 ^ k \<and> sp_recv s = take r (sp_sent s) \<and> window_ok ring k r (sp_sent s) \<and>
     prod_ok (sp_prod s) ring k w r \<and> cons_ok (sp_cons s) w r (sp_sent s))"

lemma mod_distinct:
  fixes i w n :: nat
  assumes "r \<le> i" "i < w" "w < r + n"
  shows "i mod n \<noteq> w mod n"
proof
  assume e: "i mod n = w mod n"
  then have "n dvd w - i" using assms by (metis less_imp_le mod_eq_dvd_iff_nat)
  then show False using assms by (auto dest: dvd_imp_le)
qed

lemma publish_check_SomeD:
  assumes "publish_check ring pl = Some seq" "ring_shape ring k"
    and "unat (rg_read_seq ring) \<le> unat (rg_write_seq ring)"
  shows "seq = rg_write_seq ring \<and> unat (rg_write_seq ring) < unat (rg_read_seq ring) + 2 ^ k"
proof -
  have "rg_write_seq ring - rg_read_seq ring < 2 ^ k" "seq = rg_write_seq ring"
    using assms(1,2) by (auto simp: publish_check_def ring_shape_def Let_def split: if_splits)
  then show ?thesis
    using assms(2,3) unat_sub [of "rg_read_seq ring" "rg_write_seq ring"] unat_pow2 [of k]
    by (simp add: word_less_nat_alt word_le_nat_alt ring_shape_def)
qed

lemma poll_check_SomeD:
  "poll_check ring = Some read \<Longrightarrow>
     read = rg_read_seq ring \<and> unat (rg_read_seq ring) < unat (rg_write_seq ring)"
  by (auto simp: poll_check_def Let_def word_le_nat_alt not_le split: if_splits)

lemma publish_fill_shape [simp]: "ring_shape (publish_fill ring seq ch pl) k = ring_shape ring k"
  by (simp add: ring_shape_def publish_fill_def)

text \<open>Filling the slot of the next sequence number touches no slot of the window.\<close>

lemma publish_fill_slots:
  assumes "ring_shape ring k" "unat seq = w" "w < r + 2 ^ k"
  shows "slot_msg (rg_slots (publish_fill ring seq ch pl) ! (w mod 2 ^ k)) = wire_msg ch pl \<and>
    (\<forall>i. r \<le> i \<and> i < w \<longrightarrow> rg_slots (publish_fill ring seq ch pl) ! (i mod 2 ^ k) = rg_slots ring ! (i mod 2 ^ k))"
proof -
  have "slot_index ring seq = w mod 2 ^ k" "length (rg_slots ring) = 2 ^ k"
    using slot_index_mod [OF assms(1), of seq] assms by (simp_all add: ring_shape_def)
  then show ?thesis using mod_distinct [of r _ w "2 ^ k"] assms(3)
    by (simp add: publish_fill_def) (metis nth_list_update_neq)
qed

lemma spsc_inv_step:
  assumes inv: "spsc_inv k s" and step: "spsc_step s t" and bound: "length (sp_sent t) < 2 ^ 64"
  shows "spsc_inv k t"
  using step
proof (cases rule: spsc_step.cases)
  case (p_check pl seq ch)
  then show ?thesis
    using inv publish_check_SomeD [of "sp_ring s" pl seq k] by (simp add: spsc_inv_def Let_def)
next
  case (p_fill seq ch pl)
  then have F: "ring_shape (sp_ring s) k" "unat seq = length (sp_sent s)"
    "length (sp_sent s) < length (sp_recv s) + 2 ^ k" "window_ok (sp_ring s) k (length (sp_recv s)) (sp_sent s)"
    using inv by (simp_all add: spsc_inv_def Let_def)
  note P = publish_fill_slots [OF F(1-3), of ch pl]
  have "window_ok (publish_fill (sp_ring s) seq ch pl) k (length (sp_recv s)) (sp_sent s)"
    using F(4) P by (simp add: window_ok_def)
  then show ?thesis
    using inv p_fill P by (simp add: spsc_inv_def Let_def publish_fill_def ring_shape_def)
next
  case (p_commit seq ch pl)
  have "unat seq = length (sp_sent s)" "Suc (length (sp_sent s)) < 2 ^ 64"
    using inv bound p_commit by (simp_all add: spsc_inv_def Let_def)
  then have w: "unat (seq + 1) = Suc (length (sp_sent s))" using unat_Suc_64 [of seq] by simp
  have "window_ok (sp_ring s) k (length (sp_recv s)) (sp_sent s @ [wire_msg ch pl])"
    using inv p_commit by (auto simp: spsc_inv_def Let_def window_ok_def nth_append less_Suc_eq)
  then have "window_ok (publish_commit (sp_ring s) seq) k (length (sp_recv s)) (sp_sent s @ [wire_msg ch pl])"
    by (simp add: window_ok_def publish_commit_def)
  moreover have "cons_ok (sp_cons s) (Suc (length (sp_sent s))) (length (sp_recv s)) (sp_sent s @ [wire_msg ch pl])"
    using inv by (cases "sp_cons s") (auto simp: spsc_inv_def Let_def nth_append)
  ultimately show ?thesis
    using inv p_commit w by (simp add: spsc_inv_def Let_def publish_commit_def ring_shape_def)
next
  case (c_check read)
  then show ?thesis
    using inv poll_check_SomeD [of "sp_ring s" read] by (simp add: spsc_inv_def Let_def)
next
  case (c_copy read)
  then have "slot_msg (poll_copy (sp_ring s) read) = sp_sent s ! length (sp_recv s)"
    using inv slot_index_mod [of "sp_ring s" k read]
    by (simp add: spsc_inv_def Let_def poll_copy_def window_ok_def)
  then show ?thesis using inv c_copy by (simp add: spsc_inv_def Let_def)
next
  case (c_commit read sl)
  have r: "unat read = length (sp_recv s)" "length (sp_recv s) < length (sp_sent s)"
    "slot_msg sl = sp_sent s ! length (sp_recv s)"
    using inv c_commit by (simp_all add: spsc_inv_def Let_def)
  then have "unat (read + 1) = Suc (length (sp_recv s))"
    using unat_Suc_64 [of read] bound c_commit by simp
  moreover have "sp_recv s @ [slot_msg sl] = take (Suc (length (sp_recv s))) (sp_sent s)"
    using inv r by (simp add: spsc_inv_def Let_def take_Suc_conv_app_nth)
  moreover have "window_ok (poll_commit (sp_ring s) read) k (Suc (length (sp_recv s))) (sp_sent s)"
    using inv by (simp add: spsc_inv_def Let_def window_ok_def poll_commit_def)
  moreover have "prod_ok (sp_prod s) (poll_commit (sp_ring s) read) k (length (sp_sent s)) (Suc (length (sp_recv s)))"
    using inv by (cases "sp_prod s") (auto simp: spsc_inv_def Let_def poll_commit_def)
  ultimately show ?thesis
    using inv c_commit r by (simp add: spsc_inv_def Let_def poll_commit_def ring_shape_def)
qed

lemma spsc_step_sent: "spsc_step s t \<Longrightarrow> length (sp_sent s) \<le> length (sp_sent t)"
  by (auto elim: spsc_stepE)

lemma spsc_reach_inv:
  assumes "spsc_step\<^sup>*\<^sup>* s t" "spsc_inv k s" "length (sp_sent t) < 2 ^ 64"
  shows "spsc_inv k t"
  using assms
proof (induction rule: rtranclp_induct)
  case (step t u)
  then have "length (sp_sent t) < 2 ^ 64" using spsc_step_sent [of t u] by simp
  then show ?case using step spsc_inv_step by blast
qed

definition spsc_start :: "zedis_ring_buffer \<Rightarrow> spsc" where
  "spsc_start ring = \<lparr>sp_ring = ring, sp_prod = PIdle, sp_cons = CIdle, sp_sent = [], sp_recv = []\<rparr>"

lemma spsc_start_inv:
  "ring_shape ring k \<Longrightarrow> rg_write_seq ring = 0 \<Longrightarrow> rg_read_seq ring = 0 \<Longrightarrow> spsc_inv k (spsc_start ring)"
  by (simp add: spsc_inv_def spsc_start_def window_ok_def)

section \<open>The ring as a bounded queue\<close>

text \<open>A run of publications: which were accepted, and the state after them.\<close>

fun pushes :: "('s \<Rightarrow> 'm \<Rightarrow> 's option) \<Rightarrow> 's \<Rightarrow> 'm list \<Rightarrow> bool list \<times> 's" where
  "pushes push s [] = ([], s)"
| "pushes push s (x # xs) = (case push s x of
      None \<Rightarrow> (case pushes push s xs of (rs, s') \<Rightarrow> (False # rs, s'))
    | Some s1 \<Rightarrow> (case pushes push s1 xs of (rs, s') \<Rightarrow> (True # rs, s')))"

text \<open>The contract the PUBLISH handler relies on: a queue of at most \<open>cap\<close> messages, which can take
  \<open>limit\<close> messages over its life.\<close>

locale bounded_fifo =
  fixes inv :: "'s \<Rightarrow> bool"
    and view :: "'s \<Rightarrow> 'm list"
    and cap :: "'s \<Rightarrow> nat"
    and taken :: "'s \<Rightarrow> nat"
    and limit :: nat
    and ok :: "'a \<Rightarrow> bool"
    and enc :: "'a \<Rightarrow> 'm"
    and push :: "'s \<Rightarrow> 'a \<Rightarrow> 's option"
    and pop :: "'s \<Rightarrow> ('m \<times> 's) option"
  assumes push_full: "inv s \<Longrightarrow> cap s \<le> length (view s) \<Longrightarrow> push s x = None"
    and push_bad: "inv s \<Longrightarrow> \<not> ok x \<Longrightarrow> push s x = None"
    and push_room: "inv s \<Longrightarrow> ok x \<Longrightarrow> length (view s) < cap s \<Longrightarrow> taken s < limit \<Longrightarrow>
      \<exists>s'. push s x = Some s' \<and> inv s' \<and> view s' = view s @ [enc x] \<and> cap s' = cap s \<and> taken s' = Suc (taken s)"
    and pop_empty: "inv s \<Longrightarrow> view s = [] \<Longrightarrow> pop s = None"
    and pop_head: "inv s \<Longrightarrow> view s = y # ys \<Longrightarrow>
      \<exists>s'. pop s = Some (y, s') \<and> inv s' \<and> view s' = ys \<and> cap s' = cap s \<and> taken s' = taken s"
begin

lemma pushes_saturate:
  assumes "inv s" "length (view s) \<le> cap s" "taken s + length xs < limit" "\<forall>x \<in> set xs. ok x"
  shows "\<exists>s'. pushes push s xs = (replicate (min (length xs) (cap s - length (view s))) True @
      replicate (length xs - (cap s - length (view s))) False, s') \<and>
    inv s' \<and> view s' = view s @ map enc (take (cap s - length (view s)) xs)"
  using assms
proof (induction xs arbitrary: s)
  case (Cons x xs)
  show ?case
  proof (cases "length (view s) < cap s")
    case True
    then obtain s1 where s1: "push s x = Some s1" "inv s1" "view s1 = view s @ [enc x]" "cap s1 = cap s"
        "taken s1 = Suc (taken s)"
      using push_room [of s x] Cons.prems by auto
    have "cap s - length (view s) = Suc (cap s - length (view s1))" using True s1(3) by simp
    then show ?thesis using Cons.IH [of s1] s1 Cons.prems True by auto
  next
    case False
    then have "cap s - length (view s) = 0" "push s x = None" using push_full Cons.prems by simp_all
    then show ?thesis using Cons.IH [of s] Cons.prems by auto
  qed
qed simp

end

text \<open>The messages of the window, oldest first.\<close>

definition ring_view :: "zedis_ring_buffer \<Rightarrow> (string \<times> string) list" where
  "ring_view ring = map (\<lambda>i. slot_msg (rg_slots ring ! (i mod unat (rg_capacity ring))))
     [unat (rg_read_seq ring)..<unat (rg_write_seq ring)]"

definition ring_inv :: "zedis_ring_buffer \<Rightarrow> bool" where
  "ring_inv ring \<longleftrightarrow> (\<exists>k. ring_shape ring k) \<and>
     unat (rg_read_seq ring) \<le> unat (rg_write_seq ring) \<and>
     unat (rg_write_seq ring) \<le> unat (rg_read_seq ring) + unat (rg_capacity ring)"

lemma ring_shape_cap: "ring_shape ring k \<Longrightarrow> unat (rg_capacity ring) = 2 ^ k"
  by (simp add: ring_shape_def unat_pow2)

lemma length_ring_view: "length (ring_view ring) = unat (rg_write_seq ring) - unat (rg_read_seq ring)"
  by (simp add: ring_view_def)

lemma publish_check_room:
  assumes "ring_inv ring" "length pl \<le> ZEDIS_RING_MSG_MAX"
  shows "publish_check ring pl =
    (if length (ring_view ring) < unat (rg_capacity ring) then Some (rg_write_seq ring) else None)"
  using assms unat_sub [of "rg_read_seq ring" "rg_write_seq ring"]
  by (auto simp: publish_check_def Let_def ring_inv_def length_ring_view word_le_nat_alt)

lemma publish_view:
  fixes ch pl :: string
  assumes inv: "ring_inv ring" and room: "length (ring_view ring) < unat (rg_capacity ring)"
    and seq: "unat (rg_write_seq ring) < 2 ^ 64 - 1"
  defines "ring' \<equiv> publish_commit (publish_fill ring (rg_write_seq ring) ch pl) (rg_write_seq ring)"
  shows "ring_inv ring' \<and> ring_view ring' = ring_view ring @ [wire_msg ch pl] \<and>
    rg_capacity ring' = rg_capacity ring \<and> unat (rg_write_seq ring') = Suc (unat (rg_write_seq ring))"
proof -
  obtain k where k: "ring_shape ring k" using inv by (auto simp: ring_inv_def)
  let ?w = "unat (rg_write_seq ring)" and ?r = "unat (rg_read_seq ring)"
  note c = ring_shape_cap [OF k]
  have le: "?r \<le> ?w" "?w < ?r + 2 ^ k" using inv room c by (simp_all add: ring_inv_def length_ring_view)
  have w: "unat (rg_write_seq ring + 1) = Suc ?w" using unat_Suc_64 [OF seq] .
  note P = publish_fill_slots [OF k refl le(2), of ch pl]
  have f: "rg_slots ring' = rg_slots (publish_fill ring (rg_write_seq ring) ch pl)" "rg_capacity ring' = rg_capacity ring"
    "rg_read_seq ring' = rg_read_seq ring" "rg_write_seq ring' = rg_write_seq ring + 1"
    by (simp_all add: ring'_def publish_commit_def publish_fill_def)
  have "ring_shape ring' k" using k by (simp add: ring_shape_def ring'_def publish_commit_def publish_fill_def)
  then have "ring_inv ring'" using le w c by (auto simp: ring_inv_def f)
  moreover have "ring_view ring' = ring_view ring @ [wire_msg ch pl]"
    using P le(1) unfolding ring_view_def f w c by simp
  ultimately show ?thesis using w f by simp
qed

lemma poll_view:
  assumes inv: "ring_inv ring"
  shows "zedis_ring_poll ring = (case ring_view ring of [] \<Rightarrow> (None, ring)
      | _ \<Rightarrow> (Some (poll_copy ring (rg_read_seq ring)), poll_commit ring (rg_read_seq ring))) \<and>
    (\<forall>x xs. ring_view ring = x # xs \<longrightarrow> slot_msg (poll_copy ring (rg_read_seq ring)) = x \<and>
      ring_view (poll_commit ring (rg_read_seq ring)) = xs \<and> ring_inv (poll_commit ring (rg_read_seq ring)))"
proof -
  obtain k where k: "ring_shape ring k" using inv by (auto simp: ring_inv_def)
  let ?w = "unat (rg_write_seq ring)" and ?r = "unat (rg_read_seq ring)"
  note c = ring_shape_cap [OF k]
  show ?thesis
  proof (cases "?r < ?w")
    case False
    then show ?thesis
      by (simp add: zedis_ring_poll_def poll_check_def Let_def ring_view_def word_le_nat_alt)
  next
    case True
    then have up: "[?r..<?w] = ?r # [Suc ?r..<?w]" by (simp add: upt_conv_Cons)
    have "?r < 2 ^ 64 - 1" using True unsigned_less [of "rg_write_seq ring", where ?'a = nat] by simp
    then have r: "unat (rg_read_seq ring + 1) = Suc ?r" by (rule unat_Suc_64)
    have "ring_shape (poll_commit ring (rg_read_seq ring)) k"
      using k by (simp add: ring_shape_def poll_commit_def)
    then have "ring_inv (poll_commit ring (rg_read_seq ring))"
      using inv True r c by (auto simp: ring_inv_def poll_commit_def)
    moreover have "slot_msg (poll_copy ring (rg_read_seq ring)) = slot_msg (rg_slots ring ! (?r mod 2 ^ k))"
      using slot_index_mod [OF k] by (simp add: poll_copy_def)
    moreover have "ring_view (poll_commit ring (rg_read_seq ring)) =
        map (\<lambda>i. slot_msg (rg_slots ring ! (i mod 2 ^ k))) [Suc ?r..<?w]"
      using r c by (simp add: ring_view_def poll_commit_def)
    ultimately show ?thesis
      using True c by (simp add: zedis_ring_poll_def poll_check_def Let_def ring_view_def up word_le_nat_alt)
  qed
qed

definition ring_push :: "zedis_ring_buffer \<Rightarrow> string \<times> string \<Rightarrow> zedis_ring_buffer option" where
  "ring_push ring m = (case zedis_ring_publish ring (Some (fst m)) (Some (snd m)) of
     (ret, ring') \<Rightarrow> if ret = 0 then Some ring' else None)"

definition ring_pop :: "zedis_ring_buffer \<Rightarrow> ((string \<times> string) \<times> zedis_ring_buffer) option" where
  "ring_pop ring = (case zedis_ring_poll ring of
     (None, _) \<Rightarrow> None | (Some sl, ring') \<Rightarrow> Some (slot_msg sl, ring'))"

definition ring_cap :: "zedis_ring_buffer \<Rightarrow> nat" where
  "ring_cap ring = unat (rg_capacity ring)"

definition payload_ok :: "string \<times> string \<Rightarrow> bool" where
  "payload_ok m \<longleftrightarrow> length (snd m) \<le> ZEDIS_RING_MSG_MAX"

lemma ring_push_eq:
  "ring_push ring m = map_option (\<lambda>seq. publish_commit (publish_fill ring seq (fst m) (snd m)) seq)
     (publish_check ring (snd m))"
  by (simp add: ring_push_def zedis_ring_publish_def split: option.splits)

interpretation ring: bounded_fifo ring_inv ring_view ring_cap "\<lambda>ring. unat (rg_write_seq ring)" "2 ^ 64 - 1"
    payload_ok "\<lambda>m. wire_msg (fst m) (snd m)" ring_push ring_pop
proof
  fix s :: zedis_ring_buffer and x :: "string \<times> string"
  assume inv: "ring_inv s"
  show "ring_push s x = None" if "ring_cap s \<le> length (ring_view s)"
  proof (cases "payload_ok x")
    case True
    then show ?thesis
      using that publish_check_room [OF inv, of "snd x"] by (simp add: ring_push_eq ring_cap_def payload_ok_def)
  qed (simp add: ring_push_eq publish_check_def payload_ok_def)
  show "ring_push s x = None" if "\<not> payload_ok x"
    using that by (simp add: ring_push_eq publish_check_def payload_ok_def)
  show "\<exists>s'. ring_push s x = Some s' \<and> ring_inv s' \<and> ring_view s' = ring_view s @ [wire_msg (fst x) (snd x)] \<and>
      ring_cap s' = ring_cap s \<and> unat (rg_write_seq s') = Suc (unat (rg_write_seq s))"
    if "payload_ok x" "length (ring_view s) < ring_cap s" "unat (rg_write_seq s) < 2 ^ 64 - 1"
    using that publish_check_room [OF inv, of "snd x"] publish_view [OF inv, of "fst x" "snd x"]
    by (simp add: ring_push_eq ring_cap_def payload_ok_def)
next
  fix s :: zedis_ring_buffer assume inv: "ring_inv s"
  show "ring_pop s = None" if "ring_view s = []"
    using poll_view [OF inv] that by (simp add: ring_pop_def)
next
  fix s :: zedis_ring_buffer and x and xs :: "(string \<times> string) list"
  assume inv: "ring_inv s" and v: "ring_view s = x # xs"
  show "\<exists>s'. ring_pop s = Some (x, s') \<and> ring_inv s' \<and> ring_view s' = xs \<and> ring_cap s' = ring_cap s \<and>
      unat (rg_write_seq s') = unat (rg_write_seq s)"
    using poll_view [OF inv] v by (simp add: ring_pop_def ring_cap_def) (simp add: poll_commit_def)
qed

section \<open>Properties\<close>



text \<open>
  C30. First in, first out, on both branches. \<open>zedis_ring_publish\<close> appends the message (its channel cut
  to 63 bytes) if the payload fits and the ring is not full, and otherwise returns -1 and changes
  nothing; \<open>zedis_ring_poll\<close> returns the oldest message, or nothing if there is none.
\<close>

theorem ring_fifo:
  assumes "ring_inv ring" and "unat (rg_write_seq ring) < 2 ^ 64 - 1"
  shows "(if length pl \<le> ZEDIS_RING_MSG_MAX \<and> length (ring_view ring) < ring_cap ring
          then \<exists>ring'. zedis_ring_publish ring (Some ch) (Some pl) = (0, ring') \<and> ring_inv ring' \<and>
                 ring_view ring' = ring_view ring @ [wire_msg ch pl]
          else zedis_ring_publish ring (Some ch) (Some pl) = (-1, ring)) \<and>
    (case ring_view ring of [] \<Rightarrow> zedis_ring_poll ring = (None, ring)
     | x # xs \<Rightarrow> \<exists>sl ring'. zedis_ring_poll ring = (Some sl, ring') \<and> slot_msg sl = x \<and> ring_inv ring' \<and>
         ring_view ring' = xs)"
proof
  show "if length pl \<le> ZEDIS_RING_MSG_MAX \<and> length (ring_view ring) < ring_cap ring
      then \<exists>ring'. zedis_ring_publish ring (Some ch) (Some pl) = (0, ring') \<and> ring_inv ring' \<and>
             ring_view ring' = ring_view ring @ [wire_msg ch pl]
      else zedis_ring_publish ring (Some ch) (Some pl) = (-1, ring)"
  proof (cases "length pl \<le> ZEDIS_RING_MSG_MAX")
    case True
    then show ?thesis
      using publish_check_room [OF assms(1) True] publish_view [OF assms(1) _ assms(2), of ch pl]
      by (auto simp: zedis_ring_publish_def ring_cap_def)
  qed (simp add: zedis_ring_publish_def publish_check_def)
  show "case ring_view ring of [] \<Rightarrow> zedis_ring_poll ring = (None, ring)
     | x # xs \<Rightarrow> \<exists>sl ring'. zedis_ring_poll ring = (Some sl, ring') \<and> slot_msg sl = x \<and> ring_inv ring' \<and>
         ring_view ring' = xs"
    using poll_view [OF assms(1)] by (cases "ring_view ring") auto
qed

definition demo_ring :: zedis_ring_buffer where
  "demo_ring = \<lparr>rg_slots = [empty_slot, empty_slot], rg_capacity = 2, rg_write_seq = 0, rg_read_seq = 0\<rparr>"

lemma demo_ring_inv:
  "ring_shape demo_ring 1" "ring_inv demo_ring" "ring_view demo_ring = []" "ring_cap demo_ring = 2"
proof -
  show "ring_shape demo_ring 1" by (simp add: ring_shape_def demo_ring_def)
  then show "ring_inv demo_ring" by (auto simp: ring_inv_def demo_ring_def)
qed (simp_all add: ring_view_def ring_cap_def demo_ring_def)

theorem ring_fifo_witness:
  "\<exists>ring'. zedis_ring_publish demo_ring (Some ''news'') (Some ''hi'') = (0, ring') \<and>
     ring_view ring' = [(''news'', ''hi'')]"
  using ring_fifo [of demo_ring "''hi''" "''news''"] demo_ring_inv
  by (auto simp: demo_ring_def ZEDIS_RING_MSG_MAX_def wire_msg_def slot_msg_def make_slot_def cstr_def channel_cap_def)



text \<open>
  C37. A ring nobody polls fills up for good: of any run of publications from an empty ring exactly the
  first \<open>capacity\<close> are accepted and every later one is refused.
\<close>

theorem ring_saturates:
  assumes "ring_inv ring" and "ring_view ring = []" and "\<forall>m \<in> set ms. length (snd m) \<le> ZEDIS_RING_MSG_MAX"
    and "unat (rg_write_seq ring) + length ms < 2 ^ 64 - 1"
  shows "fst (pushes ring_push ring ms) =
    replicate (min (length ms) (ring_cap ring)) True @ replicate (length ms - ring_cap ring) False"
  using ring.pushes_saturate [of ring ms] assms by (auto simp: payload_ok_def)

theorem ring_saturates_witness:
  "fst (pushes ring_push demo_ring [(''c'', ''1''), (''c'', ''2''), (''c'', ''3'')]) = [True, True, False]"
proof -
  let ?ms = "[(''c'', ''1''), (''c'', ''2''), (''c'', ''3'')]"
  have "replicate 2 True = [True, True]" by (simp add: numeral_2_eq_2)
  moreover have "unat (rg_write_seq demo_ring) = 0" by (simp add: demo_ring_def)
  ultimately show ?thesis
    using ring_saturates [OF demo_ring_inv(2,3), of ?ms] demo_ring_inv(4)
    by (simp add: ZEDIS_RING_MSG_MAX_def del: pushes.simps)
qed

end
