(* ===== verification/Order_Book.thy ===== *)
theory Order_Book
  imports Arena
begin

text \<open>
  The order book of \<^verbatim>\<open>src/src/order_book.c\<close>: a dense array of price levels, each with a bid and an ask
  quantity. Prices are 32-bit and quantities 64-bit signed integers; the additions of the code are
  written with their wrap-around.
\<close>

section \<open>Model\<close>

record price_level =
  bid_qty :: int
  ask_qty :: int

record zedis_order_book =
  bk_levels :: "price_level list"
  bk_price_min :: int
  bk_price_max :: int
  bk_num_levels :: u64

definition book_zero :: zedis_order_book where
  "book_zero = \<lparr>bk_levels = [], bk_price_min = 0, bk_price_max = 0, bk_num_levels = 0\<rparr>"

definition price_to_index :: "zedis_order_book \<Rightarrow> int \<Rightarrow> int" where
  "price_to_index book price =
     (if price < bk_price_min book \<or> price > bk_price_max book then -1
      else wrap_i32 (price - bk_price_min book))"

text \<open>\<open>sizeof(price_level_t)\<close>. As for the other tables, the array is the zeroed block of the arena read
  as levels, which is faithful as long as the product in \<open>zedis_arena_calloc\<close> does not wrap.\<close>

definition sizeof_price_level :: nat where "sizeof_price_level = 16"

definition zedis_book_init ::
  "zedis_order_book \<Rightarrow> zedis_arena \<Rightarrow> int \<Rightarrow> int \<Rightarrow> mem \<Rightarrow> int \<times> zedis_order_book \<times> zedis_arena \<times> mem" where
  "zedis_book_init book arena price_min price_max m =
     (if price_max < price_min then (-1, book, arena, m)
      else let num = of_int (wrap_i32 (wrap_i32 (price_max - price_min) + 1)) in
        case zedis_arena_calloc arena num (of_nat sizeof_price_level) 64 m of
          (None, arena', m') \<Rightarrow> (-1, book\<lparr>bk_levels := []\<rparr>, arena', m')
        | (Some p, arena', m') \<Rightarrow>
            (0, \<lparr>bk_levels = replicate (unat num) \<lparr>bid_qty = 0, ask_qty = 0\<rparr>, bk_price_min = price_min,
                 bk_price_max = price_max, bk_num_levels = num\<rparr>, arena', m'))"

definition zedis_book_destroy :: "zedis_order_book \<Rightarrow> zedis_order_book" where
  "zedis_book_destroy book = book_zero"

text \<open>The quantity after an order: the wrapped sum, and 0 for a negative one.\<close>

definition add_qty :: "int \<Rightarrow> int \<Rightarrow> int" where
  "add_qty old qty = (let s = wrap_i64 (old + qty) in if s < 0 then 0 else s)"

definition zedis_book_bid :: "zedis_order_book \<Rightarrow> int \<Rightarrow> int \<Rightarrow> int \<times> zedis_order_book" where
  "zedis_book_bid book price qty =
     (let idx = price_to_index book price in
      if idx < 0 then (-1, book)
      else let i = nat idx; lv = bk_levels book ! i in
        (0, book\<lparr>bk_levels := (bk_levels book)[i := lv\<lparr>bid_qty := add_qty (bid_qty lv) qty\<rparr>]\<rparr>))"

definition zedis_book_ask :: "zedis_order_book \<Rightarrow> int \<Rightarrow> int \<Rightarrow> int \<times> zedis_order_book" where
  "zedis_book_ask book price qty =
     (let idx = price_to_index book price in
      if idx < 0 then (-1, book)
      else let i = nat idx; lv = bk_levels book ! i in
        (0, book\<lparr>bk_levels := (bk_levels book)[i := lv\<lparr>ask_qty := add_qty (ask_qty lv) qty\<rparr>]\<rparr>))"

definition zedis_book_level :: "zedis_order_book \<Rightarrow> int \<Rightarrow> (int \<times> int) option" where
  "zedis_book_level book price =
     (let idx = price_to_index book price in
      if idx < 0 then None
      else let lv = bk_levels book ! nat idx in Some (bid_qty lv, ask_qty lv))"

section \<open>Invariant\<close>

definition qty_ok :: "int \<Rightarrow> bool" where
  "qty_ok q \<longleftrightarrow> 0 \<le> q \<and> q < 2 ^ 63"

definition book_wf :: "zedis_order_book \<Rightarrow> bool" where
  "book_wf book \<longleftrightarrow> bk_price_min book \<le> bk_price_max book \<and>
     bk_price_max book - bk_price_min book < 2 ^ 31 - 1 \<and>
     int (length (bk_levels book)) = bk_price_max book - bk_price_min book + 1 \<and>
     (\<forall>lv \<in> set (bk_levels book). qty_ok (bid_qty lv) \<and> qty_ok (ask_qty lv))"

lemma add_qty_ok [simp]: "qty_ok (add_qty old qty)"
  using wrap_i64_in [of "old + qty"] by (auto simp: add_qty_def qty_ok_def in_i64_def Let_def)

lemma add_qty_exact: "in_i64 (old + qty) \<Longrightarrow> add_qty old qty = max 0 (old + qty)"
  by (simp add: add_qty_def wrap_i64_id Let_def)

lemma level_in_bounds:
  "book_wf book \<Longrightarrow> bk_price_min book \<le> price \<Longrightarrow> price \<le> bk_price_max book \<Longrightarrow>
     nat (price - bk_price_min book) < length (bk_levels book)"
  unfolding book_wf_def by linarith

text \<open>The index of a price is in bounds exactly when the price is in the range of the book.\<close>

lemma price_to_index_cases:
  assumes "book_wf book"
  obtains (out) "price < bk_price_min book \<or> bk_price_max book < price" "price_to_index book price = -1"
  | (inside) "bk_price_min book \<le> price" "price \<le> bk_price_max book"
      "price_to_index book price = price - bk_price_min book"
      "nat (price_to_index book price) < length (bk_levels book)"
proof (cases "price < bk_price_min book \<or> bk_price_max book < price")
  case True
  then show ?thesis using out by (simp add: price_to_index_def)
next
  case False
  then have "in_i32 (price - bk_price_min book)" using assms by (simp add: book_wf_def in_i32_def)
  then have "price_to_index book price = price - bk_price_min book"
    using False by (simp add: price_to_index_def wrap_i32_id)
  then show ?thesis using inside False level_in_bounds [OF assms] by simp
qed

text \<open>What the book means: for each price in range, the two quantities.\<close>

definition book_abs :: "zedis_order_book \<Rightarrow> int \<Rightarrow> (int \<times> int) option" where
  "book_abs book price =
     (if bk_price_min book \<le> price \<and> price \<le> bk_price_max book
      then let lv = bk_levels book ! nat (price - bk_price_min book) in Some (bid_qty lv, ask_qty lv)
      else None)"

lemma zedis_book_level_abs: "book_wf book \<Longrightarrow> zedis_book_level book price = book_abs book price"
  by (rule price_to_index_cases [of book price])
    (auto simp: zedis_book_level_def book_abs_def Let_def)

text \<open>Replacing the level of one price.\<close>

lemma level_update:
  assumes wf: "book_wf book" and p: "bk_price_min book \<le> price" "price \<le> bk_price_max book"
    and q: "qty_ok (bid_qty lv)" "qty_ok (ask_qty lv)"
  defines "book' \<equiv> book\<lparr>bk_levels := (bk_levels book)[nat (price - bk_price_min book) := lv]\<rparr>"
  shows "book_wf book' \<and> book_abs book' = (book_abs book)(price \<mapsto> (bid_qty lv, ask_qty lv))"
proof
  have i: "nat (price - bk_price_min book) < length (bk_levels book)" by (rule level_in_bounds [OF wf p])
  show "book_wf book'"
    using wf q set_update_subset_insert [of "bk_levels book" "nat (price - bk_price_min book)" lv]
    by (auto simp: book_wf_def book'_def)
  show "book_abs book' = (book_abs book)(price \<mapsto> (bid_qty lv, ask_qty lv))"
  proof
    fix x
    have "nat (x - bk_price_min book) \<noteq> nat (price - bk_price_min book)"
      if "x \<noteq> price" "bk_price_min book \<le> x" using that p by simp
    then show "book_abs book' x = ((book_abs book)(price \<mapsto> (bid_qty lv, ask_qty lv))) x"
      using i p by (auto simp: book_abs_def book'_def Let_def)
  qed
qed

lemma book_bid_step:
  assumes wf: "book_wf book"
  shows "(case book_abs book price of
      None \<Rightarrow> zedis_book_bid book price qty = (-1, book)
    | Some (b, a) \<Rightarrow> \<exists>book'. zedis_book_bid book price qty = (0, book') \<and> book_wf book' \<and>
        book_abs book' = (book_abs book)(price \<mapsto> (add_qty b qty, a)))"
  using wf
proof (cases rule: price_to_index_cases [of book price])
  case out
  then show ?thesis by (auto simp: zedis_book_bid_def book_abs_def)
next
  case inside
  let ?lv = "bk_levels book ! nat (price - bk_price_min book)"
  have "qty_ok (ask_qty ?lv)" using wf inside by (simp add: book_wf_def)
  then show ?thesis
    using level_update [OF wf inside(1,2), of "?lv\<lparr>bid_qty := add_qty (bid_qty ?lv) qty\<rparr>"] inside
    by (auto simp: zedis_book_bid_def book_abs_def [of book price] Let_def)
qed

lemma book_ask_step:
  assumes wf: "book_wf book"
  shows "(case book_abs book price of
      None \<Rightarrow> zedis_book_ask book price qty = (-1, book)
    | Some (b, a) \<Rightarrow> \<exists>book'. zedis_book_ask book price qty = (0, book') \<and> book_wf book' \<and>
        book_abs book' = (book_abs book)(price \<mapsto> (b, add_qty a qty)))"
  using wf
proof (cases rule: price_to_index_cases [of book price])
  case out
  then show ?thesis by (auto simp: zedis_book_ask_def book_abs_def)
next
  case inside
  let ?lv = "bk_levels book ! nat (price - bk_price_min book)"
  have "qty_ok (bid_qty ?lv)" using wf inside by (simp add: book_wf_def)
  then show ?thesis
    using level_update [OF wf inside(1,2), of "?lv\<lparr>ask_qty := add_qty (ask_qty ?lv) qty\<rparr>"] inside
    by (auto simp: zedis_book_ask_def book_abs_def [of book price] Let_def)
qed

lemma unat_of_int_u64: "0 \<le> x \<Longrightarrow> x < 2 ^ 31 \<Longrightarrow> unat (of_int x :: u64) = nat x"
  by (simp add: unsigned_of_int take_bit_int_eq_self nat_take_bit_eq)

lemma zedis_book_init_wf:
  assumes "zedis_book_init book0 arena pmin pmax m = (0, book, arena', m')" and "pmax - pmin < 2 ^ 31 - 1"
  shows "book_wf book \<and> bk_price_min book = pmin \<and> bk_price_max book = pmax \<and>
    book_abs book = (\<lambda>p. if pmin \<le> p \<and> p \<le> pmax then Some (0, 0) else None)"
proof -
  have le: "pmin \<le> pmax" using assms(1) by (auto simp: zedis_book_init_def split: if_splits)
  have "in_i32 (pmax - pmin)" "in_i32 (pmax - pmin + 1)" using assms(2) le by (simp_all add: in_i32_def)
  then have w: "wrap_i32 (wrap_i32 (pmax - pmin) + 1) = pmax - pmin + 1" by (simp add: wrap_i32_id)
  have u: "unat (of_int (pmax - pmin + 1) :: u64) = nat (pmax - pmin + 1)"
    using assms(2) le by (intro unat_of_int_u64) simp_all
  have "book = \<lparr>bk_levels = replicate (nat (pmax - pmin + 1)) \<lparr>bid_qty = 0, ask_qty = 0\<rparr>, bk_price_min = pmin,
      bk_price_max = pmax, bk_num_levels = of_int (pmax - pmin + 1)\<rparr>"
    using assms(1) le unfolding zedis_book_init_def w Let_def u
    by (auto split: if_splits prod.splits option.splits)
  then show ?thesis
    using le assms(2) by (auto simp: book_wf_def book_abs_def qty_ok_def Let_def fun_eq_iff)
qed

section \<open>Properties\<close>

text \<open>Orders as the BID and ASK handlers issue them, and the book they should produce: a function from
  prices to the two quantities, with quantities clamped at 0.\<close>

datatype order = Bid int int | Ask int int

fun order_price :: "order \<Rightarrow> int" where
  "order_price (Bid p q) = p"
| "order_price (Ask p q) = p"

fun book_step :: "order \<Rightarrow> zedis_order_book \<Rightarrow> int \<times> zedis_order_book" where
  "book_step (Bid p q) book = zedis_book_bid book p q"
| "book_step (Ask p q) book = zedis_book_ask book p q"

fun spec_step :: "order \<Rightarrow> int \<times> int \<Rightarrow> int \<times> int" where
  "spec_step (Bid p q) (b, a) = (add_qty b q, a)"
| "spec_step (Ask p q) (b, a) = (b, add_qty a q)"

definition book_run :: "order list \<Rightarrow> zedis_order_book \<Rightarrow> zedis_order_book" where
  "book_run orders book = fold (\<lambda>x bk. snd (book_step x bk)) orders book"

lemma book_step_abs:
  assumes "book_wf book"
  shows "book_wf (snd (book_step x book)) \<and>
    book_abs (snd (book_step x book)) p =
      (if p = order_price x then map_option (spec_step x) (book_abs book p) else book_abs book p)"
proof (cases x)
  case (Bid q n)
  then show ?thesis using book_bid_step [OF assms, of q n] assms by (auto split: option.splits)
next
  case (Ask q n)
  then show ?thesis using book_ask_step [OF assms, of q n] assms by (auto split: option.splits)
qed

lemma book_run_abs:
  assumes "book_wf book"
  shows "book_wf (book_run orders book) \<and>
    book_abs (book_run orders book) p =
      map_option (fold spec_step (filter (\<lambda>x. order_price x = p) orders)) (book_abs book p)"
  using assms
proof (induction orders arbitrary: book)
  case Nil
  then show ?case by (cases "book_abs book p") (simp_all add: book_run_def)
next
  case (Cons x xs)
  have "book_run (x # xs) book = book_run xs (snd (book_step x book))" by (simp add: book_run_def)
  then show ?case
    using Cons.IH [of "snd (book_step x book)"] book_step_abs [OF Cons.prems, of x p]
    by (auto simp: option.map_comp comp_def)
qed


lemma demo_book_init:
  obtains book arena' m' where "zedis_book_init book_zero demo_arena 10 19 (\<lambda>_. 0) = (0, book, arena', m')"
proof -
  have "fst (zedis_book_init book_zero demo_arena 10 19 (\<lambda>_. 0)) = 0"
    by (simp add: zedis_book_init_def zedis_arena_calloc_def zedis_arena_alloc_def demo_arena_def align_up_def
        sizeof_price_level_def wrap_i32_def)
  then show ?thesis using that by (metis prod.collapse)
qed


text \<open>
  The sum of a quantity and an order is computed before it is checked: on a level with the largest
  quantity, one more unit wraps to a negative number, and the clamp sets the level to 0.
\<close>

lemma book_bid_overflow:
  "zedis_book_bid \<lparr>bk_levels = [\<lparr>bid_qty = 2 ^ 63 - 1, ask_qty = 0\<rparr>], bk_price_min = 1, bk_price_max = 1,
       bk_num_levels = 1\<rparr> 1 1 =
     (0, \<lparr>bk_levels = [\<lparr>bid_qty = 0, ask_qty = 0\<rparr>], bk_price_min = 1, bk_price_max = 1, bk_num_levels = 1\<rparr>)"
  by (simp add: zedis_book_bid_def price_to_index_def add_qty_def wrap_i64_def wrap_i32_def Let_def)

end
