(* ===== verification/Append_Log.thy ===== *)
theory Append_Log
  imports Zedis_Prelude
begin

text \<open>
  The append-only log of \<^verbatim>\<open>src/src/append_log.c\<close>, which stores the elements of all lists: a mapped region
  of bytes to which \<open>zedis_aol_lpush\<close> appends records (a packed 8-byte header, the key, the value),
  each linked to the previous record of its list by a 32-bit offset. The region is modelled byte by
  byte, headers in little-endian order.
\<close>

section \<open>Model\<close>

definition ZEDIS_AOL_MAX_ELEM :: nat where "ZEDIS_AOL_MAX_ELEM = 512"
definition ZEDIS_AOL_MAX_KEY :: nat where "ZEDIS_AOL_MAX_KEY = 256"
definition ZEDIS_AOL_NO_PREV :: nat where "ZEDIS_AOL_NO_PREV = UINT32_MAX"

record list_meta =
  lm_head_off :: nat
  lm_tail_off :: nat
  lm_count :: nat

text \<open>\<open>lg_mapped\<close> is false when \<open>base\<close> is \<open>NULL\<close> or \<open>MAP_FAILED\<close>.\<close>

record zedis_append_log =
  lg_base :: "nat \<Rightarrow> char"
  lg_mapped :: bool
  lg_capacity :: nat
  lg_write_pos :: nat
  lg_fd :: int
  lg_is_file :: bool

definition log_zero :: zedis_append_log where
  "log_zero = \<lparr>lg_base = (\<lambda>_. NUL), lg_mapped = False, lg_capacity = 0, lg_write_pos = 0, lg_fd = 0,
     lg_is_file = False\<rparr>"

text \<open>The bytes of a little-endian integer, and reading and writing runs of bytes.\<close>

primrec le_bytes :: "nat \<Rightarrow> nat \<Rightarrow> string" where
  "le_bytes 0 n = []"
| "le_bytes (Suc k) n = char_of (n mod 256) # le_bytes k (n div 256)"

primrec le_val :: "string \<Rightarrow> nat" where
  "le_val [] = 0"
| "le_val (c # cs) = of_char c + 256 * le_val cs"

definition put_bytes :: "nat \<Rightarrow> string \<Rightarrow> (nat \<Rightarrow> char) \<Rightarrow> nat \<Rightarrow> char" where
  "put_bytes off bs mem = (\<lambda>i. if off \<le> i \<and> i < off + length bs then bs ! (i - off) else mem i)"

definition get_bytes :: "(nat \<Rightarrow> char) \<Rightarrow> nat \<Rightarrow> nat \<Rightarrow> string" where
  "get_bytes mem off n = map mem [off..<off + n]"

text \<open>The packed header \<open>aol_hdr_t\<close>: \<open>prev_off\<close> in four bytes, \<open>key_len\<close> and \<open>val_len\<close> in two.\<close>

definition sizeof_aol_hdr :: nat where "sizeof_aol_hdr = 8"

definition hdr_bytes :: "nat \<Rightarrow> nat \<Rightarrow> nat \<Rightarrow> string" where
  "hdr_bytes prev_off key_len val_len = le_bytes 4 prev_off @ le_bytes 2 key_len @ le_bytes 2 val_len"

definition hdr_prev_off :: "zedis_append_log \<Rightarrow> nat \<Rightarrow> nat" where
  "hdr_prev_off log off = le_val (get_bytes (lg_base log) off 4)"

definition hdr_key_len :: "zedis_append_log \<Rightarrow> nat \<Rightarrow> nat" where
  "hdr_key_len log off = le_val (get_bytes (lg_base log) (off + 4) 2)"

definition hdr_val_len :: "zedis_append_log \<Rightarrow> nat \<Rightarrow> nat" where
  "hdr_val_len log off = le_val (get_bytes (lg_base log) (off + 6) 2)"

definition record_size :: "nat \<Rightarrow> nat \<Rightarrow> nat" where
  "record_size key_len val_len = sizeof_aol_hdr + key_len + val_len"

text \<open>\<open>zedis_aol_init\<close>. The results of \<open>open\<close>, \<open>ftruncate\<close> and \<open>mmap\<close> (the mapped contents) are
  parameters; a descriptor that is closed on an error path keeps its number in the structure.\<close>

definition zedis_aol_init ::
  "nat \<Rightarrow> string option \<Rightarrow> int \<Rightarrow> int \<Rightarrow> (nat \<Rightarrow> char) option \<Rightarrow> zedis_append_log \<Rightarrow> int \<times> zedis_append_log" where
  "zedis_aol_init capacity path open_res ftruncate_res mmap_res log0 =
     (if capacity < 4096 then (-1, log0)
      else let log = log_zero\<lparr>lg_capacity := capacity, lg_fd := -1\<rparr> in
        if path \<noteq> None \<and> the path \<noteq> [] \<and> hd (the path) \<noteq> NUL then
          let log = log\<lparr>lg_fd := open_res\<rparr> in
            if open_res < 0 then (-1, log)
            else if ftruncate_res \<noteq> 0 then (-1, log)
            else (case mmap_res of
                    None \<Rightarrow> (-1, log)
                  | Some mem \<Rightarrow> (0, log\<lparr>lg_base := mem, lg_mapped := True, lg_is_file := True, lg_write_pos := 0\<rparr>))
        else (case mmap_res of
                None \<Rightarrow> (-1, log)
              | Some mem \<Rightarrow> (0, log\<lparr>lg_base := mem, lg_mapped := True, lg_write_pos := 0\<rparr>)))"

text \<open>\<open>zedis_aol_destroy\<close>: the system calls made, and the cleared structure.\<close>

datatype aol_call = Msync nat | Munmap nat | Close int

definition zedis_aol_destroy :: "zedis_append_log \<Rightarrow> aol_call list \<times> zedis_append_log" where
  "zedis_aol_destroy log =
     ((if lg_mapped log then (if lg_is_file log then [Msync (lg_capacity log)] else []) @ [Munmap (lg_capacity log)]
       else []) @
      (if lg_fd log \<ge> 0 then [Close (lg_fd log)] else []),
      log_zero)"

definition zedis_aol_lpush ::
  "zedis_append_log \<Rightarrow> list_meta \<Rightarrow> string \<Rightarrow> string \<Rightarrow> int \<times> zedis_append_log \<times> list_meta" where
  "zedis_aol_lpush log meta key val =
     (if length key = 0 \<or> length key > ZEDIS_AOL_MAX_KEY \<or> length val = 0 \<or> length val > ZEDIS_AOL_MAX_ELEM
      then (-1, log, meta)
      else let need = record_size (length key) (length val) in
        if lg_write_pos log + need > lg_capacity log then (-1, log, meta)
        else let off = wrap_u32 (lg_write_pos log);
                 mem = put_bytes (lg_write_pos log) (hdr_bytes (lm_head_off meta) (length key) (length val)) (lg_base log);
                 payload = lg_write_pos log + sizeof_aol_hdr;
                 mem = put_bytes payload key mem;
                 mem = put_bytes (payload + length key) val mem
             in (0, log\<lparr>lg_base := mem, lg_write_pos := lg_write_pos log + need\<rparr>,
                 meta\<lparr>lm_tail_off := (if lm_head_off meta = ZEDIS_AOL_NO_PREV then off else lm_tail_off meta),
                      lm_head_off := off, lm_count := wrap_u32 (lm_count meta + 1)\<rparr>))"

definition hdr_at :: "zedis_append_log \<Rightarrow> nat \<Rightarrow> bool" where
  "hdr_at log off \<longleftrightarrow> \<not> (off = ZEDIS_AOL_NO_PREV \<or> off + sizeof_aol_hdr > lg_capacity log)"

text \<open>The bytes \<open>val_at\<close> points to, as many as the header says.\<close>

definition val_at :: "zedis_append_log \<Rightarrow> nat \<Rightarrow> string" where
  "val_at log off = get_bytes (lg_base log) (off + sizeof_aol_hdr + hdr_key_len log off) (hdr_val_len log off)"

text \<open>The walk along \<open>prev_off\<close> from the head, with room for \<open>n\<close> more offsets.\<close>

fun collect_offsets :: "zedis_append_log \<Rightarrow> nat \<Rightarrow> nat \<Rightarrow> nat list" where
  "collect_offsets log 0 cur = []"
| "collect_offsets log (Suc n) cur =
     (if cur = ZEDIS_AOL_NO_PREV then []
      else if \<not> hdr_at log cur then []
      else cur # collect_offsets log n (hdr_prev_off log cur))"

definition AOL_MAX_OFFSETS :: nat where "AOL_MAX_OFFSETS = 1024"

text \<open>\<open>snprintf\<close> of a text to what is left of a reply of \<open>reply_cap\<close> bytes: the reply, or failure when
  the text and its NUL do not fit.\<close>

definition reply_append :: "nat \<Rightarrow> string \<Rightarrow> string \<Rightarrow> string option" where
  "reply_append reply_cap reply txt =
     (if length txt = 0 \<or> length reply + length txt \<ge> reply_cap then None else Some (reply @ txt))"

text \<open>One element: \<open>"$%u\r\n%.*s\r\n"\<close>. The \<open>%.*s\<close> conversion stops at a NUL byte.\<close>

definition element_text :: "zedis_append_log \<Rightarrow> nat \<Rightarrow> string" where
  "element_text log off =
     CHR ''$'' # show_nat (hdr_val_len log off) @ crlf @ cstr (val_at log off) @ crlf"

fun emit_elements :: "zedis_append_log \<Rightarrow> nat \<Rightarrow> nat list \<Rightarrow> string \<Rightarrow> string option" where
  "emit_elements log reply_cap [] reply = Some reply"
| "emit_elements log reply_cap (off # offs) reply =
     (if \<not> hdr_at log off then None
      else case reply_append reply_cap reply (element_text log off) of
             None \<Rightarrow> None
           | Some reply' \<Rightarrow> emit_elements log reply_cap offs reply')"

definition zedis_aol_lrange ::
  "zedis_append_log \<Rightarrow> list_meta \<Rightarrow> int \<Rightarrow> int \<Rightarrow> nat \<Rightarrow> string option" where
  "zedis_aol_lrange log meta start0 stop0 reply_cap =
     (if lm_count meta = 0 \<or> lm_head_off meta = ZEDIS_AOL_NO_PREV
      then reply_append reply_cap [] (''*0'' @ crlf)
      else let offsets = collect_offsets log AOL_MAX_OFFSETS (lm_head_off meta);
               chain_len = int (length offsets);
               start = (if start0 < 0 then 0 else start0);
               stop = (if stop0 < 0 \<or> stop0 \<ge> chain_len then chain_len - 1 else stop0)
           in if start > stop then reply_append reply_cap [] (''*0'' @ crlf)
              else case reply_append reply_cap [] (CHR ''*'' # show_int (stop - start + 1) @ crlf) of
                     None \<Rightarrow> None
                   | Some reply \<Rightarrow>
                       emit_elements log reply_cap
                         (take (nat (stop - start + 1)) (drop (nat start) offsets)) reply)"

definition zedis_aol_llen :: "list_meta \<Rightarrow> nat" where
  "zedis_aol_llen meta = lm_count meta"

section \<open>Bytes\<close>

lemma length_le_bytes [simp]: "length (le_bytes k n) = k"
  by (induction k arbitrary: n) auto

lemma le_val_le_bytes: "n < 256 ^ k \<Longrightarrow> le_val (le_bytes k n) = n"
proof (induction k arbitrary: n)
  case (Suc k)
  then have "n div 256 < 256 ^ k" by (simp add: less_mult_imp_div_less mult.commute)
  then show ?case using Suc.IH [of "n div 256"] by simp
qed simp

lemma length_get_bytes [simp]: "length (get_bytes mem off n) = n"
  by (simp add: get_bytes_def)

lemma get_put_same:
  assumes "i + n \<le> length bs"
  shows "get_bytes (put_bytes off bs mem) (off + i) n = take n (drop i bs)"
  using assms by (intro nth_equalityI) (simp_all add: get_bytes_def put_bytes_def add.assoc)

lemma get_put_other:
  "p + n \<le> off \<or> off + length bs \<le> p \<Longrightarrow> get_bytes (put_bytes off bs mem) p n = get_bytes mem p n"
  by (auto simp: get_bytes_def put_bytes_def)

lemma length_hdr_bytes [simp]: "length (hdr_bytes p k v) = 8"
  by (simp add: hdr_bytes_def)

section \<open>Lists in the log\<close>

text \<open>\<open>chain log key off vs\<close>: from the record at \<open>off\<close>, the \<open>prev_off\<close> links lead through records of
  \<open>key\<close> that hold the values \<open>vs\<close>, newest first, all inside the written part of the log.\<close>

fun chain :: "zedis_append_log \<Rightarrow> string \<Rightarrow> nat \<Rightarrow> string list \<Rightarrow> bool" where
  "chain log key off [] \<longleftrightarrow> off = ZEDIS_AOL_NO_PREV"
| "chain log key off (v # vs) \<longleftrightarrow>
     off < ZEDIS_AOL_NO_PREV \<and> off + record_size (length key) (length v) \<le> lg_write_pos log \<and>
     hdr_key_len log off = length key \<and> hdr_val_len log off = length v \<and>
     get_bytes (lg_base log) (off + sizeof_aol_hdr) (length key) = key \<and> val_at log off = v \<and>
     chain log key (hdr_prev_off log off) vs"

definition list_rep :: "zedis_append_log \<Rightarrow> list_meta \<Rightarrow> string \<Rightarrow> string list \<Rightarrow> bool" where
  "list_rep log meta key vs \<longleftrightarrow> chain log key (lm_head_off meta) vs \<and> lm_count meta = wrap_u32 (length vs)"

text \<open>The log stays below the 32-bit offsets.\<close>

definition log_wf :: "zedis_append_log \<Rightarrow> bool" where
  "log_wf log \<longleftrightarrow> lg_write_pos log \<le> lg_capacity log \<and> lg_capacity log < 2 ^ 32"

definition log_admits :: "zedis_append_log \<Rightarrow> string \<Rightarrow> string \<Rightarrow> bool" where
  "log_admits log key val \<longleftrightarrow> 0 < length key \<and> length key \<le> ZEDIS_AOL_MAX_KEY \<and>
     0 < length val \<and> length val \<le> ZEDIS_AOL_MAX_ELEM \<and>
     lg_write_pos log + record_size (length key) (length val) \<le> lg_capacity log"

text \<open>A log that only grew.\<close>

definition log_extends :: "zedis_append_log \<Rightarrow> zedis_append_log \<Rightarrow> bool" where
  "log_extends log log' \<longleftrightarrow> lg_write_pos log \<le> lg_write_pos log' \<and>
     (\<forall>i < lg_write_pos log. lg_base log' i = lg_base log i)"

lemma get_bytes_extends:
  "log_extends log log' \<Longrightarrow> off + n \<le> lg_write_pos log \<Longrightarrow>
     get_bytes (lg_base log') off n = get_bytes (lg_base log) off n"
  by (auto simp: get_bytes_def log_extends_def)

lemma chain_extends:
  assumes ext: "log_extends log log'"
  shows "chain log key off vs \<Longrightarrow> chain log' key off vs"
proof (induction vs arbitrary: off)
  case (Cons v vs)
  note G = get_bytes_extends [OF ext]
  have b: "off + 8 + length key + length v \<le> lg_write_pos log" "off < ZEDIS_AOL_NO_PREV"
    using Cons.prems by (simp_all add: record_size_def sizeof_aol_hdr_def)
  have h: "hdr_prev_off log' off = hdr_prev_off log off" "hdr_key_len log' off = hdr_key_len log off"
    "hdr_val_len log' off = hdr_val_len log off"
    using b by (simp_all add: hdr_prev_off_def hdr_key_len_def hdr_val_len_def G)
  have "get_bytes (lg_base log') (off + sizeof_aol_hdr) (length key) = key" "val_at log' off = v"
    using b h Cons.prems by (auto simp: val_at_def sizeof_aol_hdr_def G)
  then show ?case
    using Cons h ext by (auto simp: log_extends_def)
qed simp

lemma get_put_same0: "n = length bs \<Longrightarrow> get_bytes (put_bytes off bs mem) off n = bs"
  using get_put_same [of 0 n bs off mem] by simp

text \<open>The record that \<open>zedis_aol_lpush\<close> writes reads back field by field.\<close>

lemma record_reads_back:
  fixes w :: nat and mem :: "nat \<Rightarrow> char"
  assumes "prev < 2 ^ 32" "length key < 2 ^ 16" "length val < 2 ^ 16"
  defines "mem' \<equiv> put_bytes (w + 8 + length key) val (put_bytes (w + 8) key
      (put_bytes w (hdr_bytes prev (length key) (length val)) mem))"
  shows "le_val (get_bytes mem' w 4) = prev" "le_val (get_bytes mem' (w + 4) 2) = length key"
    "le_val (get_bytes mem' (w + 6) 2) = length val" "get_bytes mem' (w + 8) (length key) = key"
    "get_bytes mem' (w + 8 + length key) (length val) = val"
    "i < w \<Longrightarrow> mem' i = mem i"
proof -
  let ?h = "hdr_bytes prev (length key) (length val)"
  let ?m = "put_bytes w ?h mem"
  have hdr: "get_bytes mem' (w + j) n = get_bytes ?m (w + j) n" if "j + n \<le> 8" for j n
    using that by (simp add: mem'_def get_put_other)
  show "le_val (get_bytes mem' w 4) = prev"
    using hdr [of 0 4] get_put_same [of 0 4 ?h w mem] assms(1) by (simp add: hdr_bytes_def le_val_le_bytes)
  show "le_val (get_bytes mem' (w + 4) 2) = length key"
    using hdr [of 4 2] get_put_same [of 4 2 ?h w mem] assms(2) by (simp add: hdr_bytes_def le_val_le_bytes)
  show "le_val (get_bytes mem' (w + 6) 2) = length val"
    using hdr [of 6 2] get_put_same [of 6 2 ?h w mem] assms(3) by (simp add: hdr_bytes_def le_val_le_bytes)
  show "get_bytes mem' (w + 8) (length key) = key"
    by (simp add: mem'_def get_put_other get_put_same0)
  show "get_bytes mem' (w + 8 + length key) (length val) = val"
    by (simp add: mem'_def get_put_same0)
  show "i < w \<Longrightarrow> mem' i = mem i" by (simp add: mem'_def put_bytes_def)
qed

lemma chain_head_bound: "chain log key off vs \<Longrightarrow> off < 2 ^ 32"
  by (cases vs) (auto simp: ZEDIS_AOL_NO_PREV_def UINT32_MAX_def)

lemma lpush_refused: "\<not> log_admits log key val \<Longrightarrow> zedis_aol_lpush log meta key val = (-1, log, meta)"
  by (auto simp: log_admits_def zedis_aol_lpush_def Let_def)

lemma lpush_extends:
  assumes "zedis_aol_lpush log meta key val = (r, log', meta')"
  shows "log_extends log log'"
  using assms by (auto simp: zedis_aol_lpush_def Let_def log_extends_def put_bytes_def split: if_splits)

lemma lpush_admitted:
  assumes wf: "log_wf log" and rep: "list_rep log meta key vs" and adm: "log_admits log key val"
  shows "\<exists>log' meta'. zedis_aol_lpush log meta key val = (0, log', meta') \<and> log_wf log' \<and>
    list_rep log' meta' key (val # vs) \<and> lg_capacity log' = lg_capacity log"
proof -
  let ?w = "lg_write_pos log"
  obtain log' meta' where r: "zedis_aol_lpush log meta key val = (0, log', meta')"
    and base: "lg_base log' = put_bytes (?w + 8 + length key) val (put_bytes (?w + 8) key
      (put_bytes ?w (hdr_bytes (lm_head_off meta) (length key) (length val)) (lg_base log)))"
    and pos: "lg_write_pos log' = ?w + record_size (length key) (length val)" "lg_capacity log' = lg_capacity log"
    and meta': "lm_head_off meta' = wrap_u32 ?w" "lm_count meta' = wrap_u32 (lm_count meta + 1)"
    using adm by (auto simp: log_admits_def zedis_aol_lpush_def Let_def sizeof_aol_hdr_def)
  have lens: "length key < 2 ^ 16" "length val < 2 ^ 16" "lm_head_off meta < 2 ^ 32"
    using adm chain_head_bound rep
    by (auto simp: log_admits_def ZEDIS_AOL_MAX_KEY_def ZEDIS_AOL_MAX_ELEM_def list_rep_def)
  have w: "?w < ZEDIS_AOL_NO_PREV"
    using adm wf by (simp add: log_admits_def log_wf_def record_size_def sizeof_aol_hdr_def ZEDIS_AOL_NO_PREV_def UINT32_MAX_def)
  then have off: "wrap_u32 ?w = ?w" by (simp add: wrap_u32_def ZEDIS_AOL_NO_PREV_def UINT32_MAX_def)
  note B = record_reads_back [OF lens(3,1,2), where w = ?w and mem = "lg_base log", folded base]
  have "chain log' key (lm_head_off meta) vs"
    using chain_extends [OF lpush_extends [OF r]] rep by (simp add: list_rep_def)
  then have "chain log' key ?w (val # vs)"
    using B w pos by (simp add: hdr_prev_off_def hdr_key_len_def hdr_val_len_def val_at_def sizeof_aol_hdr_def)
  moreover have "lm_count meta' = wrap_u32 (length (val # vs))"
    using meta'(2) rep by (simp add: list_rep_def wrap_u32_def mod_simps)
  moreover have "log_wf log'" using adm wf pos by (simp add: log_wf_def log_admits_def)
  ultimately show ?thesis using r meta'(1) off pos(2) by (auto simp: list_rep_def)
qed

text \<open>The contract of a store of lists in one log: pushing to a list prepends the value, and leaves
  every list that is represented in the log as it is. The client lemma is about an array of lists,
  as the list registry keeps it.\<close>

locale list_store =
  fixes wf :: "'l \<Rightarrow> bool"
    and rep :: "'l \<Rightarrow> 'm \<Rightarrow> string \<Rightarrow> string list \<Rightarrow> bool"
    and admits :: "'l \<Rightarrow> string \<Rightarrow> string \<Rightarrow> bool"
    and push :: "'l \<Rightarrow> 'm \<Rightarrow> string \<Rightarrow> string \<Rightarrow> int \<times> 'l \<times> 'm"
  assumes push_ok: "wf l \<Longrightarrow> rep l m k vs \<Longrightarrow> admits l k v \<Longrightarrow>
      \<exists>l' m'. push l m k v = (0, l', m') \<and> wf l' \<and> rep l' m' k (v # vs)"
    and push_refused: "\<not> admits l k v \<Longrightarrow> push l m k v = (-1, l, m)"
    and push_frame: "push l m k v = (r, l', m') \<Longrightarrow> rep l m2 k2 vs2 \<Longrightarrow> rep l' m2 k2 vs2"
begin

lemma push_array:
  assumes "wf l" "length ms = length ks" "length vss = length ks" "i < length ks"
    and all: "\<forall>j < length ks. rep l (ms ! j) (ks ! j) (vss ! j)" and adm: "admits l (ks ! i) v"
  shows "\<exists>l' m'. push l (ms ! i) (ks ! i) v = (0, l', m') \<and> wf l' \<and>
    (\<forall>j < length ks. rep l' (ms[i := m'] ! j) (ks ! j) (vss[i := v # vss ! i] ! j))"
proof -
  obtain l' m' where p: "push l (ms ! i) (ks ! i) v = (0, l', m')" "wf l'" "rep l' m' (ks ! i) (v # vss ! i)"
    using push_ok [OF assms(1) _ adm] all assms(4) by blast
  moreover have "rep l' (ms[i := m'] ! j) (ks ! j) (vss[i := v # vss ! i] ! j)" if "j < length ks" for j
    using push_frame [OF p(1), of "ms ! j" "ks ! j" "vss ! j"] all that p(3) assms(2-4)
    by (cases "j = i") simp_all
  ultimately show ?thesis by blast
qed

end

lemma list_rep_extends: "log_extends log log' \<Longrightarrow> list_rep log meta key vs \<Longrightarrow> list_rep log' meta key vs"
  using chain_extends by (auto simp: list_rep_def)

interpretation aol: list_store log_wf list_rep log_admits zedis_aol_lpush
proof
  show "\<And>l m k vs v. log_wf l \<Longrightarrow> list_rep l m k vs \<Longrightarrow> log_admits l k v \<Longrightarrow>
      \<exists>l' m'. zedis_aol_lpush l m k v = (0, l', m') \<and> log_wf l' \<and> list_rep l' m' k (v # vs)"
    using lpush_admitted by blast
  show "\<And>l k v m. \<not> log_admits l k v \<Longrightarrow> zedis_aol_lpush l m k v = (-1, l, m)"
    by (rule lpush_refused)
  show "\<And>l m k v r l' m' m2 k2 vs2. zedis_aol_lpush l m k v = (r, l', m') \<Longrightarrow> list_rep l m2 k2 vs2 \<Longrightarrow>
      list_rep l' m2 k2 vs2"
    using list_rep_extends lpush_extends by blast
qed

section \<open>Ranges\<close>

text \<open>The elements LRANGE answers with, and their encoding.\<close>

definition lrange_spec :: "int \<Rightarrow> int \<Rightarrow> 'a list \<Rightarrow> 'a list" where
  "lrange_spec start stop vs =
     (let n = int (length vs);
          s = max 0 start;
          e = (if stop < 0 \<or> stop \<ge> n then n - 1 else stop)
      in take (nat (e - s + 1)) (drop (nat s) vs))"

definition bulk_text :: "string \<Rightarrow> string" where
  "bulk_text v = CHR ''$'' # show_nat (length v) @ crlf @ v @ crlf"

definition array_text :: "string list \<Rightarrow> string" where
  "array_text vs = CHR ''*'' # show_nat (length vs) @ crlf @ concat (map bulk_text vs)"

text \<open>What is sent in their place: an element is cut at its first NUL, its length is not.\<close>

definition sent_bulk :: "string \<Rightarrow> string" where
  "sent_bulk v = CHR ''$'' # show_nat (length v) @ crlf @ cstr v @ crlf"

definition sent_array :: "string list \<Rightarrow> string" where
  "sent_array vs = CHR ''*'' # show_nat (length vs) @ crlf @ concat (map sent_bulk vs)"

lemma sent_array_clean: "\<forall>v \<in> set vs. NUL \<notin> set v \<Longrightarrow> sent_array vs = array_text vs"
  unfolding sent_array_def array_text_def by (auto simp: sent_bulk_def bulk_text_def cstr_id intro!: arg_cong [of _ _ concat])

text \<open>The offsets of the records of a chain, and the values at them.\<close>

lemma collect_chain:
  assumes "chain log key off vs" "lg_write_pos log \<le> lg_capacity log"
  shows "map (val_at log) (collect_offsets log n off) = take n vs \<and>
    (\<forall>x \<in> set (collect_offsets log n off). hdr_at log x \<and> hdr_val_len log x = length (val_at log x))"
  using assms(1)
proof (induction vs arbitrary: n off)
  case Nil
  then show ?case by (cases n) simp_all
next
  case (Cons v vs)
  have "hdr_at log off"
    using Cons.prems assms(2) by (simp add: hdr_at_def record_size_def)
  then show ?case using Cons by (cases n) auto
qed

lemma lrange_spec_map: "lrange_spec start stop (map f xs) = map f (lrange_spec start stop xs)"
  by (simp add: lrange_spec_def Let_def take_map drop_map)

lemma emit_elements_text:
  assumes "\<forall>x \<in> set offs. hdr_at log x \<and> hdr_val_len log x = length (val_at log x)"
    and "length reply < reply_cap"
  shows "emit_elements log reply_cap offs reply =
    (let txt = reply @ concat (map sent_bulk (map (val_at log) offs))
     in if length txt < reply_cap then Some txt else None)"
  using assms
proof (induction offs arbitrary: reply)
  case (Cons off offs)
  have e: "element_text log off = sent_bulk (val_at log off)"
    using Cons.prems(1) by (simp add: element_text_def sent_bulk_def)
  show ?case
  proof (cases "length reply + length (sent_bulk (val_at log off)) < reply_cap")
    case True
    then show ?thesis
      using Cons.IH [of "reply @ sent_bulk (val_at log off)"] Cons.prems e
      by (simp add: reply_append_def sent_bulk_def Let_def)
  next
    case False
    then show ?thesis using Cons.prems e by (simp add: reply_append_def Let_def)
  qed
qed simp

lemma show_nat_0: "show_nat 0 = ''0''"
  by (simp add: show_nat.simps digit_char_def char_of_def bit_0)

lemma zedis_aol_lrange_text:
  assumes rep: "list_rep log meta key vs" and wf: "lg_write_pos log \<le> lg_capacity log"
    and len: "length vs < 2 ^ 32"
  shows "zedis_aol_lrange log meta start stop reply_cap =
    (let txt = sent_array (lrange_spec start stop (take AOL_MAX_OFFSETS vs))
     in if length txt < reply_cap then Some txt else None)"
proof -
  have cnt: "lm_count meta = length vs" and ch: "chain log key (lm_head_off meta) vs"
    using rep len by (simp_all add: list_rep_def wrap_u32_def)
  have empty: "reply_append reply_cap [] (''*0'' @ crlf) =
      (if length (sent_array []) < reply_cap then Some (sent_array []) else None)"
    by (auto simp: reply_append_def sent_array_def show_nat_0)
  show ?thesis
  proof (cases vs)
    case Nil
    then show ?thesis using cnt empty by (simp add: zedis_aol_lrange_def lrange_spec_def Let_def)
  next
    case (Cons v vs')
    define offs where "offs = collect_offsets log AOL_MAX_OFFSETS (lm_head_off meta)"
    have C: "map (val_at log) offs = take AOL_MAX_OFFSETS vs"
      "\<forall>x \<in> set offs. hdr_at log x \<and> hdr_val_len log x = length (val_at log x)"
      using collect_chain [OF ch, of AOL_MAX_OFFSETS] wf by (simp_all add: offs_def)
    define s where "s = (if start < 0 then 0 else start)"
    define e where "e = (if stop < 0 \<or> stop \<ge> int (length offs) then int (length offs) - 1 else stop)"
    define sel where "sel = take (nat (e - s + 1)) (drop (nat s) offs)"
    have sel: "lrange_spec start stop (take AOL_MAX_OFFSETS vs) = map (val_at log) sel"
      unfolding C(1) [symmetric] lrange_spec_map
      by (simp add: lrange_spec_def Let_def sel_def s_def e_def max_def not_less)
    have head: "lm_head_off meta \<noteq> ZEDIS_AOL_NO_PREV" "lm_count meta \<noteq> 0" using ch cnt Cons by auto
    have unf: "zedis_aol_lrange log meta start stop reply_cap =
        (if s > e then reply_append reply_cap [] (''*0'' @ crlf)
         else case reply_append reply_cap [] (CHR ''*'' # show_int (e - s + 1) @ crlf) of
           None \<Rightarrow> None | Some reply \<Rightarrow> emit_elements log reply_cap sel reply)"
      unfolding zedis_aol_lrange_def Let_def offs_def [symmetric] s_def [symmetric] e_def [symmetric]
        sel_def [symmetric]
      using head by simp
    show ?thesis
    proof (cases "s > e")
      case True
      then have "sel = []" by (simp add: sel_def)
      then show ?thesis using True unf empty sel by simp
    next
      case False
      have "0 \<le> s" "e < int (length offs)" by (auto simp: s_def e_def)
      then have n: "length sel = nat (e - s + 1)" using False by (simp add: sel_def)
      have hd: "show_int (e - s + 1) = show_nat (length sel)" using n False by (simp add: show_int_def)
      have "\<forall>x \<in> set sel. hdr_at log x \<and> hdr_val_len log x = length (val_at log x)"
        using C(2) by (auto simp: sel_def dest: in_set_takeD in_set_dropD)
      note E = emit_elements_text [OF this, of "CHR ''*'' # show_nat (length sel) @ crlf" reply_cap]
      show ?thesis
        using False unf hd E sel by (simp add: reply_append_def sent_array_def Let_def)
    qed
  qed
qed

section \<open>Properties\<close>

text \<open>
  C26. LPUSH on one list of the log. If key and value have admissible lengths and the record fits,
  \<open>zedis_aol_lpush\<close> returns 0, the value becomes the first element of its list, and every other list
  in the log keeps its elements; otherwise it returns -1 and changes nothing. The log has less than
  4 GiB.
\<close>

theorem aol_lpush_prepends:
  assumes "log_wf log" and "list_rep log meta key vs"
  shows "if log_admits log key val
    then \<exists>log' meta'. zedis_aol_lpush log meta key val = (0, log', meta') \<and> log_wf log' \<and>
      list_rep log' meta' key (val # vs) \<and>
      (\<forall>meta2 key2 vs2. list_rep log meta2 key2 vs2 \<longrightarrow> list_rep log' meta2 key2 vs2)
    else zedis_aol_lpush log meta key val = (-1, log, meta)"
proof (cases "log_admits log key val")
  case True
  then obtain log' meta' where "zedis_aol_lpush log meta key val = (0, log', meta')" "log_wf log'"
      "list_rep log' meta' key (val # vs)"
    using aol.push_ok [OF assms] by blast
  then show ?thesis using True aol.push_frame by fastforce
qed (simp add: aol.push_refused)

definition demo_log :: zedis_append_log where
  "demo_log = log_zero\<lparr>lg_capacity := 4096, lg_mapped := True, lg_fd := -1\<rparr>"

definition empty_list :: list_meta where
  "empty_list = \<lparr>lm_head_off = ZEDIS_AOL_NO_PREV, lm_tail_off = ZEDIS_AOL_NO_PREV, lm_count = 0\<rparr>"

lemma demo_log_ok: "log_wf demo_log" "list_rep demo_log empty_list key []" "log_admits demo_log ''k'' ''v''"
  by (simp_all add: log_wf_def demo_log_def log_zero_def list_rep_def empty_list_def wrap_u32_def log_admits_def
      ZEDIS_AOL_MAX_KEY_def ZEDIS_AOL_MAX_ELEM_def record_size_def sizeof_aol_hdr_def)

theorem aol_lpush_prepends_witness:
  "\<exists>log' meta'. zedis_aol_lpush demo_log empty_list ''k'' ''v'' = (0, log', meta') \<and>
     list_rep log' meta' ''k'' [''v''] \<and> list_rep log' empty_list ''other'' []"
  using aol_lpush_prepends [OF demo_log_ok(1,2), of "''k''" "''v''"] demo_log_ok(2,3) by auto



text \<open>
  An element with a NUL byte breaks the protocol. The element is printed with \<open>%.*s\<close>: a three-byte
  value \<open>a NUL b\<close> is announced as three bytes long but only its first byte is sent.
\<close>

lemma show_nat_small: "show_nat 1 = ''1''" "show_nat 3 = ''3''"
  by (simp_all add: show_nat.simps digit_char_def char_of_def bit_0)

lemma aol_lrange_nul:
  "\<exists>log' meta'. zedis_aol_lpush demo_log empty_list ''k'' [CHR ''a'', NUL, CHR ''b''] = (0, log', meta') \<and>
     zedis_aol_lrange log' meta' 0 0 64 = Some (''*1'' @ crlf @ ''$3'' @ crlf @ ''a'' @ crlf)"
proof -
  let ?v = "[CHR ''a'', NUL, CHR ''b'']"
  have "log_admits demo_log ''k'' ?v"
    by (simp add: log_admits_def demo_log_def log_zero_def ZEDIS_AOL_MAX_KEY_def ZEDIS_AOL_MAX_ELEM_def
        record_size_def sizeof_aol_hdr_def)
  then obtain log' meta' where l: "zedis_aol_lpush demo_log empty_list ''k'' ?v = (0, log', meta')"
      "log_wf log'" "list_rep log' meta' ''k'' [?v]"
    using aol.push_ok [OF demo_log_ok(1) demo_log_ok(2)] by blast
  moreover have "sent_array [?v] = ''*1'' @ crlf @ ''$3'' @ crlf @ ''a'' @ crlf"
    using show_nat_small by (simp add: sent_array_def sent_bulk_def cstr_def numeral_3_eq_3)
  ultimately show ?thesis
    using zedis_aol_lrange_text [OF l(3), of 0 0 64] by (simp add: log_wf_def lrange_spec_def AOL_MAX_OFFSETS_def)
qed

text \<open>
  Offsets are 32 bits wide while the log may be larger. In a log of 8 GiB whose first record
  belongs to another list, an element pushed to an empty list at position \<open>2 ^ 32\<close> is not found by
  LRANGE, which returns the element of the other list.
\<close>

definition big_log :: zedis_append_log where
  "big_log = log_zero\<lparr>lg_capacity := 2 ^ 33, lg_mapped := True, lg_fd := -1, lg_write_pos := 2 ^ 32,
     lg_base := put_bytes 9 ''x'' (put_bytes 8 ''a'' (put_bytes 0 (hdr_bytes ZEDIS_AOL_NO_PREV 1 1) (\<lambda>_. NUL)))\<rparr>"

lemma aol_offset_truncated:
  "\<exists>log' meta'. zedis_aol_lpush big_log empty_list ''k'' ''v'' = (0, log', meta') \<and>
     zedis_aol_lrange log' meta' 0 0 64 = Some (''*1'' @ crlf @ ''$1'' @ crlf @ ''x'' @ crlf)"
proof -
  have base: "lg_base big_log = put_bytes (0 + 8 + length ''a'') ''x'' (put_bytes (0 + 8) ''a''
      (put_bytes 0 (hdr_bytes ZEDIS_AOL_NO_PREV (length ''a'') (length ''x'')) (\<lambda>_. NUL)))"
    by (simp add: big_log_def)
  have "ZEDIS_AOL_NO_PREV < 2 ^ 32" by (simp add: ZEDIS_AOL_NO_PREV_def UINT32_MAX_def)
  note B = record_reads_back [OF this, of "''a''" "''x''", where w = 0 and mem = "\<lambda>_. NUL", folded base]
  have ch: "chain big_log ''a'' 0 [''x'']"
    using B by (simp add: hdr_prev_off_def hdr_key_len_def hdr_val_len_def val_at_def sizeof_aol_hdr_def record_size_def)
      (simp add: big_log_def ZEDIS_AOL_NO_PREV_def UINT32_MAX_def)
  obtain log' meta' where l: "zedis_aol_lpush big_log empty_list ''k'' ''v'' = (0, log', meta')"
    "lm_head_off meta' = 0" "lm_count meta' = 1" "lg_write_pos log' \<le> lg_capacity log'"
    by (simp add: zedis_aol_lpush_def big_log_def empty_list_def log_zero_def ZEDIS_AOL_MAX_KEY_def
        ZEDIS_AOL_MAX_ELEM_def record_size_def sizeof_aol_hdr_def wrap_u32_def Let_def)
  have "list_rep log' meta' ''a'' [''x'']"
    using chain_extends [OF lpush_extends [OF l(1)] ch] l(2,3) by (simp add: list_rep_def wrap_u32_def)
  from zedis_aol_lrange_text [OF this l(4), of 0 0 64] l(1) show ?thesis
    using show_nat_small by (simp add: lrange_spec_def AOL_MAX_OFFSETS_def sent_array_def sent_bulk_def cstr_def)
qed

end
