(* ===== verification/Resp_Core.thy ===== *)
theory Resp_Core
  imports Slab "HOL-Library.Multiset"
begin

text \<open>
  The data of the RESP parser (\<^verbatim>\<open>src/include/resp.h\<close>), its byte buffer (\<^verbatim>\<open>src/src/resp_buf.c\<close>) and its
  node recycler (\<^verbatim>\<open>src/src/resp_nodes.c\<close>).

  A node is modelled with its address and the list of its children in place of the \<open>next\<close>, \<open>prev\<close>,
  \<open>child_head\<close> and \<open>child_tail\<close> links; \<open>array_count\<close> and \<open>child_count\<close> are the lengths of the lists. A
  \<open>bulk\<close> pointer is its offset in the parser's buffer. Nodes come from the parser's free list, then
  from the slab, then from \<open>malloc\<close>, whose results are a parameter: \<open>np_malloc\<close> holds the addresses it
  is going to return, and it fails once they are used up.
\<close>

section \<open>Types\<close>

datatype resp_type = RESP_TYPE_INCOMPLETE | RESP_TYPE_SIMPLE | RESP_TYPE_ERROR | RESP_TYPE_INTEGER
  | RESP_TYPE_BULK | RESP_TYPE_NULL | RESP_TYPE_ARRAY

datatype resp_node =
  RespNode (rn_addr: addr) (rn_type: resp_type) (rn_integer: int) (rn_bulk: nat) (rn_bulk_len: nat)
    (rn_children: "resp_node list")

record resp_value =
  rv_type :: resp_type
  rv_integer :: int
  rv_bulk :: nat
  rv_bulk_len :: nat
  rv_array :: "resp_node list"

datatype resp_parse_status = RESP_NEED_MORE | RESP_OK | RESP_ERROR

record node_pool =
  np_free :: "addr list"
  np_slab :: "(zedis_slab \<times> heap) option"
  np_malloc :: "addr list"

record resp_parser =
  p_buf :: string
  p_buf_cap :: nat
  p_r_pos :: nat
  p_w_pos :: nat
  p_pool :: node_pool

definition RESP_PARSER_DEFAULT_BUF :: nat where "RESP_PARSER_DEFAULT_BUF = 64 * 1024"

definition resp_value_zero :: resp_value where
  "resp_value_zero = \<lparr>rv_type = RESP_TYPE_INCOMPLETE, rv_integer = 0, rv_bulk = 0, rv_bulk_len = 0, rv_array = []\<rparr>"

section \<open>Nodes\<close>

definition sizeof_resp_node :: nat where "sizeof_resp_node = 72"

definition node_malloc :: "node_pool \<Rightarrow> addr option \<times> node_pool" where
  "node_malloc pool =
     (case np_malloc pool of
        [] \<Rightarrow> (None, pool)
      | a # as \<Rightarrow> (Some a, pool\<lparr>np_malloc := as\<rparr>))"

definition resp__node_alloc :: "node_pool \<Rightarrow> addr option \<times> node_pool" where
  "resp__node_alloc pool =
     (case np_free pool of
        a # as \<Rightarrow> (Some a, pool\<lparr>np_free := as\<rparr>)
      | [] \<Rightarrow>
          (case np_slab pool of
             Some (slab, h) \<Rightarrow>
               (case zedis_slab_alloc 0 slab h sizeof_resp_node of
                  (Some a, slab', h') \<Rightarrow> (Some a, pool\<lparr>np_slab := Some (slab', h')\<rparr>)
                | (None, slab', h') \<Rightarrow> node_malloc (pool\<lparr>np_slab := Some (slab', h')\<rparr>))
           | None \<Rightarrow> node_malloc pool))"

definition resp__node_free :: "node_pool \<Rightarrow> addr \<Rightarrow> node_pool" where
  "resp__node_free pool a = pool\<lparr>np_free := a # np_free pool\<rparr>"

text \<open>The children of a node are released before the node itself.\<close>

fun node_release :: "node_pool \<Rightarrow> resp_node \<Rightarrow> node_pool" where
  "node_release pool (RespNode a t i b l children) =
     resp__node_free (fold (\<lambda>n pl. node_release pl n) children pool) a"

definition resp__node_list_release :: "node_pool \<Rightarrow> resp_node list \<Rightarrow> node_pool" where
  "resp__node_list_release pool nodes = fold (\<lambda>n pl. node_release pl n) nodes pool"

definition resp__node_append :: "resp_node list \<Rightarrow> resp_node \<Rightarrow> resp_node list" where
  "resp__node_append nodes node = nodes @ [node]"

definition resp_value_release :: "node_pool \<Rightarrow> resp_value \<Rightarrow> node_pool \<times> resp_value" where
  "resp_value_release pool v =
     ((if rv_type v = RESP_TYPE_ARRAY \<and> rv_array v \<noteq> [] then resp__node_list_release pool (rv_array v)
       else pool),
      resp_value_zero)"

section \<open>Buffer\<close>

text \<open>\<open>buf\<close> is what \<open>malloc\<close> returned: \<open>None\<close>, or a block with arbitrary contents.\<close>

definition resp_parser_init_ex ::
  "(zedis_slab \<times> heap) option \<Rightarrow> addr list \<Rightarrow> nat \<Rightarrow> (nat \<Rightarrow> string option) \<Rightarrow> resp_parser option" where
  "resp_parser_init_ex slab mallocs buf_cap0 malloc_buf =
     (let buf_cap = (if buf_cap0 = 0 then RESP_PARSER_DEFAULT_BUF else buf_cap0) in
      case malloc_buf buf_cap of
        None \<Rightarrow> None
      | Some buf \<Rightarrow> Some \<lparr>p_buf = buf, p_buf_cap = buf_cap, p_r_pos = 0, p_w_pos = 0,
          p_pool = \<lparr>np_free = [], np_slab = slab, np_malloc = mallocs\<rparr>\<rparr>)"

definition resp_parser_init ::
  "(zedis_slab \<times> heap) option \<Rightarrow> addr list \<Rightarrow> (nat \<Rightarrow> string option) \<Rightarrow> resp_parser option" where
  "resp_parser_init slab mallocs malloc_buf = resp_parser_init_ex slab mallocs RESP_PARSER_DEFAULT_BUF malloc_buf"

text \<open>The node addresses passed to \<open>free\<close>; the buffer is freed too and the structure cleared.\<close>

definition resp_parser_destroy :: "resp_parser \<Rightarrow> addr list" where
  "resp_parser_destroy p = (if np_slab (p_pool p) = None then np_free (p_pool p) else [])"

definition resp_parser_reset :: "resp_parser \<Rightarrow> resp_parser" where
  "resp_parser_reset p = p\<lparr>p_r_pos := 0, p_w_pos := 0\<rparr>"

definition resp__compact :: "resp_parser \<Rightarrow> resp_parser" where
  "resp__compact p =
     (if p_r_pos p = 0 then p
      else let unread = p_w_pos p - p_r_pos p in
        p\<lparr>p_buf := (if unread > 0 then write_at 0 (slice (p_r_pos p) unread (p_buf p)) (p_buf p) else p_buf p),
          p_w_pos := unread, p_r_pos := 0\<rparr>)"

definition resp_parser_space :: "resp_parser \<Rightarrow> nat" where
  "resp_parser_space p = p_buf_cap p - p_w_pos p"

definition resp_parser_write_ptr :: "resp_parser \<Rightarrow> nat" where
  "resp_parser_write_ptr p = p_w_pos p"

definition resp_parser_commit :: "resp_parser \<Rightarrow> nat \<Rightarrow> resp_parser" where
  "resp_parser_commit p n = p\<lparr>p_w_pos := p_w_pos p + n\<rparr>"

definition resp_parser_feed :: "resp_parser \<Rightarrow> string \<Rightarrow> int \<times> resp_parser" where
  "resp_parser_feed p data =
     (if length data = 0 then (0, p)
      else if p_w_pos p + length data \<le> p_buf_cap p then
        (0, p\<lparr>p_buf := write_at (p_w_pos p) data (p_buf p), p_w_pos := p_w_pos p + length data\<rparr>)
      else if p_buf_cap p - (p_w_pos p - p_r_pos p) < length data then (-1, p)
      else let p = resp__compact p in
        (0, p\<lparr>p_buf := write_at (p_w_pos p) data (p_buf p), p_w_pos := p_w_pos p + length data\<rparr>))"

section \<open>Buffer invariant\<close>

definition parser_wf :: "resp_parser \<Rightarrow> bool" where
  "parser_wf p \<longleftrightarrow> length (p_buf p) = p_buf_cap p \<and> p_r_pos p \<le> p_w_pos p \<and> p_w_pos p \<le> p_buf_cap p"

definition unread :: "resp_parser \<Rightarrow> string" where
  "unread p = slice (p_r_pos p) (p_w_pos p - p_r_pos p) (p_buf p)"

lemma length_unread: "parser_wf p \<Longrightarrow> length (unread p) = p_w_pos p - p_r_pos p"
  by (simp add: unread_def parser_wf_def)

lemma compact_wf: "parser_wf p \<Longrightarrow> parser_wf (resp__compact p)"
  by (auto simp: resp__compact_def parser_wf_def Let_def)

lemma compact_unread: "parser_wf p \<Longrightarrow> unread (resp__compact p) = unread p"
  by (auto simp: resp__compact_def parser_wf_def unread_def Let_def slice_def write_at_def)

lemma compact_fields [simp]:
  "p_pool (resp__compact p) = p_pool p" "p_buf_cap (resp__compact p) = p_buf_cap p" "p_r_pos (resp__compact p) = 0"
  by (simp_all add: resp__compact_def Let_def)

lemma compact_w_pos: "parser_wf p \<Longrightarrow> p_w_pos (resp__compact p) = length (unread p)"
  by (auto simp: resp__compact_def Let_def length_unread)

text \<open>Writing behind the write position.\<close>

lemma unread_write:
  assumes "parser_wf p" "p_w_pos p + length data \<le> p_buf_cap p"
  defines "p' \<equiv> p\<lparr>p_buf := write_at (p_w_pos p) data (p_buf p), p_w_pos := p_w_pos p + length data\<rparr>"
  shows "parser_wf p' \<and> unread p' = unread p @ data"
proof
  show "parser_wf p'" using assms by (simp add: parser_wf_def)
  let ?r = "p_r_pos p" and ?w = "p_w_pos p"
  have "?r \<le> ?w" "?w \<le> length (p_buf p)" using assms(1) by (simp_all add: parser_wf_def)
  then have "slice ?r (?w + length data - ?r) (write_at ?w data (p_buf p)) =
      slice ?r (?w - ?r) (p_buf p) @ data"
    by (simp add: slice_def write_at_def take_drop [symmetric] min_def) (simp add: drop_take)
  then show "unread p' = unread p @ data" by (simp add: unread_def p'_def)
qed

section \<open>Node accounting\<close>

text \<open>The addresses of the nodes of a tree.\<close>

fun node_addrs :: "resp_node \<Rightarrow> addr multiset" where
  "node_addrs (RespNode a t i b l children) = add_mset a (\<Sum>\<^sub># (mset (map node_addrs children)))"

definition list_addrs :: "resp_node list \<Rightarrow> addr multiset" where
  "list_addrs nodes = \<Sum>\<^sub># (mset (map node_addrs nodes))"

lemma list_addrs_simps [simp]:
  "list_addrs [] = {#}" "list_addrs (n # ns) = node_addrs n + list_addrs ns"
  "list_addrs (ns @ ms) = list_addrs ns + list_addrs ms"
  by (simp_all add: list_addrs_def)

lemma node_addrs_list: "node_addrs (RespNode a t i b l children) = add_mset a (list_addrs children)"
  by (simp add: list_addrs_def)

text \<open>Releasing a list of nodes puts each of them on the free list, once, and changes nothing else.\<close>

lemma fold_release:
  assumes "\<And>n pool. n \<in> set nodes \<Longrightarrow> mset (np_free (node_release pool n)) = mset (np_free pool) + node_addrs n \<and>
      np_slab (node_release pool n) = np_slab pool \<and> np_malloc (node_release pool n) = np_malloc pool"
  shows "mset (np_free (fold (\<lambda>n pl. node_release pl n) nodes pool)) = mset (np_free pool) + list_addrs nodes \<and>
    np_slab (fold (\<lambda>n pl. node_release pl n) nodes pool) = np_slab pool \<and>
    np_malloc (fold (\<lambda>n pl. node_release pl n) nodes pool) = np_malloc pool"
  using assms by (induction nodes arbitrary: pool) simp_all

lemma node_release_addrs:
  "mset (np_free (node_release pool n)) = mset (np_free pool) + node_addrs n \<and>
   np_slab (node_release pool n) = np_slab pool \<and> np_malloc (node_release pool n) = np_malloc pool"
proof (induction n arbitrary: pool)
  case (RespNode a t i b l children)
  then show ?case
    using fold_release [of children pool] by (simp add: resp__node_free_def node_addrs_list del: node_addrs.simps)
qed

lemma list_release_addrs:
  "mset (np_free (resp__node_list_release pool nodes)) = mset (np_free pool) + list_addrs nodes"
  "np_slab (resp__node_list_release pool nodes) = np_slab pool"
  "np_malloc (resp__node_list_release pool nodes) = np_malloc pool"
  using fold_release [of nodes pool] node_release_addrs by (simp_all add: resp__node_list_release_def)

text \<open>\<open>drawn pool as pool'\<close>: the slab and \<open>malloc\<close> state of \<open>pool'\<close> is that of \<open>pool\<close> after they handed
  out the nodes \<open>as\<close>, oldest first.\<close>

inductive drawn :: "node_pool \<Rightarrow> addr list \<Rightarrow> node_pool \<Rightarrow> bool" where
  drawn_nil: "np_slab pool' = np_slab pool \<Longrightarrow> np_malloc pool' = np_malloc pool \<Longrightarrow> drawn pool [] pool'"
| drawn_snoc: "drawn pool as q \<Longrightarrow> resp__node_alloc (q\<lparr>np_free := []\<rparr>) = (Some a, r) \<Longrightarrow>
    np_slab pool' = np_slab r \<Longrightarrow> np_malloc pool' = np_malloc r \<Longrightarrow> drawn pool (as @ [a]) pool'"

inductive_cases drawn_snocE: "drawn pool (as @ [a]) pool'"

lemma drawn_cong: "drawn pool as q \<Longrightarrow> np_slab q' = np_slab q \<Longrightarrow> np_malloc q' = np_malloc q \<Longrightarrow> drawn pool as q'"
  by (cases rule: drawn.cases) (auto intro: drawn.intros)

lemma zedis_slab_alloc_None:
  "zedis_slab_alloc 0 slab h sizeof_resp_node = (None, slab', h') \<Longrightarrow> slab' = slab \<and> h' = h"
  by (auto simp: zedis_slab_alloc_def pool_for_size_def sizeof_resp_node_def ZEDIS_SLAB_64_def ZEDIS_SLAB_256_def
      pool_pop.simps [of 0] Let_def split: prod.splits if_splits)

text \<open>An allocation takes a node from the free list or draws a fresh one; a failed one changes nothing.\<close>

lemma node_alloc_cases:
  assumes "resp__node_alloc pool = (r, pool')"
  obtains (recycled) a where "r = Some a" "np_free pool = a # np_free pool'" "drawn pool [] pool'"
  | (fresh) a where "r = Some a" "np_free pool = []" "np_free pool' = []" "drawn pool [a] pool'"
  | (failed) "r = None" "pool' = pool"
proof (cases "np_free pool")
  case (Cons a as)
  then have "r = Some a" "pool' = pool\<lparr>np_free := as\<rparr>" using assms by (simp_all add: resp__node_alloc_def)
  moreover from this have "drawn pool [] pool'" by (intro drawn_nil) simp_all
  ultimately show ?thesis using recycled Cons by simp
next
  case Nil
  then have p: "pool\<lparr>np_free := []\<rparr> = pool" by simp
  show ?thesis
  proof (cases r)
    case (Some a)
    have "np_free pool' = []"
      using assms Nil
      by (auto simp: resp__node_alloc_def node_malloc_def split: option.splits list.splits prod.splits)
    moreover have "drawn pool ([] @ [a]) pool'"
      by (rule drawn_snoc [OF drawn_nil [OF refl refl]]) (use assms Some p in simp_all)
    ultimately show ?thesis using fresh Some Nil by simp
  next
    case None
    have "pool' = pool"
      using assms Nil None zedis_slab_alloc_None
      by (fastforce simp: resp__node_alloc_def node_malloc_def split: option.splits list.splits prod.splits)
    then show ?thesis using failed None by simp
  qed
qed

lemma drawn_trans:
  assumes "drawn p as q" "drawn q bs r"
  shows "drawn p (as @ bs) r"
  using assms(2,1)
proof (induction q bs r rule: drawn.induct)
  case (drawn_nil r q)
  then show ?case using drawn_cong by auto
next
  case (drawn_snoc q bs s a r pool')
  then show ?case using drawn.drawn_snoc [of p "as @ bs" s a r pool'] by simp
qed

lemma drawn_free_irrelevant [simp]: "drawn p as (q\<lparr>np_free := fs\<rparr>) \<longleftrightarrow> drawn p as q"
  by (metis drawn_cong node_pool.select_convs(2,3) node_pool.surjective node_pool.update_convs(1))

lemma feed_cases:
  assumes "parser_wf p"
  shows "if length (unread p) + length data \<le> p_buf_cap p
    then \<exists>p'. resp_parser_feed p data = (0, p') \<and> parser_wf p' \<and> unread p' = unread p @ data \<and>
      p_buf_cap p' = p_buf_cap p \<and> p_pool p' = p_pool p
    else resp_parser_feed p data = (-1, p)"
proof -
  have len: "length (unread p) = p_w_pos p - p_r_pos p" by (rule length_unread [OF assms])
  consider (none) "data = []" | (fits) "data \<noteq> []" "p_w_pos p + length data \<le> p_buf_cap p"
    | (compact) "data \<noteq> []" "\<not> p_w_pos p + length data \<le> p_buf_cap p" "length (unread p) + length data \<le> p_buf_cap p"
    | (full) "data \<noteq> []" "\<not> length (unread p) + length data \<le> p_buf_cap p" "\<not> p_w_pos p + length data \<le> p_buf_cap p"
    by blast
  then show ?thesis
  proof cases
    case none
    then show ?thesis using assms len by (auto simp: resp_parser_feed_def parser_wf_def)
  next
    case fits
    then show ?thesis
      using unread_write [OF assms fits(2)] assms len by (auto simp: resp_parser_feed_def parser_wf_def)
  next
    case compact
    have "p_w_pos (resp__compact p) + length data \<le> p_buf_cap (resp__compact p)"
      using compact(3) compact_w_pos [OF assms] by simp
    from unread_write [OF compact_wf [OF assms] this] compact show ?thesis
      using len compact_unread [OF assms] by (auto simp: resp_parser_feed_def Let_def)
  next
    case full
    then show ?thesis using len assms by (auto simp: resp_parser_feed_def parser_wf_def)
  qed
qed

lemma feed_appends_unread:
  assumes "parser_wf p" "resp_parser_feed p data = (0, p')"
  shows "parser_wf p'" "unread p' = unread p @ data" "p_pool p' = p_pool p" "p_buf_cap p' = p_buf_cap p"
  using feed_cases [OF assms(1), of data] assms(2) by (auto split: if_splits)

end
