(* ===== verification/Resp_Scan.thy ===== *)
theory Resp_Scan
  imports Resp_Core
begin

text \<open>
  The scanners of \<^verbatim>\<open>src/src/resp_scan.c\<close>: the search for CR LF, decimal integers, and inline commands (a
  line of tokens separated by blanks). The functions take the parts of the parser they use: the
  buffer, the write position \<open>w\<close>, and the node pool.
\<close>

section \<open>Model\<close>

function resp__find_crlf :: "string \<Rightarrow> nat \<Rightarrow> nat \<Rightarrow> nat option" where
  "resp__find_crlf buf w i =
     (if i + 1 < w then
        (if buf ! i = CR \<and> buf ! (i + 1) = LF then Some i else resp__find_crlf buf w (i + 1))
      else None)"
  by pat_completeness auto
termination by (relation "measure (\<lambda>(buf, w, i). w - i)") auto

definition resp__parse_int :: "string \<Rightarrow> nat \<Rightarrow> nat \<Rightarrow> int option" where
  "resp__parse_int buf from to =
     (if from \<ge> to then None
      else let neg = (buf ! from = CHR ''-'');
               i = (if neg then from + 1 else from)
           in if i \<ge> to \<or> \<not> is_digit (buf ! i) then None
              else (case scan_digits 0 (slice i (to - i) buf) of
                      None \<Rightarrow> None
                    | Some value \<Rightarrow> Some (if neg then wrap_i64 (- value) else value)))"

function find_lf :: "string \<Rightarrow> nat \<Rightarrow> nat \<Rightarrow> nat option" where
  "find_lf buf w i = (if i < w then (if buf ! i = LF then Some i else find_lf buf w (i + 1)) else None)"
  by pat_completeness auto
termination by (relation "measure (\<lambda>(buf, w, i). w - i)") auto

definition is_blank :: "char \<Rightarrow> bool" where
  "is_blank c \<longleftrightarrow> c = CHR '' '' \<or> c = CHR 0x09"

function skip_blanks :: "string \<Rightarrow> nat \<Rightarrow> nat \<Rightarrow> nat" where
  "skip_blanks buf i line_end = (if i < line_end \<and> is_blank (buf ! i) then skip_blanks buf (i + 1) line_end else i)"
  by pat_completeness auto
termination by (relation "measure (\<lambda>(buf, i, e). e - i)") auto

function skip_token :: "string \<Rightarrow> nat \<Rightarrow> nat \<Rightarrow> nat" where
  "skip_token buf i line_end = (if i < line_end \<and> \<not> is_blank (buf ! i) then skip_token buf (i + 1) line_end else i)"
  by pat_completeness auto
termination by (relation "measure (\<lambda>(buf, i, e). e - i)") auto

declare resp__find_crlf.simps [simp del] find_lf.simps [simp del] skip_blanks.simps [simp del] skip_token.simps [simp del]

lemma skip_blanks_ge: "i \<le> skip_blanks buf i e"
  by (induction buf i e rule: skip_blanks.induct) (subst skip_blanks.simps, auto)

lemma skip_token_ge: "i \<le> skip_token buf i e"
  by (induction buf i e rule: skip_token.induct) (subst skip_token.simps, auto)

lemma skip_blanks_stop: "skip_blanks buf i e < e \<Longrightarrow> \<not> is_blank (buf ! skip_blanks buf i e)"
  by (induction buf i e rule: skip_blanks.induct) (subst skip_blanks.simps, subst (asm) (2) skip_blanks.simps, auto)

lemma skip_token_gt:
  assumes "i < e" "\<not> is_blank (buf ! i)"
  shows "i < skip_token buf i e"
  using assms skip_token_ge [of "i + 1" buf e] by (subst skip_token.simps) simp

text \<open>The token loop: the nodes so far are \<open>nodes\<close>. The first component is \<open>None\<close> when a node could not
  be allocated (the nodes are released then).\<close>

function inline_loop ::
  "string \<Rightarrow> nat \<Rightarrow> node_pool \<Rightarrow> nat \<Rightarrow> resp_node list \<Rightarrow> resp_node list option \<times> node_pool" where
  "inline_loop buf line_end pool i0 nodes =
     (if i0 < line_end then
        let tok = skip_blanks buf i0 line_end in
        if tok \<ge> line_end then (Some nodes, pool)
        else let i = skip_token buf tok line_end in
          (case resp__node_alloc pool of
             (None, pool') \<Rightarrow> (None, resp__node_list_release pool' nodes)
           | (Some a, pool') \<Rightarrow>
               inline_loop buf line_end pool' i
                 (resp__node_append nodes (RespNode a RESP_TYPE_BULK 0 tok (i - tok) [])))
      else (Some nodes, pool))"
  by pat_completeness auto
termination
proof (relation "measure (\<lambda>(buf, e, pool, i, nodes). e - i)", goal_cases)
  case (2 buf line_end pool i0 nodes tok i x1 pool' a)
  then have "i0 \<le> tok" "tok < i"
    using skip_blanks_ge [of i0 buf line_end] skip_token_gt [of tok line_end buf] skip_blanks_stop [of buf i0 line_end]
    by simp_all
  then show ?case using 2 by simp
qed simp

declare inline_loop.simps [simp del]

definition resp__parse_inline ::
  "string \<Rightarrow> nat \<Rightarrow> node_pool \<Rightarrow> nat \<Rightarrow> resp_parse_status \<times> node_pool \<times> nat \<times> resp_value" where
  "resp__parse_inline buf w pool start =
     (case find_lf buf w start of
        None \<Rightarrow> (RESP_NEED_MORE, pool, start, resp_value_zero)
      | Some lf \<Rightarrow>
          let line_end = (if lf > start \<and> buf ! (lf - 1) = CR then lf - 1 else lf) in
          (case inline_loop buf line_end pool start [] of
             (None, pool') \<Rightarrow> (RESP_ERROR, pool', start, resp_value_zero)
           | (Some nodes, pool') \<Rightarrow>
               (RESP_OK, pool', lf + 1, resp_value_zero\<lparr>rv_type := RESP_TYPE_ARRAY, rv_array := nodes\<rparr>)))"

section \<open>Searching\<close>

lemma find_crlf_SomeD:
  "resp__find_crlf buf w i = Some k \<Longrightarrow>
     i \<le> k \<and> k + 1 < w \<and> buf ! k = CR \<and> buf ! (k + 1) = LF \<and>
     (\<forall>j. i \<le> j \<and> j < k \<longrightarrow> \<not> (buf ! j = CR \<and> buf ! (j + 1) = LF))"
proof (induction buf w i rule: resp__find_crlf.induct)
  case (1 buf w i)
  show ?case
  proof (cases "i + 1 < w \<and> \<not> (buf ! i = CR \<and> buf ! (i + 1) = LF)")
    case True
    then have "resp__find_crlf buf w (i + 1) = Some k"
      using 1(2) by (subst (asm) resp__find_crlf.simps) (auto split: if_splits)
    then have IH: "i + 1 \<le> k" "k + 1 < w" "buf ! k = CR" "buf ! (k + 1) = LF"
      "\<forall>j. i + 1 \<le> j \<and> j < k \<longrightarrow> \<not> (buf ! j = CR \<and> buf ! (j + 1) = LF)"
      using 1(1) True by auto
    moreover have "\<not> (buf ! j = CR \<and> buf ! (j + 1) = LF)" if "i \<le> j" "j < k" for j
      using that IH(5) True by (cases "j = i") auto
    ultimately show ?thesis by auto
  next
    case False
    then show ?thesis using 1(2) by (subst (asm) resp__find_crlf.simps) (auto split: if_splits)
  qed
qed

lemma find_crlf_SomeI:
  assumes "i \<le> k" "k + 1 < w" "buf ! k = CR" "buf ! (k + 1) = LF"
    "\<forall>j. i \<le> j \<and> j < k \<longrightarrow> \<not> (buf ! j = CR \<and> buf ! (j + 1) = LF)"
  shows "resp__find_crlf buf w i = Some k"
  using assms
proof (induction "k - i" arbitrary: i)
  case 0
  then show ?case by (subst resp__find_crlf.simps) simp
next
  case (Suc n)
  then have "i < k" "resp__find_crlf buf w (i + 1) = Some k" by auto
  then show ?case using Suc.prems by (subst resp__find_crlf.simps) auto
qed

text \<open>Two buffers that agree on the first \<open>w\<close> bytes.\<close>

definition agree :: "nat \<Rightarrow> string \<Rightarrow> string \<Rightarrow> bool" where
  "agree w buf buf' \<longleftrightarrow> (\<forall>i < w. buf' ! i = buf ! i)"

lemma find_crlf_agree:
  assumes "resp__find_crlf buf w i = Some k" "agree w buf buf'" "w \<le> w'"
  shows "resp__find_crlf buf' w' i = Some k"
  using find_crlf_SomeD [OF assms(1)] assms(2,3) by (intro find_crlf_SomeI) (auto simp: agree_def)

lemma find_lf_SomeD:
  "find_lf buf w i = Some k \<Longrightarrow> i \<le> k \<and> k < w \<and> buf ! k = LF \<and> (\<forall>j. i \<le> j \<and> j < k \<longrightarrow> buf ! j \<noteq> LF)"
proof (induction buf w i rule: find_lf.induct)
  case (1 buf w i)
  show ?case
  proof (cases "i < w \<and> buf ! i \<noteq> LF")
    case True
    then have "find_lf buf w (i + 1) = Some k"
      using 1(2) by (subst (asm) find_lf.simps) simp
    then have IH: "i + 1 \<le> k" "k < w" "buf ! k = LF" "\<forall>j. i + 1 \<le> j \<and> j < k \<longrightarrow> buf ! j \<noteq> LF"
      using 1(1) True by auto
    moreover have "buf ! j \<noteq> LF" if "i \<le> j" "j < k" for j
      using that IH(4) True by (cases "j = i") auto
    ultimately show ?thesis by auto
  next
    case False
    then show ?thesis using 1(2) by (subst (asm) find_lf.simps) (auto split: if_splits)
  qed
qed

lemma find_lf_SomeI:
  assumes "i \<le> k" "k < w" "buf ! k = LF" "\<forall>j. i \<le> j \<and> j < k \<longrightarrow> buf ! j \<noteq> LF"
  shows "find_lf buf w i = Some k"
  using assms
proof (induction "k - i" arbitrary: i)
  case 0
  then show ?case by (subst find_lf.simps) simp
next
  case (Suc n)
  then have "i < k" "find_lf buf w (i + 1) = Some k" by auto
  then show ?case using Suc.prems by (subst find_lf.simps) auto
qed

lemma find_lf_agree:
  assumes "find_lf buf w i = Some k" "agree w buf buf'" "w \<le> w'"
  shows "find_lf buf' w' i = Some k"
  using find_lf_SomeD [OF assms(1)] assms(2,3) by (intro find_lf_SomeI) (auto simp: agree_def)

section \<open>Inline commands\<close>

text \<open>What an inline command means: the maximal runs of non-blank bytes of its line.\<close>

function split_blanks :: "string \<Rightarrow> string list" where
  "split_blanks s =
     (let t = dropWhile is_blank s in
      if t = [] then [] else takeWhile (\<lambda>c. \<not> is_blank c) t # split_blanks (dropWhile (\<lambda>c. \<not> is_blank c) t))"
  by pat_completeness auto
termination
proof (relation "measure length", goal_cases)
  case (2 s t)
  then have "\<not> is_blank (hd t)" "t \<noteq> []" using hd_dropWhile [of is_blank s] by auto
  then have "length (dropWhile (\<lambda>c. \<not> is_blank c) t) < length t"
    by (cases t) (auto simp: le_imp_less_Suc length_dropWhile_le)
  then show ?case using 2 length_dropWhile_le [of is_blank s] by simp
qed simp

declare split_blanks.simps [simp del]

lemma slice_Cons: "i < e \<Longrightarrow> e \<le> length buf \<Longrightarrow> slice i (e - i) buf = buf ! i # slice (i + 1) (e - (i + 1)) buf"
  by (simp add: slice_def Cons_nth_drop_Suc [symmetric] Suc_diff_Suc [symmetric])

lemma skip_blanks_slice:
  assumes "e \<le> length buf" "i \<le> e"
  shows "skip_blanks buf i e \<le> e \<and>
    slice (skip_blanks buf i e) (e - skip_blanks buf i e) buf = dropWhile is_blank (slice i (e - i) buf)"
  using assms
proof (induction buf i e rule: skip_blanks.induct)
  case (1 buf i e)
  show ?case
  proof (cases "i < e")
    case True
    then show ?thesis
      using 1 slice_Cons [of i e buf] by (subst (1 2 3) skip_blanks.simps) simp
  next
    case False
    then show ?thesis using 1 by (subst (1 2 3) skip_blanks.simps) (simp add: slice_def)
  qed
qed

lemma skip_token_slice:
  assumes "e \<le> length buf" "i \<le> e"
  shows "skip_token buf i e \<le> e \<and>
    slice (skip_token buf i e) (e - skip_token buf i e) buf = dropWhile (\<lambda>c. \<not> is_blank c) (slice i (e - i) buf) \<and>
    slice i (skip_token buf i e - i) buf = takeWhile (\<lambda>c. \<not> is_blank c) (slice i (e - i) buf)"
  using assms
proof (induction buf i e rule: skip_token.induct)
  case (1 buf i e)
  show ?case
  proof (cases "i < e \<and> \<not> is_blank (buf ! i)")
    case True
    then have IH: "skip_token buf (i + 1) e \<le> e"
      "slice (skip_token buf (i + 1) e) (e - skip_token buf (i + 1) e) buf =
         dropWhile (\<lambda>c. \<not> is_blank c) (slice (i + 1) (e - (i + 1)) buf)"
      "slice (i + 1) (skip_token buf (i + 1) e - (i + 1)) buf =
         takeWhile (\<lambda>c. \<not> is_blank c) (slice (i + 1) (e - (i + 1)) buf)"
      using 1 by simp_all
    have step: "skip_token buf i e = skip_token buf (i + 1) e" using True by (subst skip_token.simps) simp
    have ge: "i + 1 \<le> skip_token buf (i + 1) e" by (rule skip_token_ge)
    have c1: "slice i (e - i) buf = buf ! i # slice (i + 1) (e - (i + 1)) buf"
      using slice_Cons [of i e buf] True 1(2) by simp
    have c2: "slice i (skip_token buf (i + 1) e - i) buf =
        buf ! i # slice (i + 1) (skip_token buf (i + 1) e - (i + 1)) buf"
      using slice_Cons [of i "skip_token buf (i + 1) e" buf] ge IH(1) 1(2) by simp
    show ?thesis unfolding step c1 c2 using IH True by simp
  next
    case False
    then have step: "skip_token buf i e = i" by (subst skip_token.simps) auto
    show ?thesis
    proof (cases "i < e")
      case True
      then show ?thesis using False step 1(2) slice_Cons [of i e buf] by (simp add: slice_def)
    next
      case False
      then show ?thesis using step 1(3) by (simp add: slice_def)
    qed
  qed
qed

definition node_text :: "string \<Rightarrow> resp_node \<Rightarrow> string" where
  "node_text buf n = slice (rn_bulk n) (rn_bulk_len n) buf"

text \<open>A token node: a bulk inside the bytes from \<open>lo\<close> to \<open>hi\<close>.\<close>

definition token_node :: "nat \<Rightarrow> nat \<Rightarrow> resp_node \<Rightarrow> bool" where
  "token_node lo hi n \<longleftrightarrow> rn_type n = RESP_TYPE_BULK \<and> rn_children n = [] \<and> lo \<le> rn_bulk n \<and>
     rn_bulk n + rn_bulk_len n \<le> hi"

text \<open>What allocating one node does to the accounts: \<open>pool\<close> before, \<open>pool'\<close> after, \<open>live\<close> and \<open>live'\<close> the
  nodes in use.\<close>

definition balanced :: "node_pool \<Rightarrow> addr multiset \<Rightarrow> node_pool \<Rightarrow> addr multiset \<Rightarrow> bool" where
  "balanced pool live pool' live' \<longleftrightarrow>
     (\<exists>fresh. drawn pool fresh pool' \<and> mset (np_free pool) + live + mset fresh = mset (np_free pool') + live')"

lemma balanced_refl [simp, intro]: "balanced pool live pool live"
  by (auto simp: balanced_def intro!: exI [of _ "[]"] drawn_nil)

lemma balanced_trans:
  assumes "balanced p l q m" "balanced q m r n"
  shows "balanced p l r n"
proof -
  obtain f g where "drawn p f q" "mset (np_free p) + l + mset f = mset (np_free q) + m"
    "drawn q g r" "mset (np_free q) + m + mset g = mset (np_free r) + n"
    using assms by (auto simp: balanced_def)
  then show ?thesis
    unfolding balanced_def by (intro exI [of _ "f @ g"]) (auto intro: drawn_trans simp: union_assoc [symmetric])
qed

lemma balanced_frame:
  assumes "balanced p l q m"
  shows "balanced p (l + x) q (m + x)"
proof -
  obtain f where f: "drawn p f q" "mset (np_free p) + l + mset f = mset (np_free q) + m"
    using assms by (auto simp: balanced_def)
  have "mset (np_free p) + (l + x) + mset f = (mset (np_free p) + l + mset f) + x" by (simp add: ac_simps)
  then show ?thesis using f unfolding balanced_def by (intro exI [of _ f]) (simp add: union_assoc)
qed

lemma balanced_alloc:
  assumes "resp__node_alloc pool = (Some a, pool')"
  shows "balanced pool live pool' (add_mset a live)"
  using assms by (cases rule: node_alloc_cases) (auto simp: balanced_def)

lemma balanced_alloc_None:
  assumes "resp__node_alloc pool = (None, pool')"
  shows "pool' = pool"
  using assms by (cases rule: node_alloc_cases) auto

lemma balanced_free: "balanced pool (add_mset a live) (resp__node_free pool a) live"
  by (auto simp: balanced_def resp__node_free_def intro!: exI [of _ "[]"] drawn_nil)

lemma balanced_release: "balanced pool (list_addrs nodes) (resp__node_list_release pool nodes) {#}"
  by (auto simp: balanced_def list_release_addrs intro!: exI [of _ "[]"] drawn_nil)

lemma split_blanks_slice:
  assumes "e \<le> length buf" "i \<le> e"
  defines "tok \<equiv> skip_blanks buf i e"
  defines "k \<equiv> skip_token buf tok e"
  shows "if tok \<ge> e then split_blanks (slice i (e - i) buf) = []
    else split_blanks (slice i (e - i) buf) = slice tok (k - tok) buf # split_blanks (slice k (e - k) buf) \<and>
      i \<le> tok \<and> tok < k \<and> k \<le> e"
proof -
  have B: "tok \<le> e" "slice tok (e - tok) buf = dropWhile is_blank (slice i (e - i) buf)"
    using skip_blanks_slice [OF assms(1,2)] by (simp_all add: tok_def)
  have T: "k \<le> e" "slice k (e - k) buf = dropWhile (\<lambda>c. \<not> is_blank c) (slice tok (e - tok) buf)"
    "slice tok (k - tok) buf = takeWhile (\<lambda>c. \<not> is_blank c) (slice tok (e - tok) buf)"
    using skip_token_slice [OF assms(1) B(1)] by (simp_all add: k_def)
  show ?thesis
  proof (cases "tok \<ge> e")
    case True
    then have "dropWhile is_blank (slice i (e - i) buf) = []" using B by (simp add: slice_def)
    then show ?thesis using True by (simp add: split_blanks.simps)
  next
    case False
    then have "slice tok (e - tok) buf \<noteq> []" using assms(1) by (simp add: slice_def)
    then have "split_blanks (slice i (e - i) buf) = slice tok (k - tok) buf # split_blanks (slice k (e - k) buf)"
      using B(2) T(2,3) by (subst split_blanks.simps) (simp add: Let_def)
    moreover have "i \<le> tok" "tok < k"
      using False skip_blanks_ge [of i buf e] skip_blanks_stop [of buf i e] skip_token_gt [of tok e buf]
      by (simp_all add: tok_def k_def)
    ultimately show ?thesis using False T(1) by simp
  qed
qed

lemma inline_loop_spec:
  assumes "e \<le> length buf" "i \<le> e"
  shows "case inline_loop buf e pool i nodes of
      (None, pool') \<Rightarrow> balanced pool (list_addrs nodes) pool' {#}
    | (Some ns, pool') \<Rightarrow> balanced pool (list_addrs nodes) pool' (list_addrs ns) \<and>
        (\<exists>new. ns = nodes @ new \<and> map (node_text buf) new = split_blanks (slice i (e - i) buf) \<and>
          (\<forall>n \<in> set new. token_node i e n))"
  using assms
proof (induction buf e pool i nodes rule: inline_loop.induct)
  case (1 buf e pool i nodes)
  let ?tok = "skip_blanks buf i e"
  let ?k = "skip_token buf ?tok e"
  note S = split_blanks_slice [OF 1(2,3)]
  consider (finish) "\<not> (i < e \<and> \<not> ?tok \<ge> e)"
    | (fail) pool' where "i < e" "\<not> ?tok \<ge> e" "resp__node_alloc pool = (None, pool')"
    | (step) a pool' where "i < e" "\<not> ?tok \<ge> e" "resp__node_alloc pool = (Some a, pool')"
    by (metis option.exhaust surj_pair)
  then show ?case
  proof cases
    case finish
    then have "inline_loop buf e pool i nodes = (Some nodes, pool)"
      by (subst inline_loop.simps) (auto simp: Let_def)
    moreover have "split_blanks (slice i (e - i) buf) = []"
      using finish S 1(2,3) by (cases "i < e") (auto simp: slice_def split_blanks.simps)
    ultimately show ?thesis by auto
  next
    case fail
    then have "inline_loop buf e pool i nodes = (None, resp__node_list_release pool nodes)"
      using balanced_alloc_None [OF fail(3)] by (subst inline_loop.simps) (simp add: Let_def)
    then show ?thesis using balanced_release [of pool nodes] by simp
  next
    case step
    let ?n = "RespNode a RESP_TYPE_BULK 0 ?tok (?k - ?tok) []"
    have k: "i \<le> ?tok" "?tok < ?k" "?k \<le> e"
      "split_blanks (slice i (e - i) buf) = slice ?tok (?k - ?tok) buf # split_blanks (slice ?k (e - ?k) buf)"
      using S step(2) by auto
    have eq: "inline_loop buf e pool i nodes = inline_loop buf e pool' ?k (nodes @ [?n])"
      using step by (subst inline_loop.simps) (simp add: Let_def resp__node_append_def)
    have bal: "balanced pool (list_addrs nodes) pool' (list_addrs (nodes @ [?n]))"
      using balanced_alloc [OF step(3), of "list_addrs nodes"] by simp
    have IH: "case inline_loop buf e pool' ?k (nodes @ [?n]) of
        (None, q) \<Rightarrow> balanced pool' (list_addrs (nodes @ [?n])) q {#}
      | (Some ns, q) \<Rightarrow> balanced pool' (list_addrs (nodes @ [?n])) q (list_addrs ns) \<and>
          (\<exists>new. ns = (nodes @ [?n]) @ new \<and> map (node_text buf) new = split_blanks (slice ?k (e - ?k) buf) \<and>
            (\<forall>n \<in> set new. token_node ?k e n))"
      using 1(1) [OF step(1) refl step(2) refl step(3) [symmetric] refl 1(2) k(3)]
      unfolding resp__node_append_def .
    have n: "token_node i e ?n" "node_text buf ?n = slice ?tok (?k - ?tok) buf"
      using k by (simp_all add: token_node_def node_text_def)
    obtain r q where rq: "inline_loop buf e pool' ?k (nodes @ [?n]) = (r, q)" by fastforce
    show ?thesis
    proof (cases r)
      case None
      then show ?thesis using IH rq eq balanced_trans [OF bal] by simp
    next
      case (Some ns)
      then obtain new where new: "ns = (nodes @ [?n]) @ new"
          "map (node_text buf) new = split_blanks (slice ?k (e - ?k) buf)" "\<forall>n \<in> set new. token_node ?k e n"
          "balanced pool' (list_addrs (nodes @ [?n])) q (list_addrs ns)"
        using IH rq by auto
      have "\<forall>n \<in> set (?n # new). token_node i e n" using new(3) n(1) k by (auto simp: token_node_def)
      moreover have "map (node_text buf) (?n # new) = split_blanks (slice i (e - i) buf)"
        using new(2) n(2) k(4) by simp
      ultimately show ?thesis
        using Some rq eq new(1) balanced_trans [OF bal new(4)] by (auto intro!: exI [of _ "?n # new"])
    qed
  qed
qed

text \<open>The loop reads only the line.\<close>

lemma skip_blanks_agree: "agree e buf buf' \<Longrightarrow> skip_blanks buf' i e = skip_blanks buf i e"
  by (induction buf i e rule: skip_blanks.induct) (subst (1 2) skip_blanks.simps, auto simp: agree_def)

lemma skip_token_agree: "agree e buf buf' \<Longrightarrow> skip_token buf' i e = skip_token buf i e"
  by (induction buf i e rule: skip_token.induct) (subst (1 2) skip_token.simps, auto simp: agree_def)

lemma inline_loop_agree:
  "agree e buf buf' \<Longrightarrow> inline_loop buf' e pool i nodes = inline_loop buf e pool i nodes"
proof (induction buf e pool i nodes rule: inline_loop.induct)
  case (1 buf e pool i nodes)
  then show ?case
    unfolding inline_loop.simps [of buf' e pool i nodes] inline_loop.simps [of buf e pool i nodes]
    by (auto simp: skip_blanks_agree skip_token_agree Let_def split: option.splits prod.splits)
qed

lemma agree_mono: "agree w buf buf' \<Longrightarrow> v \<le> w \<Longrightarrow> agree v buf buf'"
  by (simp add: agree_def)

lemma parse_inline_agree:
  assumes "resp__parse_inline buf w pool pos = (st, pool', pos', v)" "st \<noteq> RESP_NEED_MORE"
    and "agree w buf buf'" "w \<le> w'"
  shows "resp__parse_inline buf' w' pool pos = (st, pool', pos', v)"
proof -
  obtain lf where lf: "find_lf buf w pos = Some lf"
    using assms(1,2) by (auto simp: resp__parse_inline_def split: option.splits)
  have b: "lf < w" "pos \<le> lf" using find_lf_SomeD [OF lf] by auto
  have e: "buf' ! (lf - 1) = buf ! (lf - 1)" using assms(3) b by (simp add: agree_def)
  have "inline_loop buf' k pool pos [] = inline_loop buf k pool pos []" if "k \<le> lf" for k
    using inline_loop_agree [OF agree_mono [OF assms(3)]] that b by simp
  then have "inline_loop buf' (if lf > pos \<and> buf ! (lf - 1) = CR then lf - 1 else lf) pool pos [] =
      inline_loop buf (if lf > pos \<and> buf ! (lf - 1) = CR then lf - 1 else lf) pool pos []"
    by simp
  then show ?thesis
    using assms(1) unfolding resp__parse_inline_def lf find_lf_agree [OF lf assms(3,4)] option.case Let_def e
    by (simp only:)
qed

end
