(* ===== verification/Resp_Decode.thy ===== *)
theory Resp_Decode
  imports Resp_Scan
begin

text \<open>
  The recursive-descent decoder of \<^verbatim>\<open>src/src/resp_decode.c\<close>. \<open>parse_value\<close> and \<open>parse_array\<close> call each
  other to a depth that depends on the input; both take fuel, and \<open>None\<close> means that it ran out.
  \<open>resp_parser_next\<close> gives one unit more than there are unread bytes, which is always enough.
\<close>

section \<open>Model\<close>

type_synonym parse_result = "resp_parse_status \<times> node_pool \<times> nat \<times> resp_value"

definition value_node :: "addr \<Rightarrow> resp_value \<Rightarrow> resp_node" where
  "value_node a v = RespNode a (rv_type v) (rv_integer v) (rv_bulk v) (rv_bulk_len v)
     (if rv_type v = RESP_TYPE_ARRAY then rv_array v else [])"

definition is_prefix_char :: "char \<Rightarrow> bool" where
  "is_prefix_char c \<longleftrightarrow> c = CHR ''+'' \<or> c = CHR ''-'' \<or> c = CHR '':'' \<or> c = CHR ''$'' \<or> c = CHR ''*''"

text \<open>The values that need no recursion: a line, an integer, a bulk.\<close>

definition parse_line :: "string \<Rightarrow> char \<Rightarrow> node_pool \<Rightarrow> nat \<Rightarrow> nat \<Rightarrow> parse_result" where
  "parse_line buf prefix pool line_start cr =
     (RESP_OK, pool, cr + 2,
      resp_value_zero\<lparr>rv_type := (if prefix = CHR ''+'' then RESP_TYPE_SIMPLE else RESP_TYPE_ERROR),
        rv_bulk := line_start, rv_bulk_len := cr - line_start\<rparr>)"

definition parse_integer :: "string \<Rightarrow> node_pool \<Rightarrow> nat \<Rightarrow> nat \<Rightarrow> nat \<Rightarrow> parse_result" where
  "parse_integer buf pool pos line_start cr =
     (case resp__parse_int buf line_start cr of
        None \<Rightarrow> (RESP_ERROR, pool, pos, resp_value_zero)
      | Some value \<Rightarrow>
          (RESP_OK, pool, cr + 2, resp_value_zero\<lparr>rv_type := RESP_TYPE_INTEGER, rv_integer := value\<rparr>))"

definition parse_bulk :: "string \<Rightarrow> nat \<Rightarrow> node_pool \<Rightarrow> nat \<Rightarrow> nat \<Rightarrow> nat \<Rightarrow> parse_result" where
  "parse_bulk buf w pool pos line_start cr =
     (case resp__parse_int buf line_start cr of
        None \<Rightarrow> (RESP_ERROR, pool, pos, resp_value_zero)
      | Some bulk_len \<Rightarrow>
          if bulk_len < 0 then (RESP_OK, pool, cr + 2, resp_value_zero\<lparr>rv_type := RESP_TYPE_NULL\<rparr>)
          else let data_start = cr + 2; data_end = data_start + nat bulk_len in
            if data_end + 2 > w then (RESP_NEED_MORE, pool, pos, resp_value_zero)
            else if buf ! data_end \<noteq> CR \<or> buf ! (data_end + 1) \<noteq> LF then (RESP_ERROR, pool, pos, resp_value_zero)
            else (RESP_OK, pool, data_end + 2,
                  resp_value_zero\<lparr>rv_type := RESP_TYPE_BULK, rv_bulk := data_start, rv_bulk_len := nat bulk_len\<rparr>))"

fun parse_value :: "nat \<Rightarrow> string \<Rightarrow> nat \<Rightarrow> node_pool \<Rightarrow> nat \<Rightarrow> parse_result option"
  and parse_array :: "nat \<Rightarrow> string \<Rightarrow> nat \<Rightarrow> node_pool \<Rightarrow> nat \<Rightarrow> int \<Rightarrow> resp_node list \<Rightarrow> parse_result option" where
  "parse_value 0 buf w pool pos = None"
| "parse_value (Suc fuel) buf w pool pos =
     (if pos \<ge> w then Some (RESP_NEED_MORE, pool, pos, resp_value_zero)
      else let prefix = buf ! pos; line_start = pos + 1 in
        if \<not> is_prefix_char prefix then Some (resp__parse_inline buf w pool pos)
        else (case resp__find_crlf buf w line_start of
                None \<Rightarrow> Some (RESP_NEED_MORE, pool, pos, resp_value_zero)
              | Some cr \<Rightarrow>
                  if prefix = CHR ''+'' \<or> prefix = CHR ''-'' then Some (parse_line buf prefix pool line_start cr)
                  else if prefix = CHR '':'' then Some (parse_integer buf pool pos line_start cr)
                  else if prefix = CHR ''$'' then Some (parse_bulk buf w pool pos line_start cr)
                  else (case resp__parse_int buf line_start cr of
                          None \<Rightarrow> Some (RESP_ERROR, pool, pos, resp_value_zero)
                        | Some cnt \<Rightarrow>
                            if cnt < 0 then Some (RESP_OK, pool, cr + 2, resp_value_zero\<lparr>rv_type := RESP_TYPE_NULL\<rparr>)
                            else (case parse_array fuel buf w pool (cr + 2) cnt [] of
                                    None \<Rightarrow> None
                                  | Some (st, pool', pos', v) \<Rightarrow>
                                      Some (st, pool', if st = RESP_OK then pos' else pos, v)))))"
| "parse_array 0 buf w pool pos cnt nodes = None"
| "parse_array (Suc fuel) buf w pool pos cnt nodes =
     (if cnt \<le> 0 then Some (RESP_OK, pool, pos, resp_value_zero\<lparr>rv_type := RESP_TYPE_ARRAY, rv_array := nodes\<rparr>)
      else (case resp__node_alloc pool of
              (None, pool1) \<Rightarrow> Some (RESP_ERROR, resp__node_list_release pool1 nodes, pos, resp_value_zero)
            | (Some child, pool1) \<Rightarrow>
                (case parse_value fuel buf w pool1 pos of
                   None \<Rightarrow> None
                 | Some (st, pool2, pos', nested) \<Rightarrow>
                     if st \<noteq> RESP_OK
                     then Some (st, resp__node_list_release (resp__node_free pool2 child) nodes, pos, resp_value_zero)
                     else parse_array fuel buf w pool2 pos' (cnt - 1)
                            (resp__node_append nodes (value_node child nested)))))"

definition resp_parser_next :: "resp_parser \<Rightarrow> (resp_parse_status \<times> resp_parser \<times> resp_value) option" where
  "resp_parser_next p0 =
     (let p = (if p_r_pos p0 > p_buf_cap p0 div 2 then resp__compact p0 else p0) in
      case parse_value (p_w_pos p - p_r_pos p + 1) (p_buf p) (p_w_pos p) (p_pool p) (p_r_pos p) of
        None \<Rightarrow> None
      | Some (st, pool, pos, v) \<Rightarrow>
          Some (st, p\<lparr>p_pool := pool, p_r_pos := (if st = RESP_OK then pos else p_r_pos p)\<rparr>, v))"

section \<open>Progress and enough fuel\<close>

lemma parse_inline_cases:
  assumes "resp__parse_inline buf w pool pos = (st, pool', pos', v)" "w \<le> length buf"
  obtains (more) "st = RESP_NEED_MORE" "pool' = pool" "pos' = pos"
  | (err) "st = RESP_ERROR" "pos' = pos" "balanced pool {#} pool' {#}"
  | (ok) lf e where "st = RESP_OK" "pos' = lf + 1" "pos \<le> lf" "lf < w" "rv_type v = RESP_TYPE_ARRAY"
      "find_lf buf w pos = Some lf" "e = (if lf > pos \<and> buf ! (lf - 1) = CR then lf - 1 else lf)"
      "pos \<le> e" "e \<le> lf"
      "balanced pool {#} pool' (list_addrs (rv_array v))" "\<forall>n \<in> set (rv_array v). token_node pos e n"
      "map (node_text buf) (rv_array v) = split_blanks (slice pos (e - pos) buf)"
proof (cases "find_lf buf w pos")
  case None
  then show ?thesis using assms more by (simp add: resp__parse_inline_def)
next
  case (Some lf)
  let ?e = "if lf > pos \<and> buf ! (lf - 1) = CR then lf - 1 else lf"
  note L = find_lf_SomeD [OF Some]
  have e: "?e \<le> length buf" "pos \<le> ?e" "?e \<le> lf" using L assms(2) by auto
  obtain r q where rq: "inline_loop buf ?e pool pos [] = (r, q)" by fastforce
  note S = inline_loop_spec [OF e(1,2), of pool "[]", unfolded rq]
  show ?thesis
  proof (cases r)
    case None
    then have "(st, pool', pos', v) = (RESP_ERROR, q, pos, resp_value_zero)"
      using assms(1) Some rq unfolding resp__parse_inline_def Let_def by simp
    then show ?thesis using err S None by simp
  next
    case (Some ns)
    then have "(st, pool', pos', v) = (RESP_OK, q, lf + 1, resp_value_zero\<lparr>rv_type := RESP_TYPE_ARRAY, rv_array := ns\<rparr>)"
      using assms(1) \<open>find_lf buf w pos = Some lf\<close> rq unfolding resp__parse_inline_def Let_def by simp
    then show ?thesis using ok [of lf ?e] S Some L e \<open>find_lf buf w pos = Some lf\<close> by auto
  qed
qed

text \<open>Every slice of a tree lies between two offsets.\<close>

definition has_slice :: "resp_type \<Rightarrow> bool" where
  "has_slice t \<longleftrightarrow> t = RESP_TYPE_BULK \<or> t = RESP_TYPE_SIMPLE \<or> t = RESP_TYPE_ERROR"

fun node_within :: "nat \<Rightarrow> nat \<Rightarrow> resp_node \<Rightarrow> bool" where
  "node_within lo hi (RespNode a t i b l children) \<longleftrightarrow>
     (has_slice t \<longrightarrow> lo \<le> b \<and> b + l \<le> hi) \<and> list_all (node_within lo hi) children"

definition value_nodes :: "resp_value \<Rightarrow> resp_node list" where
  "value_nodes v = (if rv_type v = RESP_TYPE_ARRAY then rv_array v else [])"

definition value_within :: "nat \<Rightarrow> nat \<Rightarrow> resp_value \<Rightarrow> bool" where
  "value_within lo hi v \<longleftrightarrow> (has_slice (rv_type v) \<longrightarrow> lo \<le> rv_bulk v \<and> rv_bulk v + rv_bulk_len v \<le> hi) \<and>
     list_all (node_within lo hi) (value_nodes v)"

lemma node_within_mono: "node_within lo hi n \<Longrightarrow> lo' \<le> lo \<Longrightarrow> hi \<le> hi' \<Longrightarrow> node_within lo' hi' n"
  by (induction n) (auto simp: list_all_iff)

lemma value_within_mono: "value_within lo hi v \<Longrightarrow> lo' \<le> lo \<Longrightarrow> hi \<le> hi' \<Longrightarrow> value_within lo' hi' v"
  by (auto simp: value_within_def list_all_iff intro: node_within_mono)

lemma value_node_within: "node_within lo hi (value_node a v) \<longleftrightarrow> value_within lo hi v"
  by (auto simp: value_node_def value_within_def value_nodes_def)

lemma token_node_within: "token_node lo hi n \<Longrightarrow> node_within lo hi n"
  by (cases n) (auto simp: token_node_def)

lemma value_node_addrs: "node_addrs (value_node a v) = add_mset a (list_addrs (value_nodes v))"
  by (auto simp: value_node_def value_nodes_def node_addrs_list simp del: node_addrs.simps)

lemma value_zero_simps [simp]:
  "rv_type resp_value_zero = RESP_TYPE_INCOMPLETE" "rv_array resp_value_zero = []" "rv_integer resp_value_zero = 0"
  by (simp_all add: resp_value_zero_def)

text \<open>What holds of every result, for a start at \<open>pos\<close> with the nodes \<open>live\<close> in hand: success moves the
  position forward inside the written bytes, all slices lie between \<open>lo\<close> and the new position, and every
  node drawn or taken is in the value; otherwise every node is back on the free list. A value moves the
  position exactly when it is complete.\<close>

fun decode_ok :: "nat \<Rightarrow> nat \<Rightarrow> nat \<Rightarrow> node_pool \<Rightarrow> addr multiset \<Rightarrow> parse_result \<Rightarrow> bool" where
  "decode_ok lo pos w pool live (st, pool', pos', v) \<longleftrightarrow>
     (if st = RESP_OK
      then pos \<le> pos' \<and> pos' \<le> w \<and> value_within lo pos' v \<and> balanced pool live pool' (list_addrs (value_nodes v))
      else balanced pool live pool' {#})"

fun moves :: "nat \<Rightarrow> parse_result \<Rightarrow> bool" where
  "moves pos (st, pool', pos', v) \<longleftrightarrow> (if st = RESP_OK then pos < pos' else pos' = pos)"

lemma parse_inline_ok:
  assumes "resp__parse_inline buf w pool pos = r" "w \<le> length buf"
  shows "decode_ok pos pos w pool {#} r \<and> moves pos r"
proof -
  obtain st pool' pos' v where r: "r = (st, pool', pos', v)" by (cases r) auto
  show ?thesis
    using assms(1)[unfolded r] assms(2)
  proof (cases rule: parse_inline_cases)
    case (ok lf e)
    then have "list_all (node_within pos pos') (rv_array v)"
      using token_node_within node_within_mono by (fastforce simp: list_all_iff)
    then show ?thesis using ok r by (auto simp: value_within_def value_nodes_def has_slice_def)
  qed (auto simp: r)
qed

lemma parse_simple_ok:
  assumes cr: "resp__find_crlf buf w (pos + 1) = Some cr"
  shows "decode_ok pos pos w pool {#} (parse_line buf c pool (pos + 1) cr)"
    and "decode_ok pos pos w pool {#} (parse_integer buf pool pos (pos + 1) cr)"
    and "decode_ok pos pos w pool {#} (parse_bulk buf w pool pos (pos + 1) cr)"
proof -
  have C: "pos + 1 \<le> cr" "cr + 1 < w" using find_crlf_SomeD [OF cr] by auto
  show "decode_ok pos pos w pool {#} (parse_line buf c pool (pos + 1) cr)"
    using C by (auto simp: parse_line_def value_within_def value_nodes_def)
  show "decode_ok pos pos w pool {#} (parse_integer buf pool pos (pos + 1) cr)"
    using C by (auto simp: parse_integer_def value_within_def value_nodes_def has_slice_def split: option.splits)
  show "decode_ok pos pos w pool {#} (parse_bulk buf w pool pos (pos + 1) cr)"
    using C by (auto simp: parse_bulk_def value_within_def value_nodes_def has_slice_def Let_def split: option.splits)
qed

lemma parse_simple_moves:
  assumes cr: "resp__find_crlf buf w (pos + 1) = Some cr"
  shows "moves pos (parse_line buf c pool (pos + 1) cr)" "moves pos (parse_integer buf pool pos (pos + 1) cr)"
    "moves pos (parse_bulk buf w pool pos (pos + 1) cr)"
  using find_crlf_SomeD [OF cr]
  by (auto simp: parse_line_def parse_integer_def parse_bulk_def Let_def split: option.splits)

text \<open>One step of \<open>parse_value\<close>: a result, or the start and length of an array.\<close>

definition parse_head :: "string \<Rightarrow> nat \<Rightarrow> node_pool \<Rightarrow> nat \<Rightarrow> parse_result + nat \<times> int" where
  "parse_head buf w pool pos =
     (if pos \<ge> w then Inl (RESP_NEED_MORE, pool, pos, resp_value_zero)
      else if \<not> is_prefix_char (buf ! pos) then Inl (resp__parse_inline buf w pool pos)
      else (case resp__find_crlf buf w (pos + 1) of
              None \<Rightarrow> Inl (RESP_NEED_MORE, pool, pos, resp_value_zero)
            | Some cr \<Rightarrow>
                if buf ! pos = CHR ''+'' \<or> buf ! pos = CHR ''-'' then Inl (parse_line buf (buf ! pos) pool (pos + 1) cr)
                else if buf ! pos = CHR '':'' then Inl (parse_integer buf pool pos (pos + 1) cr)
                else if buf ! pos = CHR ''$'' then Inl (parse_bulk buf w pool pos (pos + 1) cr)
                else (case resp__parse_int buf (pos + 1) cr of
                        None \<Rightarrow> Inl (RESP_ERROR, pool, pos, resp_value_zero)
                      | Some cnt \<Rightarrow>
                          if cnt < 0 then Inl (RESP_OK, pool, cr + 2, resp_value_zero\<lparr>rv_type := RESP_TYPE_NULL\<rparr>)
                          else Inr (cr + 2, cnt))))"

definition array_result :: "nat \<Rightarrow> parse_result \<Rightarrow> parse_result" where
  "array_result pos r = (case r of (st, pool, pos', v) \<Rightarrow> (st, pool, if st = RESP_OK then pos' else pos, v))"

lemma parse_value_head:
  "parse_value (Suc fuel) buf w pool pos =
     (case parse_head buf w pool pos of
        Inl r \<Rightarrow> Some r
      | Inr (start, cnt) \<Rightarrow> map_option (array_result pos) (parse_array fuel buf w pool start cnt []))"
  by (simp add: parse_head_def array_result_def Let_def map_option_case split: option.splits)

lemma parse_head_Inr:
  assumes "parse_head buf w pool pos = Inr (start, cnt)"
  obtains cr where "pos < w" "buf ! pos = CHR ''*''" "resp__find_crlf buf w (pos + 1) = Some cr" "start = cr + 2"
    "resp__parse_int buf (pos + 1) cr = Some cnt" "0 \<le> cnt" "pos + 2 < start" "start \<le> w"
proof -
  obtain cr where cr: "resp__find_crlf buf w (pos + 1) = Some cr" "pos < w" "buf ! pos = CHR ''*''" "start = cr + 2"
    "resp__parse_int buf (pos + 1) cr = Some cnt" "0 \<le> cnt"
    using assms by (auto simp: parse_head_def is_prefix_char_def split: if_splits option.splits)
  then show ?thesis using that find_crlf_SomeD [OF cr(1)] by auto
qed

lemmas parse_value_Suc = parse_value.simps(2)
declare parse_value.simps(2) [simp del]

text \<open>The recursion of the two functions, in the form the following proofs use: an induction on the fuel
  with the array step split into its cases.\<close>

lemma parse_array_step:
  "parse_array (Suc fuel) buf w pool pos cnt nodes =
     (if cnt \<le> 0 then Some (RESP_OK, pool, pos, resp_value_zero\<lparr>rv_type := RESP_TYPE_ARRAY, rv_array := nodes\<rparr>)
      else (case resp__node_alloc pool of
              (None, pool1) \<Rightarrow> Some (RESP_ERROR, resp__node_list_release pool1 nodes, pos, resp_value_zero)
            | (Some child, pool1) \<Rightarrow>
                Option.bind (parse_value fuel buf w pool1 pos) (\<lambda>(st, pool2, pos', nested).
                  if st \<noteq> RESP_OK
                  then Some (st, resp__node_list_release (resp__node_free pool2 child) nodes, pos, resp_value_zero)
                  else parse_array fuel buf w pool2 pos' (cnt - 1)
                         (resp__node_append nodes (value_node child nested)))))"
  by (auto split: option.splits prod.splits)

declare parse_array.simps(2) [simp del]

lemma parse_array_cases:
  assumes "parse_array (Suc fuel) buf w pool pos cnt nodes = Some r"
  obtains (finished) "cnt \<le> 0" "r = (RESP_OK, pool, pos, resp_value_zero\<lparr>rv_type := RESP_TYPE_ARRAY, rv_array := nodes\<rparr>)"
  | (no_node) pool1 where "0 < cnt" "resp__node_alloc pool = (None, pool1)"
      "r = (RESP_ERROR, resp__node_list_release pool1 nodes, pos, resp_value_zero)"
  | (bad) child pool1 st pool2 pos' nested where "0 < cnt" "resp__node_alloc pool = (Some child, pool1)"
      "parse_value fuel buf w pool1 pos = Some (st, pool2, pos', nested)" "st \<noteq> RESP_OK"
      "r = (st, resp__node_list_release (resp__node_free pool2 child) nodes, pos, resp_value_zero)"
  | (element) child pool1 pool2 pos' nested where "0 < cnt" "resp__node_alloc pool = (Some child, pool1)"
      "parse_value fuel buf w pool1 pos = Some (RESP_OK, pool2, pos', nested)"
      "parse_array fuel buf w pool2 pos' (cnt - 1) (resp__node_append nodes (value_node child nested)) = Some r"
proof (cases "cnt \<le> 0")
  case True
  then show ?thesis using assms finished by (simp add: parse_array_step)
next
  case False
  obtain m pool1 where alloc: "resp__node_alloc pool = (m, pool1)" by fastforce
  show ?thesis
  proof (cases m)
    case None
    then show ?thesis using assms False alloc no_node by (simp add: parse_array_step)
  next
    case (Some child)
    then obtain st pool2 pos' nested where v: "parse_value fuel buf w pool1 pos = Some (st, pool2, pos', nested)"
      using assms False alloc by (auto simp: parse_array_step bind_eq_Some_conv)
    then show ?thesis
      using assms False alloc Some bad element by (cases "st = RESP_OK") (simp_all add: parse_array_step)
  qed
qed

lemma parse_head_ok:
  assumes "parse_head buf w pool pos = Inl r" "w \<le> length buf"
  shows "decode_ok pos pos w pool {#} r \<and> moves pos r"
proof (cases "pos < w \<and> is_prefix_char (buf ! pos)")
  case False
  then show ?thesis
    using assms parse_inline_ok [of buf w pool pos] by (auto simp: parse_head_def split: if_splits)
next
  case True
  show ?thesis
  proof (cases "resp__find_crlf buf w (pos + 1)")
    case None
    then show ?thesis using assms True by (auto simp: parse_head_def)
  next
    case (Some cr)
    have C: "pos + 1 \<le> cr" "cr + 1 < w" using find_crlf_SomeD [OF Some] by auto
    show ?thesis
      using assms(1) True Some C parse_simple_ok [OF Some] parse_simple_moves [OF Some]
      by (auto simp: parse_head_def value_within_def value_nodes_def has_slice_def split: if_splits option.splits)
  qed
qed

lemma decode_correct_aux:
  assumes "w \<le> length buf"
  shows "(\<forall>pool pos r. parse_value fuel buf w pool pos = Some r \<longrightarrow> decode_ok pos pos w pool {#} r \<and> moves pos r) \<and>
    (\<forall>pool pos cnt nodes r lo. parse_array fuel buf w pool pos cnt nodes = Some r \<longrightarrow> pos \<le> w \<longrightarrow> lo \<le> pos \<longrightarrow>
       list_all (node_within lo pos) nodes \<longrightarrow> decode_ok lo pos w pool (list_addrs nodes) r)"
proof (induction fuel)
  case (Suc fuel)
  have "decode_ok pos pos w pool {#} r \<and> moves pos r" if v: "parse_value (Suc fuel) buf w pool pos = Some r" for pool pos r
  proof (cases "parse_head buf w pool pos")
    case (Inl q)
    then show ?thesis using v parse_head_ok [OF Inl assms] by (simp add: parse_value_head)
  next
    case (Inr x)
    then obtain start cnt where x: "parse_head buf w pool pos = Inr (start, cnt)" by (cases x) auto
    then have S: "pos + 2 < start" "start \<le> w" by (auto elim: parse_head_Inr)
    obtain q where q: "parse_array fuel buf w pool start cnt [] = Some q" "r = array_result pos q"
      using v x by (auto simp: parse_value_head)
    moreover have "list_all (node_within start start) []" by simp
    ultimately have "decode_ok start start w pool (list_addrs []) q" using Suc S(2) by blast
    then show ?thesis using q(2) S value_within_mono by (cases q) (auto simp: array_result_def)
  qed
  moreover have "decode_ok lo pos w pool (list_addrs nodes) r"
    if a: "parse_array (Suc fuel) buf w pool pos cnt nodes = Some r"
      and P: "pos \<le> w" "lo \<le> pos" "list_all (node_within lo pos) nodes" for pool pos cnt nodes r lo
    using a
  proof (cases rule: parse_array_cases)
    case finished
    then show ?thesis using P by (auto simp: value_within_def value_nodes_def has_slice_def)
  next
    case (no_node pool1)
    then show ?thesis using balanced_alloc_None [of pool pool1] balanced_release [of pool nodes] by auto
  next
    case (bad child pool1 st pool2 pos' nested)
    have b1: "balanced pool (list_addrs nodes) pool1 (add_mset child (list_addrs nodes))"
      by (rule balanced_alloc [OF bad(2)])
    have "decode_ok pos pos w pool1 {#} (st, pool2, pos', nested)" using Suc bad(3) by blast
    then have "balanced pool1 (add_mset child (list_addrs nodes)) pool2 (add_mset child (list_addrs nodes))"
      using balanced_frame [of pool1 "{#}" pool2 "{#}" "add_mset child (list_addrs nodes)"] bad(4) by simp
    from balanced_trans [OF balanced_trans [OF balanced_trans [OF b1 this] balanced_free] balanced_release]
    show ?thesis using bad(4,5) by simp
  next
    case (element child pool1 pool2 pos' nested)
    let ?n = "value_node child nested"
    have b1: "balanced pool (list_addrs nodes) pool1 (add_mset child (list_addrs nodes))"
      by (rule balanced_alloc [OF element(2)])
    have "decode_ok pos pos w pool1 {#} (RESP_OK, pool2, pos', nested)" using Suc element(3) by blast
    then have V: "pos \<le> pos'" "pos' \<le> w" "value_within pos pos' nested"
      "balanced pool1 {#} pool2 (list_addrs (value_nodes nested))" by simp_all
    have within: "list_all (node_within lo pos') (resp__node_append nodes ?n)"
      using P V(1,3) node_within_mono value_within_mono
      by (fastforce simp: resp__node_append_def list_all_iff value_node_within)
    have "lo \<le> pos'" using P V by simp
    then have "decode_ok lo pos' w pool2 (list_addrs (resp__node_append nodes ?n)) r"
      using Suc element(4) V(2) within by blast
    moreover have "balanced pool1 (add_mset child (list_addrs nodes)) pool2 (list_addrs (resp__node_append nodes ?n))"
      using balanced_frame [OF V(4), of "add_mset child (list_addrs nodes)"]
      by (simp add: resp__node_append_def value_node_addrs ac_simps)
    ultimately show ?thesis
      using balanced_trans [OF balanced_trans [OF b1]] V(1) by (cases r) (auto split: if_splits)
  qed
  ultimately show ?case by blast
qed simp

lemmas decode_correct = decode_correct_aux [THEN conjunct1, rule_format]

lemma decode_fuel:
  "w \<le> length buf \<Longrightarrow>
     (\<forall>pool pos. w - pos < fuel \<longrightarrow> parse_value fuel buf w pool pos \<noteq> None) \<and>
     (\<forall>pool pos cnt nodes. w - pos + 1 < fuel \<longrightarrow> pos \<le> w \<longrightarrow> parse_array fuel buf w pool pos cnt nodes \<noteq> None)"
proof (induction fuel)
  case (Suc fuel)
  have V: "parse_value (Suc fuel) buf w pool pos \<noteq> None" if f: "w - pos < Suc fuel" for pool pos
  proof (cases "parse_head buf w pool pos")
    case (Inr x)
    then obtain start cnt where x: "parse_head buf w pool pos = Inr (start, cnt)" by (cases x) auto
    then have "pos + 2 < start" "start \<le> w" by (auto elim: parse_head_Inr)
    then have "parse_array fuel buf w pool start cnt [] \<noteq> None" using Suc f by simp
    then show ?thesis using x by (simp add: parse_value_head)
  qed (simp add: parse_value_head)
  have A: "parse_array (Suc fuel) buf w pool pos cnt nodes \<noteq> None"
    if f: "w - pos + 1 < Suc fuel" "pos \<le> w" for pool pos cnt nodes
  proof -
    have "Option.bind (parse_value fuel buf w pool1 pos) (\<lambda>(st, pool2, pos', nested).
        if st \<noteq> RESP_OK
        then Some (st, resp__node_list_release (resp__node_free pool2 child) nodes, pos, resp_value_zero)
        else parse_array fuel buf w pool2 pos' (cnt - 1) (resp__node_append nodes (value_node child nested))) \<noteq> None"
      for child pool1
    proof -
      have "parse_value fuel buf w pool1 pos \<noteq> None" using Suc f by simp
      then obtain st pool2 pos' nested where v: "parse_value fuel buf w pool1 pos = Some (st, pool2, pos', nested)"
        by auto
      then have "st = RESP_OK \<Longrightarrow> pos < pos' \<and> pos' \<le> w" using decode_correct [OF Suc.prems v] by simp
      then show ?thesis using v Suc f by auto
    qed
    then show ?thesis unfolding parse_array_step by (auto split: prod.splits option.splits)
  qed
  show ?case using V A by blast
qed simp

lemma decode_fuel_Suc:
  "(\<forall>pool pos r. parse_value fuel buf w pool pos = Some r \<longrightarrow> parse_value (Suc fuel) buf w pool pos = Some r) \<and>
   (\<forall>pool pos cnt nodes r. parse_array fuel buf w pool pos cnt nodes = Some r \<longrightarrow>
      parse_array (Suc fuel) buf w pool pos cnt nodes = Some r)"
proof (induction fuel)
  case (Suc fuel)
  have "parse_value (Suc (Suc fuel)) buf w pool pos = Some r"
    if "parse_value (Suc fuel) buf w pool pos = Some r" for pool pos r
    using that Suc
    unfolding parse_value_head [of "Suc fuel"] parse_value_head [of fuel]
    by (auto split: sum.splits prod.splits)
  moreover have "parse_array (Suc (Suc fuel)) buf w pool pos cnt nodes = Some r"
    if "parse_array (Suc fuel) buf w pool pos cnt nodes = Some r" for pool pos cnt nodes r
    using that
  proof (cases rule: parse_array_cases)
    case (bad child pool1 st pool2 pos' nested)
    then show ?thesis using Suc by (simp add: parse_array_step [of "Suc fuel"])
  next
    case (element child pool1 pool2 pos' nested)
    then have "parse_value (Suc fuel) buf w pool1 pos = Some (RESP_OK, pool2, pos', nested)"
      "parse_array (Suc fuel) buf w pool2 pos' (cnt - 1) (resp__node_append nodes (value_node child nested)) = Some r"
      using Suc by blast+
    then show ?thesis using element(1,2) by (simp add: parse_array_step [of "Suc fuel"])
  qed (simp_all add: parse_array_step [of "Suc fuel"])
  ultimately show ?case by blast
qed simp

lemma parse_value_mono:
  assumes "fuel \<le> fuel'" "parse_value fuel buf w pool pos = Some r"
  shows "parse_value fuel' buf w pool pos = Some r"
  using assms(1)
proof (induction fuel' rule: dec_induct)
  case (step n)
  then show ?case using decode_fuel_Suc [of n buf w] by blast
qed (rule assms(2))

lemma parse_array_mono:
  assumes "fuel \<le> fuel'" "parse_array fuel buf w pool pos cnt nodes = Some r"
  shows "parse_array fuel' buf w pool pos cnt nodes = Some r"
  using assms(1)
proof (induction fuel' rule: dec_induct)
  case (step n)
  then show ?case using decode_fuel_Suc [of n buf w] by blast
qed (rule assms(2))

section \<open>More input does not change an answer\<close>

lemma slice_agree:
  assumes "agree w buf buf'" "i + n \<le> w" "w \<le> length buf" "w \<le> length buf'"
  shows "slice i n buf' = slice i n buf"
  using assms by (intro nth_equalityI) (simp_all add: nth_slice agree_def)

lemma parse_int_agree:
  assumes "agree w buf buf'" "to \<le> w" "w \<le> length buf" "w \<le> length buf'"
  shows "resp__parse_int buf' from to = resp__parse_int buf from to"
proof (cases "from < to")
  case True
  then have "buf' ! from = buf ! from" using assms by (simp add: agree_def)
  moreover have "slice i (to - i) buf' = slice i (to - i) buf" "buf' ! i = buf ! i" if "i < to" for i
    using slice_agree [OF assms(1), of i "to - i"] assms that by (simp_all add: agree_def)
  ultimately show ?thesis using True by (auto simp: resp__parse_int_def Let_def)
qed (simp add: resp__parse_int_def)

lemma parse_head_agree:
  assumes h: "parse_head buf w pool pos = r" and more: "\<And>q. r = Inl q \<Longrightarrow> fst q \<noteq> RESP_NEED_MORE"
    and A: "agree w buf buf'" "w \<le> w'" "w \<le> length buf" "w' \<le> length buf'"
  shows "parse_head buf' w' pool pos = r"
proof -
  have pos: "pos < w" using h more by (force simp: parse_head_def)
  then have c: "buf' ! pos = buf ! pos" using A(1) by (simp add: agree_def)
  show ?thesis
  proof (cases "is_prefix_char (buf ! pos)")
    case False
    then have "r = Inl (resp__parse_inline buf w pool pos)" using h pos by (simp add: parse_head_def)
    moreover obtain st pool' pos' v where i: "resp__parse_inline buf w pool pos = (st, pool', pos', v)"
      by (metis prod.exhaust)
    ultimately have "resp__parse_inline buf' w' pool pos = (st, pool', pos', v)"
      using parse_inline_agree [OF i _ A(1,2)] more by simp
    then show ?thesis using False pos c A(2) i \<open>r = Inl _\<close> by (simp add: parse_head_def)
  next
    case True
    obtain cr where cr: "resp__find_crlf buf w (pos + 1) = Some cr"
      using h more pos True by (cases "resp__find_crlf buf w (pos + 1)") (force simp: parse_head_def)+
    have b: "cr + 1 < w" using find_crlf_SomeD [OF cr] by simp
    have int: "resp__parse_int buf' (pos + 1) cr = resp__parse_int buf (pos + 1) cr"
      using parse_int_agree [OF A(1)] A b by simp
    have "parse_bulk buf' w' pool pos (pos + 1) cr = parse_bulk buf w pool pos (pos + 1) cr"
      if "buf ! pos = CHR ''$''"
    proof -
      have "fst (parse_bulk buf w pool pos (pos + 1) cr) \<noteq> RESP_NEED_MORE"
        using more [of "parse_bulk buf w pool pos (pos + 1) cr"] h pos True cr that by (simp add: parse_head_def)
      then show ?thesis
        using A(1,2) int by (auto simp: parse_bulk_def Let_def agree_def split: option.splits if_splits)
    qed
    then show ?thesis
      using h more pos True c A(2) cr find_crlf_agree [OF cr A(1,2)] int
      by (auto simp: parse_head_def parse_line_def parse_integer_def)
  qed
qed

lemma decode_agree:
  assumes A: "agree w buf buf'" "w \<le> w'" "w \<le> length buf" "w' \<le> length buf'"
  shows "(\<forall>pool pos r. parse_value fuel buf w pool pos = Some r \<longrightarrow> fst r \<noteq> RESP_NEED_MORE \<longrightarrow>
      parse_value fuel buf' w' pool pos = Some r) \<and>
    (\<forall>pool pos cnt nodes r. parse_array fuel buf w pool pos cnt nodes = Some r \<longrightarrow> fst r \<noteq> RESP_NEED_MORE \<longrightarrow>
      parse_array fuel buf' w' pool pos cnt nodes = Some r)"
proof (induction fuel)
  case (Suc fuel)
  have "parse_value (Suc fuel) buf' w' pool pos = Some r"
    if v: "parse_value (Suc fuel) buf w pool pos = Some r" and n: "fst r \<noteq> RESP_NEED_MORE" for pool pos r
  proof (cases "parse_head buf w pool pos")
    case (Inl q)
    then have "q = r" using v by (simp add: parse_value_head)
    then show ?thesis using parse_head_agree [OF Inl _ A] n by (simp add: parse_value_head)
  next
    case (Inr x)
    then obtain start cnt where x: "parse_head buf w pool pos = Inr (start, cnt)" by (cases x) auto
    then obtain q where q: "parse_array fuel buf w pool start cnt [] = Some q" "r = array_result pos q"
      using v by (auto simp: parse_value_head)
    then have "fst q \<noteq> RESP_NEED_MORE" using n by (cases q) (simp add: array_result_def)
    then have "parse_array fuel buf' w' pool start cnt [] = Some q" using Suc q(1) by blast
    then show ?thesis using q(2) parse_head_agree [OF x _ A] by (simp add: parse_value_head)
  qed
  moreover have "parse_array (Suc fuel) buf' w' pool pos cnt nodes = Some r"
    if a: "parse_array (Suc fuel) buf w pool pos cnt nodes = Some r" and n: "fst r \<noteq> RESP_NEED_MORE"
    for pool pos cnt nodes r
    using a
  proof (cases rule: parse_array_cases)
    case (bad child pool1 st pool2 pos' nested)
    then have "parse_value fuel buf' w' pool1 pos = Some (st, pool2, pos', nested)" using Suc n by auto
    then show ?thesis using bad by (simp add: parse_array_step)
  next
    case (element child pool1 pool2 pos' nested)
    have "parse_value fuel buf' w' pool1 pos = Some (RESP_OK, pool2, pos', nested)" using Suc element(3) by auto
    moreover have "parse_array fuel buf' w' pool2 pos' (cnt - 1) (resp__node_append nodes (value_node child nested)) = Some r"
      using Suc element(4) n by blast
    ultimately show ?thesis using element(1,2) by (simp add: parse_array_step)
  qed (simp_all add: parse_array_step)
  ultimately show ?case by blast
qed simp

section \<open>Round trip\<close>

text \<open>RESP values as the protocol defines them, their bytes, and the value a parsed tree stands for.\<close>

datatype resp = RSimple string | RErr string | RInt int | RBulk string | RNull | RArray "resp list"

fun resp_bytes :: "resp \<Rightarrow> string" where
  "resp_bytes (RSimple s) = CHR ''+'' # s @ crlf"
| "resp_bytes (RErr s) = CHR ''-'' # s @ crlf"
| "resp_bytes (RInt i) = CHR '':'' # show_int i @ crlf"
| "resp_bytes (RBulk s) = CHR ''$'' # show_nat (length s) @ crlf @ s @ crlf"
| "resp_bytes RNull = CHR ''$'' # show_int (-1) @ crlf"
| "resp_bytes (RArray vs) = CHR ''*'' # show_nat (length vs) @ crlf @ concat (map resp_bytes vs)"

fun resp_ok :: "resp \<Rightarrow> bool" where
  "resp_ok (RSimple s) \<longleftrightarrow> CR \<notin> set s"
| "resp_ok (RErr s) \<longleftrightarrow> CR \<notin> set s"
| "resp_ok (RInt i) \<longleftrightarrow> - (2 ^ 63) < i \<and> i < 2 ^ 63"
| "resp_ok (RBulk s) \<longleftrightarrow> length s < 2 ^ 63"
| "resp_ok RNull \<longleftrightarrow> True"
| "resp_ok (RArray vs) \<longleftrightarrow> length vs < 2 ^ 63 \<and> list_all resp_ok vs"

fun resp_nodes :: "resp \<Rightarrow> nat" where
  "resp_nodes (RArray vs) = length vs + sum_list (map resp_nodes vs)"
| "resp_nodes v = 0"

fun node_resp :: "string \<Rightarrow> resp_node \<Rightarrow> resp" where
  "node_resp buf (RespNode a t i b l children) =
     (case t of
        RESP_TYPE_SIMPLE \<Rightarrow> RSimple (slice b l buf)
      | RESP_TYPE_ERROR \<Rightarrow> RErr (slice b l buf)
      | RESP_TYPE_INTEGER \<Rightarrow> RInt i
      | RESP_TYPE_BULK \<Rightarrow> RBulk (slice b l buf)
      | RESP_TYPE_ARRAY \<Rightarrow> RArray (map (node_resp buf) children)
      | _ \<Rightarrow> RNull)"

definition value_resp :: "string \<Rightarrow> resp_value \<Rightarrow> resp" where
  "value_resp buf v = node_resp buf (value_node 0 v)"

lemma node_resp_value: "node_resp buf (value_node a v) = value_resp buf v"
  by (simp add: value_resp_def value_node_def)

text \<open>\<open>here buf w pos s\<close>: the bytes \<open>s\<close> stand at \<open>pos\<close>, before \<open>w\<close>.\<close>

definition here :: "string \<Rightarrow> nat \<Rightarrow> nat \<Rightarrow> string \<Rightarrow> bool" where
  "here buf w pos s \<longleftrightarrow> pos + length s \<le> w \<and> w \<le> length buf \<and> slice pos (length s) buf = s"

lemma here_nth: "here buf w pos s \<Longrightarrow> i < length s \<Longrightarrow> buf ! (pos + i) = s ! i"
  unfolding here_def by (metis add_less_cancel_left le_trans nth_slice order_less_le_trans)

lemma here_append:
  "here buf w pos (s @ t) \<longleftrightarrow> here buf w pos s \<and> here buf w (pos + length s) t"
proof -
  have "slice pos (length s + length t) buf = slice pos (length s) buf @ slice (pos + length s) (length t) buf"
    by (simp add: slice_def take_add add.commute)
  then show ?thesis by (auto simp: here_def append_eq_append_conv)
qed

lemma here_Cons: "here buf w pos (c # s) \<Longrightarrow> pos < w \<and> buf ! pos = c \<and> here buf w (pos + 1) s"
  using here_append [of buf w pos "[c]" s] here_nth [of buf w pos "c # s" 0] by (auto simp: here_def)

lemma here_crlf:
  assumes "here buf w pos (s @ crlf)" "CR \<notin> set s"
  shows "resp__find_crlf buf w pos = Some (pos + length s)"
proof (rule find_crlf_SomeI)
  have n: "buf ! (pos + i) = (s @ crlf) ! i" if "i < length s + 2" for i
    using here_nth [OF assms(1)] that by simp
  show "pos + length s + 1 < w" using assms(1) by (simp add: here_def)
  show "buf ! (pos + length s) = CR" "buf ! (pos + length s + 1) = LF"
    using n [of "length s"] n [of "length s + 1"] by (simp_all add: nth_append)
  show "\<forall>j. pos \<le> j \<and> j < pos + length s \<longrightarrow> \<not> (buf ! j = CR \<and> buf ! (j + 1) = LF)"
  proof (intro allI impI)
    fix j assume j: "pos \<le> j \<and> j < pos + length s"
    then have k: "j - pos < length s" by arith
    then have "buf ! j = s ! (j - pos)" using n [of "j - pos"] j by (simp add: nth_append)
    moreover have "s ! (j - pos) \<in> set s" using k by simp
    ultimately show "\<not> (buf ! j = CR \<and> buf ! (j + 1) = LF)" using assms(2) by metis
  qed
qed simp

lemma parse_int_show_nat:
  assumes "here buf w pos (show_nat n)" "n < 2 ^ 63"
  shows "resp__parse_int buf pos (pos + length (show_nat n)) = Some (int n)"
proof -
  have d: "is_digit (buf ! pos)" "buf ! pos \<noteq> CHR ''-''"
    using here_nth [OF assms(1), of 0] hd_show_nat_digit [of n] not_digit_chars(4) by (auto simp: hd_conv_nth)
  have "slice pos (length (show_nat n)) buf = show_nat n" using assms(1) by (simp add: here_def)
  then show ?thesis
    using d scan_digits_show_nat [OF assms(2)] by (simp add: resp__parse_int_def Let_def)
qed

lemma parse_int_show_int:
  assumes "here buf w pos (show_int i)" "- (2 ^ 63) < i" "i < 2 ^ 63"
  shows "resp__parse_int buf pos (pos + length (show_int i)) = Some i"
proof (cases "i < 0")
  case False
  then show ?thesis using parse_int_show_nat [of buf w pos "nat i"] assms by (simp add: show_int_def)
next
  case True
  let ?n = "nat (- i)"
  have s: "show_int i = CHR ''-'' # show_nat ?n" using True by (simp add: show_int_def)
  have h: "buf ! pos = CHR ''-''" "here buf w (pos + 1) (show_nat ?n)"
    using here_Cons [of buf w pos "CHR ''-''" "show_nat ?n"] assms(1) s by simp_all
  have "is_digit (buf ! (pos + 1))"
    using here_nth [OF h(2), of 0] hd_show_nat_digit [of ?n] by (simp add: hd_conv_nth)
  moreover have "slice (pos + 1) (length (show_nat ?n)) buf = show_nat ?n" using h(2) by (simp add: here_def)
  moreover have "scan_digits 0 (show_nat ?n) = Some (int ?n)" using assms(2) by (intro scan_digits_show_nat) simp
  moreover have "wrap_i64 (- int ?n) = i" using True assms by (simp add: wrap_i64_id in_i64_def)
  ultimately show ?thesis using h(1) s by (simp add: resp__parse_int_def Let_def)
qed

lemma CR_notin_show_int [simp]: "CR \<notin> set (show_int i)"
  by (simp add: show_int_def)

text \<open>A pool that can still serve \<open>n\<close> allocations.\<close>

definition pool_ready :: "nat \<Rightarrow> node_pool \<Rightarrow> bool" where
  "pool_ready n pool \<longleftrightarrow> n \<le> length (np_free pool) + length (np_malloc pool)"

lemma alloc_ready:
  assumes "pool_ready (Suc n) pool"
  obtains a pool' where "resp__node_alloc pool = (Some a, pool')" "pool_ready n pool'"
proof -
  obtain m pool' where r: "resp__node_alloc pool = (m, pool')" by fastforce
  have "m \<noteq> None \<and> pool_ready n pool'"
  proof (cases "np_free pool")
    case (Cons a as)
    then show ?thesis using r assms by (auto simp: resp__node_alloc_def pool_ready_def)
  next
    case Nil
    then have "length (np_malloc pool) \<ge> Suc n" using assms by (simp add: pool_ready_def)
    then show ?thesis
      using r Nil by (auto simp: resp__node_alloc_def node_malloc_def pool_ready_def
          split: option.splits prod.splits list.splits)
  qed
  then show ?thesis using that r by auto
qed

text \<open>The two halves of the round trip: a value at \<open>pos\<close> is parsed as itself, and so is a list of values
  in an array.\<close>

definition reads_back :: "string \<Rightarrow> nat \<Rightarrow> resp \<Rightarrow> bool" where
  "reads_back buf w v \<longleftrightarrow> (\<forall>pool pos n. here buf w pos (resp_bytes v) \<longrightarrow> pool_ready (resp_nodes v + n) pool \<longrightarrow>
     (\<exists>fuel pool' val. parse_value fuel buf w pool pos = Some (RESP_OK, pool', pos + length (resp_bytes v), val) \<and>
        value_resp buf val = v \<and> pool_ready n pool'))"

lemma reads_backD:
  assumes "reads_back buf w v" "here buf w pos (resp_bytes v)" "pool_ready (resp_nodes v + n) pool"
  obtains fuel pool' val where "parse_value fuel buf w pool pos = Some (RESP_OK, pool', pos + length (resp_bytes v), val)"
    "value_resp buf val = v" "pool_ready n pool'"
  using assms unfolding reads_back_def by blast

lemma leaf_reads_back:
  assumes "resp_nodes v = 0"
    and "\<And>pool pos. here buf w pos (resp_bytes v) \<Longrightarrow>
      \<exists>val. parse_head buf w pool pos = Inl (RESP_OK, pool, pos + length (resp_bytes v), val) \<and> value_resp buf val = v"
  shows "reads_back buf w v"
  unfolding reads_back_def
proof (intro allI impI)
  fix pool pos n
  assume "here buf w pos (resp_bytes v)" and p: "pool_ready (resp_nodes v + n) pool"
  then obtain val where "parse_head buf w pool pos = Inl (RESP_OK, pool, pos + length (resp_bytes v), val)"
      "value_resp buf val = v" using assms(2) by blast
  then show "\<exists>fuel pool' val. parse_value fuel buf w pool pos =
      Some (RESP_OK, pool', pos + length (resp_bytes v), val) \<and> value_resp buf val = v \<and> pool_ready n pool'"
    using p assms(1) by (intro exI [of _ "Suc 0"] exI [of _ pool] exI [of _ val]) (simp add: parse_value_head)
qed

text \<open>The header line of a value: its type byte, a text without CR, and CR LF.\<close>

lemma here_line:
  assumes "here buf w pos (c # s @ crlf @ rest)" "CR \<notin> set s"
  shows "pos < w" "buf ! pos = c" "here buf w (pos + 1) s" "slice (pos + 1) (length s) buf = s"
    "resp__find_crlf buf w (pos + 1) = Some (pos + 1 + length s)" "here buf w (pos + 1 + length s + 2) rest"
proof -
  have h: "pos < w" "buf ! pos = c" "here buf w (pos + 1) ((s @ crlf) @ rest)"
    using here_Cons [of buf w pos c "s @ crlf @ rest"] assms(1) by simp_all
  then show "pos < w" "buf ! pos = c" by simp_all
  have h2: "here buf w (pos + 1) (s @ crlf)" "here buf w (pos + 1 + length s + 2) rest"
    using h(3) here_append [of buf w "pos + 1" "s @ crlf" rest] by (simp_all add: add.assoc)
  then show "here buf w (pos + 1 + length s + 2) rest" by simp
  show "here buf w (pos + 1) s" using h2(1) here_append [of buf w "pos + 1" s crlf] by simp
  then show "slice (pos + 1) (length s) buf = s" by (simp add: here_def)
  show "resp__find_crlf buf w (pos + 1) = Some (pos + 1 + length s)" using here_crlf [OF h2(1) assms(2)] .
qed

lemma array_reads_back:
  assumes "\<forall>v \<in> set vs. reads_back buf w v"
  shows "here buf w pos (concat (map resp_bytes vs)) \<Longrightarrow>
    pool_ready (length vs + sum_list (map resp_nodes vs) + n) pool \<Longrightarrow>
    \<exists>fuel pool' new. parse_array fuel buf w pool pos (int (length vs)) nodes =
        Some (RESP_OK, pool', pos + length (concat (map resp_bytes vs)),
          resp_value_zero\<lparr>rv_type := RESP_TYPE_ARRAY, rv_array := nodes @ new\<rparr>) \<and>
      map (node_resp buf) new = vs \<and> pool_ready n pool'"
  using assms
proof (induction vs arbitrary: pos pool nodes)
  case Nil
  then show ?case by (intro exI [of _ 1] exI [of _ pool] exI [of _ "[]"]) (simp add: parse_array_step)
next
  case (Cons v vs)
  let ?m = "length vs + sum_list (map resp_nodes vs) + n"
  have "pool_ready (Suc (resp_nodes v + ?m)) pool"
    using Cons.prems(2) by (simp add: pool_ready_def algebra_simps)
  then obtain a pool1 where a: "resp__node_alloc pool = (Some a, pool1)" "pool_ready (resp_nodes v + ?m) pool1"
    by (rule alloc_ready)
  have h: "here buf w pos (resp_bytes v)" "here buf w (pos + length (resp_bytes v)) (concat (map resp_bytes vs))"
    using Cons.prems(1) here_append by simp_all
  obtain f1 pool2 val where v: "parse_value f1 buf w pool1 pos = Some (RESP_OK, pool2, pos + length (resp_bytes v), val)"
    "value_resp buf val = v" "pool_ready ?m pool2"
    using reads_backD [OF _ h(1) a(2)] Cons.prems(3) by auto
  obtain f2 pool' new where r: "parse_array f2 buf w pool2 (pos + length (resp_bytes v)) (int (length vs))
        (nodes @ [value_node a val]) =
      Some (RESP_OK, pool', pos + length (resp_bytes v) + length (concat (map resp_bytes vs)),
        resp_value_zero\<lparr>rv_type := RESP_TYPE_ARRAY, rv_array := (nodes @ [value_node a val]) @ new\<rparr>)"
    "map (node_resp buf) new = vs" "pool_ready n pool'"
    using Cons.IH [OF h(2) v(3), of "nodes @ [value_node a val]"] Cons.prems(3) by auto
  let ?f = "max f1 f2"
  have "parse_array (Suc ?f) buf w pool pos (int (length (v # vs))) nodes =
      Some (RESP_OK, pool', pos + length (concat (map resp_bytes (v # vs))),
        resp_value_zero\<lparr>rv_type := RESP_TYPE_ARRAY, rv_array := nodes @ value_node a val # new\<rparr>)"
    using parse_value_mono [OF _ v(1), of ?f] parse_array_mono [OF _ r(1), of ?f] a(1)
    by (simp add: parse_array_step [of ?f] resp__node_append_def add.assoc)
  moreover have "map (node_resp buf) (value_node a val # new) = v # vs"
    using v(2) r(2) by (simp add: node_resp_value)
  ultimately show ?case
    using r(3) by (intro exI [of _ "Suc ?f"] exI [of _ pool'] exI [of _ "value_node a val # new"] conjI)
qed

lemma value_reads_back: "resp_ok v \<Longrightarrow> reads_back buf w v"
proof (induction v)
  case (RArray vs)
  have IH: "\<forall>v \<in> set vs. reads_back buf w v" using RArray by (auto simp: list_all_iff)
  have len: "length vs < 2 ^ 63" using RArray.prems by simp
  show ?case
    unfolding reads_back_def
  proof (intro allI impI)
    fix pool pos n
    assume h: "here buf w pos (resp_bytes (RArray vs))" and p: "pool_ready (resp_nodes (RArray vs) + n) pool"
    let ?s = "show_nat (length vs)"
    have "here buf w pos (CHR ''*'' # ?s @ crlf @ concat (map resp_bytes vs))" using h by simp
    note L = here_line [OF this CR_notin_show_nat]
    have head: "parse_head buf w pool pos = Inr (pos + 1 + length ?s + 2, int (length vs))"
      using L(1,2,5) parse_int_show_nat [OF L(3) len] by (simp add: parse_head_def is_prefix_char_def)
    obtain f pool' new where r: "parse_array f buf w pool (pos + 1 + length ?s + 2) (int (length vs)) [] =
        Some (RESP_OK, pool', pos + 1 + length ?s + 2 + length (concat (map resp_bytes vs)),
          resp_value_zero\<lparr>rv_type := RESP_TYPE_ARRAY, rv_array := [] @ new\<rparr>)"
      "map (node_resp buf) new = vs" "pool_ready n pool'"
      using array_reads_back [OF IH L(6), of n pool "[]"] p by auto
    have "parse_value (Suc f) buf w pool pos = Some (RESP_OK, pool', pos + length (resp_bytes (RArray vs)),
        resp_value_zero\<lparr>rv_type := RESP_TYPE_ARRAY, rv_array := new\<rparr>)"
      using head r(1) by (simp add: parse_value_head array_result_def)
    moreover have "value_resp buf (resp_value_zero\<lparr>rv_type := RESP_TYPE_ARRAY, rv_array := new\<rparr>) = RArray vs"
      using r(2) by (simp add: value_resp_def value_node_def)
    ultimately show "\<exists>fuel pool' val. parse_value fuel buf w pool pos =
        Some (RESP_OK, pool', pos + length (resp_bytes (RArray vs)), val) \<and> value_resp buf val = RArray vs \<and> pool_ready n pool'"
      using r(3) by blast
  qed
next
  case (RSimple s)
  show ?case
  proof (rule leaf_reads_back)
    fix pool pos assume "here buf w pos (resp_bytes (RSimple s))"
    then have "here buf w pos (CHR ''+'' # s @ crlf @ [])" by simp
    note L = here_line [OF this]
    show "\<exists>val. parse_head buf w pool pos = Inl (RESP_OK, pool, pos + length (resp_bytes (RSimple s)), val) \<and>
        value_resp buf val = RSimple s"
      using L RSimple
      by (simp add: parse_head_def is_prefix_char_def parse_line_def value_resp_def value_node_def)
  qed simp
next
  case (RErr s)
  show ?case
  proof (rule leaf_reads_back)
    fix pool pos assume "here buf w pos (resp_bytes (RErr s))"
    then have "here buf w pos (CHR ''-'' # s @ crlf @ [])" by simp
    note L = here_line [OF this]
    show "\<exists>val. parse_head buf w pool pos = Inl (RESP_OK, pool, pos + length (resp_bytes (RErr s)), val) \<and>
        value_resp buf val = RErr s"
      using L RErr
      by (simp add: parse_head_def is_prefix_char_def parse_line_def value_resp_def value_node_def)
  qed simp
next
  case (RInt i)
  show ?case
  proof (rule leaf_reads_back)
    fix pool pos assume "here buf w pos (resp_bytes (RInt i))"
    then have "here buf w pos (CHR '':'' # show_int i @ crlf @ [])" by simp
    note L = here_line [OF this CR_notin_show_int]
    show "\<exists>val. parse_head buf w pool pos = Inl (RESP_OK, pool, pos + length (resp_bytes (RInt i)), val) \<and>
        value_resp buf val = RInt i"
      using L(1,2,5) parse_int_show_int [OF L(3)] RInt
      by (simp add: parse_head_def is_prefix_char_def parse_integer_def value_resp_def value_node_def)
  qed simp
next
  case (RBulk s)
  show ?case
  proof (rule leaf_reads_back)
    fix pool pos assume "here buf w pos (resp_bytes (RBulk s))"
    then have "here buf w pos (CHR ''$'' # show_nat (length s) @ crlf @ (s @ crlf))" by simp
    note L = here_line [OF this CR_notin_show_nat]
    let ?d = "pos + 1 + length (show_nat (length s)) + 2"
    have "here buf w ?d s" "here buf w (?d + length s) crlf" using L(6) here_append by simp_all
    then have D: "slice ?d (length s) buf = s" "buf ! (?d + length s) = CR" "buf ! (?d + length s + 1) = LF"
      "?d + length s + 2 \<le> w"
      using here_nth [of buf w "?d + length s" crlf 0] here_nth [of buf w "?d + length s" crlf 1]
      by (simp_all add: here_def)
    have "parse_head buf w pool pos = Inl (parse_bulk buf w pool pos (pos + 1) (pos + 1 + length (show_nat (length s))))"
      using L(1,2,5) by (simp add: parse_head_def is_prefix_char_def)
    moreover have "resp__parse_int buf (pos + 1) (pos + 1 + length (show_nat (length s))) = Some (int (length s))"
      using parse_int_show_nat [OF L(3)] RBulk by simp
    ultimately show "\<exists>val. parse_head buf w pool pos = Inl (RESP_OK, pool, pos + length (resp_bytes (RBulk s)), val) \<and>
        value_resp buf val = RBulk s"
      using D by (simp add: parse_bulk_def value_resp_def value_node_def)
  qed simp
next
  case RNull
  show ?case
  proof (rule leaf_reads_back)
    fix pool pos assume "here buf w pos (resp_bytes RNull)"
    then have "here buf w pos (CHR ''$'' # show_int (-1) @ crlf @ [])" by simp
    note L = here_line [OF this CR_notin_show_int]
    show "\<exists>val. parse_head buf w pool pos = Inl (RESP_OK, pool, pos + length (resp_bytes RNull), val) \<and>
        value_resp buf val = RNull"
      using L(1,2,5) parse_int_show_int [OF L(3)]
      by (simp add: parse_head_def is_prefix_char_def parse_bulk_def value_resp_def value_node_def)
  qed simp
qed

end
