(* ===== verification/Resp_Stream.thy ===== *)
theory Resp_Stream
  imports Resp_Decode
begin

text \<open>
  The parser as a stream transformer: what \<open>resp_parser_next\<close> answers depends only on the unread bytes,
  not on where they stand in the buffer, so compaction and chunking are invisible to the client.
\<close>

section \<open>Position independence\<close>

fun shift_node :: "nat \<Rightarrow> resp_node \<Rightarrow> resp_node" where
  "shift_node k (RespNode a t i b l children) =
     RespNode a t i (if has_slice t then k + b else b) l (map (shift_node k) children)"

definition shift_value :: "nat \<Rightarrow> resp_value \<Rightarrow> resp_value" where
  "shift_value k v = v\<lparr>rv_bulk := (if has_slice (rv_type v) then k + rv_bulk v else rv_bulk v),
     rv_array := map (shift_node k) (rv_array v)\<rparr>"

fun shift_result :: "nat \<Rightarrow> parse_result \<Rightarrow> parse_result" where
  "shift_result k (st, pool, pos, v) = (st, pool, k + pos, shift_value k v)"

lemma nth_shift: "(pre @ s) ! (length pre + i) = s ! i"
  by (simp add: nth_append)

lemma slice_shift: "slice (length pre + i) n (pre @ s) = slice i n s"
  by (simp add: slice_def)

lemma find_crlf_shift:
  "resp__find_crlf (pre @ s) (length pre + w) (length pre + i) = map_option ((+) (length pre)) (resp__find_crlf s w i)"
proof (induction s w i rule: resp__find_crlf.induct)
  case (1 s w i)
  have "(pre @ s) ! Suc (length pre + i) = s ! Suc i" using nth_shift [of pre s "Suc i"] by simp
  then show ?case
    using 1 unfolding resp__find_crlf.simps [of "pre @ s" "length pre + w" "length pre + i"] resp__find_crlf.simps [of s w i]
    by (simp add: nth_shift)
qed

lemma find_lf_shift: "find_lf (pre @ s) (length pre + w) (length pre + i) = map_option ((+) (length pre)) (find_lf s w i)"
proof (induction s w i rule: find_lf.induct)
  case (1 s w i)
  then show ?case
    unfolding find_lf.simps [of "pre @ s" "length pre + w" "length pre + i"] find_lf.simps [of s w i]
    by (simp add: nth_shift)
qed

lemma skip_blanks_shift: "skip_blanks (pre @ s) (length pre + i) (length pre + e) = length pre + skip_blanks s i e"
proof (induction s i e rule: skip_blanks.induct)
  case (1 s i e)
  then show ?case
    unfolding skip_blanks.simps [of "pre @ s" "length pre + i" "length pre + e"] skip_blanks.simps [of s i e]
    by (simp add: nth_shift)
qed

lemma skip_token_shift: "skip_token (pre @ s) (length pre + i) (length pre + e) = length pre + skip_token s i e"
proof (induction s i e rule: skip_token.induct)
  case (1 s i e)
  then show ?case
    unfolding skip_token.simps [of "pre @ s" "length pre + i" "length pre + e"] skip_token.simps [of s i e]
    by (simp add: nth_shift)
qed

lemma parse_int_shift:
  "resp__parse_int (pre @ s) (length pre + from) (length pre + to) = resp__parse_int s from to"
proof -
  have "(pre @ s) ! Suc (length pre + from) = s ! Suc from" "slice (Suc (length pre + from)) n (pre @ s) = slice (Suc from) n s" for n
    using nth_shift [of pre s "Suc from"] slice_shift [of pre "Suc from" n s] by simp_all
  then show ?thesis by (simp add: resp__parse_int_def Let_def nth_shift slice_shift)
qed

text \<open>Releasing nodes looks at their addresses only.\<close>

lemma node_release_shift: "node_release pool (shift_node k n) = node_release pool n"
proof (induction n arbitrary: pool)
  case (RespNode a t i b l children)
  have "fold (\<lambda>n pl. node_release pl n) (map (shift_node k) children) pool = fold (\<lambda>n pl. node_release pl n) children pool"
    unfolding fold_map using RespNode by (intro fold_cong) (auto simp: comp_def)
  then show ?case by simp
qed

lemma list_release_shift: "resp__node_list_release pool (map (shift_node k) nodes) = resp__node_list_release pool nodes"
  unfolding resp__node_list_release_def fold_map by (intro fold_cong) (auto simp: comp_def node_release_shift)

lemma value_node_shift: "value_node a (shift_value k v) = shift_node k (value_node a v)"
  by (simp add: value_node_def shift_value_def)

lemma shift_value_zero [simp]: "shift_value k resp_value_zero = resp_value_zero"
  by (simp add: shift_value_def resp_value_zero_def has_slice_def)

lemma inline_loop_shift:
  "inline_loop (pre @ s) (length pre + e) pool (length pre + i) (map (shift_node (length pre)) nodes) =
     map_prod (map_option (map (shift_node (length pre)))) id (inline_loop s e pool i nodes)"
proof (induction s e pool i nodes rule: inline_loop.induct)
  case (1 s e pool i nodes)
  let ?k = "length pre" and ?tok = "skip_blanks s i e"
  show ?case
  proof (cases "i < e \<and> \<not> ?tok \<ge> e")
    case False
    then show ?thesis
      unfolding inline_loop.simps [of "pre @ s" _ pool] inline_loop.simps [of s e pool] skip_blanks_shift skip_token_shift Let_def
      by auto
  next
    case True
    obtain m pool' where alloc: "resp__node_alloc pool = (m, pool')" by fastforce
    show ?thesis
    proof (cases m)
      case None
      then show ?thesis
        unfolding inline_loop.simps [of "pre @ s" _ pool] inline_loop.simps [of s e pool] skip_blanks_shift skip_token_shift Let_def
        using True alloc by (simp add: list_release_shift)
    next
      case (Some a)
      let ?n = "RespNode a RESP_TYPE_BULK 0 ?tok (skip_token s ?tok e - ?tok) []"
      have IH: "inline_loop (pre @ s) (?k + e) pool' (?k + skip_token s ?tok e) (map (shift_node ?k) (nodes @ [?n])) =
          map_prod (map_option (map (shift_node ?k))) id (inline_loop s e pool' (skip_token s ?tok e) (nodes @ [?n]))"
        using 1 [OF _ refl _ refl alloc [symmetric] Some] True by (simp add: resp__node_append_def id_def)
      show ?thesis
        unfolding inline_loop.simps [of "pre @ s" _ pool] inline_loop.simps [of s e pool] skip_blanks_shift skip_token_shift Let_def
        using True alloc Some IH by (simp add: resp__node_append_def has_slice_def id_def)
    qed
  qed
qed

lemma parse_inline_shift:
  "resp__parse_inline (pre @ s) (length pre + w) pool (length pre + pos) =
     shift_result (length pre) (resp__parse_inline s w pool pos)"
proof (cases "find_lf s w pos")
  case None
  then show ?thesis by (simp add: resp__parse_inline_def find_lf_shift)
next
  case (Some lf)
  let ?k = "length pre"
  have c: "(?k + lf > ?k + pos \<and> (pre @ s) ! (?k + lf - 1) = CR) = (lf > pos \<and> s ! (lf - 1) = CR)"
    using nth_shift [of pre s "lf - 1"] by (cases lf) auto
  define e where "e = (if lf > pos \<and> s ! (lf - 1) = CR then lf - 1 else lf)"
  have e: "(if ?k + lf > ?k + pos \<and> (pre @ s) ! (?k + lf - 1) = CR then ?k + lf - 1 else ?k + lf) = ?k + e"
    unfolding c e_def by auto
  have L: "inline_loop (pre @ s) (?k + e) pool (?k + pos) [] =
      map_prod (map_option (map (shift_node ?k))) id (inline_loop s e pool pos [])"
    using inline_loop_shift [of pre s e pool pos "[]"] by simp
  show ?thesis
    unfolding resp__parse_inline_def find_lf_shift Some option.map option.case Let_def e L e_def [symmetric]
    by (auto simp: shift_value_def has_slice_def split: prod.splits option.splits)
qed

lemma parse_head_shift:
  "parse_head (pre @ s) (length pre + w) pool (length pre + pos) =
     map_sum (shift_result (length pre)) (map_prod ((+) (length pre)) id) (parse_head s w pool pos)"
proof (cases "pos < w \<and> is_prefix_char (s ! pos)")
  case False
  then show ?thesis by (auto simp: parse_head_def nth_shift parse_inline_shift)
next
  case True
  let ?k = "length pre"
  show ?thesis
  proof (cases "resp__find_crlf s w (pos + 1)")
    case None
    then show ?thesis using True find_crlf_shift [of pre s w "pos + 1"] by (simp add: parse_head_def nth_shift)
  next
    case (Some cr)
    have f: "resp__find_crlf (pre @ s) (?k + w) (?k + pos + 1) = Some (?k + cr)"
      using find_crlf_shift [of pre s w "pos + 1"] Some by (simp add: add.assoc)
    have i: "resp__parse_int (pre @ s) (?k + pos + 1) (?k + cr) = resp__parse_int s (pos + 1) cr"
      using parse_int_shift [of pre s "pos + 1" cr] by (simp add: add.assoc)
    have "parse_line (pre @ s) c pool (?k + pos + 1) (?k + cr) = shift_result ?k (parse_line s c pool (pos + 1) cr)" for c
      by (simp add: parse_line_def shift_value_def has_slice_def resp_value_zero_def)
    moreover have "parse_integer (pre @ s) pool (?k + pos) (?k + pos + 1) (?k + cr) =
        shift_result ?k (parse_integer s pool pos (pos + 1) cr)"
      unfolding parse_integer_def i
      by (auto simp: shift_value_def has_slice_def resp_value_zero_def split: option.splits)
    moreover have "parse_bulk (pre @ s) (?k + w) pool (?k + pos) (?k + pos + 1) (?k + cr) =
        shift_result ?k (parse_bulk s w pool pos (pos + 1) cr)"
    proof -
      have "(pre @ s) ! (?k + cr + 2 + n) = s ! (cr + 2 + n)"
        "(pre @ s) ! (?k + cr + 2 + n + 1) = s ! (cr + 2 + n + 1)" for n
        using nth_shift [of pre s "cr + 2 + n"] nth_shift [of pre s "cr + 2 + n + 1"] by (simp_all add: add.assoc)
      then show ?thesis
        unfolding parse_bulk_def i
        by (auto simp: shift_value_def has_slice_def resp_value_zero_def Let_def add.assoc split: option.splits)
    qed
    ultimately have L: "\<And>c. parse_line (pre @ s) c pool (?k + pos + 1) (?k + cr) = shift_result ?k (parse_line s c pool (pos + 1) cr)"
      "parse_integer (pre @ s) pool (?k + pos) (?k + pos + 1) (?k + cr) = shift_result ?k (parse_integer s pool pos (pos + 1) cr)"
      "parse_bulk (pre @ s) (?k + w) pool (?k + pos) (?k + pos + 1) (?k + cr) = shift_result ?k (parse_bulk s w pool pos (pos + 1) cr)"
      by blast+
    have w: "(?k + w \<le> ?k + pos) = (w \<le> pos)" by simp
    show ?thesis
      unfolding parse_head_def nth_shift f Some i L option.case w
      by (simp add: if_distrib [of "map_sum f g" for f g] parse_inline_shift shift_value_def has_slice_def split: option.split cong: if_cong)
  qed
qed

lemma decode_shift:
  "(\<forall>pool pos. parse_value fuel (pre @ s) (length pre + w) pool (length pre + pos) =
      map_option (shift_result (length pre)) (parse_value fuel s w pool pos)) \<and>
   (\<forall>pool pos cnt nodes. parse_array fuel (pre @ s) (length pre + w) pool (length pre + pos) cnt (map (shift_node (length pre)) nodes) =
      map_option (shift_result (length pre)) (parse_array fuel s w pool pos cnt nodes))"
proof (induction fuel)
  case 0
  then show ?case by simp
next
  case (Suc fuel)
  let ?k = "length pre"
  have V: "parse_value fuel (pre @ s) (?k + w) pool (?k + pos) = map_option (shift_result ?k) (parse_value fuel s w pool pos)"
    and A: "parse_array fuel (pre @ s) (?k + w) pool (?k + pos) cnt (map (shift_node ?k) nodes) =
      map_option (shift_result ?k) (parse_array fuel s w pool pos cnt nodes)" for pool pos cnt nodes
    using Suc by blast+
  have res: "array_result (?k + pos) (shift_result ?k r) = shift_result ?k (array_result pos r)" for pos r
    by (cases r) (simp add: array_result_def)
  have "parse_value (Suc fuel) (pre @ s) (?k + w) pool (?k + pos) =
      map_option (shift_result ?k) (parse_value (Suc fuel) s w pool pos)" for pool pos
    using A [of pool _ _ "[]"]
    by (simp add: parse_value_head parse_head_shift res option.map_comp comp_def split: sum.split prod.split)
  moreover have "parse_array (Suc fuel) (pre @ s) (?k + w) pool (?k + pos) cnt (map (shift_node ?k) nodes) =
      map_option (shift_result ?k) (parse_array (Suc fuel) s w pool pos cnt nodes)" for pool pos cnt nodes
  proof (cases "cnt \<le> 0")
    case True
    then show ?thesis by (simp add: parse_array_step shift_value_def has_slice_def)
  next
    case False
    have app: "resp__node_append (map (shift_node ?k) nodes) (value_node c (shift_value ?k v)) =
        map (shift_node ?k) (resp__node_append nodes (value_node c v))" for c v
      by (simp add: resp__node_append_def value_node_shift)
    show ?thesis
      unfolding parse_array_step using False
      by (auto simp: V A app list_release_shift map_option_bind bind_map_option comp_def
          intro!: Option.bind_cong split: prod.split option.split)
  qed
  ultimately show ?case by blast
qed

text \<open>The value a tree stands for moves with it, and depends only on the bytes its slices cover.\<close>

lemma node_resp_shift: "node_resp (pre @ s) (shift_node (length pre) n) = node_resp s n"
  by (induction n) (auto simp: slice_shift has_slice_def comp_def split: resp_type.split)

lemma value_resp_shift: "value_resp (pre @ s) (shift_value (length pre) v) = value_resp s v"
  by (simp add: value_resp_def value_node_shift node_resp_shift)

lemma node_resp_agree:
  assumes "agree w buf buf'" "w \<le> length buf" "w \<le> length buf'"
  shows "node_within lo w n \<Longrightarrow> node_resp buf' n = node_resp buf n"
proof (induction n)
  case (RespNode a t i b l children)
  have "map (node_resp buf') children = map (node_resp buf) children"
    using RespNode by (auto simp: list_all_iff)
  moreover have "has_slice t \<Longrightarrow> slice b l buf' = slice b l buf"
    using RespNode.prems slice_agree [OF assms(1) _ assms(2,3)] by simp
  ultimately show ?case by (simp add: has_slice_def split: resp_type.split)
qed

lemma value_resp_agree:
  assumes "agree w buf buf'" "w \<le> length buf" "w \<le> length buf'" "value_within lo w v"
  shows "value_resp buf' v = value_resp buf v"
proof (cases "rv_type v = RESP_TYPE_ARRAY")
  case True
  then have "node_within lo w (value_node 0 v)"
    using assms(4) by (simp add: value_within_def value_nodes_def value_node_def has_slice_def)
  then show ?thesis using node_resp_agree [OF assms(1-3)] by (simp add: value_resp_def)
next
  case False
  then show ?thesis
    using assms slice_agree [OF assms(1), of "rv_bulk v" "rv_bulk_len v"]
    by (auto simp: value_resp_def value_node_def value_within_def has_slice_def split: resp_type.split)
qed

section \<open>The parser on its unread bytes\<close>

text \<open>\<open>decodes s pool r\<close>: the decoder, run on the bytes \<open>s\<close> alone, answers \<open>r\<close>.\<close>

definition decodes :: "string \<Rightarrow> node_pool \<Rightarrow> parse_result \<Rightarrow> bool" where
  "decodes s pool r \<longleftrightarrow> parse_value (length s + 1) s (length s) pool 0 = Some r"

lemma decodesI:
  assumes "parse_value fuel s (length s) pool 0 = Some r"
  shows "decodes s pool r"
proof -
  obtain r' where r': "parse_value (length s + 1) s (length s) pool 0 = Some r'"
    using decode_fuel [of "length s" s "length s + 1"] by fastforce
  let ?m = "max fuel (length s + 1)"
  have "parse_value ?m s (length s) pool 0 = Some r" "parse_value ?m s (length s) pool 0 = Some r'"
    using parse_value_mono [OF _ assms, of ?m] parse_value_mono [OF _ r', of ?m] by simp_all
  then show ?thesis using r' by (simp add: decodes_def)
qed

text \<open>The parser after the compaction \<open>resp_parser_next\<close> may start with.\<close>

definition settled :: "resp_parser \<Rightarrow> resp_parser" where
  "settled p = (if p_r_pos p > p_buf_cap p div 2 then resp__compact p else p)"

lemma settled:
  assumes "parser_wf p"
  shows "parser_wf (settled p)" "unread (settled p) = unread p" "p_pool (settled p) = p_pool p"
    "p_buf_cap (settled p) = p_buf_cap p"
  using assms by (simp_all add: settled_def compact_wf compact_unread)

lemma next_settled:
  "resp_parser_next p = (let q = settled p in
     map_option (\<lambda>(st, pool, pos, v). (st, q\<lparr>p_pool := pool, p_r_pos := (if st = RESP_OK then pos else p_r_pos q)\<rparr>, v))
       (parse_value (p_w_pos q - p_r_pos q + 1) (p_buf q) (p_w_pos q) (p_pool q) (p_r_pos q)))"
  by (simp add: resp_parser_next_def settled_def Let_def map_option_case split: option.split)

lemma buffer_split:
  assumes "parser_wf p"
  defines "pre \<equiv> take (p_r_pos p) (p_buf p)" and "s \<equiv> drop (p_r_pos p) (p_buf p)"
  shows "p_buf p = pre @ s" "length pre = p_r_pos p" "p_w_pos p = length pre + length (unread p)"
    "unread p = take (length (unread p)) s" "length (unread p) \<le> length s"
  using assms length_unread [OF assms(1)] by (auto simp: parser_wf_def unread_def slice_def)

lemma unread_advance:
  assumes "parser_wf p" "n \<le> length (unread p)"
  shows "parser_wf (p\<lparr>p_pool := pool, p_r_pos := p_r_pos p + n\<rparr>)"
    "unread (p\<lparr>p_pool := pool, p_r_pos := p_r_pos p + n\<rparr>) = drop n (unread p)"
  using assms by (auto simp: parser_wf_def length_unread unread_def slice_def drop_take add.commute)

text \<open>The answer of \<open>resp_parser_next\<close> is the answer of the decoder on the bytes from the read position.\<close>

lemma next_parse:
  assumes "parser_wf p"
  obtains s st pool n v where "unread p = take (length (unread p)) s" "length (unread p) \<le> length s"
    "parse_value (length (unread p) + 1) s (length (unread p)) (p_pool p) 0 = Some (st, pool, n, v)"
    "resp_parser_next p = Some (st, (settled p)\<lparr>p_pool := pool, p_r_pos := p_r_pos (settled p) + (if st = RESP_OK then n else 0)\<rparr>,
       shift_value (p_r_pos (settled p)) v)"
    "p_buf (settled p) = take (p_r_pos (settled p)) (p_buf (settled p)) @ s" "length (take (p_r_pos (settled p)) (p_buf (settled p))) = p_r_pos (settled p)"
proof -
  let ?q = "settled p" and ?n = "length (unread p)"
  let ?pre = "take (p_r_pos ?q) (p_buf ?q)" and ?s = "drop (p_r_pos ?q) (p_buf ?q)"
  note S = settled [OF assms]
  note B = buffer_split [OF S(1), unfolded S(2)]
  obtain r where r: "parse_value (?n + 1) ?s ?n (p_pool p) 0 = Some r"
    using decode_fuel [OF B(5), of "?n + 1"] by fastforce
  obtain st pool n v where rr: "r = (st, pool, n, v)" by (cases r) auto
  have "parse_value (?n + 1) (?pre @ ?s) (length ?pre + ?n) (p_pool p) (length ?pre + 0) = Some (shift_result (length ?pre) r)"
    unfolding decode_shift [THEN conjunct1, rule_format] r by simp
  then have "parse_value (p_w_pos ?q - p_r_pos ?q + 1) (p_buf ?q) (p_w_pos ?q) (p_pool ?q) (p_r_pos ?q) =
      Some (st, pool, p_r_pos ?q + n, shift_value (p_r_pos ?q) v)"
    using B S(3) rr by simp
  then have "resp_parser_next p = Some (st, ?q\<lparr>p_pool := pool, p_r_pos := p_r_pos ?q + (if st = RESP_OK then n else 0)\<rparr>,
      shift_value (p_r_pos ?q) v)"
    by (simp add: next_settled Let_def)
  then show ?thesis using that [of ?s st pool n v] r rr B by simp
qed

lemma agree_take: "s' = take w s \<Longrightarrow> agree w s s'" "s' = take w s \<Longrightarrow> agree w s' s"
  by (simp_all add: agree_def)

text \<open>So the answer and the value it stands for depend on the unread bytes alone.\<close>

lemma next_answer:
  assumes wf: "parser_wf p" and nxt: "resp_parser_next p = Some (st, p', v)" and st: "st \<noteq> RESP_NEED_MORE"
  obtains n v0 where "decodes (unread p) (p_pool p) (st, p_pool p', n, v0)"
    "st = RESP_OK \<Longrightarrow> value_resp (p_buf p') v = value_resp (unread p) v0"
    "unread p' = drop (if st = RESP_OK then n else 0) (unread p)"
proof -
  let ?u = "unread p"
  from wf obtain s st1 pool n v0 where s: "?u = take (length ?u) s" "length ?u \<le> length s"
    and pv: "parse_value (length ?u + 1) s (length ?u) (p_pool p) 0 = Some (st1, pool, n, v0)"
    and nx: "resp_parser_next p = Some (st1, (settled p)\<lparr>p_pool := pool, p_r_pos := p_r_pos (settled p) + (if st1 = RESP_OK then n else 0)\<rparr>,
       shift_value (p_r_pos (settled p)) v0)"
    and b: "p_buf (settled p) = take (p_r_pos (settled p)) (p_buf (settled p)) @ s"
      "length (take (p_r_pos (settled p)) (p_buf (settled p))) = p_r_pos (settled p)"
    by (rule next_parse)
  note S = settled [OF wf]
  have e: "st1 = st" "v = shift_value (p_r_pos (settled p)) v0" "p_pool p' = pool" "p_buf p' = p_buf (settled p)"
    "p' = (settled p)\<lparr>p_pool := pool, p_r_pos := p_r_pos (settled p) + (if st = RESP_OK then n else 0)\<rparr>"
    using nxt nx by auto
  have "parse_value (length ?u + 1) ?u (length ?u) (p_pool p) 0 = Some (st1, pool, n, v0)"
    using decode_agree [OF agree_take(1) [OF s(1)], of "length ?u", THEN conjunct1] pv st e(1) s(2) by simp
  then have d: "decodes ?u (p_pool p) (st, pool, n, v0)" using e(1) by (simp add: decodes_def)
  have ok: "decode_ok 0 0 (length ?u) (p_pool p) {#} (st, pool, n, v0)" using decode_correct [OF s(2) pv] e(1) by simp
  have "value_resp (p_buf p') v = value_resp ?u v0" if "st = RESP_OK"
  proof -
    have "value_within 0 (length ?u) v0"
      using ok that value_within_mono [of 0 n v0 0 "length ?u"] by simp
    then have "value_resp ?u v0 = value_resp s v0"
      using value_resp_agree [OF agree_take(1) [OF s(1)] s(2)] by simp
    moreover have "value_resp (p_buf p') v = value_resp s v0"
      using value_resp_shift [of "take (p_r_pos (settled p)) (p_buf (settled p))" s v0] b e by simp
    ultimately show ?thesis by simp
  qed
  moreover have "unread p' = drop (if st = RESP_OK then n else 0) ?u"
    using unread_advance(2) [OF S(1), of "if st = RESP_OK then n else 0" pool] ok e S(2) by (auto split: if_splits)
  ultimately show ?thesis using that d e(3) by blast
qed

lemma next_decodes:
  assumes wf: "parser_wf p" and d: "decodes (unread p) (p_pool p) (st, pool, n, v0)" and st: "st \<noteq> RESP_NEED_MORE"
  obtains p' v where "resp_parser_next p = Some (st, p', v)" "p_pool p' = pool" "parser_wf p'"
proof -
  let ?u = "unread p"
  from wf obtain s st1 pool1 n1 v1 where s: "?u = take (length ?u) s" "length ?u \<le> length s"
    and pv: "parse_value (length ?u + 1) s (length ?u) (p_pool p) 0 = Some (st1, pool1, n1, v1)"
    and nx: "resp_parser_next p = Some (st1, (settled p)\<lparr>p_pool := pool1, p_r_pos := p_r_pos (settled p) + (if st1 = RESP_OK then n1 else 0)\<rparr>,
       shift_value (p_r_pos (settled p)) v1)"
    by (rule next_parse)
  have "parse_value (length ?u + 1) s (length ?u) (p_pool p) 0 = Some (st, pool, n, v0)"
    using decode_agree [OF agree_take(2) [OF s(1)], of "length ?u", THEN conjunct1] d st s(2) by (simp add: decodes_def)
  then have e: "st1 = st" "pool1 = pool" "n1 = n" using pv by simp_all
  have "parser_wf ((settled p)\<lparr>p_pool := pool, p_r_pos := p_r_pos (settled p) + (if st = RESP_OK then n else 0)\<rparr>)"
    using unread_advance(1) [OF settled(1) [OF wf], of "if st = RESP_OK then n else 0" pool]
      decode_correct [OF s(2) pv] e settled(2) [OF wf] by (auto split: if_splits)
  then show ?thesis using that [OF nx [unfolded e]] by simp
qed

lemma decodes_within:
  "decodes s pool (RESP_OK, pool', n, v) \<Longrightarrow> n \<le> length s \<and> value_within 0 (length s) v"
  using decode_correct [of "length s" s "length s + 1" pool 0] value_within_mono [of 0 n v 0 "length s"]
  by (force simp: decodes_def)

lemma decodes_more:
  assumes "decodes s pool r" "fst r \<noteq> RESP_NEED_MORE"
  shows "decodes (s @ t) pool r"
proof (rule decodesI)
  have "agree (length s) s (s @ t)" by (simp add: agree_def nth_append)
  then show "parse_value (length s + 1) (s @ t) (length (s @ t)) pool 0 = Some r"
    using decode_agree [of "length s" s "s @ t" "length (s @ t)", THEN conjunct1] assms by (cases r) (simp add: decodes_def)
qed

lemma value_resp_more: "value_within 0 (length s) v \<Longrightarrow> value_resp (s @ t) v = value_resp s v"
  by (rule value_resp_agree [of "length s"]) (auto simp: agree_def nth_append)

lemma node_within_shift: "node_within (k + lo) (k + hi) (shift_node k n) = node_within lo hi n"
  by (induction n) (auto simp: list_all_iff)

lemma value_within_shift: "value_within (k + lo) (k + hi) (shift_value k v) = value_within lo hi v"
  by (auto simp: value_within_def value_nodes_def shift_value_def list_all_iff node_within_shift)

lemma node_addrs_shift: "node_addrs (shift_node k n) = node_addrs n"
  by (induction n) (simp add: comp_def cong: map_cong)

lemma list_addrs_shift: "list_addrs (value_nodes (shift_value k v)) = list_addrs (value_nodes v)"
  by (simp add: list_addrs_def value_nodes_def shift_value_def node_addrs_shift image_mset.compositionality comp_def)

lemma next_round_trip_slack:
  assumes "parser_wf p" "unread p = resp_bytes v @ rest" "resp_ok v" "pool_ready (resp_nodes v + k) (p_pool p)"
  shows "\<exists>p' val. resp_parser_next p = Some (RESP_OK, p', val) \<and> parser_wf p' \<and> value_resp (p_buf p') val = v \<and> unread p' = rest \<and>
    pool_ready k (p_pool p')"
proof -
  let ?u = "unread p"
  have h: "here ?u (length ?u) 0 (resp_bytes v)" using assms(2) by (simp add: here_def slice_def)
  obtain fuel pool val where pv: "parse_value fuel ?u (length ?u) (p_pool p) 0 =
      Some (RESP_OK, pool, 0 + length (resp_bytes v), val)" and val: "value_resp ?u val = v" and k: "pool_ready k pool"
    by (rule reads_backD [OF value_reads_back [OF assms(3)] h assms(4)])
  have d: "decodes ?u (p_pool p) (RESP_OK, pool, length (resp_bytes v), val)" using decodesI [OF pv] by simp
  then obtain p' val' where nx: "resp_parser_next p = Some (RESP_OK, p', val')" "parser_wf p'" "p_pool p' = pool"
    using next_decodes [OF assms(1) d] by blast
  obtain n v0 where a: "decodes ?u (p_pool p) (RESP_OK, p_pool p', n, v0)"
      "value_resp (p_buf p') val' = value_resp ?u v0" "unread p' = drop n ?u"
    using next_answer [OF assms(1) nx(1)] by (metis resp_parse_status.distinct(1))
  then have "v0 = val" "n = length (resp_bytes v)" using d by (simp_all add: decodes_def)
  then show ?thesis using nx a(2,3) val k assms(2) by simp
qed

lemma next_round_trip:
  assumes "parser_wf p" "unread p = resp_bytes v @ rest" "resp_ok v" "pool_ready (resp_nodes v) (p_pool p)"
  shows "\<exists>p' val. resp_parser_next p = Some (RESP_OK, p', val) \<and> parser_wf p' \<and> value_resp (p_buf p') val = v \<and> unread p' = rest"
  using next_round_trip_slack [OF assms(1-3), of 0] assms(4) by auto

lemma next_safe:
  assumes "parser_wf p"
  shows "\<exists>st p' v. resp_parser_next p = Some (st, p', v) \<and> parser_wf p' \<and> p_buf_cap p' = p_buf_cap p \<and>
    (if st = RESP_OK
     then (\<exists>n. 0 < n \<and> n \<le> length (unread p) \<and> unread p' = drop n (unread p) \<and>
        value_within (p_r_pos p' - n) (p_r_pos p') v) \<and>
       balanced (p_pool p) {#} (p_pool p') (list_addrs (value_nodes v))
     else unread p' = unread p \<and> balanced (p_pool p) {#} (p_pool p') {#})"
proof -
  let ?u = "unread p" and ?q = "settled p"
  from assms obtain s st pool n v where s: "?u = take (length ?u) s" "length ?u \<le> length s"
    and pv: "parse_value (length ?u + 1) s (length ?u) (p_pool p) 0 = Some (st, pool, n, v)"
    and nx: "resp_parser_next p = Some (st, ?q\<lparr>p_pool := pool, p_r_pos := p_r_pos ?q + (if st = RESP_OK then n else 0)\<rparr>,
       shift_value (p_r_pos ?q) v)"
    by (rule next_parse)
  note S = settled [OF assms]
  note D = decode_correct [OF s(2) pv]
  have "value_within (p_r_pos ?q) (p_r_pos ?q + n) (shift_value (p_r_pos ?q) v)" if "st = RESP_OK"
    using value_within_shift [of "p_r_pos ?q" 0 n v] D that by simp
  then show ?thesis
    using nx D S unread_advance [OF S(1), of "if st = RESP_OK then n else 0" pool]
    by (auto simp: list_addrs_shift intro!: exI [of _ n] split: if_splits)
qed

section \<open>Properties\<close>

text \<open>
  C6. A request survives the wire. If the unread bytes start with the RESP encoding of a value (line
  texts without CR, numbers and lengths in the range of int64) and the node pool can still serve one
  node per array element, \<open>resp_parser_next\<close> answers RESP_OK with a tree that stands for exactly that
  value and leaves exactly the bytes behind it, for every nesting depth and every buffer position.
\<close>

theorem parser_round_trip:
  assumes "parser_wf p" "unread p = resp_bytes v @ rest" "resp_ok v" "pool_ready (resp_nodes v) (p_pool p)"
  shows "\<exists>p' val. resp_parser_next p = Some (RESP_OK, p', val) \<and> parser_wf p' \<and> value_resp (p_buf p') val = v \<and> unread p' = rest"
  using assms by (rule next_round_trip)

text \<open>
  C17. \<open>resp_parser_next\<close> always returns, on arbitrary bytes, and keeps the parser sound: an answer RESP_OK
  consumes a nonempty prefix of the unread bytes, every slice of the tree lies inside the consumed
  bytes, and every node drawn from the pool is in the tree exactly once; any other answer consumes
  nothing and has put every node back.
\<close>

theorem parser_next_safe:
  assumes "parser_wf p"
  shows "\<exists>st p' v. resp_parser_next p = Some (st, p', v) \<and> parser_wf p' \<and> p_buf_cap p' = p_buf_cap p \<and>
    (if st = RESP_OK
     then (\<exists>n. 0 < n \<and> n \<le> length (unread p) \<and> unread p' = drop n (unread p) \<and>
        value_within (p_r_pos p' - n) (p_r_pos p') v) \<and>
       balanced (p_pool p) {#} (p_pool p') (list_addrs (value_nodes v))
     else unread p' = unread p \<and> balanced (p_pool p) {#} (p_pool p') {#})"
  by (rule next_safe [OF assms])

text \<open>
  C18. Chunking is invisible. Once \<open>resp_parser_next\<close> has an answer (a value or an error), feeding more
  bytes first gives the same answer: the same status, the same value, the same node pool, and the
  same bytes left over followed by the new ones, although feeding may have moved the buffer.
\<close>

theorem parser_chunking:
  assumes "parser_wf p" "resp_parser_next p = Some (st, p', v)" "st \<noteq> RESP_NEED_MORE"
    and "resp_parser_feed p data = (0, p2)"
  shows "\<exists>p2' v2. resp_parser_next p2 = Some (st, p2', v2) \<and> p_pool p2' = p_pool p' \<and> unread p2' = unread p' @ data \<and>
    (st = RESP_OK \<longrightarrow> value_resp (p_buf p2') v2 = value_resp (p_buf p') v)"
proof -
  have p2: "parser_wf p2" "unread p2 = unread p @ data" "p_pool p2 = p_pool p"
    using feed_appends_unread [OF assms(1,4)] by simp_all
  obtain n v0 where a: "decodes (unread p) (p_pool p) (st, p_pool p', n, v0)"
    "st = RESP_OK \<Longrightarrow> value_resp (p_buf p') v = value_resp (unread p) v0"
    "unread p' = drop (if st = RESP_OK then n else 0) (unread p)"
    using next_answer [OF assms(1-3)] by metis
  have d: "decodes (unread p2) (p_pool p2) (st, p_pool p', n, v0)"
    using decodes_more [OF a(1)] assms(3) p2 by simp
  obtain p2' v2 where nx: "resp_parser_next p2 = Some (st, p2', v2)"
    using next_decodes [OF p2(1) d assms(3)] by metis
  obtain n2 v02 where b: "decodes (unread p2) (p_pool p2) (st, p_pool p2', n2, v02)"
    "st = RESP_OK \<Longrightarrow> value_resp (p_buf p2') v2 = value_resp (unread p2) v02"
    "unread p2' = drop (if st = RESP_OK then n2 else 0) (unread p2)"
    using next_answer [OF p2(1) nx assms(3)] by metis
  have e: "p_pool p2' = p_pool p'" "n2 = n" "v02 = v0" using b(1) d by (simp_all add: decodes_def)
  have "n \<le> length (unread p) \<and> value_within 0 (length (unread p)) v0" if "st = RESP_OK"
    using decodes_within [of "unread p" "p_pool p" "p_pool p'" n v0] a(1) that by simp
  then show ?thesis
    using nx e a b p2(2) value_resp_more by (auto split: if_splits)
qed

section \<open>Witnesses\<close>

definition demo_request :: resp where
  "demo_request = RArray [RBulk ''GET'', RBulk ''k'']"

text \<open>A parser that holds a request followed by the first byte of the next one.\<close>

definition demo_input :: resp_parser where
  "demo_input = (let s = resp_bytes demo_request @ ''*'' in
     \<lparr>p_buf = s, p_buf_cap = length s, p_r_pos = 0, p_w_pos = length s,
      p_pool = \<lparr>np_free = [8], np_slab = None, np_malloc = [64]\<rparr>\<rparr>)"

lemma demo_input:
  "parser_wf demo_input" "unread demo_input = resp_bytes demo_request @ ''*''"
  by (simp_all add: demo_input_def parser_wf_def unread_def slice_def Let_def)

theorem parser_round_trip_witness:
  "\<exists>p' val. resp_parser_next demo_input = Some (RESP_OK, p', val) \<and> value_resp (p_buf p') val = demo_request \<and> unread p' = ''*''"
proof -
  have "resp_ok demo_request" "pool_ready (resp_nodes demo_request) (p_pool demo_input)"
    by (simp_all add: demo_request_def demo_input_def pool_ready_def Let_def)
  then show ?thesis using parser_round_trip [OF demo_input] by blast
qed

theorem parser_next_safe_witness:
  "\<exists>st p' v. resp_parser_next demo_input = Some (st, p', v) \<and> parser_wf p'"
  using parser_next_safe [OF demo_input(1)] by blast

definition demo_line :: resp_parser where
  "demo_line = \<lparr>p_buf = ''+OK'' @ [CR, LF] @ ''....'', p_buf_cap = 9, p_r_pos = 0, p_w_pos = 5,
      p_pool = \<lparr>np_free = [], np_slab = None, np_malloc = []\<rparr>\<rparr>"

theorem parser_chunking_witness:
  "\<exists>p2 p2' v2. resp_parser_feed demo_line ''PING'' = (0, p2) \<and> resp_parser_next p2 = Some (RESP_OK, p2', v2) \<and>
     unread p2' = ''PING'' \<and> value_resp (p_buf p2') v2 = RSimple ''OK''"
proof -
  have wf: "parser_wf demo_line" by (simp add: demo_line_def parser_wf_def)
  have n: "resp_parser_next demo_line = Some (RESP_OK, demo_line\<lparr>p_r_pos := 5\<rparr>,
      resp_value_zero\<lparr>rv_type := RESP_TYPE_SIMPLE, rv_bulk := 1, rv_bulk_len := 2\<rparr>)"
  proof -
    have "resp__find_crlf (p_buf demo_line) 5 1 = Some 3" by code_simp
    then have "parse_value 6 (p_buf demo_line) 5 (p_pool demo_line) 0 = Some (RESP_OK, p_pool demo_line, 5,
        resp_value_zero\<lparr>rv_type := RESP_TYPE_SIMPLE, rv_bulk := 1, rv_bulk_len := 2\<rparr>)"
      using parse_value_Suc [of 5] by (simp add: demo_line_def is_prefix_char_def parse_line_def)
    then show ?thesis by (simp add: resp_parser_next_def demo_line_def)
  qed
  have f: "\<exists>p2. resp_parser_feed demo_line ''PING'' = (0, p2)" by (simp add: demo_line_def resp_parser_feed_def)
  have u: "unread (demo_line\<lparr>p_r_pos := 5\<rparr>) = []" "value_resp (p_buf (demo_line\<lparr>p_r_pos := 5\<rparr>))
      (resp_value_zero\<lparr>rv_type := RESP_TYPE_SIMPLE, rv_bulk := 1, rv_bulk_len := 2\<rparr>) = RSimple ''OK''"
    by (simp_all add: unread_def slice_def demo_line_def value_resp_def value_node_def)
  from f obtain p2 where p2: "resp_parser_feed demo_line ''PING'' = (0, p2)" by blast
  show ?thesis using parser_chunking [OF wf n _ p2] p2 u by auto
qed

end
