(* ===== verification/Resp_Format.thy ===== *)
theory Resp_Format
  imports Resp_Stream
begin

text \<open>
  The reply formatters (src/resp_format.c). A formatter writes into a caller's buffer \<open>dst\<close> of \<open>cap\<close> bytes
  and returns the number of bytes of the reply or -1. The model returns the result and the buffer; the
  lemmas give the exact condition under which each formatter succeeds and the bytes it leaves, and the
  property shows that the parser of the same repository reads them back.
\<close>

section \<open>Formatters\<close>

definition append_str :: "string \<Rightarrow> nat \<Rightarrow> nat \<Rightarrow> string \<Rightarrow> (string \<times> nat) option" where
  "append_str dst cap used s =
     (if used + length s \<ge> cap then None else Some (write_at used s dst, used + length s))"

text \<open>\<open>snprintf (dst, cap, ...)\<close> of an already formatted text: the buffer gets the text, cut to \<open>cap - 1\<close>
  bytes, and a NUL; the result is the full length of the text.\<close>

definition snprintf :: "string \<Rightarrow> nat \<Rightarrow> string \<Rightarrow> int \<times> string" where
  "snprintf dst cap text =
     (int (length text), if cap = 0 then dst else write_at 0 (take (cap - 1) text @ [NUL]) dst)"

definition resp_format_simple :: "string \<Rightarrow> nat \<Rightarrow> string \<Rightarrow> int \<times> string" where
  "resp_format_simple dst cap str =
     (case append_str dst cap 0 ''+'' of
        None \<Rightarrow> (-1, dst)
      | Some (dst, used) \<Rightarrow>
          (case append_str dst cap used (cstr str) of
             None \<Rightarrow> (-1, dst)
           | Some (dst, used) \<Rightarrow>
               (case append_str dst cap used crlf of
                  None \<Rightarrow> (-1, dst)
                | Some (dst, used) \<Rightarrow> (wrap_i32 (int used), write_at used [NUL] dst))))"

definition resp_format_error :: "string \<Rightarrow> nat \<Rightarrow> string \<Rightarrow> int \<times> string" where
  "resp_format_error dst cap msg =
     (case append_str dst cap 0 ''-'' of
        None \<Rightarrow> (-1, dst)
      | Some (dst, used) \<Rightarrow>
          (case append_str dst cap used (cstr msg) of
             None \<Rightarrow> (-1, dst)
           | Some (dst, used) \<Rightarrow>
               (case append_str dst cap used crlf of
                  None \<Rightarrow> (-1, dst)
                | Some (dst, used) \<Rightarrow> (wrap_i32 (int used), write_at used [NUL] dst))))"

definition resp_format_integer :: "string \<Rightarrow> nat \<Rightarrow> int \<Rightarrow> int \<times> string" where
  "resp_format_integer dst cap v =
     (case snprintf dst cap ('':'' @ show_int v @ crlf) of
        (n, dst) \<Rightarrow> (if n > 0 \<and> nat n < cap then n else -1, dst))"

definition resp_format_bulk :: "string \<Rightarrow> nat \<Rightarrow> string \<Rightarrow> int \<times> string" where
  "resp_format_bulk dst cap data =
     (case snprintf dst cap (''$'' @ show_nat (length data) @ crlf) of
        (n, dst) \<Rightarrow>
          if n \<le> 0 \<or> nat n \<ge> cap then (-1, dst)
          else let used = nat n in
            if used + length data + 3 > cap then (-1, dst)
            else let dst = write_at used data dst; used = used + length data;
                     dst = write_at used crlf dst; used = used + 2
                 in (wrap_i32 (int used), write_at used [NUL] dst))"

definition resp_format_null :: "string \<Rightarrow> nat \<Rightarrow> int \<times> string" where
  "resp_format_null dst cap =
     (let null_bulk = ''$-1'' @ crlf in
      if length null_bulk \<ge> cap then (-1, dst)
      else (wrap_i32 (int (length null_bulk)), write_at (length null_bulk) [NUL] (write_at 0 null_bulk dst)))"

section \<open>What the formatters leave in the buffer\<close>

text \<open>\<open>formats text cap r\<close>: the formatter's result \<open>r\<close> is the text and its length, or -1 when the text and
  a NUL do not fit.\<close>

definition formats :: "string \<Rightarrow> nat \<Rightarrow> int \<times> string \<Rightarrow> bool" where
  "formats text cap r \<longleftrightarrow>
     (if length text < cap then fst r = int (length text) \<and> take (length text) (snd r) = text else fst r = -1)"

lemma take_write_at: "off + length s \<le> length dst \<Longrightarrow> take (off + length s) (write_at off s dst) = take off dst @ s"
  by (simp add: write_at_def)

lemma take_write_at_above: "n \<le> off \<Longrightarrow> off \<le> length dst \<Longrightarrow> take n (write_at off s dst) = take n dst"
  by (simp add: write_at_def min_absorb1)

lemma append_str_Some:
  assumes "append_str dst cap used s = Some (dst', used')" "length dst = cap" "take used dst = t" "used \<le> cap"
  shows "length dst' = cap" "take used' dst' = t @ s" "used' = used + length s" "used' < cap"
  using assms take_write_at [of used s dst] by (auto simp: append_str_def split: if_splits)

lemma append_str_cases:
  assumes "length dst = cap" "take used dst = t" "length t = used" "used < cap"
  obtains (full) "append_str dst cap used s = None" "cap \<le> used + length s"
  | (fits) dst' where "append_str dst cap used s = Some (dst', used + length s)" "length dst' = cap"
      "take (used + length s) dst' = t @ s" "used + length s < cap"
  using assms take_write_at [of used s dst] by (cases "used + length s \<ge> cap") (auto simp: append_str_def)

lemma wrap_small: "n < 2 ^ 31 \<Longrightarrow> wrap_i32 (int n) = int n"
  by (rule wrap_i32_id) (simp add: in_i32_def)

text \<open>The three-part formatters, with the sign and the text as parameters.\<close>

lemma format_line:
  assumes "length dst = cap" "cap \<le> 2 ^ 31"
  shows "formats (c # s @ crlf) cap
    (case append_str dst cap 0 [c] of
        None \<Rightarrow> (-1, dst)
      | Some (dst, used) \<Rightarrow>
          (case append_str dst cap used s of
             None \<Rightarrow> (-1, dst)
           | Some (dst, used) \<Rightarrow>
               (case append_str dst cap used crlf of
                  None \<Rightarrow> (-1, dst)
                | Some (dst, used) \<Rightarrow> (wrap_i32 (int used), write_at used [NUL] dst))))"
    (is "formats _ _ (case ?a of None \<Rightarrow> _ | Some x \<Rightarrow> ?k x)")
proof (cases "length s + 3 < cap")
  case True
  have 1: "append_str dst cap 0 [c] = Some (write_at 0 [c] dst, 1)" using True by (simp add: append_str_def)
  have 2: "append_str (write_at 0 [c] dst) cap 1 s = Some (write_at 1 s (write_at 0 [c] dst), 1 + length s)"
    using True by (simp add: append_str_def)
  have 3: "append_str (write_at 1 s (write_at 0 [c] dst)) cap (1 + length s) crlf =
      Some (write_at (1 + length s) crlf (write_at 1 s (write_at 0 [c] dst)), 1 + length s + 2)"
    using True by (simp add: append_str_def)
  have "take (1 + length s + 2) (write_at (1 + length s) crlf (write_at 1 s (write_at 0 [c] dst))) = c # s @ crlf"
    using True assms(1) take_write_at [of 0 "[c]" dst] take_write_at [of 1 s "write_at 0 [c] dst"]
      take_write_at [of "1 + length s" crlf "write_at 1 s (write_at 0 [c] dst)"] by simp
  then show ?thesis
    using True assms wrap_small [of "length s + 3"] unfolding 1 2 3 option.case prod.case
    by (simp add: formats_def take_write_at_above numeral_3_eq_3)
next
  case False
  then show ?thesis by (auto simp: formats_def append_str_def)
qed

lemma format_simple:
  "length dst = cap \<Longrightarrow> cap \<le> 2 ^ 31 \<Longrightarrow> formats (CHR ''+'' # cstr str @ crlf) cap (resp_format_simple dst cap str)"
  unfolding resp_format_simple_def by (rule format_line)

lemma format_error:
  "length dst = cap \<Longrightarrow> cap \<le> 2 ^ 31 \<Longrightarrow> formats (CHR ''-'' # cstr msg @ crlf) cap (resp_format_error dst cap msg)"
  unfolding resp_format_error_def by (rule format_line)

lemma snprintf_fits:
  assumes "length dst = cap" "length text < cap"
  shows "snprintf dst cap text = (int (length text), write_at 0 (text @ [NUL]) dst)"
    "take (length text) (write_at 0 (text @ [NUL]) dst) = text"
  using assms by (simp_all add: snprintf_def write_at_def)

lemma format_integer:
  "length dst = cap \<Longrightarrow> formats (CHR '':'' # show_int v @ crlf) cap (resp_format_integer dst cap v)"
  using snprintf_fits [of dst cap "CHR '':'' # show_int v @ crlf"]
  by (cases "length (CHR '':'' # show_int v @ crlf) < cap")
    (auto simp: formats_def resp_format_integer_def snprintf_def)

lemma format_bulk:
  assumes "length dst = cap" "cap \<le> 2 ^ 31"
  shows "formats (CHR ''$'' # show_nat (length data) @ crlf @ data @ crlf) cap (resp_format_bulk dst cap data)"
proof -
  define h where "h = CHR ''$'' # show_nat (length data) @ crlf"
  have h0: "''$'' @ show_nat (length data) @ crlf = h" "0 < length h" by (simp_all add: h_def)
  let ?d = "write_at 0 (h @ [NUL]) dst"
  have "formats (h @ data @ crlf) cap (resp_format_bulk dst cap data)"
  proof (cases "length h + length data + 3 \<le> cap")
    case True
    then have h: "length h < cap" by simp
    have t: "take (length h + length data) (write_at (length h) data ?d) = h @ data"
      using take_write_at [of "length h" data ?d] snprintf_fits(2) [OF assms(1) h] True assms(1) by simp
    have t2: "take (length h + length data + 2) (write_at (length h + length data) crlf (write_at (length h) data ?d)) = h @ data @ crlf"
      using take_write_at [of "length h + length data" crlf "write_at (length h) data ?d"] t True assms(1) by simp
    have "resp_format_bulk dst cap data = (wrap_i32 (int (length h + length data + 2)),
        write_at (length h + length data + 2) [NUL] (write_at (length h + length data) crlf (write_at (length h) data ?d)))"
      using True snprintf_fits(1) [OF assms(1) h] h0(2) unfolding resp_format_bulk_def h0(1) by (simp add: Let_def)
    then show ?thesis
      using True t2 assms wrap_small [of "length h + length data + 2"] by (simp add: formats_def take_write_at_above)
  next
    case False
    then show ?thesis unfolding resp_format_bulk_def h0(1) by (auto simp: formats_def snprintf_def Let_def)
  qed
  then show ?thesis by (simp add: h_def)
qed

lemma format_null:
  "length dst = cap \<Longrightarrow> formats (''$-1'' @ crlf) cap (resp_format_null dst cap)"
  by (auto simp: formats_def resp_format_null_def Let_def write_at_def wrap_i32_def)

lemma show_int_minus_one: "show_int (-1) = ''-1''"
  by code_simp

text \<open>A client that reads with \<open>resp_parser_next\<close>: \<open>read_back r v\<close> when a parser whose unread bytes start with
  the formatted reply gets the value \<open>v\<close> and is left with the bytes behind the reply.\<close>

definition read_back :: "int \<times> string \<Rightarrow> resp \<Rightarrow> bool" where
  "read_back r v \<longleftrightarrow> (\<forall>p rest. parser_wf p \<longrightarrow> unread p = take (nat (fst r)) (snd r) @ rest \<longrightarrow>
     (\<exists>p' val. resp_parser_next p = Some (RESP_OK, p', val) \<and> value_resp (p_buf p') val = v \<and> unread p' = rest))"

lemma read_backI:
  assumes "formats (resp_bytes v) cap r" "resp_ok v" "resp_nodes v = 0" "fst r \<noteq> -1"
  shows "read_back r v"
  unfolding read_back_def
proof (intro allI impI)
  fix p rest
  assume "parser_wf p" "unread p = take (nat (fst r)) (snd r) @ rest"
  moreover have "take (nat (fst r)) (snd r) = resp_bytes v"
    using assms(1,4) by (auto simp: formats_def split: if_splits)
  moreover have "pool_ready (resp_nodes v) (p_pool p)" using assms(3) by (simp add: pool_ready_def)
  ultimately show "\<exists>p' val. resp_parser_next p = Some (RESP_OK, p', val) \<and> value_resp (p_buf p') val = v \<and> unread p' = rest"
    using next_round_trip [of p v rest] assms(2) by metis
qed

section \<open>Properties\<close>

text \<open>
  C28. Replies round-trip. Whenever a formatter reports success, the parser reads exactly the value that
  was formatted from the bytes it produced: status lines and errors without CR, integers, bulk strings
  with arbitrary bytes (CR, LF and NUL included), and the null reply.
\<close>

theorem reply_round_trip:
  assumes "length dst = cap" "cap \<le> 2 ^ 31"
  shows "(CR \<notin> set (cstr s) \<longrightarrow> fst (resp_format_simple dst cap s) \<noteq> -1 \<longrightarrow> read_back (resp_format_simple dst cap s) (RSimple (cstr s))) \<and>
    (CR \<notin> set (cstr s) \<longrightarrow> fst (resp_format_error dst cap s) \<noteq> -1 \<longrightarrow> read_back (resp_format_error dst cap s) (RErr (cstr s))) \<and>
    (- (2 ^ 63) < i \<and> i < 2 ^ 63 \<longrightarrow> fst (resp_format_integer dst cap i) \<noteq> -1 \<longrightarrow> read_back (resp_format_integer dst cap i) (RInt i)) \<and>
    (fst (resp_format_bulk dst cap d) \<noteq> -1 \<longrightarrow> read_back (resp_format_bulk dst cap d) (RBulk d)) \<and>
    (fst (resp_format_null dst cap) \<noteq> -1 \<longrightarrow> read_back (resp_format_null dst cap) RNull)"
proof (intro conjI impI)
  assume "CR \<notin> set (cstr s)" "fst (resp_format_simple dst cap s) \<noteq> -1"
  then show "read_back (resp_format_simple dst cap s) (RSimple (cstr s))"
    using format_simple [OF assms] by (intro read_backI) auto
next
  assume "CR \<notin> set (cstr s)" "fst (resp_format_error dst cap s) \<noteq> -1"
  then show "read_back (resp_format_error dst cap s) (RErr (cstr s))"
    using format_error [OF assms] by (intro read_backI) auto
next
  assume "- (2 ^ 63) < i \<and> i < 2 ^ 63" "fst (resp_format_integer dst cap i) \<noteq> -1"
  then show "read_back (resp_format_integer dst cap i) (RInt i)"
    using format_integer [OF assms(1)] by (intro read_backI) auto
next
  assume "fst (resp_format_bulk dst cap d) \<noteq> -1"
  moreover from this have "length d < cap" using format_bulk [OF assms, of d] by (auto simp: formats_def split: if_splits)
  ultimately show "read_back (resp_format_bulk dst cap d) (RBulk d)"
    using format_bulk [OF assms] assms(2) by (intro read_backI) auto
next
  assume "fst (resp_format_null dst cap) \<noteq> -1"
  then show "read_back (resp_format_null dst cap) RNull"
    using format_null [OF assms(1)] show_int_minus_one by (intro read_backI) auto
qed

theorem reply_round_trip_witness:
  "read_back (resp_format_bulk (replicate 20 NUL) 20 [CR, LF]) (RBulk [CR, LF]) \<and>
   read_back (resp_format_integer (replicate 20 NUL) 20 (-7)) (RInt (-7))"
proof -
  have "fst (resp_format_bulk (replicate 20 NUL) 20 [CR, LF]) \<noteq> -1" "fst (resp_format_integer (replicate 20 NUL) 20 (-7)) \<noteq> -1"
    by code_simp+
  then show ?thesis using reply_round_trip [of "replicate 20 NUL" 20 "[]" "-7" "[CR, LF]"] by simp
qed

end
