(* ===== verification/Resp_Pointer.thy ===== *)
theory Resp_Pointer
  imports Resp_Format "HOL-Library.Monad_Syntax"
begin

text \<open>
  The parser and the formatters of \<^verbatim>\<open>src/src/resp.c\<close>, an earlier version of the parser in one file, at the level of
  pointers. A \<open>resp_node_t\<close> is a structure in a store of nodes, linked by \<open>next\<close>, \<open>prev\<close>, \<open>child_head\<close> and
  \<open>child_tail\<close>; the free list is threaded through \<open>next\<close>; \<open>bulk\<close> is an address in a byte-addressed memory, where the
  parser's buffer and the reply buffers lie. The four files the parser was split into are modelled with
  lists in place of the links and of the memory (\<open>Resp_Core\<close>, \<open>Resp_Scan\<close>, \<open>Resp_Decode\<close>, \<open>Resp_Format\<close>). The names that
  both versions have carry the suffix \<open>_ptr\<close> here.
\<close>

section \<open>Memory\<close>

type_synonym bytes = "addr \<Rightarrow> char"

definition read_bytes :: "bytes \<Rightarrow> addr \<Rightarrow> nat \<Rightarrow> string" where
  "read_bytes m p n = map (\<lambda>i. m (p + i)) [0..<n]"

text \<open>\<open>memcpy(p, bs, length bs)\<close>, and \<open>memmove\<close> when \<open>bs\<close> was read from the memory before.\<close>

definition write_bytes :: "bytes \<Rightarrow> addr \<Rightarrow> string \<Rightarrow> bytes" where
  "write_bytes m p bs = (\<lambda>a. if p \<le> a \<and> a < p + length bs then bs ! (a - p) else m a)"

section \<open>Data\<close>

record resp_node_t =
  nd_next :: addr
  nd_prev :: addr
  nd_type :: resp_type
  nd_integer :: int
  nd_bulk :: addr
  nd_bulk_len :: nat
  nd_child_head :: addr
  nd_child_tail :: addr
  nd_child_count :: nat

record resp_value_t =
  vt_type :: resp_type
  vt_integer :: int
  vt_bulk :: addr
  vt_bulk_len :: nat
  vt_array_head :: addr
  vt_array_tail :: addr
  vt_array_count :: nat

text \<open>A parser structure with the memory it works on. \<open>pt_slab\<close> is the slab the structure points to, \<open>None\<close> for
  \<open>NULL\<close>; \<open>pt_malloc\<close> are the addresses \<open>malloc\<close> is going to return for nodes.\<close>

record resp_parser_t =
  pt_buf :: addr
  pt_buf_cap :: nat
  pt_r_pos :: nat
  pt_w_pos :: nat
  pt_free_list :: addr
  pt_slab :: "(zedis_slab \<times> heap) option"
  pt_malloc :: "addr list"
  pt_bytes :: bytes
  pt_nodes :: "addr \<Rightarrow> resp_node_t"

definition resp_node_zero :: resp_node_t where
  "resp_node_zero = \<lparr>nd_next = 0, nd_prev = 0, nd_type = RESP_TYPE_INCOMPLETE, nd_integer = 0, nd_bulk = 0, nd_bulk_len = 0,
     nd_child_head = 0, nd_child_tail = 0, nd_child_count = 0\<rparr>"

definition value_zero :: resp_value_t where
  "value_zero = \<lparr>vt_type = RESP_TYPE_INCOMPLETE, vt_integer = 0, vt_bulk = 0, vt_bulk_len = 0, vt_array_head = 0,
     vt_array_tail = 0, vt_array_count = 0\<rparr>"

definition upd_node :: "addr \<Rightarrow> (resp_node_t \<Rightarrow> resp_node_t) \<Rightarrow> resp_parser_t \<Rightarrow> resp_parser_t" where
  "upd_node a f s = s\<lparr>pt_nodes := (pt_nodes s)(a := f (pt_nodes s a))\<rparr>"

section \<open>Nodes\<close>

definition malloc_node :: "resp_parser_t \<Rightarrow> addr \<times> resp_parser_t" where
  "malloc_node s =
     (case pt_malloc s of
        [] \<Rightarrow> (0, s)
      | fresh # as \<Rightarrow> (fresh, upd_node fresh (\<lambda>_. resp_node_zero) (s\<lparr>pt_malloc := as\<rparr>)))"

definition node_alloc :: "resp_parser_t \<Rightarrow> addr \<times> resp_parser_t" where
  "node_alloc s =
     (let node = pt_free_list s in
      if node \<noteq> 0 then (node, upd_node node (\<lambda>_. resp_node_zero) (s\<lparr>pt_free_list := nd_next (pt_nodes s node)\<rparr>))
      else (case pt_slab s of
              Some (slab, h) \<Rightarrow>
                (case zedis_slab_alloc 0 slab h sizeof_resp_node of
                   (Some fresh, slab', h') \<Rightarrow> (fresh, upd_node fresh (\<lambda>_. resp_node_zero) (s\<lparr>pt_slab := Some (slab', h')\<rparr>))
                 | (None, slab', h') \<Rightarrow> malloc_node (s\<lparr>pt_slab := Some (slab', h')\<rparr>))
            | None \<Rightarrow> malloc_node s))"

definition node_free :: "addr \<Rightarrow> resp_parser_t \<Rightarrow> resp_parser_t" where
  "node_free node s = (upd_node node (\<lambda>n. n\<lparr>nd_next := pt_free_list s, nd_prev := 0\<rparr>) s)\<lparr>pt_free_list := node\<rparr>"

partial_function (option) node_list_release :: "addr \<Rightarrow> resp_parser_t \<Rightarrow> resp_parser_t option" where
  "node_list_release head s =
     (if head = 0 then Some s
      else do {
        let next = nd_next (pt_nodes s head);
        s \<leftarrow> (if nd_child_head (pt_nodes s head) \<noteq> 0
             then do {
               s \<leftarrow> node_list_release (nd_child_head (pt_nodes s head)) s;
               Some (upd_node head (\<lambda>n. n\<lparr>nd_child_head := 0\<rparr>) s)
             }
             else Some s);
        node_list_release next (node_free head s)
      })"

text \<open>The \<open>head\<close>, \<open>tail\<close> and \<open>count\<close> of the caller are passed in and returned.\<close>

definition node_append :: "addr \<times> addr \<times> nat \<Rightarrow> addr \<Rightarrow> resp_parser_t \<Rightarrow> (addr \<times> addr \<times> nat) \<times> resp_parser_t" where
  "node_append l node s =
     (case l of (head, tail, n) \<Rightarrow>
        let s = upd_node node (\<lambda>x. x\<lparr>nd_next := 0, nd_prev := tail\<rparr>) s;
            (head, s) = (if tail \<noteq> 0 then (head, upd_node tail (\<lambda>x. x\<lparr>nd_next := node\<rparr>) s) else (node, s))
        in ((head, node, n + 1), s))"

section \<open>Buffer\<close>

text \<open>\<open>malloc_buf\<close> is what \<open>malloc\<close> answers to the request for the buffer.\<close>

definition resp_parser_init_ex_ptr ::
  "resp_parser_t \<Rightarrow> (zedis_slab \<times> heap) option \<Rightarrow> nat \<Rightarrow> (nat \<Rightarrow> addr option) \<Rightarrow> int \<times> resp_parser_t" where
  "resp_parser_init_ex_ptr s slab buf_cap malloc_buf =
     (let buf_cap = (if buf_cap = 0 then RESP_PARSER_DEFAULT_BUF else buf_cap) in
      case malloc_buf buf_cap of
        None \<Rightarrow> (-1, s)
      | Some buf \<Rightarrow> (0, s\<lparr>pt_r_pos := 0, pt_w_pos := 0, pt_free_list := 0, pt_buf := buf, pt_buf_cap := buf_cap, pt_slab := slab\<rparr>))"

definition resp_parser_init_ptr :: "resp_parser_t \<Rightarrow> (zedis_slab \<times> heap) option \<Rightarrow> (nat \<Rightarrow> addr option) \<Rightarrow> int \<times> resp_parser_t" where
  "resp_parser_init_ptr s slab malloc_buf = resp_parser_init_ex_ptr s slab RESP_PARSER_DEFAULT_BUF malloc_buf"

text \<open>The nodes passed to \<open>free\<close>, in this order.\<close>

partial_function (option) free_nodes :: "addr \<Rightarrow> resp_parser_t \<Rightarrow> addr list option" where
  "free_nodes n s =
     (if n = 0 then Some []
      else do { let next = nd_next (pt_nodes s n); ns \<leftarrow> free_nodes next s; Some (n # ns) })"

text \<open>Everything passed to \<open>free\<close>, and the cleared structure.\<close>

definition resp_parser_destroy_ptr :: "resp_parser_t \<Rightarrow> (addr list \<times> resp_parser_t) option" where
  "resp_parser_destroy_ptr s =
     do {
       ns \<leftarrow> (if pt_slab s = None then free_nodes (pt_free_list s) s else Some []);
       Some (ns @ [pt_buf s], s\<lparr>pt_buf := 0, pt_buf_cap := 0, pt_r_pos := 0, pt_w_pos := 0, pt_free_list := 0, pt_slab := None\<rparr>)
     }"

definition resp_parser_reset_ptr :: "resp_parser_t \<Rightarrow> resp_parser_t" where
  "resp_parser_reset_ptr s = s\<lparr>pt_r_pos := 0, pt_w_pos := 0\<rparr>"

definition compact_ptr :: "resp_parser_t \<Rightarrow> resp_parser_t" where
  "compact_ptr s =
     (if pt_r_pos s = 0 then s
      else let unread = pt_w_pos s - pt_r_pos s;
               s = (if unread > 0 then s\<lparr>pt_bytes := write_bytes (pt_bytes s) (pt_buf s) (read_bytes (pt_bytes s) (pt_buf s + pt_r_pos s) unread)\<rparr>
                    else s)
           in s\<lparr>pt_w_pos := unread, pt_r_pos := 0\<rparr>)"

definition resp_parser_space_ptr :: "resp_parser_t \<Rightarrow> nat" where
  "resp_parser_space_ptr s = pt_buf_cap s - pt_w_pos s"

definition resp_parser_write_ptr_ptr :: "resp_parser_t \<Rightarrow> addr" where
  "resp_parser_write_ptr_ptr s = pt_buf s + pt_w_pos s"

definition resp_parser_commit_ptr :: "resp_parser_t \<Rightarrow> nat \<Rightarrow> resp_parser_t" where
  "resp_parser_commit_ptr s n = s\<lparr>pt_w_pos := pt_w_pos s + n\<rparr>"

definition resp_parser_feed_ptr :: "resp_parser_t \<Rightarrow> string \<Rightarrow> int \<times> resp_parser_t" where
  "resp_parser_feed_ptr s data =
     (let len = length data in
      if len = 0 then (0, s)
      else if pt_w_pos s + len \<le> pt_buf_cap s then
        (0, s\<lparr>pt_bytes := write_bytes (pt_bytes s) (pt_buf s + pt_w_pos s) data, pt_w_pos := pt_w_pos s + len\<rparr>)
      else let free_total = pt_buf_cap s - (pt_w_pos s - pt_r_pos s) in
        if free_total < len then (-1, s)
        else let s = compact_ptr s in
          (0, s\<lparr>pt_bytes := write_bytes (pt_bytes s) (pt_buf s + pt_w_pos s) data, pt_w_pos := pt_w_pos s + len\<rparr>))"

section \<open>Scanning\<close>

function crlf_loop :: "bytes \<Rightarrow> addr \<Rightarrow> nat \<Rightarrow> nat \<Rightarrow> nat option" where
  "crlf_loop m buf w i =
     (if i + 1 < w then (if m (buf + i) = CR \<and> m (buf + i + 1) = LF then Some i else crlf_loop m buf w (i + 1)) else None)"
  by pat_completeness auto
termination by (relation "measure (\<lambda>(m, buf, w, i). w - i)") auto

definition find_crlf :: "resp_parser_t \<Rightarrow> nat \<Rightarrow> nat option" where
  "find_crlf s search_from = crlf_loop (pt_bytes s) (pt_buf s) (pt_w_pos s) search_from"

function digits_loop :: "bytes \<Rightarrow> addr \<Rightarrow> nat \<Rightarrow> nat \<Rightarrow> int \<Rightarrow> int option" where
  "digits_loop m buf i to value =
     (if i < to then
        (if \<not> is_digit (m (buf + i)) then None
         else digits_loop m buf (i + 1) to (wrap_i64 (value * 10 + digit_val (m (buf + i)))))
      else Some value)"
  by pat_completeness auto
termination by (relation "measure (\<lambda>(m, buf, i, to, v). to - i)") auto

definition parse_int_range :: "bytes \<Rightarrow> addr \<Rightarrow> nat \<Rightarrow> nat \<Rightarrow> int option" where
  "parse_int_range m buf from to =
     (if from \<ge> to then None
      else let negative = (m (buf + from) = CHR ''-''); i = (if negative then from + 1 else from) in
        if i \<ge> to \<or> \<not> is_digit (m (buf + i)) then None
        else map_option (\<lambda>value. if negative then wrap_i64 (- value) else value) (digits_loop m buf i to 0))"

function lf_loop :: "bytes \<Rightarrow> addr \<Rightarrow> nat \<Rightarrow> nat \<Rightarrow> nat option" where
  "lf_loop m buf w i = (if i < w then (if m (buf + i) = LF then Some i else lf_loop m buf w (i + 1)) else None)"
  by pat_completeness auto
termination by (relation "measure (\<lambda>(m, buf, w, i). w - i)") auto

function blanks_loop :: "bytes \<Rightarrow> addr \<Rightarrow> nat \<Rightarrow> nat \<Rightarrow> nat" where
  "blanks_loop m buf i line_end =
     (if i < line_end \<and> (m (buf + i) = CHR '' '' \<or> m (buf + i) = CHR 0x09) then blanks_loop m buf (i + 1) line_end else i)"
  by pat_completeness auto
termination by (relation "measure (\<lambda>(m, buf, i, e). e - i)") auto

function token_loop :: "bytes \<Rightarrow> addr \<Rightarrow> nat \<Rightarrow> nat \<Rightarrow> nat" where
  "token_loop m buf i line_end =
     (if i < line_end \<and> m (buf + i) \<noteq> CHR '' '' \<and> m (buf + i) \<noteq> CHR 0x09 then token_loop m buf (i + 1) line_end else i)"
  by pat_completeness auto
termination by (relation "measure (\<lambda>(m, buf, i, e). e - i)") auto

declare crlf_loop.simps [simp del] digits_loop.simps [simp del] lf_loop.simps [simp del] blanks_loop.simps [simp del] token_loop.simps [simp del]

text \<open>The loop over the tokens. An iteration advances by at least one byte, so \<open>line_end - start\<close> iterations are
  enough; \<open>None\<close> stands for a loop that does not end. The inner result is \<open>None\<close> when a node could not be had.\<close>

partial_function (option) tokens_loop ::
  "nat \<Rightarrow> nat \<Rightarrow> addr \<times> addr \<times> nat \<Rightarrow> resp_parser_t \<Rightarrow> ((addr \<times> addr \<times> nat) option \<times> resp_parser_t) option" where
  "tokens_loop line_end i0 l s =
     (if i0 < line_end then
        let tok_start = blanks_loop (pt_bytes s) (pt_buf s) i0 line_end in
        if tok_start \<ge> line_end then Some (Some l, s)
        else let i = token_loop (pt_bytes s) (pt_buf s) tok_start line_end; (node, s) = node_alloc s in
          if node = 0 then do { s \<leftarrow> node_list_release (fst l) s; Some (None, s) }
          else
            let s = upd_node node (\<lambda>n. n\<lparr>nd_type := RESP_TYPE_BULK, nd_bulk := pt_buf s + tok_start, nd_bulk_len := i - tok_start\<rparr>) s;
                (l, s) = node_append l node s
            in tokens_loop line_end i l s
      else Some (Some l, s))"

type_synonym parse_result_ptr = "resp_parse_status \<times> resp_parser_t \<times> nat \<times> resp_value_t"

text \<open>The position is passed in and returned; \<open>out\<close> is cleared by the callers, so the parsers start from \<open>value_zero\<close>.\<close>

definition parse_inline :: "resp_parser_t \<Rightarrow> nat \<Rightarrow> parse_result_ptr option" where
  "parse_inline s start =
     (let m = pt_bytes s; buf = pt_buf s in
      case lf_loop m buf (pt_w_pos s) start of
        None \<Rightarrow> Some (RESP_NEED_MORE, s, start, value_zero)
      | Some lf_pos \<Rightarrow>
          let line_end = (if lf_pos > start \<and> m (buf + (lf_pos - 1)) = CR then lf_pos - 1 else lf_pos); next_pos = lf_pos + 1 in
          do {
            (r, s) \<leftarrow> tokens_loop line_end start (0, 0, 0) s;
            case r of
              None \<Rightarrow> Some (RESP_ERROR, s, start, value_zero)
            | Some (head, tail, child_count) \<Rightarrow>
                Some (RESP_OK, s, next_pos,
                  value_zero\<lparr>vt_type := RESP_TYPE_ARRAY, vt_array_head := head, vt_array_tail := tail, vt_array_count := child_count\<rparr>)
          })"

section \<open>Decoding\<close>

text \<open>What a parsed element leaves in its node.\<close>

definition fill_child :: "resp_value_t \<Rightarrow> resp_node_t \<Rightarrow> resp_node_t" where
  "fill_child nested n =
     (let n = n\<lparr>nd_type := vt_type nested, nd_integer := vt_integer nested, nd_bulk := vt_bulk nested, nd_bulk_len := vt_bulk_len nested\<rparr> in
      if vt_type nested = RESP_TYPE_ARRAY
      then n\<lparr>nd_child_head := vt_array_head nested, nd_child_tail := vt_array_tail nested, nd_child_count := vt_array_count nested\<rparr>
      else n)"

text \<open>The second \<open>switch\<close> of \<open>parse_value\<close>: the line of the prefix ends at \<open>crlf_pos\<close>. \<open>parse_elems\<close> is the call of
  \<open>parse_array\<close> with the start and the number of the elements.\<close>

definition parse_prefixed ::
  "(nat \<Rightarrow> int \<Rightarrow> parse_result_ptr option) \<Rightarrow> resp_parser_t \<Rightarrow> nat \<Rightarrow> char \<Rightarrow> nat \<Rightarrow> parse_result_ptr option" where
  "parse_prefixed parse_elems s pos prefix crlf_pos =
     (let m = pt_bytes s; buf = pt_buf s; w = pt_w_pos s; line_start = pos + 1 in
      if prefix = CHR ''+'' then
        Some (RESP_OK, s, crlf_pos + 2,
          value_zero\<lparr>vt_type := RESP_TYPE_SIMPLE, vt_bulk := buf + line_start, vt_bulk_len := crlf_pos - line_start\<rparr>)
      else if prefix = CHR ''-'' then
        Some (RESP_OK, s, crlf_pos + 2,
          value_zero\<lparr>vt_type := RESP_TYPE_ERROR, vt_bulk := buf + line_start, vt_bulk_len := crlf_pos - line_start\<rparr>)
      else if prefix = CHR '':'' then
        (case parse_int_range m buf line_start crlf_pos of
           None \<Rightarrow> Some (RESP_ERROR, s, pos, value_zero)
         | Some value \<Rightarrow> Some (RESP_OK, s, crlf_pos + 2, value_zero\<lparr>vt_type := RESP_TYPE_INTEGER, vt_integer := value\<rparr>))
      else if prefix = CHR ''$'' then
        (case parse_int_range m buf line_start crlf_pos of
           None \<Rightarrow> Some (RESP_ERROR, s, pos, value_zero)
         | Some bulk_len \<Rightarrow>
             if bulk_len < 0 then Some (RESP_OK, s, crlf_pos + 2, value_zero\<lparr>vt_type := RESP_TYPE_NULL\<rparr>)
             else let data_start = crlf_pos + 2; data_end = data_start + nat bulk_len in
               if data_end + 2 > w then Some (RESP_NEED_MORE, s, pos, value_zero)
               else if m (buf + data_end) \<noteq> CR \<or> m (buf + data_end + 1) \<noteq> LF then Some (RESP_ERROR, s, pos, value_zero)
               else Some (RESP_OK, s, data_end + 2,
                 value_zero\<lparr>vt_type := RESP_TYPE_BULK, vt_bulk := buf + data_start, vt_bulk_len := nat bulk_len\<rparr>))
      else if prefix = CHR ''*'' then
        (case parse_int_range m buf line_start crlf_pos of
           None \<Rightarrow> Some (RESP_ERROR, s, pos, value_zero)
         | Some n \<Rightarrow>
             if n < 0 then Some (RESP_OK, s, crlf_pos + 2, value_zero\<lparr>vt_type := RESP_TYPE_NULL\<rparr>)
             else do {
               (st, s, array_start, out) \<leftarrow> parse_elems (crlf_pos + 2) n;
               Some (st, s, if st = RESP_OK then array_start else pos, out)
             })
      else Some (RESP_ERROR, s, pos, value_zero))"

text \<open>As in \<open>Resp_Decode\<close> the two functions take fuel, and \<open>None\<close> means that it ran out (or that releasing nodes does not
  end). \<open>parse_array_ptr\<close> is the loop with \<open>i\<close> of \<open>cnt\<close> elements done.\<close>

fun parse_value_ptr :: "nat \<Rightarrow> resp_parser_t \<Rightarrow> nat \<Rightarrow> parse_result_ptr option"
  and parse_array_ptr :: "nat \<Rightarrow> resp_parser_t \<Rightarrow> nat \<Rightarrow> int \<Rightarrow> int \<Rightarrow> addr \<times> addr \<times> nat \<Rightarrow> parse_result_ptr option" where
  "parse_value_ptr 0 s pos = None"
| "parse_value_ptr (Suc fuel) s pos =
     (if pos \<ge> pt_w_pos s then Some (RESP_NEED_MORE, s, pos, value_zero)
      else let prefix = pt_bytes s (pt_buf s + pos); line_start = pos + 1 in
        if prefix \<notin> {CHR ''+'', CHR ''-'', CHR '':'', CHR ''$'', CHR ''*''} then parse_inline s pos
        else case find_crlf s line_start of
          None \<Rightarrow> Some (RESP_NEED_MORE, s, pos, value_zero)
        | Some crlf_pos \<Rightarrow> parse_prefixed (\<lambda>array_start n. parse_array_ptr fuel s array_start 0 n (0, 0, 0)) s pos prefix crlf_pos)"
| "parse_array_ptr 0 s pos i cnt l = None"
| "parse_array_ptr (Suc fuel) s pos i cnt l =
     (if i < cnt then
        let (child, s) = node_alloc s in
        if child = 0 then do { s \<leftarrow> node_list_release (fst l) s; Some (RESP_ERROR, s, pos, value_zero) }
        else do {
          (status, s, pos', nested) \<leftarrow> parse_value_ptr fuel s pos;
          if status \<noteq> RESP_OK then do { s \<leftarrow> node_list_release (fst l) (node_free child s); Some (status, s, pos, value_zero) }
          else
            let s = upd_node child (fill_child nested) s; (l, s) = node_append l child s
            in parse_array_ptr fuel s pos' (i + 1) cnt l
        }
      else case l of (head, tail, child_count) \<Rightarrow>
        Some (RESP_OK, s, pos, value_zero\<lparr>vt_type := RESP_TYPE_ARRAY, vt_array_head := head, vt_array_tail := tail, vt_array_count := child_count\<rparr>))"

declare parse_value_ptr.simps [simp del] parse_array_ptr.simps [simp del]

definition resp_parser_next_ptr :: "resp_parser_t \<Rightarrow> (resp_parse_status \<times> resp_parser_t \<times> resp_value_t) option" where
  "resp_parser_next_ptr s =
     do {
       let s = (if pt_r_pos s > pt_buf_cap s div 2 then compact_ptr s else s);
       (status, s, pos, out) \<leftarrow> parse_value_ptr (pt_w_pos s - pt_r_pos s + 1) s (pt_r_pos s);
       Some (status, if status = RESP_OK then s\<lparr>pt_r_pos := pos\<rparr> else s, out)
     }"

definition resp_value_release_ptr :: "resp_parser_t \<Rightarrow> resp_value_t \<Rightarrow> (resp_parser_t \<times> resp_value_t) option" where
  "resp_value_release_ptr s v =
     do {
       s \<leftarrow> (if vt_type v = RESP_TYPE_ARRAY \<and> vt_array_head v \<noteq> 0 then node_list_release (vt_array_head v) s else Some s);
       Some (s, value_zero)
     }"

section \<open>Formatters\<close>

text \<open>The buffer lies at \<open>dst\<close>; the result is the return value and the memory. \<open>used\<close> is passed in and returned.\<close>

definition append_str_ptr :: "bytes \<Rightarrow> addr \<Rightarrow> nat \<Rightarrow> nat \<Rightarrow> string \<Rightarrow> (bytes \<times> nat) option" where
  "append_str_ptr m dst cap used s =
     (if used + length s \<ge> cap then None else Some (write_bytes m (dst + used) s, used + length s))"

definition resp_format_simple_ptr :: "bytes \<Rightarrow> addr \<Rightarrow> nat \<Rightarrow> string \<Rightarrow> int \<times> bytes" where
  "resp_format_simple_ptr m dst cap str =
     (case append_str_ptr m dst cap 0 ''+'' of
        None \<Rightarrow> (-1, m)
      | Some (m, used) \<Rightarrow>
          (case append_str_ptr m dst cap used (cstr str) of
             None \<Rightarrow> (-1, m)
           | Some (m, used) \<Rightarrow>
               (case append_str_ptr m dst cap used crlf of
                  None \<Rightarrow> (-1, m)
                | Some (m, used) \<Rightarrow> (wrap_i32 (int used), m(dst + used := NUL)))))"

definition resp_format_error_ptr :: "bytes \<Rightarrow> addr \<Rightarrow> nat \<Rightarrow> string \<Rightarrow> int \<times> bytes" where
  "resp_format_error_ptr m dst cap msg =
     (case append_str_ptr m dst cap 0 ''-'' of
        None \<Rightarrow> (-1, m)
      | Some (m, used) \<Rightarrow>
          (case append_str_ptr m dst cap used (cstr msg) of
             None \<Rightarrow> (-1, m)
           | Some (m, used) \<Rightarrow>
               (case append_str_ptr m dst cap used crlf of
                  None \<Rightarrow> (-1, m)
                | Some (m, used) \<Rightarrow> (wrap_i32 (int used), m(dst + used := NUL)))))"

text \<open>\<open>snprintf\<close> of an already formatted text.\<close>

definition snprintf_ptr :: "bytes \<Rightarrow> addr \<Rightarrow> nat \<Rightarrow> string \<Rightarrow> int \<times> bytes" where
  "snprintf_ptr m dst cap text =
     (int (length text), if cap = 0 then m else write_bytes m dst (take (cap - 1) text @ [NUL]))"

definition resp_format_integer_ptr :: "bytes \<Rightarrow> addr \<Rightarrow> nat \<Rightarrow> int \<Rightarrow> int \<times> bytes" where
  "resp_format_integer_ptr m dst cap value =
     (case snprintf_ptr m dst cap ('':'' @ show_int value @ crlf) of
        (n, m) \<Rightarrow> (if n > 0 \<and> nat n < cap then n else -1, m))"

definition resp_format_bulk_ptr :: "bytes \<Rightarrow> addr \<Rightarrow> nat \<Rightarrow> string \<Rightarrow> int \<times> bytes" where
  "resp_format_bulk_ptr m dst cap data =
     (case snprintf_ptr m dst cap (''$'' @ show_nat (length data) @ crlf) of
        (n, m) \<Rightarrow>
          if n \<le> 0 \<or> nat n \<ge> cap then (-1, m)
          else let used = nat n in
            if used + length data + 3 > cap then (-1, m)
            else let m = write_bytes m (dst + used) data; used = used + length data;
                     m = write_bytes m (dst + used) crlf; used = used + 2
                 in (wrap_i32 (int used), m(dst + used := NUL)))"

definition resp_format_null_ptr :: "bytes \<Rightarrow> addr \<Rightarrow> nat \<Rightarrow> int \<times> bytes" where
  "resp_format_null_ptr m dst cap =
     (let null_bulk = ''$-1'' @ crlf; len = length null_bulk in
      if len \<ge> cap then (-1, m)
      else (wrap_i32 (int len), (write_bytes m dst null_bulk)(dst + len := NUL)))"

end
