(* ===== verification/Resp_Pointer_Rep.thy ===== *)
theory Resp_Pointer_Rep
  imports Resp_Pointer
begin

text \<open>
  The links of the nodes represent lists. \<open>lrep\<close> relates a doubly linked list of nodes, with their children, to a list
  of nodes of \<open>Resp_Core\<close>, \<open>flist\<close> the free list to its addresses. The lemmas follow the operations on nodes, the
  buffer and the scanners of \<^verbatim>\<open>src/src/resp.c\<close> and show that each acts on the represented data as its counterpart of the
  split parser does.
\<close>

section \<open>Memory\<close>

lemma length_read_bytes [simp]: "length (read_bytes m p n) = n"
  by (simp add: read_bytes_def)

lemma nth_read_bytes [simp]: "i < n \<Longrightarrow> read_bytes m p n ! i = m (p + i)"
  by (simp add: read_bytes_def)

lemma slice_read_bytes: "off + len \<le> n \<Longrightarrow> slice off len (read_bytes m p n) = read_bytes m (p + off) len"
  by (rule nth_equalityI) (simp_all add: slice_def add.assoc)

lemma nth_write_at: "off + length s \<le> length d \<Longrightarrow> i < length d \<Longrightarrow> write_at off s d ! i = (if off \<le> i \<and> i < off + length s then s ! (i - off) else d ! i)"
  by (auto simp: write_at_def nth_append)

lemma length_write_at': "off + length s \<le> length d \<Longrightarrow> length (write_at off s d) = length d"
  by (simp add: write_at_def)

lemma read_write_bytes:
  assumes "off + length bs \<le> n"
  shows "read_bytes (write_bytes m (p + off) bs) p n = write_at off bs (read_bytes m p n)"
proof (rule nth_equalityI)
  show "length (read_bytes (write_bytes m (p + off) bs) p n) = length (write_at off bs (read_bytes m p n))"
    using assms by (simp add: length_write_at')
  fix i
  assume "i < length (read_bytes (write_bytes m (p + off) bs) p n)"
  then show "read_bytes (write_bytes m (p + off) bs) p n ! i = write_at off bs (read_bytes m p n) ! i"
    using assms by (auto simp: write_bytes_def nth_write_at)
qed

lemma read_write_bytes_0: "length bs \<le> n \<Longrightarrow> read_bytes (write_bytes m p bs) p n = write_at 0 bs (read_bytes m p n)"
  using read_write_bytes [of 0 bs n m p] by simp

section \<open>Scanners\<close>

lemma crlf_loop_find: "w \<le> n \<Longrightarrow> crlf_loop m buf w i = resp__find_crlf (read_bytes m buf n) w i"
proof (induction m buf w i rule: crlf_loop.induct)
  case (1 m buf w i)
  then show ?case by (subst crlf_loop.simps, subst resp__find_crlf.simps) (auto simp: add.assoc)
qed

lemma lf_loop_find: "w \<le> n \<Longrightarrow> lf_loop m buf w i = find_lf (read_bytes m buf n) w i"
proof (induction m buf w i rule: lf_loop.induct)
  case (1 m buf w i)
  then show ?case by (subst lf_loop.simps, subst find_lf.simps) auto
qed

lemma blanks_loop_skip: "e \<le> n \<Longrightarrow> blanks_loop m buf i e = skip_blanks (read_bytes m buf n) i e"
proof (induction m buf i e rule: blanks_loop.induct)
  case (1 m buf i e)
  then show ?case by (subst blanks_loop.simps, subst skip_blanks.simps) (auto simp: is_blank_def)
qed

lemma token_loop_skip: "e \<le> n \<Longrightarrow> token_loop m buf i e = skip_token (read_bytes m buf n) i e"
proof (induction m buf i e rule: token_loop.induct)
  case (1 m buf i e)
  then show ?case by (subst token_loop.simps, subst skip_token.simps) (auto simp: is_blank_def)
qed

lemma digits_loop_scan: "to \<le> n \<Longrightarrow> digits_loop m buf i to v = scan_digits v (slice i (to - i) (read_bytes m buf n))"
proof (induction m buf i to v rule: digits_loop.induct)
  case (1 m buf i to v)
  have "slice i (to - i) (read_bytes m buf n) = m (buf + i) # slice (i + 1) (to - (i + 1)) (read_bytes m buf n)" if "i < to"
    using that 1(2) by (intro nth_equalityI) (auto simp: slice_def nth_Cons split: nat.split)
  moreover have "slice i (to - i) (read_bytes m buf n) = []" if "\<not> i < to" using that by (simp add: slice_def)
  ultimately show ?case using 1 by (subst digits_loop.simps) auto
qed

lemma parse_int_range_parse: "to \<le> n \<Longrightarrow> parse_int_range m buf from to = resp__parse_int (read_bytes m buf n) from to"
  by (auto simp: parse_int_range_def resp__parse_int_def digits_loop_scan Let_def map_option_case split: option.split)

lemmas scanners = crlf_loop_find lf_loop_find blanks_loop_skip token_loop_skip parse_int_range_parse

section \<open>Lists of nodes\<close>

text \<open>A \<open>bulk\<close> pointer of a string, and \<open>NULL\<close> for the other types.\<close>

definition bulk_ptr :: "addr \<Rightarrow> resp_type \<Rightarrow> nat \<Rightarrow> addr" where
  "bulk_ptr buf t b = (if has_slice t then buf + b else 0)"

text \<open>The list from \<open>h\<close> on; \<open>p\<close> is the node before it and \<open>t\<close> the last one.\<close>

fun lrep :: "(addr \<Rightarrow> resp_node_t) \<Rightarrow> addr \<Rightarrow> addr \<Rightarrow> addr \<Rightarrow> resp_node list \<Rightarrow> addr \<Rightarrow> bool" where
  "lrep N buf h p [] t \<longleftrightarrow> h = 0 \<and> t = p"
| "lrep N buf h p (RespNode a ty i b l cs # xs) t \<longleftrightarrow> h = a \<and> a \<noteq> 0 \<and> nd_prev (N a) = p \<and> nd_type (N a) = ty \<and> nd_integer (N a) = i \<and>
     nd_bulk (N a) = bulk_ptr buf ty b \<and> nd_bulk_len (N a) = l \<and> nd_child_count (N a) = length cs \<and>
     lrep N buf (nd_child_head (N a)) 0 cs (nd_child_tail (N a)) \<and> lrep N buf (nd_next (N a)) a xs t"

fun flist :: "(addr \<Rightarrow> resp_node_t) \<Rightarrow> addr \<Rightarrow> addr list \<Rightarrow> bool" where
  "flist N h [] \<longleftrightarrow> h = 0"
| "flist N h (a # as) \<longleftrightarrow> h = a \<and> a \<noteq> 0 \<and> flist N (nd_next (N a)) as"

text \<open>The addresses of the nodes of a list, in the order of a traversal.\<close>

fun addrs :: "resp_node list \<Rightarrow> addr list" where
  "addrs [] = []"
| "addrs (RespNode a ty i b l cs # xs) = a # addrs cs @ addrs xs"

lemma mset_addrs: "mset (addrs xs) = list_addrs xs"
  by (induction xs rule: addrs.induct) (auto simp: list_addrs_def)

lemma addrs_append [simp]: "addrs (xs @ ys) = addrs xs @ addrs ys"
  by (induction xs rule: addrs.induct) auto

lemma lrep_cong: "(\<And>a. a \<in> set (addrs xs) \<Longrightarrow> N' a = N a) \<Longrightarrow> lrep N' buf h p xs t = lrep N buf h p xs t"
  by (induction N buf h p xs t rule: lrep.induct) auto

lemma flist_cong: "(\<And>a. a \<in> set as \<Longrightarrow> nd_next (N' a) = nd_next (N a)) \<Longrightarrow> flist N' h as = flist N h as"
  by (induction N h as rule: flist.induct) auto

lemma flist_upd [simp]: "a \<notin> set as \<Longrightarrow> flist (N(a := v)) h as = flist N h as"
  by (rule flist_cong) auto

lemma lrep_upd [simp]: "a \<notin> set (addrs xs) \<Longrightarrow> lrep (N(a := v)) buf h p xs t = lrep N buf h p xs t"
  by (rule lrep_cong) auto

lemma lrep_null: "lrep N buf h p xs t \<Longrightarrow> h = 0 \<longleftrightarrow> xs = []"
  by (cases xs rule: addrs.cases) auto

lemma flist_null: "flist N h as \<Longrightarrow> h = 0 \<longleftrightarrow> as = []"
  by (cases as) auto

lemma lrep_tail: "lrep N buf h p xs t \<Longrightarrow> xs \<noteq> [] \<Longrightarrow> t \<in> set (addrs xs)"
proof (induction xs arbitrary: h p rule: addrs.induct)
  case (2 a ty i b l cs xs)
  have L: "lrep N buf (nd_next (N a)) a xs t" using "2.prems"(1) by simp
  show ?case using L "2.IH"(2) [OF L] by (cases "xs = []") auto
qed simp

lemma lrep_nonnull: "lrep N buf h p xs t \<Longrightarrow> 0 \<notin> set (addrs xs)"
  by (induction N buf h p xs t rule: lrep.induct) auto

text \<open>Appending a node behind the last one.\<close>

lemma lrep_snoc:
  assumes "lrep N buf h p xs t" "distinct (addrs xs @ [a])" "xs \<noteq> [] \<Longrightarrow> N' t = (N t)\<lparr>nd_next := a\<rparr>"
    and N': "\<And>x. x \<noteq> a \<Longrightarrow> x \<noteq> t \<Longrightarrow> N' x = N x"
    and a: "a \<noteq> 0" "nd_next (N' a) = 0" "nd_prev (N' a) = t" "nd_type (N' a) = ty" "nd_integer (N' a) = i" "nd_bulk (N' a) = bulk_ptr buf ty b"
      "nd_bulk_len (N' a) = l" "nd_child_count (N' a) = length cs" "lrep N' buf (nd_child_head (N' a)) 0 cs (nd_child_tail (N' a))"
  shows "lrep N' buf (if xs = [] then a else h) p (xs @ [RespNode a ty i b l cs]) a"
  using assms(1-3)
proof (induction xs arbitrary: h p rule: addrs.induct)
  case 1
  then show ?case using a by simp
next
  case (2 x ty' i' b' l' cs' xs)
  note L = "2.prems"(1) [simplified]
  have t: "t = x" if "xs = []" using L that by simp
  have T: "t \<in> set (addrs xs)" if "xs \<noteq> []" using lrep_tail [of N buf "nd_next (N x)" x xs t] L that by simp
  have out: "y \<noteq> a" "y \<noteq> t" if "y \<in> set (addrs cs')" for y
    using "2.prems"(2) t T that by (cases "xs = []"; auto)+
  have C: "lrep N' buf (nd_child_head (N x)) 0 cs' (nd_child_tail (N x))"
    using lrep_cong [of cs' N' N] N' [OF out] L by simp
  show ?case
  proof (cases "xs = []")
    case True
    then show ?thesis using t "2.prems"(3) L C a by simp
  next
    case False
    have "x \<noteq> a" "x \<noteq> t" using "2.prems"(2) T [OF False] by auto
    then have x: "N' x = N x" by (rule N')
    have "lrep N' buf (if xs = [] then a else nd_next (N x)) x (xs @ [RespNode a ty i b l cs]) a"
      by (rule "2.IH"(2)) (use L "2.prems" in auto)
    then show ?thesis using False x L C by simp
  qed
qed

section \<open>The pool\<close>

text \<open>The state \<open>s\<close> holds the pool \<open>P\<close>.\<close>

definition prel :: "resp_parser_t \<Rightarrow> node_pool \<Rightarrow> bool" where
  "prel s P \<longleftrightarrow> flist (pt_nodes s) (pt_free_list s) (np_free P) \<and> pt_slab s = np_slab P \<and> pt_malloc s = np_malloc P"

text \<open>The free nodes of the slab, and the soundness of a pool: its free nodes, the nodes the slab and \<open>malloc\<close> are going to hand
  out and the nodes \<open>L\<close> in use are all different, and none is \<open>NULL\<close>.\<close>

definition slab_stock :: "node_pool \<Rightarrow> addr list \<Rightarrow> bool" where
  "slab_stock P fs \<longleftrightarrow> (case np_slab P of None \<Rightarrow> fs = [] | Some (slab, h) \<Rightarrow> \<exists>f. slab_R (h, slab) f \<and> fs = f 1)"

definition pool_sound :: "node_pool \<Rightarrow> addr list \<Rightarrow> bool" where
  "pool_sound P L \<longleftrightarrow> (\<exists>fs. slab_stock P fs \<and> distinct (L @ np_free P @ fs @ np_malloc P) \<and> 0 \<notin> set (L @ np_free P @ fs @ np_malloc P))"

text \<open>Everything but the nodes and the pool is the same, and the nodes \<open>L\<close> are.\<close>

definition keeps :: "addr set \<Rightarrow> resp_parser_t \<Rightarrow> resp_parser_t \<Rightarrow> bool" where
  "keeps L s s' \<longleftrightarrow> (\<forall>a \<in> L. pt_nodes s' a = pt_nodes s a) \<and> pt_bytes s' = pt_bytes s \<and> pt_buf s' = pt_buf s \<and> pt_buf_cap s' = pt_buf_cap s \<and>
     pt_r_pos s' = pt_r_pos s \<and> pt_w_pos s' = pt_w_pos s"

lemma keeps_refl [simp]: "keeps L s s"
  by (simp add: keeps_def)

lemma keeps_trans: "keeps L s s1 \<Longrightarrow> keeps L s1 s2 \<Longrightarrow> keeps L s s2"
  by (simp add: keeps_def)

lemma keeps_chain: "keeps A s s1 \<Longrightarrow> keeps B s1 s2 \<Longrightarrow> C \<subseteq> A \<Longrightarrow> C \<subseteq> B \<Longrightarrow> keeps C s s2"
  by (auto simp: keeps_def subset_iff)

lemma keeps_upd_node: "a \<notin> L \<Longrightarrow> keeps L s (upd_node a g s)"
  by (auto simp: keeps_def upd_node_def)

lemma keeps_mono: "keeps L s s' \<Longrightarrow> L' \<subseteq> L \<Longrightarrow> keeps L' s s'"
  by (auto simp: keeps_def)

lemma pool_sound_mset: "mset (L @ np_free P) = mset (L' @ np_free P') \<Longrightarrow> np_slab P' = np_slab P \<Longrightarrow> np_malloc P' = np_malloc P \<Longrightarrow>
    pool_sound P L \<Longrightarrow> pool_sound P' L'"
proof -
  assume m: "mset (L @ np_free P) = mset (L' @ np_free P')" and e: "np_slab P' = np_slab P" "np_malloc P' = np_malloc P" and S: "pool_sound P L"
  obtain fs where fs: "slab_stock P fs" "distinct (L @ np_free P @ fs @ np_malloc P)" "0 \<notin> set (L @ np_free P @ fs @ np_malloc P)"
    using S by (auto simp: pool_sound_def)
  have M: "mset (L' @ np_free P' @ fs @ np_malloc P') = mset (L @ np_free P @ fs @ np_malloc P)" using m e by (simp add: ac_simps)
  have "distinct (L' @ np_free P' @ fs @ np_malloc P')" "0 \<notin> set (L' @ np_free P' @ fs @ np_malloc P')"
    using fs(2,3) mset_eq_imp_distinct_iff [OF M] mset_eq_setD [OF M] by simp_all
  moreover have "slab_stock P' fs" using fs(1) e by (simp add: slab_stock_def)
  ultimately show ?thesis by (auto simp: pool_sound_def)
qed

lemma node_size_class: "pool_for_size sizeof_resp_node = Some 1"
  by (simp add: pool_for_size_def sizeof_resp_node_def ZEDIS_SLAB_64_def ZEDIS_SLAB_256_def)

text \<open>The slab hands out the first node of its stock.\<close>

lemma slab_alloc_stock:
  assumes "slab_R (h, slab) f"
  shows "f 1 = [] \<Longrightarrow> zedis_slab_alloc 0 slab h sizeof_resp_node = (None, slab, h)"
    "f 1 = a # as \<Longrightarrow> \<exists>slab' h'. zedis_slab_alloc 0 slab h sizeof_resp_node = (Some a, slab', h') \<and> slab_R (h', slab') (f(1 := as))"
proof -
  show "f 1 = [] \<Longrightarrow> zedis_slab_alloc 0 slab h sizeof_resp_node = (None, slab, h)"
    using slab.al_empty [OF assms node_size_class, of 0] by (auto simp: slab_alloc_op_def split: prod.splits)
  show "f 1 = a # as \<Longrightarrow> \<exists>slab' h'. zedis_slab_alloc 0 slab h sizeof_resp_node = (Some a, slab', h') \<and> slab_R (h', slab') (f(1 := as))"
    using slab.al_first [OF assms node_size_class, of a as 0] by (auto simp: slab_alloc_op_def split: prod.splits)
qed

text \<open>What an allocation does: \<open>NULL\<close> and nothing changed, or a cleared node that was not in use.\<close>

definition allocated :: "addr list \<Rightarrow> resp_parser_t \<Rightarrow> addr option \<Rightarrow> node_pool \<Rightarrow> addr \<Rightarrow> resp_parser_t \<Rightarrow> bool" where
  "allocated L s r P' a s' \<longleftrightarrow> prel s' P' \<and> keeps (set L) s s' \<and>
     (case r of None \<Rightarrow> a = 0 \<and> pool_sound P' L | Some x \<Rightarrow> a = x \<and> x \<noteq> 0 \<and> pt_nodes s' a = resp_node_zero \<and> pool_sound P' (a # L))"

lemma prel_fresh:
  "prel s P \<Longrightarrow> a \<notin> set (np_free P) \<Longrightarrow> prel (upd_node a g s) P"
  by (simp add: prel_def upd_node_def)

lemma malloc_node_sim:
  assumes R: "prel s P" and S: "pool_sound P L" and free: "np_free P = []" and r: "node_malloc P = (r, P')"
  shows "\<exists>a s'. malloc_node s = (a, s') \<and> allocated L s r P' a s'"
proof (cases "np_malloc P")
  case Nil
  then show ?thesis using R S r by (auto simp: malloc_node_def node_malloc_def prel_def allocated_def)
next
  case (Cons a as)
  obtain fs where fs: "slab_stock P fs" "distinct (L @ np_free P @ fs @ np_malloc P)" "0 \<notin> set (L @ np_free P @ fs @ np_malloc P)"
    using S by (auto simp: pool_sound_def)
  have r': "r = Some a" "P' = P\<lparr>np_malloc := as\<rparr>" using r Cons by (auto simp: node_malloc_def)
  let ?s = "upd_node a (\<lambda>_. resp_node_zero) (s\<lparr>pt_malloc := as\<rparr>)"
  have "malloc_node s = (a, ?s)" using R Cons by (simp add: malloc_node_def prel_def)
  moreover have "prel ?s P'" using R free r'(2) by (simp add: prel_def upd_node_def)
  moreover have "slab_stock P' fs" using fs(1) r'(2) by (simp add: slab_stock_def)
  then have "pool_sound P' (a # L)" unfolding pool_sound_def using fs(2,3) Cons r'(2) by (intro exI [of _ fs]) auto
  moreover have "keeps (set L) s ?s" using fs(2) Cons by (auto simp: keeps_def upd_node_def)
  ultimately show ?thesis using r'(1) fs(3) Cons by (auto simp: allocated_def upd_node_def)
qed

lemma node_alloc_sim:
  assumes R: "prel s P" and S: "pool_sound P L" and r: "resp__node_alloc P = (r, P')"
  shows "\<exists>a s'. node_alloc s = (a, s') \<and> allocated L s r P' a s'"
proof (cases "np_free P")
  case (Cons a as)
  obtain fs where fs: "slab_stock P fs" "distinct (L @ np_free P @ fs @ np_malloc P)" "0 \<notin> set (L @ np_free P @ fs @ np_malloc P)"
    using S by (auto simp: pool_sound_def)
  have r': "r = Some a" "P' = P\<lparr>np_free := as\<rparr>" using r Cons by (auto simp: resp__node_alloc_def)
  have F: "pt_free_list s = a" "a \<noteq> 0" "flist (pt_nodes s) (nd_next (pt_nodes s a)) as" using R Cons by (auto simp: prel_def)
  let ?s = "upd_node a (\<lambda>_. resp_node_zero) (s\<lparr>pt_free_list := nd_next (pt_nodes s a)\<rparr>)"
  have "prel (s\<lparr>pt_free_list := nd_next (pt_nodes s a)\<rparr>) P'" using R F r'(2) by (simp add: prel_def)
  then have "prel ?s P'" by (rule prel_fresh) (use fs(2) Cons r'(2) in auto)
  moreover have "node_alloc s = (a, ?s)" using F by (simp add: node_alloc_def)
  moreover have "slab_stock P' fs" using fs(1) r'(2) by (simp add: slab_stock_def)
  then have "pool_sound P' (a # L)" unfolding pool_sound_def using fs(2,3) Cons r'(2) by (intro exI [of _ fs]) auto
  moreover have "keeps (set L) s ?s" using fs(2) Cons by (auto simp: keeps_def upd_node_def)
  ultimately show ?thesis using r'(1) F(2) by (auto simp: allocated_def upd_node_def)
next
  case Nil
  have h: "pt_free_list s = 0" "pt_slab s = np_slab P" using R Nil by (simp_all add: prel_def)
  show ?thesis
  proof (cases "np_slab P")
    case None
    then show ?thesis using malloc_node_sim [OF R S Nil, of r P'] r h Nil by (simp add: node_alloc_def resp__node_alloc_def)
  next
    case (Some sh)
    obtain slab h where sh: "np_slab P = Some (slab, h)" using Some by (cases sh) auto
    obtain f where f: "slab_R (h, slab) f" "distinct (L @ np_free P @ f 1 @ np_malloc P)" "0 \<notin> set (L @ np_free P @ f 1 @ np_malloc P)"
      using S sh by (auto simp: pool_sound_def slab_stock_def)
    show ?thesis
    proof (cases "f 1")
      case Nil': Nil
      have P: "P\<lparr>np_slab := Some (slab, h)\<rparr> = P" "s\<lparr>pt_slab := Some (slab, h)\<rparr> = s" using sh h(2) by simp_all
      show ?thesis using malloc_node_sim [OF R S Nil, of r P'] r h(1) Nil slab_alloc_stock(1) [OF f(1) Nil'] sh h(2)
        by (simp add: node_alloc_def resp__node_alloc_def P)
    next
      case (Cons a as)
      obtain slab' h' where al: "zedis_slab_alloc 0 slab h sizeof_resp_node = (Some a, slab', h')" "slab_R (h', slab') (f(1 := as))"
        using slab_alloc_stock(2) [OF f(1) Cons] by blast
      have r': "r = Some a" "P' = P\<lparr>np_slab := Some (slab', h')\<rparr>" using r Nil sh al(1) by (auto simp: resp__node_alloc_def)
      let ?s = "upd_node a (\<lambda>_. resp_node_zero) (s\<lparr>pt_slab := Some (slab', h')\<rparr>)"
      have "node_alloc s = (a, ?s)" using h sh al(1) by (simp add: node_alloc_def)
      moreover have "prel ?s P'" using R Nil r'(2) by (simp add: prel_def upd_node_def)
      moreover have "slab_stock P' as" using al(2) r'(2) by (auto simp: slab_stock_def intro!: exI [of _ "f(1 := as)"])
      then have "pool_sound P' (a # L)" unfolding pool_sound_def using f(2,3) Cons r'(2) by (intro exI [of _ as]) auto
      moreover have "keeps (set L) s ?s" using f(2) Cons by (auto simp: keeps_def upd_node_def)
      ultimately show ?thesis using r'(1) f(3) Cons by (auto simp: allocated_def upd_node_def)
    qed
  qed
qed

section \<open>Releasing\<close>

lemma node_free_sim:
  assumes "prel s P" "a \<notin> set (np_free P)" "a \<noteq> 0"
  shows "prel (node_free a s) (resp__node_free P a)"
  using assms by (auto simp: prel_def node_free_def upd_node_def resp__node_free_def)

lemma node_release_free:
  "set (np_free (resp__node_list_release P xs)) = set (np_free P) \<union> set (addrs xs)"
  using list_release_addrs(1) [of P xs] mset_addrs [of xs]
  by (metis mset_append set_append set_mset_mset sup_commute)

lemma node_list_release_sim:
  assumes "lrep (pt_nodes s) buf h p xs t" "prel s P" "distinct (addrs xs @ np_free P)"
  shows "\<exists>s'. node_list_release h s = Some s' \<and> prel s' (resp__node_list_release P xs) \<and> keeps (- set (addrs xs)) s s'"
  using assms
proof (induction xs arbitrary: h p t s P rule: addrs.induct)
  case 1
  then show ?case by (simp add: node_list_release.simps resp__node_list_release_def)
next
  case (2 a ty i b l cs xs)
  let ?n = "pt_nodes s a"
  have L: "h = a" "a \<noteq> 0" "lrep (pt_nodes s) buf (nd_child_head ?n) 0 cs (nd_child_tail ?n)" "lrep (pt_nodes s) buf (nd_next ?n) a xs t"
    using "2.prems"(1) by simp_all
  have d: "distinct (addrs cs @ np_free P)" "a \<notin> set (addrs cs)" "a \<notin> set (np_free P)" "a \<notin> set (addrs xs)"
      "set (addrs cs) \<inter> set (addrs xs) = {}" "set (addrs xs) \<inter> set (np_free P) = {}" "distinct (addrs xs)"
    using "2.prems"(3) by auto
  let ?P1 = "resp__node_list_release P cs"
  obtain s1 where s1: "node_list_release (nd_child_head ?n) s = Some s1" "prel s1 ?P1" "keeps (- set (addrs cs)) s s1"
    using "2.IH"(1) [OF L(3) "2.prems"(2) d(1)] by blast
  define s2 where "s2 = (if nd_child_head ?n \<noteq> 0 then upd_node a (\<lambda>n. n\<lparr>nd_child_head := 0\<rparr>) s1 else s)"
  have f1: "a \<notin> set (np_free ?P1)" using d(2,3) by (simp add: node_release_free)
  have zero: "cs = [] \<and> s1 = s" if "nd_child_head ?n = 0" using s1(1) that lrep_null [OF L(3)] by (simp add: node_list_release.simps)
  have s2: "prel s2 ?P1" "keeps (- insert a (set (addrs cs))) s s2"
    using s1(2,3) f1 zero by (auto simp: s2_def keeps_def upd_node_def intro: prel_fresh [unfolded upd_node_def])
  let ?s3 = "node_free a s2" and ?P3 = "resp__node_free ?P1 a"
  have s3: "prel ?s3 ?P3" "keeps (- insert a (set (addrs cs))) s ?s3"
    using node_free_sim [OF s2(1) f1 L(2)] s2(2) by (auto simp: keeps_def node_free_def upd_node_def)
  have "lrep (pt_nodes ?s3) buf (nd_next ?n) a xs t"
    using L(4) by (subst lrep_cong [where N = "pt_nodes s"]) (use s3(2) d(4,5) in \<open>auto simp: keeps_def\<close>)
  moreover have "distinct (addrs xs @ np_free ?P3)"
  proof -
    have "distinct (np_free ?P1)"
      using mset_eq_imp_distinct_iff [of "np_free ?P1" "np_free P @ addrs cs"] list_release_addrs(1) [of P cs] mset_addrs [of cs] d(1) by auto
    then show ?thesis using d f1 by (auto simp: resp__node_free_def node_release_free)
  qed
  ultimately obtain s4 where s4: "node_list_release (nd_next ?n) ?s3 = Some s4" "prel s4 (resp__node_list_release ?P3 xs)" "keeps (- set (addrs xs)) ?s3 s4"
    using "2.IH"(2) [OF _ s3(1)] by blast
  have "node_list_release h s = Some s4"
    using L(1,2) s1(1) s4(1) zero by (subst node_list_release.simps) (auto simp: s2_def Let_def)
  moreover have "resp__node_list_release ?P3 xs = resp__node_list_release P (RespNode a ty i b l cs # xs)"
    by (simp add: resp__node_list_release_def)
  moreover have "keeps (- set (addrs (RespNode a ty i b l cs # xs))) s s4"
    using s3(2) s4(3) by (auto simp: keeps_def)
  ultimately show ?case using s4(2) by metis
qed

end
