(* ===== verification/Resp_Pointer_Sim.thy ===== *)
theory Resp_Pointer_Sim
  imports Resp_Pointer_Rep
begin

text \<open>
  The parser of \<^verbatim>\<open>src/src/resp.c\<close> refines the split parser: on a memory that represents a parser of \<open>Resp_Core\<close> it returns the
  same status, leaves the memory in a state that represents the resulting parser, and its result is a
  linked structure that represents the resulting value. Nodes that belong to others are not touched.
\<close>

section \<open>Building lists\<close>

lemma pool_sound_release: "pool_sound P (addrs xs @ L) \<Longrightarrow> pool_sound (resp__node_list_release P xs) L"
  by (rule pool_sound_mset [of "addrs xs @ L" P]) (simp_all add: list_release_addrs mset_addrs)

lemma pool_sound_free: "pool_sound P (a # L) \<Longrightarrow> pool_sound (resp__node_free P a) L"
  by (rule pool_sound_mset [of "a # L" P]) (simp_all add: resp__node_free_def)

lemma pool_sound_perm: "pool_sound P L \<Longrightarrow> mset L' = mset L \<Longrightarrow> pool_sound P L'"
  by (rule pool_sound_mset [of L P]) simp_all

lemma pool_soundD: "pool_sound P L \<Longrightarrow> distinct (L @ np_free P)" "pool_sound P L \<Longrightarrow> 0 \<notin> set L"
  by (auto simp: pool_sound_def)

text \<open>A node that is filled but not linked yet.\<close>

definition holds_node :: "(addr \<Rightarrow> resp_node_t) \<Rightarrow> addr \<Rightarrow> addr \<Rightarrow> resp_node \<Rightarrow> bool" where
  "holds_node N buf a n \<longleftrightarrow> a = rn_addr n \<and> nd_type (N a) = rn_type n \<and> nd_integer (N a) = rn_integer n \<and> nd_bulk (N a) = bulk_ptr buf (rn_type n) (rn_bulk n) \<and>
     nd_bulk_len (N a) = rn_bulk_len n \<and> nd_child_count (N a) = length (rn_children n) \<and>
     lrep N buf (nd_child_head (N a)) 0 (rn_children n) (nd_child_tail (N a))"

lemma node_append_sim:
  assumes L: "lrep (pt_nodes s) buf h 0 xs t" and n: "holds_node (pt_nodes s) buf a n" and R: "prel s P"
    and d: "distinct (addrs (xs @ [n]) @ np_free P)" and a: "a \<noteq> 0"
  shows "\<exists>h' s'. node_append (h, t, length xs) a s = ((h', a, length (xs @ [n])), s') \<and> lrep (pt_nodes s') buf h' 0 (xs @ [n]) a \<and>
    prel s' P \<and> keeps (- set (addrs (xs @ [n]))) s s'"
proof -
  obtain ty i b l cs where n': "n = RespNode a ty i b l cs" using n by (cases n) (auto simp: holds_node_def)
  define N1 where "N1 = (pt_nodes s)(a := (pt_nodes s a)\<lparr>nd_next := 0, nd_prev := t\<rparr>)"
  define N2 where "N2 = (if t \<noteq> 0 then N1(t := (N1 t)\<lparr>nd_next := a\<rparr>) else N1)"
  have t: "xs = [] \<and> t = 0 \<or> xs \<noteq> [] \<and> t \<in> set (addrs xs) \<and> t \<noteq> 0"
    using L lrep_tail [OF L] lrep_nonnull [OF L] by (cases "xs = []") (auto intro!: gr0I)
  have at: "a \<noteq> t" using t d a n' by auto
  have C: "lrep N2 buf (nd_child_head (N2 a)) 0 cs (nd_child_tail (N2 a))"
  proof -
    have "N2 x = pt_nodes s x" if "x \<in> set (addrs cs)" for x using that d t n' by (auto simp: N2_def N1_def)
    then have "lrep N2 buf h' p' cs t' = lrep (pt_nodes s) buf h' p' cs t'" for h' p' t' by (rule lrep_cong)
    moreover have "nd_child_head (N2 a) = nd_child_head (pt_nodes s a)" "nd_child_tail (N2 a) = nd_child_tail (pt_nodes s a)"
      using at by (simp_all add: N2_def N1_def)
    ultimately show ?thesis using n n' by (simp add: holds_node_def)
  qed
  have "lrep N2 buf (if xs = [] then a else h) 0 (xs @ [n]) a"
    unfolding n' by (rule lrep_snoc [OF L]) (use C d t at a n n' in \<open>auto simp: N2_def N1_def holds_node_def\<close>)
  moreover have "node_append (h, t, length xs) a s = ((if xs = [] then a else h, a, length (xs @ [n])), s\<lparr>pt_nodes := N2\<rparr>)"
    using t by (auto simp: node_append_def upd_node_def N2_def N1_def Let_def)
  moreover have "prel (s\<lparr>pt_nodes := N2\<rparr>) P"
    using R d t n' by (auto simp: prel_def N2_def N1_def)
  moreover have "keeps (- set (addrs (xs @ [n]))) s (s\<lparr>pt_nodes := N2\<rparr>)"
    using t n' by (auto simp: keeps_def N2_def N1_def)
  ultimately show ?thesis by force
qed


section \<open>Inline commands\<close>

text \<open>What a loop over elements leaves: the released nodes, or the list of the elements.\<close>

definition built :: "addr list \<Rightarrow> resp_parser_t \<Rightarrow> node_pool \<Rightarrow> resp_node list option \<Rightarrow> resp_parser_t \<Rightarrow> (addr \<times> addr \<times> nat) option \<Rightarrow> bool" where
  "built L s P' r s' l \<longleftrightarrow> prel s' P' \<and> keeps (set L) s s' \<and>
     (case r of
        None \<Rightarrow> l = None \<and> pool_sound P' L
      | Some ns \<Rightarrow> \<exists>h t. l = Some (h, t, length ns) \<and> lrep (pt_nodes s') (pt_buf s') h 0 ns t \<and> pool_sound P' (addrs ns @ L))"

lemma tokens_loop_sim:
  assumes "inline_loop (read_bytes (pt_bytes s) (pt_buf s) n) e P i ns = (r, P')" "e \<le> n" "prel s P" "pool_sound P (addrs ns @ L)"
    "lrep (pt_nodes s) (pt_buf s) h 0 ns t"
  shows "\<exists>l s'. tokens_loop e i (h, t, length ns) s = Some (l, s') \<and> built L s P' r s' l"
  using assms
proof (induction "read_bytes (pt_bytes s) (pt_buf s) n" e P i ns arbitrary: s h t rule: inline_loop.induct)
  case (1 e P i ns)
  let ?bs = "read_bytes (pt_bytes s) (pt_buf s) n"
  define tok where "tok = skip_blanks ?bs i e"
  define j where "j = skip_token ?bs tok e"
  have loops: "blanks_loop (pt_bytes s) (pt_buf s) i e = tok" "token_loop (pt_bytes s) (pt_buf s) tok e = j"
    using blanks_loop_skip [OF "1.prems"(2)] token_loop_skip [OF "1.prems"(2)] by (simp_all add: tok_def j_def)
  show ?case
  proof (cases "i < e \<and> tok < e")
    case False
    then have "(r, P') = (Some ns, P)" "tokens_loop e i (h, t, length ns) s = Some (Some (h, t, length ns), s)"
      using "1.prems"(1) loops by (subst (asm) inline_loop.simps, auto simp: tok_def Let_def split: if_splits)
        (subst tokens_loop.simps, auto simp: Let_def tok_def)+
    then show ?thesis using "1.prems"(3-5) by (auto simp: built_def)
  next
    case True
    obtain x P1 where x: "resp__node_alloc P = (x, P1)" by fastforce
    obtain a s1 where a: "node_alloc s = (a, s1)" "allocated (addrs ns @ L) s x P1 a s1"
      using node_alloc_sim [OF "1.prems"(3,4) x] by blast
    have k1: "prel s1 P1" "keeps (set (addrs ns @ L)) s s1" using a(2) by (simp_all add: allocated_def)
    have L1: "lrep (pt_nodes s1) (pt_buf s1) h 0 ns t"
      using "1.prems"(5) k1(2) by (subst lrep_cong [where N = "pt_nodes s"]) (auto simp: keeps_def)
    show ?thesis
    proof (cases x)
      case None
      have A: "a = 0" "pool_sound P1 (addrs ns @ L)" using a(2) None by (simp_all add: allocated_def)
      have r: "r = None" "P' = resp__node_list_release P1 ns"
        using "1.prems"(1) True x None by (subst (asm) inline_loop.simps, auto simp: tok_def Let_def)+
      obtain s2 where s2: "node_list_release h s1 = Some s2" "prel s2 P'" "keeps (- set (addrs ns)) s1 s2"
        using node_list_release_sim [OF L1 k1(1)] pool_soundD(1) [OF A(2)] r(2) by auto
      have "tokens_loop e i (h, t, length ns) s = Some (None, s2)"
        using True loops a(1) A(1) s2(1) by (subst tokens_loop.simps) (auto simp: Let_def)
      moreover have "keeps (set L) s s2"
        by (rule keeps_chain [OF k1(2) s2(3)]) (use pool_soundD(1) [OF A(2)] in auto)
      ultimately show ?thesis using s2(2) r pool_sound_release [OF A(2)] by (auto simp: built_def)
    next
      case (Some y)
      have A: "y = a" "a \<noteq> 0" "pt_nodes s1 a = resp_node_zero" "pool_sound P1 (a # addrs ns @ L)" using a(2) Some by (auto simp: allocated_def)
      let ?n = "RespNode a RESP_TYPE_BULK 0 tok (j - tok) []"
      let ?s2 = "upd_node a (\<lambda>n. n\<lparr>nd_type := RESP_TYPE_BULK, nd_bulk := pt_buf s1 + tok, nd_bulk_len := j - tok\<rparr>) s1"
      have d: "distinct ((a # addrs ns @ L) @ np_free P1)" by (rule pool_soundD(1) [OF A(4)])
      have h2: "holds_node (pt_nodes ?s2) (pt_buf ?s2) a ?n" using A(3) by (simp add: holds_node_def upd_node_def resp_node_zero_def bulk_ptr_def has_slice_def)
      have L2: "lrep (pt_nodes ?s2) (pt_buf ?s2) h 0 ns t" using L1 d by (simp add: upd_node_def)
      have R2: "prel ?s2 P1" using prel_fresh [OF k1(1)] d by simp
      obtain h' s3 where s3: "node_append (h, t, length ns) a ?s2 = ((h', a, length (ns @ [?n])), s3)" "lrep (pt_nodes s3) (pt_buf ?s2) h' 0 (ns @ [?n]) a"
          "prel s3 P1" "keeps (- set (addrs (ns @ [?n]))) ?s2 s3"
        using node_append_sim [OF L2 h2 R2 _ A(2)] d by auto
      have "keeps (set L) s1 ?s2" by (rule keeps_upd_node) (use d in auto)
      then have "keeps (set L) s ?s2" by (rule keeps_chain [OF k1(2)]) auto
      then have K: "keeps (set L) s s3" by (rule keeps_chain [OF _ s3(4) subset_refl]) (use d in auto)
      then have m: "pt_bytes s3 = pt_bytes s" "pt_buf s3 = pt_buf s" by (simp_all add: keeps_def)
      have m2: "pt_buf ?s2 = pt_buf s3" using s3(4) by (simp add: keeps_def)
      have S: "pool_sound P1 (addrs (ns @ [?n]) @ L)" by (rule pool_sound_perm [OF A(4)]) simp
      have r: "inline_loop ?bs e P1 j (ns @ [?n]) = (r, P')"
        using "1.prems"(1) True x Some A(1) by (subst (asm) inline_loop.simps) (auto simp: tok_def j_def Let_def resp__node_append_def)
      have "\<exists>l s'. tokens_loop e j (h', a, length (ns @ [?n])) s3 = Some (l, s') \<and> built L s3 P' r s' l"
        by (rule "1.hyps" [of tok j x P1 a s3 h' a, unfolded resp__node_append_def])
          (use True x Some A(1) r S s3(2,3) m m2 "1.prems"(2) in \<open>simp_all add: tok_def j_def\<close>)
      moreover have "tokens_loop e i (h, t, length ns) s = tokens_loop e j (h', a, length (ns @ [?n])) s3"
        using True loops a(1) A(2) s3(1) by (subst tokens_loop.simps) (auto simp: Let_def)
      ultimately show ?thesis using K by (auto simp: built_def intro: keeps_trans)
    qed
  qed
qed


section \<open>Values\<close>

definition vrep :: "(addr \<Rightarrow> resp_node_t) \<Rightarrow> addr \<Rightarrow> resp_value_t \<Rightarrow> resp_value \<Rightarrow> bool" where
  "vrep N buf pv v \<longleftrightarrow> vt_type pv = rv_type v \<and> vt_integer pv = rv_integer v \<and> vt_bulk pv = bulk_ptr buf (rv_type v) (rv_bulk v) \<and>
     vt_bulk_len pv = rv_bulk_len v \<and> lrep N buf (vt_array_head pv) 0 (rv_array v) (vt_array_tail pv) \<and> vt_array_count pv = length (rv_array v)"

text \<open>The two results of parsing, from the state \<open>s\<close> with the nodes \<open>L\<close> in use.\<close>

definition same_result :: "addr list \<Rightarrow> resp_parser_t \<Rightarrow> parse_result \<Rightarrow> parse_result_ptr \<Rightarrow> bool" where
  "same_result L s r r' \<longleftrightarrow> (case (r, r') of ((st, P, pos, v), (st', s', pos', pv)) \<Rightarrow>
     st' = st \<and> pos' = pos \<and> prel s' P \<and> keeps (set L) s s' \<and> vrep (pt_nodes s') (pt_buf s') pv v \<and> pool_sound P (addrs (rv_array v) @ L))"

lemma vrep_zero [simp]: "vrep N buf value_zero resp_value_zero"
  by (simp add: vrep_def value_zero_def resp_value_zero_def bulk_ptr_def has_slice_def)

lemma resp_value_zero_array [simp]: "rv_array resp_value_zero = []"
  by (simp add: resp_value_zero_def)

abbreviation buffer :: "resp_parser_t \<Rightarrow> string" where
  "buffer s \<equiv> read_bytes (pt_bytes s) (pt_buf s) (pt_buf_cap s)"

lemma parse_inline_sim:
  assumes R: "prel s P" and S: "pool_sound P L" and w: "pt_w_pos s \<le> pt_buf_cap s"
  shows "\<exists>r'. parse_inline s start = Some r' \<and> same_result L s (resp__parse_inline (buffer s) (pt_w_pos s) P start) r'"
proof (cases "find_lf (buffer s) (pt_w_pos s) start")
  case None
  then show ?thesis using R S by (simp add: parse_inline_def lf_loop_find [OF w] resp__parse_inline_def same_result_def)
next
  case (Some lf)
  let ?m = "pt_bytes s" and ?buf = "pt_buf s"
  define e where "e = (if lf > start \<and> buffer s ! (lf - 1) = CR then lf - 1 else lf)"
  have lf: "start \<le> lf" "lf < pt_w_pos s" using find_lf_SomeD [OF Some] by auto
  then have e: "e = (if lf > start \<and> ?m (?buf + (lf - 1)) = CR then lf - 1 else lf)" "e \<le> pt_buf_cap s" using w by (auto simp: e_def)
  obtain r P' where r: "inline_loop (buffer s) e P start [] = (r, P')" by fastforce
  obtain l s' where l: "tokens_loop e start (0, 0, 0) s = Some (l, s')" "built L s P' r s' l"
    using tokens_loop_sim [OF r e(2) R, of L 0 0] S by auto
  have i: "parse_inline s start = do {
            (r, s) \<leftarrow> tokens_loop e start (0, 0, 0) s;
            case r of
              None \<Rightarrow> Some (RESP_ERROR, s, start, value_zero)
            | Some (head, tail, child_count) \<Rightarrow>
                Some (RESP_OK, s, lf + 1,
                  value_zero\<lparr>vt_type := RESP_TYPE_ARRAY, vt_array_head := head, vt_array_tail := tail, vt_array_count := child_count\<rparr>)
          }"
    unfolding parse_inline_def Let_def lf_loop_find [OF w] Some e(1) by (simp only: option.case)
  have j: "resp__parse_inline (buffer s) (pt_w_pos s) P start =
      (case r of None \<Rightarrow> (RESP_ERROR, P', start, resp_value_zero)
       | Some ns \<Rightarrow> (RESP_OK, P', lf + 1, resp_value_zero\<lparr>rv_type := RESP_TYPE_ARRAY, rv_array := ns\<rparr>))"
    using Some r by (simp add: resp__parse_inline_def Let_def e_def split: option.split)
  show ?thesis
  proof (cases r)
    case None
    then show ?thesis using i j l by (auto simp: built_def same_result_def)
  next
    case (Some ns)
    then show ?thesis using i j l
      by (auto simp: built_def same_result_def vrep_def value_zero_def resp_value_zero_def bulk_ptr_def has_slice_def)
  qed
qed

text \<open>The scanners of the two versions on the same buffer.\<close>

lemma find_crlf_sim: "pt_w_pos s \<le> pt_buf_cap s \<Longrightarrow> find_crlf s i = resp__find_crlf (buffer s) (pt_w_pos s) i"
  by (simp add: find_crlf_def crlf_loop_find)

text \<open>The two decoders on a value that is no array, with the array parsers as parameters.\<close>

lemma parse_value_sim:
  assumes R: "prel s P" and S: "pool_sound P L" and w: "pt_w_pos s \<le> pt_buf_cap s"
    and r: "parse_value (Suc fuel) (buffer s) (pt_w_pos s) P pos = Some r"
    and A: "\<And>pos cnt r. parse_array fuel (buffer s) (pt_w_pos s) P pos cnt [] = Some r \<Longrightarrow> 0 \<le> cnt \<Longrightarrow>
      \<exists>r'. parse_array_ptr fuel s pos 0 cnt (0, 0, 0) = Some r' \<and> same_result L s r r'"
  shows "\<exists>r'. parse_value_ptr (Suc fuel) s pos = Some r' \<and> same_result L s r r'"
proof -
  let ?w = "pt_w_pos s" and ?bs = "buffer s"
  consider (stop) "pos \<ge> ?w" | (inline) "pos < ?w" "\<not> is_prefix_char (?bs ! pos)" | (line) "pos < ?w" "is_prefix_char (?bs ! pos)" by linarith
  then show ?thesis
  proof cases
    case stop
    then show ?thesis using r R S by (auto simp: parse_value_ptr.simps parse_value_Suc same_result_def Let_def)
  next
    case inline
    have "parse_value_ptr (Suc fuel) s pos = parse_inline s pos"
      using inline w by (simp add: parse_value_ptr.simps is_prefix_char_def)
    moreover have "r = resp__parse_inline ?bs ?w P pos" using r inline unfolding parse_value_Suc Let_def by simp
    ultimately show ?thesis using parse_inline_sim [OF R S w] by simp
  next
    case line
    have pre: "pt_bytes s (pt_buf s + pos) \<in> {CHR ''+'', CHR ''-'', CHR '':'', CHR ''$'', CHR ''*''}"
      using line w by (simp add: is_prefix_char_def)
    have head: "parse_value_ptr (Suc fuel) s pos =
        (case resp__find_crlf ?bs ?w (pos + 1) of
           None \<Rightarrow> Some (RESP_NEED_MORE, s, pos, value_zero)
         | Some cr \<Rightarrow> parse_prefixed (\<lambda>array_start n. parse_array_ptr fuel s array_start 0 n (0, 0, 0)) s pos (?bs ! pos) cr)"
      using line(1) w pre unfolding parse_value_ptr.simps(2) Let_def find_crlf_sim [OF w] by (simp del: insert_iff split: option.split)
    show ?thesis
    proof (cases "resp__find_crlf ?bs ?w (pos + 1)")
      case None
      then have "parse_value_ptr (Suc fuel) s pos = Some (RESP_NEED_MORE, s, pos, value_zero)"
        using head by simp
      moreover have "r = (RESP_NEED_MORE, P, pos, resp_value_zero)" using r None line unfolding parse_value_Suc Let_def by simp
      ultimately show ?thesis using R S by (simp add: same_result_def)
    next
      case (Some cr)
      have cr: "cr \<le> pt_buf_cap s" using find_crlf_SomeD [OF Some] w by simp
      note int = parse_int_range_parse [OF cr, of "pt_bytes s" "pt_buf s" "pos + 1"]
      have ptr: "parse_value_ptr (Suc fuel) s pos = parse_prefixed (\<lambda>array_start n. parse_array_ptr fuel s array_start 0 n (0, 0, 0)) s pos (?bs ! pos) cr"
        using head Some by simp
      note r' = r [unfolded parse_value_Suc Let_def]
      note unfold = ptr parse_prefixed_def is_prefix_char_def Let_def same_result_def
      note zeros = vrep_def value_zero_def resp_value_zero_def bulk_ptr_def has_slice_def
      consider "?bs ! pos = CHR ''+'' \<or> ?bs ! pos = CHR ''-''" | (colon) "?bs ! pos = CHR '':''" | (dollar) "?bs ! pos = CHR ''$''" | (star) "?bs ! pos = CHR ''*''"
        using line(2) by (auto simp: is_prefix_char_def)
      then show ?thesis
      proof cases
        case 1
        then show ?thesis using r' line R S Some by (auto simp: unfold parse_line_def zeros)
      next
        case colon
        then show ?thesis using r' line R S Some int by (cases "resp__parse_int ?bs (pos + 1) cr") (auto simp: unfold parse_integer_def zeros)
      next
        case dollar
        show ?thesis
        proof (cases "resp__parse_int ?bs (pos + 1) cr")
          case None
          then show ?thesis using dollar r' line R S Some int by (auto simp: unfold parse_bulk_def)
        next
          case N: (Some len)
          let ?d = "cr + 2 + nat len"
          have nth: "pt_bytes s (pt_buf s + ?d) = ?bs ! ?d" "pt_bytes s (pt_buf s + ?d + 1) = ?bs ! (?d + 1)" if "\<not> ?d + 2 > ?w"
            using that w by (simp_all add: add.assoc)
          show ?thesis using dollar r' line R S Some int N nth by (auto simp: unfold parse_bulk_def zeros split: if_splits)
        qed
      next
        case star
        show ?thesis
        proof (cases "resp__parse_int ?bs (pos + 1) cr")
          case None
          then show ?thesis using star r' line R S Some int by (auto simp: unfold)
        next
          case N: (Some cnt)
          show ?thesis
          proof (cases "cnt < 0")
            case True
            then show ?thesis using star r' line R S Some int N by (auto simp: unfold zeros)
          next
            case False
            obtain st P' pos' v where q: "parse_array fuel ?bs ?w P (cr + 2) cnt [] = Some (st, P', pos', v)" "r = (st, P', if st = RESP_OK then pos' else pos, v)"
              using r' line star Some N False by (auto simp: is_prefix_char_def split: option.splits)
            obtain s' pv where q': "parse_array_ptr fuel s (cr + 2) 0 cnt (0, 0, 0) = Some (st, s', pos', pv)" "same_result L s (st, P', pos', v) (st, s', pos', pv)"
              using A [OF q(1)] False by (auto simp: same_result_def)
            then show ?thesis using star line Some int N False q(2) by (auto simp: unfold)
          qed
        qed
      qed
    qed
  qed
qed


section \<open>Arrays\<close>

lemma pool_sound_weaken: "pool_sound P (xs @ L) \<Longrightarrow> pool_sound P L"
  by (auto simp: pool_sound_def)

text \<open>A filled child holds the node of the nested value.\<close>

lemma fill_child_holds:
  assumes "vrep N buf pv v" "N a = resp_node_zero" "a \<notin> set (addrs (rv_array v))"
  shows "holds_node (N(a := fill_child pv (N a))) buf a (value_node a v)"
  using assms by (auto simp: holds_node_def vrep_def fill_child_def value_node_def resp_node_zero_def Let_def)

lemma same_result_trans:
  assumes "same_result L s1 r r'" "keeps (set L) s s1"
  shows "same_result L s r r'"
  using assms keeps_trans by (auto simp: same_result_def)

lemma parse_array_sim:
  assumes R: "prel s P" and S: "pool_sound P (addrs ns @ L)" and w: "pt_w_pos s \<le> pt_buf_cap s" and l: "lrep (pt_nodes s) (pt_buf s) h 0 ns t"
    and r: "parse_array (Suc fuel) (buffer s) (pt_w_pos s) P pos cnt ns = Some r"
    and V: "\<And>s P L pos r. prel s P \<Longrightarrow> pool_sound P L \<Longrightarrow> pt_w_pos s \<le> pt_buf_cap s \<Longrightarrow> parse_value fuel (buffer s) (pt_w_pos s) P pos = Some r \<Longrightarrow>
      \<exists>r'. parse_value_ptr fuel s pos = Some r' \<and> same_result L s r r'"
    and A: "\<And>s P ns pos i cnt h t r. prel s P \<Longrightarrow> pool_sound P (addrs ns @ L) \<Longrightarrow> pt_w_pos s \<le> pt_buf_cap s \<Longrightarrow> lrep (pt_nodes s) (pt_buf s) h 0 ns t \<Longrightarrow>
      parse_array fuel (buffer s) (pt_w_pos s) P pos cnt ns = Some r \<Longrightarrow>
      \<exists>r'. parse_array_ptr fuel s pos i (i + cnt) (h, t, length ns) = Some r' \<and> same_result L s r r'"
  shows "\<exists>r'. parse_array_ptr (Suc fuel) s pos i (i + cnt) (h, t, length ns) = Some r' \<and> same_result L s r r'"
proof (cases "cnt \<le> 0")
  case True
  then have "r = (RESP_OK, P, pos, resp_value_zero\<lparr>rv_type := RESP_TYPE_ARRAY, rv_array := ns\<rparr>)" using r by (simp add: parse_array.simps)
  then show ?thesis using True R S l
    by (auto simp: parse_array_ptr.simps same_result_def vrep_def value_zero_def resp_value_zero_def bulk_ptr_def has_slice_def)
next
  case False
  obtain x P1 where x: "resp__node_alloc P = (x, P1)" by fastforce
  obtain a s1 where a: "node_alloc s = (a, s1)" "allocated (addrs ns @ L) s x P1 a s1" using node_alloc_sim [OF R S x] by blast
  have k1: "prel s1 P1" "keeps (set (addrs ns @ L)) s s1" using a(2) by (simp_all add: allocated_def)
  have b1: "buffer s1 = buffer s" "pt_w_pos s1 = pt_w_pos s" "pt_buf_cap s1 = pt_buf_cap s" "pt_buf s1 = pt_buf s" using k1(2) by (simp_all add: keeps_def)
  show ?thesis
  proof (cases x)
    case None
    have l1: "lrep (pt_nodes s1) (pt_buf s1) h 0 ns t"
      using l k1(2) by (subst lrep_cong [where N = "pt_nodes s"]) (auto simp: keeps_def)
    have a0: "a = 0" "pool_sound P1 (addrs ns @ L)" using a(2) None by (simp_all add: allocated_def)
    obtain s2 where s2: "node_list_release h s1 = Some s2" "prel s2 (resp__node_list_release P1 ns)" "keeps (- set (addrs ns)) s1 s2"
      using node_list_release_sim [OF l1 k1(1)] pool_soundD(1) [OF a0(2)] by auto
    have "keeps (set L) s s2" by (rule keeps_chain [OF k1(2) s2(3)]) (use pool_soundD(1) [OF a0(2)] in auto)
    moreover have "r = (RESP_ERROR, resp__node_list_release P1 ns, pos, resp_value_zero)" using r False x None by (simp add: parse_array.simps)
    moreover have "parse_array_ptr (Suc fuel) s pos i (i + cnt) (h, t, length ns) = Some (RESP_ERROR, s2, pos, value_zero)"
      using False a(1) a0(1) s2(1) by (simp add: parse_array_ptr.simps)
    ultimately show ?thesis using s2(2) pool_sound_release [OF a0(2)] by (simp add: same_result_def)
  next
    case (Some y)
    have a1: "y = a" "a \<noteq> 0" "pt_nodes s1 a = resp_node_zero" "pool_sound P1 (a # addrs ns @ L)" using a(2) Some by (auto simp: allocated_def)
    obtain st P2 pos' v where q: "parse_value fuel (buffer s) (pt_w_pos s) P1 pos = Some (st, P2, pos', v)"
      using r False x Some by (auto simp: parse_array.simps split: option.splits)
    have q1: "parse_value fuel (buffer s1) (pt_w_pos s1) P1 pos = Some (st, P2, pos', v)" using q by (simp only: b1(1,2))
    obtain s2 pv where v: "parse_value_ptr fuel s1 pos = Some (st, s2, pos', pv)" "prel s2 P2" "keeps (set (a # addrs ns @ L)) s1 s2"
        "vrep (pt_nodes s2) (pt_buf s2) pv v" "pool_sound P2 (addrs (rv_array v) @ a # addrs ns @ L)"
      using V [OF k1(1) a1(4) _ q1] w b1(2,3) by (auto simp: same_result_def)
    have d: "distinct ((addrs (rv_array v) @ a # addrs ns @ L) @ np_free P2)" by (rule pool_soundD(1) [OF v(5)])
    have k2: "keeps (set (addrs ns @ L)) s s2" by (rule keeps_chain [OF k1(2) v(3)]) auto
    have b2: "buffer s2 = buffer s" "pt_w_pos s2 = pt_w_pos s" "pt_buf_cap s2 = pt_buf_cap s" "pt_buf s2 = pt_buf s" using k2 by (simp_all add: keeps_def)
    have l2: "lrep (pt_nodes s2) (pt_buf s2) h 0 ns t"
      using l k2 by (subst lrep_cong [where N = "pt_nodes s"]) (auto simp: keeps_def)
    show ?thesis
    proof (cases "st = RESP_OK")
      case fail: False
      let ?s3 = "node_free a s2" and ?P3 = "resp__node_free P2 a"
      have S3: "pool_sound ?P3 (addrs ns @ L)" by (rule pool_sound_free) (rule pool_sound_weaken [OF v(5)])
      have R3: "prel ?s3 ?P3" by (rule node_free_sim [OF v(2)]) (use d a1(2) in auto)
      have l3: "lrep (pt_nodes ?s3) (pt_buf ?s3) h 0 ns t" using l2 d by (simp add: node_free_def upd_node_def)
      obtain s4 where s4: "node_list_release h ?s3 = Some s4" "prel s4 (resp__node_list_release ?P3 ns)" "keeps (- set (addrs ns)) ?s3 s4"
        using node_list_release_sim [OF l3 R3] pool_soundD(1) [OF S3] by auto
      have "keeps (set L) s ?s3" using k2 d by (auto simp: keeps_def node_free_def upd_node_def)
      then have "keeps (set L) s s4" by (rule keeps_chain [OF _ s4(3)]) (use d in auto)
      moreover have "r = (st, resp__node_list_release ?P3 ns, pos, resp_value_zero)" using r False x Some a1(1) q fail by (simp add: parse_array.simps)
      moreover have "parse_array_ptr (Suc fuel) s pos i (i + cnt) (h, t, length ns) = Some (st, s4, pos, value_zero)"
        using False a(1) a1(2) v(1) fail s4(1) by (simp add: parse_array_ptr.simps)
      ultimately show ?thesis using s4(2) pool_sound_release [OF S3] by (simp add: same_result_def)
    next
      case ok: True
      let ?n = "value_node a v"
      let ?s3 = "upd_node a (fill_child pv) s2"
      have za: "pt_nodes s2 a = resp_node_zero" using v(3) a1(3) by (simp add: keeps_def)
      have H: "holds_node (pt_nodes ?s3) (pt_buf ?s3) a ?n" using fill_child_holds [OF v(4) za] d by (simp add: upd_node_def)
      have l3: "lrep (pt_nodes ?s3) (pt_buf ?s3) h 0 ns t" using l2 d by (simp add: upd_node_def)
      have R3: "prel ?s3 P2" using prel_fresh [OF v(2)] d by simp
      have S4: "pool_sound P2 (addrs (ns @ [?n]) @ L)"
      proof (cases "rv_type v = RESP_TYPE_ARRAY")
        case True
        then show ?thesis by (intro pool_sound_perm [OF v(5)]) (simp add: value_node_def)
      next
        case False
        then show ?thesis by (intro pool_sound_perm [OF pool_sound_weaken [OF v(5)]]) (simp add: value_node_def)
      qed
      have dd: "distinct (addrs (ns @ [?n]) @ np_free P2)" using pool_soundD(1) [OF S4] by auto
      obtain h' s4 where s4: "node_append (h, t, length ns) a ?s3 = ((h', a, length (ns @ [?n])), s4)" "lrep (pt_nodes s4) (pt_buf ?s3) h' 0 (ns @ [?n]) a"
          "prel s4 P2" "keeps (- set (addrs (ns @ [?n]))) ?s3 s4"
        using node_append_sim [OF l3 H R3 _ a1(2)] dd by blast
      have "keeps (set L) s2 ?s3" by (rule keeps_upd_node) (use d in auto)
      then have "keeps (set L) s ?s3" by (rule keeps_chain [OF k2]) auto
      then have k4: "keeps (set L) s s4" by (rule keeps_chain [OF _ s4(4)]) (use pool_soundD(1) [OF S4] in auto)
      have b4: "buffer s4 = buffer s" "pt_w_pos s4 = pt_w_pos s" "pt_buf_cap s4 = pt_buf_cap s" "pt_buf ?s3 = pt_buf s4" using k4 s4(4) by (simp_all add: keeps_def)
      have "parse_array fuel (buffer s) (pt_w_pos s) P2 pos' (cnt - 1) (ns @ [?n]) = Some r"
        using r False x Some a1(1) q ok by (simp add: parse_array.simps resp__node_append_def)
      then have q2: "parse_array fuel (buffer s4) (pt_w_pos s4) P2 pos' (cnt - 1) (ns @ [?n]) = Some r" by (simp only: b4(1,2))
      obtain r' where r': "parse_array_ptr fuel s4 pos' (i + 1) (i + 1 + (cnt - 1)) (h', a, length (ns @ [?n])) = Some r'" "same_result L s4 r r'"
        using A [OF s4(3) S4 _ _ q2, of h' a "i + 1"] s4(2) w b4 by auto
      have "parse_array_ptr (Suc fuel) s pos i (i + cnt) (h, t, length ns) = Some r'"
        using False a(1) a1(2) v(1) ok s4(1) r'(1) by (simp add: parse_array_ptr.simps)
      then show ?thesis using same_result_trans [OF r'(2) k4] by blast
    qed
  qed
qed


lemma decode_sim:
  "(\<forall>s P L pos r. prel s P \<longrightarrow> pool_sound P L \<longrightarrow> pt_w_pos s \<le> pt_buf_cap s \<longrightarrow> parse_value fuel (buffer s) (pt_w_pos s) P pos = Some r \<longrightarrow>
      (\<exists>r'. parse_value_ptr fuel s pos = Some r' \<and> same_result L s r r')) \<and>
   (\<forall>s P L ns pos i cnt h t r. prel s P \<longrightarrow> pool_sound P (addrs ns @ L) \<longrightarrow> pt_w_pos s \<le> pt_buf_cap s \<longrightarrow> lrep (pt_nodes s) (pt_buf s) h 0 ns t \<longrightarrow>
      parse_array fuel (buffer s) (pt_w_pos s) P pos cnt ns = Some r \<longrightarrow>
      (\<exists>r'. parse_array_ptr fuel s pos i (i + cnt) (h, t, length ns) = Some r' \<and> same_result L s r r'))"
proof (induction fuel)
  case (Suc fuel)
  note V = Suc.IH [THEN conjunct1, rule_format] and A = Suc.IH [THEN conjunct2, rule_format]
  show ?case
  proof (intro conjI allI impI)
    fix s P L pos r
    assume h: "prel s P" "pool_sound P L" "pt_w_pos s \<le> pt_buf_cap s" "parse_value (Suc fuel) (buffer s) (pt_w_pos s) P pos = Some r"
    show "\<exists>r'. parse_value_ptr (Suc fuel) s pos = Some r' \<and> same_result L s r r'"
    proof (rule parse_value_sim [OF h])
      fix pos cnt r
      assume "parse_array fuel (buffer s) (pt_w_pos s) P pos cnt [] = Some r"
      then show "\<exists>r'. parse_array_ptr fuel s pos 0 cnt (0, 0, 0) = Some r' \<and> same_result L s r r'"
        using A [OF h(1) _ h(3), of "[]" L 0 0 pos cnt r 0] h(2) by simp
    qed
  next
    fix s P L ns pos i cnt h t r
    assume "prel s P" "pool_sound P (addrs ns @ L)" "pt_w_pos s \<le> pt_buf_cap s" "lrep (pt_nodes s) (pt_buf s) h 0 ns t"
      "parse_array (Suc fuel) (buffer s) (pt_w_pos s) P pos cnt ns = Some r"
    then show "\<exists>r'. parse_array_ptr (Suc fuel) s pos i (i + cnt) (h, t, length ns) = Some r' \<and> same_result L s r r'"
      by (rule parse_array_sim [OF _ _ _ _ _ V A])
  qed
qed simp

section \<open>The parser\<close>

text \<open>The memory \<open>s\<close> holds the parser \<open>p\<close>.\<close>

definition holds_parser :: "resp_parser_t \<Rightarrow> resp_parser \<Rightarrow> bool" where
  "holds_parser s p \<longleftrightarrow> buffer s = p_buf p \<and> pt_buf_cap s = p_buf_cap p \<and> pt_r_pos s = p_r_pos p \<and> pt_w_pos s = p_w_pos p \<and> prel s (p_pool p)"

lemma compact_sim:
  assumes "holds_parser s p" "parser_wf p"
  shows "holds_parser (compact_ptr s) (resp__compact p)" "pt_nodes (compact_ptr s) = pt_nodes s" "pt_buf (compact_ptr s) = pt_buf s"
    "\<And>x. x < pt_buf s \<or> pt_buf s + pt_buf_cap s \<le> x \<Longrightarrow> pt_bytes (compact_ptr s) x = pt_bytes s x"
proof -
  let ?u = "pt_w_pos s - pt_r_pos s"
  have b: "pt_r_pos s \<le> pt_w_pos s" "pt_w_pos s \<le> pt_buf_cap s" using assms by (auto simp: holds_parser_def parser_wf_def)
  have "read_bytes (pt_bytes s) (pt_buf s + pt_r_pos s) ?u = slice (pt_r_pos s) ?u (buffer s)" using b by (simp add: slice_read_bytes)
  then show "holds_parser (compact_ptr s) (resp__compact p)"
    using assms(1) b by (auto simp: holds_parser_def compact_ptr_def resp__compact_def prel_def Let_def read_write_bytes_0)
  show "pt_nodes (compact_ptr s) = pt_nodes s" "pt_buf (compact_ptr s) = pt_buf s" by (simp_all add: compact_ptr_def Let_def)
  show "\<And>x. x < pt_buf s \<or> pt_buf s + pt_buf_cap s \<le> x \<Longrightarrow> pt_bytes (compact_ptr s) x = pt_bytes s x"
    using b by (auto simp: compact_ptr_def Let_def write_bytes_def)
qed


text \<open>The two parsers were called, on \<open>s\<close> and on a parser it holds, while the nodes \<open>L\<close> were in use.\<close>

definition parsed_alike :: "addr list \<Rightarrow> resp_parser_t \<Rightarrow> resp_parser_t \<Rightarrow> resp_value_t \<Rightarrow> resp_parser \<Rightarrow> resp_value \<Rightarrow> bool" where
  "parsed_alike L s s' pv p' v \<longleftrightarrow> holds_parser s' p' \<and> vrep (pt_nodes s') (pt_buf s') pv v \<and> pool_sound (p_pool p') (addrs (rv_array v) @ L) \<and>
     (\<forall>a \<in> set L. pt_nodes s' a = pt_nodes s a) \<and> pt_buf s' = pt_buf s \<and>
     (\<forall>x. x < pt_buf s \<or> pt_buf s + pt_buf_cap s \<le> x \<longrightarrow> pt_bytes s' x = pt_bytes s x)"

lemma next_sim:
  assumes H: "holds_parser s p" and wf: "parser_wf p" and S: "pool_sound (p_pool p) L"
  shows "\<exists>st p' v s' pv. resp_parser_next p = Some (st, p', v) \<and> resp_parser_next_ptr s = Some (st, s', pv) \<and> parsed_alike L s s' pv p' v"
proof -
  define p1 where "p1 = (if p_r_pos p > p_buf_cap p div 2 then resp__compact p else p)"
  define s1 where "s1 = (if pt_r_pos s > pt_buf_cap s div 2 then compact_ptr s else s)"
  have 1: "holds_parser s1 p1" "parser_wf p1" "pt_nodes s1 = pt_nodes s" "pt_buf s1 = pt_buf s" "p_pool p1 = p_pool p" "pt_buf_cap s1 = pt_buf_cap s"
      "\<And>x. x < pt_buf s \<or> pt_buf s + pt_buf_cap s \<le> x \<Longrightarrow> pt_bytes s1 x = pt_bytes s x"
    using H wf compact_sim [OF H wf] compact_wf [OF wf] by (auto simp: p1_def s1_def holds_parser_def)
  let ?f = "p_w_pos p1 - p_r_pos p1 + 1"
  obtain st p' v where n: "resp_parser_next p = Some (st, p', v)" using next_safe [OF wf] by blast
  then obtain P' pos where q: "parse_value ?f (p_buf p1) (p_w_pos p1) (p_pool p1) (p_r_pos p1) = Some (st, P', pos, v)"
      "p' = p1\<lparr>p_pool := P', p_r_pos := (if st = RESP_OK then pos else p_r_pos p1)\<rparr>"
    unfolding resp_parser_next_def Let_def p1_def [symmetric] by (auto split: option.splits)
  have h: "buffer s1 = p_buf p1" "pt_w_pos s1 = p_w_pos p1" "pt_r_pos s1 = p_r_pos p1" "pt_buf_cap s1 = p_buf_cap p1" "prel s1 (p_pool p1)"
      "pt_w_pos s1 \<le> pt_buf_cap s1"
    using 1(1,2) by (auto simp: holds_parser_def parser_wf_def)
  obtain s2 pv where r: "parse_value_ptr ?f s1 (p_r_pos p1) = Some (st, s2, pos, pv)" "prel s2 P'" "keeps (set L) s1 s2"
      "vrep (pt_nodes s2) (pt_buf s2) pv v" "pool_sound P' (addrs (rv_array v) @ L)"
    using decode_sim [of ?f, THEN conjunct1, rule_format, OF h(5) _ h(6)] q(1) S 1(5) unfolding h(1,2) by (fastforce simp: same_result_def)
  let ?s' = "if st = RESP_OK then s2\<lparr>pt_r_pos := pos\<rparr> else s2"
  have "resp_parser_next_ptr s = Some (st, ?s', pv)"
    unfolding resp_parser_next_ptr_def Let_def s1_def [symmetric] h(2,3) using r(1) by simp
  moreover have "holds_parser ?s' p'" using r(2,3) h q(2) by (auto simp: holds_parser_def keeps_def prel_def)
  ultimately show ?thesis using n r(3-5) 1(3-7) q(2) by (auto simp: parsed_alike_def keeps_def)
qed

lemma release_sim:
  assumes H: "holds_parser s p" and v: "vrep (pt_nodes s) (pt_buf s) pv v" and S: "pool_sound (p_pool p) (addrs (rv_array v) @ L)"
  shows "\<exists>s'. resp_value_release_ptr s pv = Some (s', value_zero) \<and> holds_parser s' (p\<lparr>p_pool := fst (resp_value_release (p_pool p) v)\<rparr>) \<and>
    pool_sound (fst (resp_value_release (p_pool p) v)) L \<and> keeps (set L) s s'"
proof (cases "rv_type v = RESP_TYPE_ARRAY \<and> rv_array v \<noteq> []")
  case True
  have l: "lrep (pt_nodes s) (pt_buf s) (vt_array_head pv) 0 (rv_array v) (vt_array_tail pv)" and t: "vt_type pv = rv_type v" using v by (simp_all add: vrep_def)
  have R: "prel s (p_pool p)" using H by (simp add: holds_parser_def)
  obtain s' where s': "node_list_release (vt_array_head pv) s = Some s'" "prel s' (resp__node_list_release (p_pool p) (rv_array v))"
      "keeps (- set (addrs (rv_array v))) s s'"
    using node_list_release_sim [OF l R] pool_soundD(1) [OF S] by auto
  have "keeps (set L) s s'" by (rule keeps_mono [OF s'(3)]) (use pool_soundD(1) [OF S] in auto)
  moreover have "holds_parser s' (p\<lparr>p_pool := resp__node_list_release (p_pool p) (rv_array v)\<rparr>)" using H s'(2,3) by (auto simp: holds_parser_def keeps_def)
  ultimately show ?thesis using s'(1) True t lrep_null [OF l] pool_sound_release [OF S]
    by (simp add: resp_value_release_ptr_def resp_value_release_def)
next
  case False
  have "vt_array_head pv = 0 \<longleftrightarrow> rv_array v = []" "vt_type pv = rv_type v" using v lrep_null [of "pt_nodes s" "pt_buf s" "vt_array_head pv" 0 "rv_array v" "vt_array_tail pv"] by (simp_all add: vrep_def)
  then show ?thesis using False H pool_sound_weaken [OF S] by (auto simp: resp_value_release_ptr_def resp_value_release_def)
qed

lemma feed_sim:
  assumes H: "holds_parser s p" and wf: "parser_wf p"
  shows "\<exists>s'. resp_parser_feed_ptr s data = (fst (resp_parser_feed p data), s') \<and> holds_parser s' (snd (resp_parser_feed p data))"
proof -
  have h: "pt_w_pos s = p_w_pos p" "pt_r_pos s = p_r_pos p" "pt_buf_cap s = p_buf_cap p" using H by (simp_all add: holds_parser_def)
  have W: "holds_parser (s\<lparr>pt_bytes := write_bytes (pt_bytes s) (pt_buf s + pt_w_pos s) data, pt_w_pos := pt_w_pos s + length data\<rparr>)
      (p\<lparr>p_buf := write_at (p_w_pos p) data (p_buf p), p_w_pos := p_w_pos p + length data\<rparr>)"
    if "holds_parser s p" "p_w_pos p + length data \<le> p_buf_cap p" for s p
    using that by (auto simp: holds_parser_def prel_def read_write_bytes)
  have fit: "p_w_pos (resp__compact p) + length data \<le> p_buf_cap (resp__compact p)" if "\<not> p_buf_cap p - (p_w_pos p - p_r_pos p) < length data"
    using that wf compact_w_pos [OF wf] length_unread [OF wf] by (simp add: parser_wf_def) linarith
  show ?thesis
    using W [OF H] W [OF compact_sim(1) [OF H wf] fit] H h by (auto simp: resp_parser_feed_ptr_def resp_parser_feed_def Let_def)
qed

end
