(* ===== verification/Resp_Pointer_Run.thy ===== *)
theory Resp_Pointer_Run
  imports Resp_Pointer_Sim
begin

text \<open>
  The two versions of the RESP code side by side: any sequence of calls gets the same answers from the parser of
  \<^verbatim>\<open>src/src/resp.c\<close> on its memory and from the split parser, and the formatters of \<^verbatim>\<open>src/src/resp.c\<close> write the same replies, inside
  the buffer they are given.
\<close>

section \<open>Reading a value through its pointers\<close>

partial_function (option) read_nodes :: "(addr \<Rightarrow> resp_node_t) \<Rightarrow> bytes \<Rightarrow> addr \<Rightarrow> resp list option" where
  "read_nodes N m a =
     (if a = 0 then Some []
      else do {
        r \<leftarrow> (case nd_type (N a) of
               RESP_TYPE_SIMPLE \<Rightarrow> Some (RSimple (read_bytes m (nd_bulk (N a)) (nd_bulk_len (N a))))
             | RESP_TYPE_ERROR \<Rightarrow> Some (RErr (read_bytes m (nd_bulk (N a)) (nd_bulk_len (N a))))
             | RESP_TYPE_INTEGER \<Rightarrow> Some (RInt (nd_integer (N a)))
             | RESP_TYPE_BULK \<Rightarrow> Some (RBulk (read_bytes m (nd_bulk (N a)) (nd_bulk_len (N a))))
             | RESP_TYPE_ARRAY \<Rightarrow> do { rs \<leftarrow> read_nodes N m (nd_child_head (N a)); Some (RArray rs) }
             | _ \<Rightarrow> Some RNull);
        rs \<leftarrow> read_nodes N m (nd_next (N a));
        Some (r # rs)
      })"

definition read_value :: "(addr \<Rightarrow> resp_node_t) \<Rightarrow> bytes \<Rightarrow> resp_value_t \<Rightarrow> resp option" where
  "read_value N m v =
     (case vt_type v of
        RESP_TYPE_SIMPLE \<Rightarrow> Some (RSimple (read_bytes m (vt_bulk v) (vt_bulk_len v)))
      | RESP_TYPE_ERROR \<Rightarrow> Some (RErr (read_bytes m (vt_bulk v) (vt_bulk_len v)))
      | RESP_TYPE_INTEGER \<Rightarrow> Some (RInt (vt_integer v))
      | RESP_TYPE_BULK \<Rightarrow> Some (RBulk (read_bytes m (vt_bulk v) (vt_bulk_len v)))
      | RESP_TYPE_ARRAY \<Rightarrow> map_option RArray (read_nodes N m (vt_array_head v))
      | _ \<Rightarrow> Some RNull)"

section \<open>Sessions\<close>

text \<open>The calls a client makes; a value is read and then released. The answers are the return codes and the values.\<close>

datatype parser_call = Feed string | Next | Reset
datatype parser_answer = Fed int | Got resp_parse_status "resp option" | WasReset

fun split_run :: "resp_parser \<Rightarrow> parser_call list \<Rightarrow> parser_answer list option" where
  "split_run p [] = Some []"
| "split_run p (Feed data # cs) =
     (case resp_parser_feed p data of (rc, p) \<Rightarrow> do { as \<leftarrow> split_run p cs; Some (Fed rc # as) })"
| "split_run p (Reset # cs) = do { as \<leftarrow> split_run (resp_parser_reset p) cs; Some (WasReset # as) }"
| "split_run p (Next # cs) =
     do {
       (st, p, v) \<leftarrow> resp_parser_next p;
       let r = (if st = RESP_OK then Some (value_resp (p_buf p) v) else None);
       as \<leftarrow> split_run (p\<lparr>p_pool := fst (resp_value_release (p_pool p) v)\<rparr>) cs;
       Some (Got st r # as)
     }"

fun former_run :: "resp_parser_t \<Rightarrow> parser_call list \<Rightarrow> parser_answer list option" where
  "former_run s [] = Some []"
| "former_run s (Feed data # cs) =
     (case resp_parser_feed_ptr s data of (rc, s) \<Rightarrow> do { as \<leftarrow> former_run s cs; Some (Fed rc # as) })"
| "former_run s (Reset # cs) = do { as \<leftarrow> former_run (resp_parser_reset_ptr s) cs; Some (WasReset # as) }"
| "former_run s (Next # cs) =
     do {
       (st, s, v) \<leftarrow> resp_parser_next_ptr s;
       r \<leftarrow> (if st = RESP_OK then map_option Some (read_value (pt_nodes s) (pt_bytes s) v) else Some None);
       (s, _) \<leftarrow> resp_value_release_ptr s v;
       as \<leftarrow> former_run s cs;
       Some (Got st r # as)
     }"

section \<open>Equal answers\<close>

lemma read_nodes_rep:
  assumes "lrep N buf h p xs t" "list_all (node_within lo n) xs"
  shows "read_nodes N m h = Some (map (node_resp (read_bytes m buf n)) xs)"
  using assms
proof (induction N buf h p xs t rule: lrep.induct)
  case (1 N buf h p t)
  then show ?case by (simp add: read_nodes.simps)
next
  case (2 N buf h p a ty i b l cs xs t)
  have W: "list_all (node_within lo n) cs" "list_all (node_within lo n) xs" "has_slice ty \<Longrightarrow> b + l \<le> n" using "2.prems"(2) by simp_all
  have L: "lrep N buf (nd_child_head (N a)) 0 cs (nd_child_tail (N a))" "lrep N buf (nd_next (N a)) a xs t" using "2.prems"(1) by simp_all
  note IH = "2.IH"(1) [OF L(1) W(1)] "2.IH"(2) [OF L(2) W(2)]
  have "has_slice ty \<Longrightarrow> read_bytes m (buf + b) l = slice b l (read_bytes m buf n)" using slice_read_bytes [OF W(3)] by simp
  then show ?case using "2.prems"(1) IH
    by (subst read_nodes.simps) (auto simp: bulk_ptr_def has_slice_def split: resp_type.split)
qed

lemma read_value_rep:
  assumes "vrep N buf pv v" "value_within lo n v"
  shows "read_value N m pv = Some (value_resp (read_bytes m buf n) v)"
proof -
  have s: "has_slice (rv_type v) \<Longrightarrow> read_bytes m (buf + rv_bulk v) (rv_bulk_len v) = slice (rv_bulk v) (rv_bulk_len v) (read_bytes m buf n)"
    using assms(2) slice_read_bytes by (simp add: value_within_def)
  have "rv_type v = RESP_TYPE_ARRAY \<Longrightarrow> read_nodes N m (vt_array_head pv) = Some (map (node_resp (read_bytes m buf n)) (rv_array v))"
    using read_nodes_rep [of N buf "vt_array_head pv" 0 "rv_array v" "vt_array_tail pv" lo n m] assms by (simp add: vrep_def value_within_def value_nodes_def)
  then show ?thesis using s assms(1)
    by (auto simp: read_value_def value_resp_def value_node_def vrep_def bulk_ptr_def has_slice_def split: resp_type.split)
qed

lemma reset_sim: "holds_parser s p \<Longrightarrow> holds_parser (resp_parser_reset_ptr s) (resp_parser_reset p)"
  by (auto simp: holds_parser_def resp_parser_reset_ptr_def resp_parser_reset_def prel_def)

lemma runs_agree:
  assumes "holds_parser s p" "parser_wf p" "pool_sound (p_pool p) []"
  shows "\<exists>as. split_run p cs = Some as \<and> former_run s cs = Some as"
  using assms
proof (induction cs arbitrary: s p)
  case (Cons c cs)
  show ?case
  proof (cases c)
    case (Feed data)
    obtain rc p' where f: "resp_parser_feed p data = (rc, p')" by fastforce
    obtain s' where s': "resp_parser_feed_ptr s data = (rc, s')" "holds_parser s' p'" using feed_sim [OF Cons.prems(1,2), of data] f by auto
    have "parser_wf p'" "p_pool p' = p_pool p"
      using feed_cases [OF Cons.prems(2), of data] f Cons.prems(2) by (auto split: if_splits)
    then show ?thesis using Cons.IH [OF s'(2)] Cons.prems(3) f s'(1) Feed by auto
  next
    case Next
    obtain st p' v s' pv where n: "resp_parser_next p = Some (st, p', v)" "resp_parser_next_ptr s = Some (st, s', pv)" "parsed_alike [] s s' pv p' v"
      using next_sim [OF Cons.prems] by blast
    let ?q = "p'\<lparr>p_pool := fst (resp_value_release (p_pool p') v)\<rparr>"
    have P: "holds_parser s' p'" "vrep (pt_nodes s') (pt_buf s') pv v" "pool_sound (p_pool p') (addrs (rv_array v) @ [])" using n(3) by (auto simp: parsed_alike_def)
    have wf: "parser_wf p'" and W: "st = RESP_OK \<Longrightarrow> \<exists>lo. value_within lo (p_r_pos p') v"
      using next_safe [OF Cons.prems(2)] n(1) by auto
    have r: "read_value (pt_nodes s') (pt_bytes s') pv = Some (value_resp (p_buf p') v)" if ok: "st = RESP_OK"
    proof -
      have "p_r_pos p' \<le> p_buf_cap p'" using wf by (simp add: parser_wf_def)
      then obtain lo where "value_within lo (p_buf_cap p') v" using W [OF ok] value_within_mono by blast
      then show ?thesis using read_value_rep [OF P(2)] P(1) by (auto simp: holds_parser_def)
    qed
    obtain s2 where s2: "resp_value_release_ptr s' pv = Some (s2, value_zero)" "holds_parser s2 ?q" "pool_sound (p_pool ?q) []"
      using release_sim [OF P] by auto
    have "parser_wf ?q" using wf by (simp add: parser_wf_def)
    then show ?thesis using Cons.IH [OF s2(2) _ s2(3)] n(1,2) s2(1) r Next by auto
  next
    case Reset
    have "parser_wf (resp_parser_reset p)" "p_pool (resp_parser_reset p) = p_pool p" using Cons.prems(2) by (simp_all add: resp_parser_reset_def parser_wf_def)
    then show ?thesis using Cons.IH [OF reset_sim [OF Cons.prems(1)]] Cons.prems(3) Reset by auto
  qed
qed simp


section \<open>Formatters\<close>

text \<open>What a formatter did to the memory: the buffer at \<open>dst\<close> as the split formatter leaves it, and nothing outside.\<close>

definition wrote_reply :: "bytes \<Rightarrow> addr \<Rightarrow> nat \<Rightarrow> int \<times> string \<Rightarrow> int \<times> bytes \<Rightarrow> bool" where
  "wrote_reply m dst cap r r' \<longleftrightarrow> fst r' = fst r \<and> read_bytes (snd r') dst cap = snd r \<and> (\<forall>x. x < dst \<or> dst + cap \<le> x \<longrightarrow> snd r' x = m x)"

text \<open>The same for the state of a formatter.\<close>

definition in_buffer :: "bytes \<Rightarrow> addr \<Rightarrow> nat \<Rightarrow> string \<Rightarrow> bytes \<Rightarrow> bool" where
  "in_buffer m dst cap d m' \<longleftrightarrow> read_bytes m' dst cap = d \<and> (\<forall>x. x < dst \<or> dst + cap \<le> x \<longrightarrow> m' x = m x)"

lemma wrote_reply_pair: "wrote_reply m dst cap (n, d) (n', m') \<longleftrightarrow> n' = n \<and> in_buffer m dst cap d m'"
  by (auto simp: wrote_reply_def in_buffer_def)

lemma in_buffer_start: "in_buffer m dst cap (read_bytes m dst cap) m"
  by (simp add: in_buffer_def)

lemma in_buffer_write: "in_buffer m dst cap d m' \<Longrightarrow> off + length bs \<le> cap \<Longrightarrow> in_buffer m dst cap (write_at off bs d) (write_bytes m' (dst + off) bs)"
  by (auto simp: in_buffer_def read_write_bytes) (auto simp: write_bytes_def)

lemma in_buffer_write_0: "in_buffer m dst cap d m' \<Longrightarrow> length bs \<le> cap \<Longrightarrow> in_buffer m dst cap (write_at 0 bs d) (write_bytes m' dst bs)"
  using in_buffer_write [of m dst cap d m' 0 bs] by simp

lemma in_buffer_NUL: "in_buffer m dst cap d m' \<Longrightarrow> off < cap \<Longrightarrow> in_buffer m dst cap (write_at off [NUL] d) (m'(dst + off := NUL))"
proof -
  have "m'(dst + off := NUL) = write_bytes m' (dst + off) [NUL]" by (auto simp: write_bytes_def)
  then show "in_buffer m dst cap d m' \<Longrightarrow> off < cap \<Longrightarrow> ?thesis" using in_buffer_write [of m dst cap d m' off "[NUL]"] by simp
qed

lemma append_str_sim:
  assumes "in_buffer m dst cap d m'"
  shows "case append_str d cap used s of
      None \<Rightarrow> append_str_ptr m' dst cap used s = None
    | Some (d', u) \<Rightarrow> \<exists>m''. append_str_ptr m' dst cap used s = Some (m'', u) \<and> in_buffer m dst cap d' m'' \<and> u < cap"
  using in_buffer_write [OF assms, of used s] by (auto simp: append_str_def append_str_ptr_def)

lemma snprintf_sim:
  assumes "in_buffer m dst cap d m'"
  shows "wrote_reply m dst cap (snprintf d cap t) (snprintf_ptr m' dst cap t)"
  using assms in_buffer_write_0 [OF assms, of "take (cap - 1) t @ [NUL]"] by (auto simp: snprintf_def snprintf_ptr_def wrote_reply_pair)

text \<open>The three parts of a status line or an error.\<close>

lemma line_sim:
  assumes B: "in_buffer m dst cap d m"
  shows "wrote_reply m dst cap
    (case append_str d cap 0 c of
        None \<Rightarrow> (-1, d)
      | Some (d, used) \<Rightarrow>
          (case append_str d cap used t of
             None \<Rightarrow> (-1, d)
           | Some (d, used) \<Rightarrow>
               (case append_str d cap used e of
                  None \<Rightarrow> (-1, d)
                | Some (d, used) \<Rightarrow> (wrap_i32 (int used), write_at used [NUL] d))))
    (case append_str_ptr m dst cap 0 c of
        None \<Rightarrow> (-1, m)
      | Some (m, used) \<Rightarrow>
          (case append_str_ptr m dst cap used t of
             None \<Rightarrow> (-1, m)
           | Some (m, used) \<Rightarrow>
               (case append_str_ptr m dst cap used e of
                  None \<Rightarrow> (-1, m)
                | Some (m, used) \<Rightarrow> (wrap_i32 (int used), m(dst + used := NUL)))))"
proof (cases "append_str d cap 0 c")
  case None
  then show ?thesis using append_str_sim [OF B, of 0 c] B by (simp add: wrote_reply_pair)
next
  case (Some du)
  obtain d1 u1 where 1: "append_str d cap 0 c = Some (d1, u1)" using Some by (cases du) simp
  obtain m1 where m1: "append_str_ptr m dst cap 0 c = Some (m1, u1)" "in_buffer m dst cap d1 m1" using append_str_sim [OF B, of 0 c] 1 by auto
  show ?thesis
  proof (cases "append_str d1 cap u1 t")
    case None
    then show ?thesis using append_str_sim [OF m1(2), of u1 t] 1 m1 by (simp add: wrote_reply_pair)
  next
    case (Some du)
    obtain d2 u2 where 2: "append_str d1 cap u1 t = Some (d2, u2)" using Some by (cases du) simp
    obtain m2 where m2: "append_str_ptr m1 dst cap u1 t = Some (m2, u2)" "in_buffer m dst cap d2 m2" using append_str_sim [OF m1(2), of u1 t] 2 by auto
    show ?thesis
      using append_str_sim [OF m2(2), of u2 e] 1 2 m1(1) m2 in_buffer_NUL by (cases "append_str d2 cap u2 e") (auto simp: wrote_reply_pair)
  qed
qed

lemma bulk_sim: "wrote_reply m dst cap (resp_format_bulk (read_bytes m dst cap) cap data) (resp_format_bulk_ptr m dst cap data)"
proof -
  let ?t = "''$'' @ show_nat (length data) @ crlf" and ?d = "read_bytes m dst cap"
  obtain n d1 m1 where s: "snprintf ?d cap ?t = (n, d1)" "snprintf_ptr m dst cap ?t = (n, m1)" "in_buffer m dst cap d1 m1"
    using snprintf_sim [OF in_buffer_start, of m dst cap ?t] by (cases "snprintf ?d cap ?t"; cases "snprintf_ptr m dst cap ?t") (auto simp: wrote_reply_pair)
  show ?thesis
  proof (cases "n \<le> 0 \<or> nat n \<ge> cap \<or> nat n + length data + 3 > cap")
    case True
    then show ?thesis using s unfolding resp_format_bulk_def resp_format_bulk_ptr_def by (auto simp: wrote_reply_pair)
  next
    case False
    have 2: "in_buffer m dst cap (write_at (nat n) data d1) (write_bytes m1 (dst + nat n) data)" using in_buffer_write [OF s(3)] False by simp
    have 3: "in_buffer m dst cap (write_at (nat n + length data) crlf (write_at (nat n) data d1)) (write_bytes (write_bytes m1 (dst + nat n) data) (dst + (nat n + length data)) crlf)"
      using in_buffer_write [OF 2, of "nat n + length data" crlf] False by simp
    show ?thesis using in_buffer_NUL [OF 3, of "nat n + length data + 2"] s False unfolding resp_format_bulk_def resp_format_bulk_ptr_def
      by (simp add: wrote_reply_pair Let_def)
  qed
qed

lemma null_sim: "wrote_reply m dst cap (resp_format_null (read_bytes m dst cap) cap) (resp_format_null_ptr m dst cap)"
proof (cases "length (''$-1'' @ crlf) \<ge> cap")
  case True
  then show ?thesis unfolding resp_format_null_def resp_format_null_ptr_def Let_def by (simp add: wrote_reply_pair in_buffer_start)
next
  case False
  have 1: "in_buffer m dst cap (write_at 0 (''$-1'' @ crlf) (read_bytes m dst cap)) (write_bytes m dst (''$-1'' @ crlf))"
    using in_buffer_write_0 [OF in_buffer_start] False by simp
  show ?thesis using in_buffer_NUL [OF 1, of "length (''$-1'' @ crlf)"] False
    unfolding resp_format_null_def resp_format_null_ptr_def Let_def by (simp add: wrote_reply_pair)
qed

lemma integer_sim: "wrote_reply m dst cap (resp_format_integer (read_bytes m dst cap) cap v) (resp_format_integer_ptr m dst cap v)"
  using snprintf_sim [OF in_buffer_start, of m dst cap "'':'' @ show_int v @ crlf"]
  unfolding resp_format_integer_def resp_format_integer_ptr_def by (auto simp: wrote_reply_def split: prod.split)


section \<open>Initialisation and destruction\<close>

lemma init_sim:
  assumes "resp_parser_init_ex_ptr s0 slab cap (\<lambda>_. Some buf) = (0, s)"
    "resp_parser_init_ex slab (pt_malloc s0) cap (\<lambda>n. Some (read_bytes (pt_bytes s0) buf n)) = Some p"
  shows "holds_parser s p" "parser_wf p" "p_pool p = \<lparr>np_free = [], np_slab = slab, np_malloc = pt_malloc s0\<rparr>"
  using assms by (auto simp: resp_parser_init_ex_ptr_def resp_parser_init_ex_def holds_parser_def parser_wf_def prel_def Let_def split: if_splits)

lemma free_nodes_list: "flist (pt_nodes s) h as \<Longrightarrow> free_nodes h s = Some as"
  by (induction as arbitrary: h) (auto simp: free_nodes.simps)

lemma destroy_sim:
  assumes "holds_parser s p" "pool_sound (p_pool p) L"
  shows "\<exists>s'. resp_parser_destroy_ptr s = Some (resp_parser_destroy p @ [pt_buf s], s') \<and> distinct (resp_parser_destroy p)"
  using assms free_nodes_list [of s "pt_free_list s" "np_free (p_pool p)"] pool_soundD(1) [OF assms(2)]
  by (auto simp: holds_parser_def prel_def resp_parser_destroy_ptr_def resp_parser_destroy_def)

section \<open>Properties\<close>

text \<open>C14. The parser of \<^verbatim>\<open>resp.c\<close> refines the split parser. On a memory that holds a parser, with free nodes, future nodes and
  the nodes \<open>L\<close> in use all different, \<open>resp_parser_next\<close> returns with the status of the split parser; the memory then
  holds the split parser's next state, the result is a well-linked structure (\<open>next\<close>, \<open>prev\<close>, \<open>child_head\<close>,
  \<open>child_tail\<close>, counts, \<open>bulk\<close> pointers into the buffer) for the split parser's value, its nodes are different from all others, and no
  node in \<open>L\<close> and no byte outside the buffer was written. Releasing the value returns and gives back all its nodes.\<close>

theorem former_parser_refines:
  assumes "holds_parser s p" "parser_wf p" "pool_sound (p_pool p) L"
  shows "\<exists>st p' v s' pv s''. resp_parser_next p = Some (st, p', v) \<and> resp_parser_next_ptr s = Some (st, s', pv) \<and> parsed_alike L s s' pv p' v \<and>
    resp_value_release_ptr s' pv = Some (s'', value_zero) \<and> holds_parser s'' (p'\<lparr>p_pool := fst (resp_value_release (p_pool p') v)\<rparr>) \<and>
    pool_sound (fst (resp_value_release (p_pool p') v)) L \<and> keeps (set L) s' s''"
proof -
  obtain st p' v s' pv where n: "resp_parser_next p = Some (st, p', v)" "resp_parser_next_ptr s = Some (st, s', pv)" "parsed_alike L s s' pv p' v"
    using next_sim [OF assms] by blast
  have "holds_parser s' p'" "vrep (pt_nodes s') (pt_buf s') pv v" "pool_sound (p_pool p') (addrs (rv_array v) @ L)"
    using n(3) by (auto simp: parsed_alike_def)
  from release_sim [OF this] show ?thesis using n by blast
qed

text \<open>C15. The two versions of the parser cannot be told apart. Initialised with the same slab, the same \<open>malloc\<close> and the same
  buffer, they give the same answers to every sequence of calls of \<open>resp_parser_feed\<close>, \<open>resp_parser_next\<close> followed by
  \<open>resp_value_release\<close>, and \<open>resp_parser_reset\<close>: the same return codes and statuses and the same values, read in \<^verbatim>\<open>resp.c\<close> by
  following the pointers. Both return from every call.\<close>

theorem former_parser_equivalent:
  assumes "resp_parser_init_ex_ptr s0 slab cap (\<lambda>_. Some buf) = (0, s)"
    "resp_parser_init_ex slab (pt_malloc s0) cap (\<lambda>n. Some (read_bytes (pt_bytes s0) buf n)) = Some p"
    "pool_sound \<lparr>np_free = [], np_slab = slab, np_malloc = pt_malloc s0\<rparr> []"
  shows "\<exists>as. split_run p calls = Some as \<and> former_run s calls = Some as"
  using runs_agree [OF init_sim(1,2) [OF assms(1,2)]] assms(3) init_sim(3) [OF assms(1,2)] by simp

text \<open>C31. The formatters of \<^verbatim>\<open>resp.c\<close> stay inside the buffer they are given and write what the split formatters write. Each of
  the five, on any memory, any address and any capacity, returns what its counterpart returns, leaves in the buffer what it
  leaves there, and changes no byte before or behind the buffer.\<close>

theorem former_formatters_contained:
  "wrote_reply m dst cap (resp_format_simple (read_bytes m dst cap) cap t) (resp_format_simple_ptr m dst cap t) \<and>
   wrote_reply m dst cap (resp_format_error (read_bytes m dst cap) cap t) (resp_format_error_ptr m dst cap t) \<and>
   wrote_reply m dst cap (resp_format_integer (read_bytes m dst cap) cap v) (resp_format_integer_ptr m dst cap v) \<and>
   wrote_reply m dst cap (resp_format_bulk (read_bytes m dst cap) cap t) (resp_format_bulk_ptr m dst cap t) \<and>
   wrote_reply m dst cap (resp_format_null (read_bytes m dst cap) cap) (resp_format_null_ptr m dst cap)"
  unfolding resp_format_simple_def resp_format_simple_ptr_def resp_format_error_def resp_format_error_ptr_def
  by (intro conjI line_sim [OF in_buffer_start] integer_sim bulk_sim null_sim)

section \<open>Witnesses\<close>

definition demo_memory :: resp_parser_t where
  "demo_memory = \<lparr>pt_buf = 0, pt_buf_cap = 0, pt_r_pos = 0, pt_w_pos = 0, pt_free_list = 0, pt_slab = None, pt_malloc = [500, 600, 700],
     pt_bytes = (\<lambda>_. NUL), pt_nodes = (\<lambda>_. resp_node_zero)\<rparr>"

definition demo_nodes :: "resp_parser_t" where
  "demo_nodes = demo_memory\<lparr>pt_buf := 100, pt_buf_cap := 8, pt_r_pos := 1, pt_w_pos := 5, pt_free_list := 300,
     pt_bytes := write_bytes (\<lambda>_. NUL) 100 (''xGET'' @ [LF] @ ''...''), pt_nodes := (\<lambda>_. resp_node_zero)(300 := resp_node_zero\<lparr>nd_next := 400\<rparr>)\<rparr>"

lemma demo_pool_sound: "pool_sound \<lparr>np_free = [], np_slab = None, np_malloc = [500, 600, 700]\<rparr> []"
    "pool_sound \<lparr>np_free = [300, 400], np_slab = None, np_malloc = [500, 600, 700]\<rparr> [800]"
  by (auto simp: pool_sound_def slab_stock_def)

theorem former_parser_refines_witness:
  "\<exists>st s' pv. resp_parser_next_ptr demo_nodes = Some (st, s', pv) \<and> pt_nodes s' 800 = resp_node_zero"
proof -
  let ?p = "\<lparr>p_buf = ''xGET'' @ [LF] @ ''...'', p_buf_cap = 8, p_r_pos = 1, p_w_pos = 5, p_pool = \<lparr>np_free = [300, 400], np_slab = None, np_malloc = [500, 600, 700]\<rparr>\<rparr>"
  have "holds_parser demo_nodes ?p"
    by (simp add: holds_parser_def demo_nodes_def demo_memory_def prel_def read_write_bytes_0 write_at_def resp_node_zero_def)
  moreover have "parser_wf ?p" by (simp add: parser_wf_def)
  ultimately show ?thesis using former_parser_refines [of demo_nodes ?p "[800]"] demo_pool_sound(2)
    by (auto simp: parsed_alike_def demo_nodes_def)
qed

theorem former_parser_equivalent_witness:
  "\<exists>s p as. resp_parser_init_ex_ptr demo_memory None 64 (\<lambda>_. Some 100) = (0, s) \<and> split_run p [Feed (''PING'' @ [LF]), Next, Next] = Some as \<and>
     former_run s [Feed (''PING'' @ [LF]), Next, Next] = Some as"
proof -
  obtain s where s: "resp_parser_init_ex_ptr demo_memory None 64 (\<lambda>_. Some 100) = (0, s)" by (simp add: resp_parser_init_ex_ptr_def)
  obtain p where p: "resp_parser_init_ex None (pt_malloc demo_memory) 64 (\<lambda>n. Some (read_bytes (pt_bytes demo_memory) 100 n)) = Some p"
    by (simp add: resp_parser_init_ex_def)
  show ?thesis using former_parser_equivalent [OF s p, of "[Feed (''PING'' @ [LF]), Next, Next]"] demo_pool_sound(1) s by (auto simp: demo_memory_def)
qed

end
