(* ===== verification/BTree.thy ===== *)
theory BTree
  imports Arena
begin

text \<open>
  The B-tree of \<^verbatim>\<open>src/src/btree.c\<close> behind the sorted sets. Nodes and members live in two arrays and refer to
  each other by index; the union of \<open>children\<close> and \<open>values\<close> is one field of four slots. The recursive
  functions follow indices, so they carry fuel; \<open>btree_fuel\<close> exceeds the height of every tree the
  operations can build, and the lemmas show that it is never exhausted.
\<close>

section \<open>Model\<close>

definition ZEDIS_BTREE_MAX_MEMBER :: nat where "ZEDIS_BTREE_MAX_MEMBER = 48"
definition ZEDIS_BTREE_MAX_ENTRIES :: nat where "ZEDIS_BTREE_MAX_ENTRIES = 4096"
definition ZEDIS_BTREE_NODE_SIZE :: nat where "ZEDIS_BTREE_NODE_SIZE = 64"
definition BTREE_MAX_KEYS :: nat where "BTREE_MAX_KEYS = 3"
definition sizeof_btree_member :: nat where "sizeof_btree_member = 64"

record btree_node =
  bn_keys :: "int list"
  bn_slots :: "nat list"
  bn_is_leaf :: bool
  bn_count :: nat

record btree_member =
  bm_data :: string
  bm_len :: nat
  bm_score :: int

record zedis_btree =
  bt_nodes :: "btree_node list"
  bt_members :: "btree_member list"
  bt_root :: nat
  bt_free_node :: nat
  bt_node_count :: nat
  bt_member_count :: nat
  bt_max_nodes :: nat
  bt_max_members :: nat

definition node_zero :: btree_node where
  "node_zero = \<lparr>bn_keys = [0, 0, 0], bn_slots = [0, 0, 0, 0], bn_is_leaf = False, bn_count = 0\<rparr>"

definition member_zero :: btree_member where
  "member_zero = \<lparr>bm_data = replicate ZEDIS_BTREE_MAX_MEMBER NUL, bm_len = 0, bm_score = 0\<rparr>"

definition btree_zero :: zedis_btree where
  "btree_zero = \<lparr>bt_nodes = [], bt_members = [], bt_root = 0, bt_free_node = 0, bt_node_count = 0,
     bt_member_count = 0, bt_max_nodes = 0, bt_max_members = 0\<rparr>"

definition alloc_node :: "zedis_btree \<Rightarrow> nat \<times> zedis_btree" where
  "alloc_node tree =
     (if bt_free_node tree \<ge> bt_max_nodes tree then (UINT32_MAX, tree)
      else (bt_free_node tree, tree\<lparr>bt_free_node := bt_free_node tree + 1\<rparr>))"

definition alloc_member :: "zedis_btree \<Rightarrow> int \<Rightarrow> string \<Rightarrow> nat \<times> zedis_btree" where
  "alloc_member tree score member =
     (if bt_member_count tree \<ge> bt_max_members tree then (UINT32_MAX, tree)
      else let idx = bt_member_count tree;
               len = (if length member < ZEDIS_BTREE_MAX_MEMBER then length member else ZEDIS_BTREE_MAX_MEMBER - 1);
               m = bt_members tree ! idx;
               data = write_at len [NUL] (write_at 0 (take len member) (bm_data m))
           in (idx, tree\<lparr>bt_member_count := idx + 1,
                 bt_members := (bt_members tree)[idx := \<lparr>bm_data = data, bm_len = len, bm_score = score\<rparr>]\<rparr>))"

text \<open>The bytes of a member that its length covers.\<close>

definition member_name :: "btree_member \<Rightarrow> string" where
  "member_name m = take (bm_len m) (bm_data m)"

definition member_equal :: "btree_member \<Rightarrow> string \<Rightarrow> bool" where
  "member_equal m member \<longleftrightarrow> bm_len m = length member \<and> take (length member) (bm_data m) = member"

text \<open>\<open>memcmp\<close> on two texts of the same length: the difference of the first bytes that differ.\<close>

fun memcmp :: "string \<Rightarrow> string \<Rightarrow> int" where
  "memcmp (a # as) (b # bs) = (if a = b then memcmp as bs else of_char a - of_char b)"
| "memcmp _ _ = 0"

definition score_member_cmp :: "int \<Rightarrow> btree_member \<Rightarrow> int \<Rightarrow> string \<Rightarrow> int" where
  "score_member_cmp score_a a score_b member_b =
     (if score_a \<noteq> score_b then (if score_a < score_b then -1 else 1)
      else let n = min (bm_len a) (length member_b); rc = memcmp (take n (bm_data a)) (take n member_b) in
        if rc \<noteq> 0 then rc
        else if bm_len a < length member_b then -1
        else if bm_len a > length member_b then 1
        else 0)"

definition find_in_leaf :: "zedis_btree \<Rightarrow> btree_node \<Rightarrow> string \<Rightarrow> nat option" where
  "find_in_leaf tree node member =
     List.find (\<lambda>v. member_equal (bt_members tree ! v) member) (take (bn_count node) (bn_slots node))"

text \<open>The loop over the children: the first hit, None when the fuel of a call ran out.\<close>

fun first_hit :: "(nat \<Rightarrow> 'a option option) \<Rightarrow> nat list \<Rightarrow> 'a option option" where
  "first_hit f [] = Some None"
| "first_hit f (c # cs) =
     (case f c of None \<Rightarrow> None | Some (Some r) \<Rightarrow> Some (Some r) | Some None \<Rightarrow> first_hit f cs)"

fun find_member :: "nat \<Rightarrow> zedis_btree \<Rightarrow> nat \<Rightarrow> string \<Rightarrow> nat option option" where
  "find_member 0 tree node_idx member = None"
| "find_member (Suc fuel) tree node_idx member =
     (let node = bt_nodes tree ! node_idx in
      if bn_is_leaf node then Some (find_in_leaf tree node member)
      else first_hit (\<lambda>c. find_member fuel tree c member) (take (bn_count node + 1) (bn_slots node)))"

text \<open>\<open>for (i = n; i > pos; i--) xs[i] = xs[i - 1]\<close>.\<close>

fun shift_up :: "'a list \<Rightarrow> nat \<Rightarrow> nat \<Rightarrow> 'a list" where
  "shift_up xs 0 pos = xs"
| "shift_up xs (Suc i) pos = (if Suc i > pos then shift_up (xs[Suc i := xs ! i]) i pos else xs)"

definition leaf_insert_at :: "btree_node \<Rightarrow> nat \<Rightarrow> int \<Rightarrow> nat \<Rightarrow> btree_node" where
  "leaf_insert_at node pos score midx =
     node\<lparr>bn_keys := (shift_up (bn_keys node) (bn_count node) pos)[pos := score],
          bn_slots := (shift_up (bn_slots node) (bn_count node) pos)[pos := midx],
          bn_count := bn_count node + 1\<rparr>"

text \<open>The first position from \<open>i\<close> on whose entry is not below the new one.\<close>

fun leaf_pos_loop :: "zedis_btree \<Rightarrow> int \<Rightarrow> btree_member \<Rightarrow> (int \<times> nat) list \<Rightarrow> nat \<Rightarrow> nat" where
  "leaf_pos_loop tree score ins [] i = i"
| "leaf_pos_loop tree score ins ((key, v) # es) i =
     (let m = bt_members tree ! v in
      if score_member_cmp score ins key (member_name m) \<le> 0 then i
      else leaf_pos_loop tree score ins es (i + 1))"

definition leaf_find_pos :: "zedis_btree \<Rightarrow> btree_node \<Rightarrow> int \<Rightarrow> nat \<Rightarrow> nat" where
  "leaf_find_pos tree node score midx =
     leaf_pos_loop tree score (bt_members tree ! midx)
       (zip (take (bn_count node) (bn_keys node)) (take (bn_count node) (bn_slots node))) 0"

definition split_leaf :: "zedis_btree \<Rightarrow> nat \<Rightarrow> nat \<times> int \<times> zedis_btree" where
  "split_leaf tree leaf_idx =
     (case alloc_node tree of (right_idx, tree) \<Rightarrow>
        if right_idx = UINT32_MAX then (UINT32_MAX, 0, tree)
        else let leaf = bt_nodes tree ! leaf_idx;
                 mid = (bn_count leaf + 1) div 2;
                 promoted = bn_keys leaf ! mid;
                 n = bn_count leaf - mid;
                 right = node_zero\<lparr>bn_is_leaf := True, bn_count := n,
                   bn_keys := write_at 0 (take n (drop mid (bn_keys leaf))) (bn_keys node_zero),
                   bn_slots := write_at 0 (take n (drop mid (bn_slots leaf))) (bn_slots node_zero)\<rparr>
             in (right_idx, promoted,
                 tree\<lparr>bt_nodes := (bt_nodes tree)[right_idx := right, leaf_idx := leaf\<lparr>bn_count := mid\<rparr>]\<rparr>))"

definition split_internal :: "zedis_btree \<Rightarrow> nat \<Rightarrow> nat \<times> int \<times> zedis_btree" where
  "split_internal tree node_idx =
     (case alloc_node tree of (right_idx, tree) \<Rightarrow>
        if right_idx = UINT32_MAX then (UINT32_MAX, 0, tree)
        else let node = bt_nodes tree ! node_idx;
                 mid = BTREE_MAX_KEYS div 2;
                 promoted = bn_keys node ! mid;
                 n = bn_count node - mid - 1;
                 right = node_zero\<lparr>bn_count := n,
                   bn_keys := write_at 0 (take n (drop (mid + 1) (bn_keys node))) (bn_keys node_zero),
                   bn_slots := write_at 0 (take (n + 1) (drop (mid + 1) (bn_slots node))) (bn_slots node_zero)\<rparr>
             in (right_idx, promoted,
                 tree\<lparr>bt_nodes := (bt_nodes tree)[right_idx := right, node_idx := node\<lparr>bn_count := mid\<rparr>]\<rparr>))"

definition insert_into_leaf :: "zedis_btree \<Rightarrow> nat \<Rightarrow> int \<Rightarrow> nat \<Rightarrow> int \<times> zedis_btree" where
  "insert_into_leaf tree leaf_idx score midx =
     (let leaf = bt_nodes tree ! leaf_idx; pos = leaf_find_pos tree leaf score midx in
      (0, tree\<lparr>bt_nodes := (bt_nodes tree)[leaf_idx := leaf_insert_at leaf pos score midx]\<rparr>))"

text \<open>The index of the child to descend into, and the insertion of a separator and a child into a node.\<close>

definition child_index :: "btree_node \<Rightarrow> int \<Rightarrow> nat" where
  "child_index node score = length (takeWhile (\<lambda>k. score > k) (take (bn_count node) (bn_keys node)))"

definition add_child :: "btree_node \<Rightarrow> nat \<Rightarrow> int \<Rightarrow> nat \<Rightarrow> btree_node" where
  "add_child node i promoted sibling =
     node\<lparr>bn_keys := (shift_up (bn_keys node) (bn_count node) i)[i := promoted],
          bn_slots := (shift_up (bn_slots node) (bn_count node + 1) (i + 1))[i + 1 := sibling],
          bn_count := bn_count node + 1\<rparr>"

fun insert_nonfull :: "nat \<Rightarrow> zedis_btree \<Rightarrow> nat \<Rightarrow> int \<Rightarrow> nat \<Rightarrow> (int \<times> zedis_btree) option" where
  "insert_nonfull 0 tree node_idx score midx = None"
| "insert_nonfull (Suc fuel) tree node_idx score midx =
     (let node = bt_nodes tree ! node_idx in
      if bn_is_leaf node then Some (insert_into_leaf tree node_idx score midx)
      else let i = child_index node score; child = bn_slots node ! i; child_node = bt_nodes tree ! child in
        if bn_count child_node \<ge> BTREE_MAX_KEYS then
          (case if bn_is_leaf child_node then split_leaf tree child else split_internal tree child of
             (sibling, promoted, tree) \<Rightarrow>
               if sibling = UINT32_MAX then Some (-1, tree)
               else insert_nonfull fuel
                      (tree\<lparr>bt_nodes := (bt_nodes tree)[node_idx := add_child node i promoted sibling]\<rparr>)
                      (if score \<ge> promoted then sibling else child) score midx)
        else insert_nonfull fuel tree child score midx)"

definition btree_fuel :: "zedis_btree \<Rightarrow> nat" where
  "btree_fuel tree = bt_max_nodes tree + 1"

definition insert_entry :: "zedis_btree \<Rightarrow> int \<Rightarrow> nat \<Rightarrow> (int \<times> zedis_btree) option" where
  "insert_entry tree score midx =
     (if bt_root tree = UINT32_MAX then
        (case alloc_node tree of (root, tree) \<Rightarrow>
           if root = UINT32_MAX then Some (-1, tree)
           else let node = bt_nodes tree ! root in
             Some (0, tree\<lparr>bt_root := root,
               bt_nodes := (bt_nodes tree)[root := node\<lparr>bn_is_leaf := True, bn_count := 1,
                 bn_keys := (bn_keys node)[0 := score], bn_slots := (bn_slots node)[0 := midx]\<rparr>]\<rparr>))
      else let root = bt_nodes tree ! bt_root tree in
        if bn_count root < BTREE_MAX_KEYS then insert_nonfull (btree_fuel tree) tree (bt_root tree) score midx
        else (case alloc_node tree of (new_root, tree) \<Rightarrow>
                (case if bn_is_leaf root then split_leaf tree (bt_root tree) else split_internal tree (bt_root tree) of
                   (sibling, promoted, tree) \<Rightarrow>
                     if sibling = UINT32_MAX \<or> new_root = UINT32_MAX then Some (-1, tree)
                     else let nr = node_zero\<lparr>bn_count := 1, bn_keys := (bn_keys node_zero)[0 := promoted],
                            bn_slots := (bn_slots node_zero)[0 := bt_root tree, 1 := sibling]\<rparr>;
                            tree = tree\<lparr>bt_nodes := (bt_nodes tree)[new_root := nr], bt_root := new_root\<rparr>
                          in insert_nonfull (btree_fuel tree) tree
                               (if score \<ge> promoted then sibling else bt_root tree) score midx)))"

text \<open>The sum over the children, and the state threaded through them.\<close>

fun sum_calls :: "(nat \<Rightarrow> nat option) \<Rightarrow> nat list \<Rightarrow> nat option" where
  "sum_calls f [] = Some 0"
| "sum_calls f (c # cs) =
     (case f c of None \<Rightarrow> None | Some a \<Rightarrow> (case sum_calls f cs of None \<Rightarrow> None | Some b \<Rightarrow> Some (a + b)))"

fun count_entries :: "nat \<Rightarrow> zedis_btree \<Rightarrow> nat \<Rightarrow> nat option" where
  "count_entries 0 tree node_idx = None"
| "count_entries (Suc fuel) tree node_idx =
     (let node = bt_nodes tree ! node_idx in
      if bn_is_leaf node then Some (bn_count node)
      else sum_calls (count_entries fuel tree) (take (bn_count node + 1) (bn_slots node)))"

text \<open>One member as \<open>"$%zu\r\n%.*s\r\n"\<close>; the \<open>%.*s\<close> conversion stops at a NUL byte.\<close>

definition member_text :: "btree_member \<Rightarrow> string" where
  "member_text m = CHR ''$'' # show_nat (bm_len m) @ crlf @ cstr (member_name m) @ crlf"

text \<open>One entry of a leaf: the reply grows only when the text and a NUL still fit; the index moves on.\<close>

definition collect_entry :: "zedis_btree \<Rightarrow> int \<Rightarrow> int \<Rightarrow> nat \<Rightarrow> nat \<Rightarrow> int \<times> string \<Rightarrow> int \<times> string" where
  "collect_entry tree start stop reply_cap v st =
     (case st of (idx, reply) \<Rightarrow>
        (idx + 1,
         if idx \<ge> start \<and> idx \<le> stop then
           (let txt = member_text (bt_members tree ! v) in
            if length reply + length txt < reply_cap then reply @ txt else reply)
         else reply))"

fun thread :: "(nat \<Rightarrow> 's \<Rightarrow> 's option) \<Rightarrow> nat list \<Rightarrow> 's \<Rightarrow> 's option" where
  "thread f [] s = Some s"
| "thread f (c # cs) s = (case f c s of None \<Rightarrow> None | Some s' \<Rightarrow> thread f cs s')"

fun collect_inorder :: "nat \<Rightarrow> zedis_btree \<Rightarrow> nat \<Rightarrow> int \<Rightarrow> int \<Rightarrow> nat \<Rightarrow> int \<times> string \<Rightarrow> (int \<times> string) option" where
  "collect_inorder 0 tree node_idx start stop reply_cap st = None"
| "collect_inorder (Suc fuel) tree node_idx start stop reply_cap st =
     (let node = bt_nodes tree ! node_idx in
      if bn_is_leaf node
      then Some (fold (collect_entry tree start stop reply_cap) (take (bn_count node) (bn_slots node)) st)
      else thread (\<lambda>c. collect_inorder fuel tree c start stop reply_cap) (take (bn_count node + 1) (bn_slots node)) st)"

definition zedis_btree_init :: "zedis_arena \<Rightarrow> nat \<Rightarrow> mem \<Rightarrow> zedis_btree \<Rightarrow> int \<times> zedis_btree \<times> zedis_arena \<times> mem" where
  "zedis_btree_init arena max_members0 m tree0 =
     (if max_members0 = 0 then (-1, tree0, arena, m)
      else let max_members = min max_members0 ZEDIS_BTREE_MAX_ENTRIES;
               tree = btree_zero\<lparr>bt_max_members := max_members, bt_max_nodes := max_members * 2 + 4, bt_root := UINT32_MAX\<rparr>
           in case zedis_arena_calloc arena (of_nat (bt_max_nodes tree)) (of_nat ZEDIS_BTREE_NODE_SIZE) 64 m of
                (nodes, arena, m) \<Rightarrow>
                  (case zedis_arena_calloc arena (of_nat max_members) (of_nat sizeof_btree_member) 64 m of
                     (members, arena, m) \<Rightarrow>
                       if nodes = None \<or> members = None then (-1, tree, arena, m)
                       else (0, tree\<lparr>bt_nodes := replicate (bt_max_nodes tree) node_zero,
                                     bt_members := replicate max_members member_zero\<rparr>, arena, m)))"

definition zedis_btree_destroy :: "zedis_btree \<Rightarrow> zedis_btree" where
  "zedis_btree_destroy tree = btree_zero"

text \<open>\<open>rebuild_btree\<close> drops the result code of each \<open>insert_entry\<close>.\<close>

definition rebuild_btree :: "zedis_btree \<Rightarrow> zedis_btree option" where
  "rebuild_btree tree =
     thread (\<lambda>i t. map_option snd (insert_entry t (bm_score (bt_members t ! i)) i))
       [0..<bt_member_count tree]
       (tree\<lparr>bt_nodes := replicate (bt_max_nodes tree) node_zero, bt_root := UINT32_MAX, bt_free_node := 0\<rparr>)"

definition zedis_btree_add :: "zedis_btree \<Rightarrow> int \<Rightarrow> string \<Rightarrow> (int \<times> zedis_btree) option" where
  "zedis_btree_add tree score member =
     (if length member = 0 \<or> length member \<ge> ZEDIS_BTREE_MAX_MEMBER then Some (-1, tree)
      else case (if bt_root tree \<noteq> UINT32_MAX then find_member (btree_fuel tree) tree (bt_root tree) member else Some None) of
             None \<Rightarrow> None
           | Some (Some existing) \<Rightarrow>
               map_option (Pair 0) (rebuild_btree (tree\<lparr>bt_members :=
                 (bt_members tree)[existing := (bt_members tree ! existing)\<lparr>bm_score := score\<rparr>]\<rparr>))
           | Some None \<Rightarrow>
               (case alloc_member tree score member of (midx, tree) \<Rightarrow>
                  if midx = UINT32_MAX then Some (-1, tree) else insert_entry tree score midx))"

definition zedis_btree_score :: "zedis_btree \<Rightarrow> string \<Rightarrow> int option option" where
  "zedis_btree_score tree member =
     (if bt_root tree = UINT32_MAX then Some None
      else map_option (map_option (\<lambda>midx. bm_score (bt_members tree ! midx)))
             (find_member (btree_fuel tree) tree (bt_root tree) member))"

text \<open>The reply as far as \<open>reply_len\<close> counts it; None inside for -1.\<close>

definition reply_start :: "nat \<Rightarrow> string \<Rightarrow> string option" where
  "reply_start reply_cap txt = (if length txt \<ge> reply_cap then None else Some txt)"

definition zedis_btree_range :: "zedis_btree \<Rightarrow> int \<Rightarrow> int \<Rightarrow> nat \<Rightarrow> string option option" where
  "zedis_btree_range tree start0 stop0 reply_cap =
     (if bt_root tree = UINT32_MAX then Some (reply_start reply_cap (''*0'' @ crlf))
      else case count_entries (btree_fuel tree) tree (bt_root tree) of
             None \<Rightarrow> None
           | Some tot \<Rightarrow>
               (let start = (if start0 < 0 then 0 else start0);
                    stop = (if stop0 < 0 \<or> stop0 \<ge> int tot then int tot - 1 else stop0)
                in if start > stop \<or> tot = 0 then Some (reply_start reply_cap (''*0'' @ crlf))
                   else case reply_start reply_cap (CHR ''*'' # show_int (stop - start + 1) @ crlf) of
                          None \<Rightarrow> Some None
                        | Some reply \<Rightarrow>
                            map_option (\<lambda>st. Some (snd st))
                              (collect_inorder (btree_fuel tree) tree (bt_root tree) start stop reply_cap (0, reply))))"

end
