(* ===== verification/BTree_Rep.thy ===== *)
theory BTree_Rep
  imports BTree "HOL-Library.Multiset"
begin

text \<open>
  The tree behind the node array. An algebraic tree records the index, the separators and the entries of
  each node; \<open>rep\<close> says that the array holds it. The lemmas follow the code's steps on the array (inserting
  into a leaf, splitting a full child, descending) and say what they do to the algebraic tree: which
  entries it holds, that it stays sorted and balanced, and how many nodes it takes.
\<close>

section \<open>Arrays\<close>

lemma length_shift_up [simp]: "length (shift_up xs n pos) = length xs"
  by (induction xs n pos rule: shift_up.induct) simp_all

lemma nth_shift_up:
  "n < length xs \<Longrightarrow> i < length xs \<Longrightarrow> shift_up xs n pos ! i = (if pos < i \<and> i \<le> n then xs ! (i - 1) else xs ! i)"
proof (induction xs n pos rule: shift_up.induct)
  case (2 xs j pos)
  show ?case
  proof (cases "Suc j > pos")
    case True
    then have "shift_up xs (Suc j) pos ! i = (if pos < i \<and> i \<le> j then xs[Suc j := xs ! j] ! (i - 1) else xs[Suc j := xs ! j] ! i)"
      using 2 by simp
    then show ?thesis using True 2(2,3) by (auto simp: nth_list_update)
  next
    case False
    then show ?thesis by auto
  qed
qed auto

text \<open>Opening a gap at \<open>pos\<close> in the first \<open>n\<close> cells of an array and filling it.\<close>

lemma take_shift_up:
  assumes "n < length xs" "pos \<le> n"
  shows "take (Suc n) ((shift_up xs n pos)[pos := v]) = take pos xs @ v # drop pos (take n xs)"
proof (rule nth_equalityI)
  show "length (take (Suc n) ((shift_up xs n pos)[pos := v])) = length (take pos xs @ v # drop pos (take n xs))"
    using assms by simp
next
  fix i
  assume "i < length (take (Suc n) ((shift_up xs n pos)[pos := v]))"
  then have i: "i < Suc n" "i < length xs" using assms by auto
  show "take (Suc n) ((shift_up xs n pos)[pos := v]) ! i = (take pos xs @ v # drop pos (take n xs)) ! i"
    using i assms by (auto simp: nth_append nth_shift_up nth_list_update nth_Cons')
qed

section \<open>Trees\<close>

datatype btr = BLf nat "(int \<times> nat) list" | BNd nat "int list" "btr list"

fun ridx :: "btr \<Rightarrow> nat" where
  "ridx (BLf i es) = i"
| "ridx (BNd i ks ts) = i"

fun root_keys :: "btr \<Rightarrow> nat" where
  "root_keys (BLf i es) = length es"
| "root_keys (BNd i ks ts) = length ks"

fun is_leaf :: "btr \<Rightarrow> bool" where
  "is_leaf (BLf i es) \<longleftrightarrow> True"
| "is_leaf (BNd i ks ts) \<longleftrightarrow> False"

fun idxs :: "btr \<Rightarrow> nat list" where
  "idxs (BLf i es) = [i]"
| "idxs (BNd i ks ts) = i # concat (map idxs ts)"

fun entries :: "btr \<Rightarrow> (int \<times> nat) list" where
  "entries (BLf i es) = es"
| "entries (BNd i ks ts) = concat (map entries ts)"

text \<open>Lists interleaved with separators, and the scores and separators of a tree from left to right.\<close>

fun weave :: "'a list list \<Rightarrow> 'a list \<Rightarrow> 'a list" where
  "weave (x # xs) (k # ks) = x @ k # weave xs ks"
| "weave xs _ = concat xs"

fun fulls :: "btr \<Rightarrow> int list" where
  "fulls (BLf i es) = map fst es"
| "fulls (BNd i ks ts) = weave (map fulls ts) ks"

fun shape :: "nat \<Rightarrow> btr \<Rightarrow> bool" where
  "shape 0 (BLf i es) \<longleftrightarrow> 1 \<le> length es \<and> length es \<le> BTREE_MAX_KEYS"
| "shape (Suc h) (BNd i ks ts) \<longleftrightarrow> 1 \<le> length ks \<and> length ks \<le> BTREE_MAX_KEYS \<and> length ts = Suc (length ks) \<and> list_all (shape h) ts"
| "shape _ _ \<longleftrightarrow> False"

text \<open>The node array holds the tree.\<close>

fun rep :: "btree_node list \<Rightarrow> btr \<Rightarrow> bool" where
  "rep ns (BLf i es) \<longleftrightarrow> i < length ns \<and> bn_is_leaf (ns ! i) \<and> bn_count (ns ! i) = length es \<and>
     take (length es) (bn_keys (ns ! i)) = map fst es \<and> take (length es) (bn_slots (ns ! i)) = map snd es"
| "rep ns (BNd i ks ts) \<longleftrightarrow> i < length ns \<and> \<not> bn_is_leaf (ns ! i) \<and> bn_count (ns ! i) = length ks \<and>
     length ts = Suc (length ks) \<and> take (length ks) (bn_keys (ns ! i)) = ks \<and>
     take (length ts) (bn_slots (ns ! i)) = map ridx ts \<and> list_all (rep ns) ts"

definition nodes_ok :: "btree_node list \<Rightarrow> bool" where
  "nodes_ok ns \<longleftrightarrow> (\<forall>n \<in> set ns. length (bn_keys n) = 3 \<and> length (bn_slots n) = 4)"

lemma nodes_okD: "nodes_ok ns \<Longrightarrow> i < length ns \<Longrightarrow> length (bn_keys (ns ! i)) = 3 \<and> length (bn_slots (ns ! i)) = 4"
  by (simp add: nodes_ok_def)

lemma nodes_ok_update:
  "nodes_ok ns \<Longrightarrow> length (bn_keys n) = 3 \<Longrightarrow> length (bn_slots n) = 4 \<Longrightarrow> nodes_ok (ns[i := n])"
  using set_update_subset_insert [of ns i n] by (auto simp: nodes_ok_def)

lemma ridx_idxs [simp]: "ridx t \<in> set (idxs t)"
  by (cases t) auto

lemma rep_bound: "rep ns t \<Longrightarrow> ridx t < length ns"
  by (cases t) auto

lemma rep_count: "rep ns t \<Longrightarrow> bn_count (ns ! ridx t) = root_keys t"
  by (cases t) auto

lemma rep_leaf: "rep ns t \<Longrightarrow> bn_is_leaf (ns ! ridx t) = is_leaf t"
  by (cases t) auto

lemma rep_idxs: "rep ns t \<Longrightarrow> i \<in> set (idxs t) \<Longrightarrow> i < length ns"
  by (induction t) (auto simp: list_all_iff)

text \<open>A tree is untouched by writes to other nodes.\<close>

lemma rep_frame:
  "rep ns t \<Longrightarrow> length ns \<le> length ns' \<Longrightarrow> (\<And>i. i \<in> set (idxs t) \<Longrightarrow> ns' ! i = ns ! i) \<Longrightarrow> rep ns' t"
  by (induction t) (auto simp: list_all_iff)

lemma rep_frame_list:
  assumes "list_all (rep ns) ts" "length ns \<le> length ns'" "\<And>i. i \<in> set (concat (map idxs ts)) \<Longrightarrow> ns' ! i = ns ! i"
  shows "list_all (rep ns') ts"
  unfolding list_all_iff
proof
  fix t
  assume "t \<in> set ts"
  then show "rep ns' t" using assms by (intro rep_frame [of ns t ns']) (auto simp: list_all_iff)
qed

lemma weave_append:
  "length xs = length ks \<Longrightarrow> weave (xs @ y # ys) (ks @ js) = concat (map2 (\<lambda>x k. x @ [k]) xs ks) @ weave (y # ys) js"
  by (induction xs ks rule: list_induct2) simp_all

lemma shape_Suc: "shape (Suc h) t \<longleftrightarrow> (\<exists>i ks ts. t = BNd i ks ts \<and> 1 \<le> length ks \<and> length ks \<le> BTREE_MAX_KEYS \<and>
    length ts = Suc (length ks) \<and> list_all (shape h) ts)"
  by (cases t) auto

lemma shape_0: "shape 0 t \<longleftrightarrow> (\<exists>i es. t = BLf i es \<and> 1 \<le> length es \<and> length es \<le> BTREE_MAX_KEYS)"
  by (cases t) auto

text \<open>Every leaf has an entry and every inner node two children, so the nodes are fewer than twice the
  entries.\<close>

lemma shape_nodes: "shape h t \<Longrightarrow> length (idxs t) + 1 \<le> 2 * length (entries t)"
proof (induction h arbitrary: t)
  case 0
  then show ?case by (auto simp: shape_0)
next
  case (Suc h)
  then obtain i ks ts where t: "t = BNd i ks ts" "1 \<le> length ks" "length ts = Suc (length ks)" "list_all (shape h) ts"
    by (auto simp: shape_Suc)
  have "list_all (shape h) us \<Longrightarrow> length (concat (map idxs us)) + length us \<le> 2 * length (concat (map entries us))" for us
    using Suc.IH by (induction us) (fastforce simp: list_all_iff)+
  from this [OF t(4)] t show ?case by simp
qed

lemma shape_height: "shape h t \<Longrightarrow> h < length (idxs t)"
proof (induction h arbitrary: t)
  case (Suc h)
  then obtain i ks c ts where t: "t = BNd i ks (c # ts)" "shape h c"
    by (auto simp: shape_Suc length_Suc_conv)
  then show ?case using Suc.IH [of c] by simp
qed (auto simp: shape_0)

lemma sorted_parts:
  "sorted (x @ y) \<Longrightarrow> set a \<subseteq> set x \<Longrightarrow> set b \<subseteq> set y \<Longrightarrow> sorted a \<Longrightarrow> sorted b \<Longrightarrow> sorted (a @ b)"
  by (auto simp: sorted_append subset_iff)

text \<open>The scores are the separators' and entries' sequence without the separators.\<close>

lemma fulls_entries: "set (map fst (entries t)) \<subseteq> set (fulls t) \<and> (sorted (fulls t) \<longrightarrow> sorted (map fst (entries t)))"
proof (induction t)
  case (BNd i ks ts)
  have "set (map fst (concat (map entries us))) \<subseteq> set (weave (map fulls us) js) \<and>
      (sorted (weave (map fulls us) js) \<longrightarrow> sorted (map fst (concat (map entries us))))" if "set us \<subseteq> set ts" for us js
    using that
  proof (induction us arbitrary: js)
    case (Cons u us)
    have u: "set (map fst (entries u)) \<subseteq> set (fulls u)" "sorted (fulls u) \<Longrightarrow> sorted (map fst (entries u))"
      using BNd.IH [of u] Cons.prems by auto
    have us: "set (map fst (concat (map entries us))) \<subseteq> set (weave (map fulls us) js')"
      "sorted (weave (map fulls us) js') \<Longrightarrow> sorted (map fst (concat (map entries us)))" for js'
      using Cons.IH [of js'] Cons.prems by auto
    obtain w where w: "weave (map fulls (u # us)) js = fulls u @ w" "set (map fst (concat (map entries us))) \<subseteq> set w"
      "sorted w \<Longrightarrow> sorted (map fst (concat (map entries us)))"
    proof (cases js)
      case Nil
      have "concat (map fulls us) = weave (map fulls us) []" by (cases us) simp_all
      then show ?thesis using that [of "weave (map fulls us) []"] Nil us [of "[]"] by simp
    next
      case (Cons j js')
      have "set (map fst (concat (map entries us))) \<subseteq> set (j # weave (map fulls us) js')" using us(1) [of js'] by auto
      then show ?thesis using that [of "j # weave (map fulls us) js'"] Cons us(2) [of js'] by simp
    qed
    have m: "map fst (concat (map entries (u # us))) = map fst (entries u) @ map fst (concat (map entries us))" by simp
    show ?case
    proof (intro conjI impI)
      show "set (map fst (concat (map entries (u # us)))) \<subseteq> set (weave (map fulls (u # us)) js)"
        unfolding m w(1) set_append using u(1) w(2) by (rule Un_mono)
      assume "sorted (weave (map fulls (u # us)) js)"
      then have s: "sorted (fulls u @ w)" unfolding w(1) .
      then have "sorted (fulls u)" "sorted w" by (simp_all add: sorted_append)
      then show "sorted (map fst (concat (map entries (u # us))))"
        unfolding m using sorted_parts [OF s u(1) w(2)] u(2) w(3) by blast
    qed
  qed simp
  from this [of ts ks] show ?case by simp
qed simp

section \<open>Inserting into a leaf\<close>

lemma cmp_score: "score_member_cmp s a k b \<le> 0 \<Longrightarrow> s \<le> k" "\<not> score_member_cmp s a k b \<le> 0 \<Longrightarrow> k \<le> s"
  by (auto simp: score_member_cmp_def Let_def split: if_splits)

lemma leaf_pos:
  "\<exists>p. leaf_pos_loop bt s ins es i = i + p \<and> p \<le> length es \<and> (\<forall>e \<in> set (take p es). fst e \<le> s) \<and>
     (p < length es \<longrightarrow> s \<le> fst (es ! p))"
proof (induction es arbitrary: i)
  case (Cons e es)
  obtain k v where e: "e = (k, v)" by (cases e)
  show ?case
  proof (cases "score_member_cmp s ins k (member_name (bt_members bt ! v)) \<le> 0")
    case True
    then show ?thesis using cmp_score(1) [OF True] e by (intro exI [of _ 0]) (simp add: Let_def)
  next
    case False
    obtain p where "leaf_pos_loop bt s ins es (i + 1) = i + 1 + p" "p \<le> length es" "\<forall>e \<in> set (take p es). fst e \<le> s"
      "p < length es \<longrightarrow> s \<le> fst (es ! p)" using Cons.IH [of "i + 1"] by blast
    then show ?thesis using cmp_score(2) [OF False] e False by (intro exI [of _ "Suc p"]) (simp add: Let_def)
  qed
qed simp

text \<open>What an insertion does to the entries and to the order.\<close>

definition inserted :: "btr \<Rightarrow> btr \<Rightarrow> int \<Rightarrow> nat \<Rightarrow> bool" where
  "inserted t t' s m \<longleftrightarrow> (\<exists>xs ys. entries t = xs @ ys \<and> entries t' = xs @ (s, m) # ys) \<and>
     sorted (fulls t') \<and> set (fulls t') \<subseteq> insert s (set (fulls t))"

text \<open>The tree lies in the first \<open>f\<close> nodes of the array, no node used twice; and what a step may do to the
  array: keep the root's index, take the nodes from \<open>f\<close> up to \<open>f'\<close>, and leave the other nodes alone.\<close>

definition holds :: "btree_node list \<Rightarrow> nat \<Rightarrow> btr \<Rightarrow> bool" where
  "holds ns f t \<longleftrightarrow> rep ns t \<and> nodes_ok ns \<and> distinct (idxs t) \<and> (\<forall>i \<in> set (idxs t). i < f)"

definition grows :: "btree_node list \<Rightarrow> nat \<Rightarrow> btr \<Rightarrow> btree_node list \<Rightarrow> nat \<Rightarrow> btr \<Rightarrow> bool" where
  "grows ns f t ns' f' t' \<longleftrightarrow> rep ns' t' \<and> ridx t' = ridx t \<and> nodes_ok ns' \<and> length ns' = length ns \<and> f \<le> f' \<and>
     distinct (idxs t') \<and> set (idxs t') = set (idxs t) \<union> {f..<f'} \<and> (\<forall>i < f. i \<notin> set (idxs t) \<longrightarrow> ns' ! i = ns ! i)"

lemma grows_holds: "grows ns f t ns' f' t' \<Longrightarrow> holds ns f t \<Longrightarrow> holds ns' f' t'"
  by (auto simp: grows_def holds_def)

lemma insert_into_leaf_spec:
  assumes H: "holds ns f (BLf i es)" and len: "length es < BTREE_MAX_KEYS" and srt: "sorted (map fst es)"
    and bt: "bt_nodes bt = ns"
  shows "\<exists>ns' es'. insert_into_leaf bt i s m = (0, bt\<lparr>bt_nodes := ns'\<rparr>) \<and> grows ns f (BLf i es) ns' f (BLf i es') \<and>
    length es' = Suc (length es) \<and> inserted (BLf i es) (BLf i es') s m"
proof -
  let ?n = "ns ! i"
  have R: "i < length ns" "bn_is_leaf ?n" "bn_count ?n = length es" "take (length es) (bn_keys ?n) = map fst es"
    "take (length es) (bn_slots ?n) = map snd es" "length (bn_keys ?n) = 3" "length (bn_slots ?n) = 4"
    using H nodes_okD [of ns i] by (simp_all add: holds_def)
  have z: "zip (take (length es) (bn_keys ?n)) (take (length es) (bn_slots ?n)) = es"
    using R by (simp add: zip_map_fst_snd)
  obtain p where p: "leaf_find_pos bt ?n s m = p" "p \<le> length es" "\<forall>e \<in> set (take p es). fst e \<le> s"
    "p < length es \<longrightarrow> s \<le> fst (es ! p)"
    using leaf_pos [of bt s "bt_members bt ! m" es 0] z R by (auto simp: leaf_find_pos_def)
  let ?es = "take p es @ (s, m) # drop p es" and ?n' = "leaf_insert_at ?n p s m"
  have t: "take p (take n xs) = take p xs" if "p \<le> n" for n and xs :: "'x list" using that by (simp add: min_absorb1)
  have k: "take (Suc (length es)) (bn_keys ?n') = map fst ?es"
    using take_shift_up [of "length es" "bn_keys ?n" p s] R p(2) len t [of "length es" "bn_keys ?n"]
    by (simp add: leaf_insert_at_def BTREE_MAX_KEYS_def take_map drop_map)
  have v: "take (Suc (length es)) (bn_slots ?n') = map snd ?es"
    using take_shift_up [of "length es" "bn_slots ?n" p m] R p(2) len t [of "length es" "bn_slots ?n"]
    by (simp add: leaf_insert_at_def BTREE_MAX_KEYS_def take_map drop_map)
  have g: "grows ns f (BLf i es) (ns[i := ?n']) f (BLf i ?es)"
    using R k v H p(2) nodes_ok_update [of ns ?n' i]
    by (auto simp: grows_def holds_def leaf_insert_at_def)
  have d: "\<forall>e \<in> set (drop p es). s \<le> fst e"
  proof
    fix e
    assume e: "e \<in> set (drop p es)"
    then have lt: "p < length es" by (cases "p < length es") auto
    then have "drop p es = es ! p # drop (Suc p) es" by (simp add: Cons_nth_drop_Suc)
    moreover have "sorted (map fst (drop p es))" using srt sorted_wrt_drop by (simp add: drop_map [symmetric])
    ultimately have "fst (es ! p) \<le> fst e" using e by auto
    then show "s \<le> fst e" using p(4) lt by simp
  qed
  have "sorted (map fst (take p es @ drop p es))" using srt by simp
  then have "sorted (map fst (take p es))" "sorted (map fst (drop p es))" "\<forall>x \<in> set (take p es). \<forall>y \<in> set (drop p es). fst x \<le> fst y"
    unfolding map_append sorted_append by auto
  then have "sorted (map fst ?es)" using p(3) d by (auto simp: sorted_append)
  moreover have "set (map fst ?es) \<subseteq> insert s (set (map fst es))" by (auto dest: in_set_takeD in_set_dropD)
  ultimately have "inserted (BLf i es) (BLf i ?es) s m"
    unfolding inserted_def by (intro conjI exI [of _ "take p es"] exI [of _ "drop p es"]) simp_all
  moreover have "insert_into_leaf bt i s m = (0, bt\<lparr>bt_nodes := ns[i := ?n']\<rparr>)"
    using bt p(1) by (simp add: insert_into_leaf_def Let_def)
  ultimately show ?thesis using g p(2) by (intro exI [of _ "ns[i := ?n']"] exI [of _ ?es]) simp
qed

section \<open>Splitting a full node\<close>

definition split_child :: "zedis_btree \<Rightarrow> nat \<Rightarrow> nat \<times> int \<times> zedis_btree" where
  "split_child bt i = (if bn_is_leaf (bt_nodes bt ! i) then split_leaf bt i else split_internal bt i)"

definition is_split :: "btree_node list \<Rightarrow> nat \<Rightarrow> nat \<Rightarrow> btr \<Rightarrow> btree_node list \<Rightarrow> btr \<Rightarrow> int \<Rightarrow> btr \<Rightarrow> bool" where
  "is_split ns f h c ns' l p r \<longleftrightarrow>
     rep ns' l \<and> rep ns' r \<and> ridx l = ridx c \<and> ridx r = f \<and> nodes_ok ns' \<and> length ns' = length ns \<and>
     (\<forall>i. i \<noteq> f \<longrightarrow> i \<noteq> ridx c \<longrightarrow> ns' ! i = ns ! i) \<and>
     mset (idxs l @ idxs r) = add_mset f (mset (idxs c)) \<and>
     shape h l \<and> shape h r \<and> root_keys l < BTREE_MAX_KEYS \<and> root_keys r < BTREE_MAX_KEYS \<and>
     entries l @ entries r = entries c \<and>
     (sorted (fulls c) \<longrightarrow> sorted (fulls l @ p # fulls r)) \<and> set (fulls l @ p # fulls r) \<subseteq> set (fulls c)"

lemma length_3: "length xs = 3 \<Longrightarrow> \<exists>a b c. xs = [a, b, c]"
  by (auto simp: numeral_3_eq_3 length_Suc_conv)

lemma length_4: "length xs = 4 \<Longrightarrow> \<exists>a b c d. xs = [a, b, c, d]"
  by (auto simp: numeral_eq_Suc length_Suc_conv)

lemma alloc_node_ok:
  assumes "bt_free_node bt = f" "f < bt_max_nodes bt"
  shows "alloc_node bt = (f, bt\<lparr>bt_free_node := f + 1\<rparr>)"
  using assms by (simp add: alloc_node_def)

lemma split_leaf_spec:
  assumes H: "holds ns f (BLf j es)" and len: "length es = BTREE_MAX_KEYS"
    and bt: "bt_nodes bt = ns" "bt_free_node bt = f" "f < bt_max_nodes bt" "bt_max_nodes bt = length ns" "length ns < UINT32_MAX"
  shows "\<exists>ns' l p r. split_leaf bt j = (f, p, bt\<lparr>bt_nodes := ns', bt_free_node := f + 1\<rparr>) \<and> is_split ns f 0 (BLf j es) ns' l p r"
proof -
  obtain e0 e1 e2 where es: "es = [e0, e1, e2]" using length_3 [of es] len by (auto simp: BTREE_MAX_KEYS_def)
  have R: "j < length ns" "j < f" "f < length ns" "bn_is_leaf (ns ! j)" "bn_count (ns ! j) = 3"
    "take 3 (bn_keys (ns ! j)) = map fst es" "take 3 (bn_slots (ns ! j)) = map snd es"
    "length (bn_keys (ns ! j)) = 3" "length (bn_slots (ns ! j)) = 4"
    using H nodes_okD [of ns j] bt es by (simp_all add: holds_def numeral_3_eq_3)
  obtain x where k: "bn_keys (ns ! j) = [fst e0, fst e1, fst e2]" "bn_slots (ns ! j) = [snd e0, snd e1, snd e2, x]"
    using R(6-9) length_4 [OF R(9)] es by auto
  let ?r = "node_zero\<lparr>bn_is_leaf := True, bn_count := 1, bn_keys := [fst e2, 0, 0], bn_slots := [snd e2, 0, 0, 0]\<rparr>"
  let ?ns = "ns[f := ?r, j := (ns ! j)\<lparr>bn_count := 2\<rparr>]"
  have "split_leaf bt j = (f, fst e2, bt\<lparr>bt_nodes := ?ns, bt_free_node := f + 1\<rparr>)"
    using bt R(1-5) k alloc_node_ok [OF bt(2,3)] by (simp add: split_leaf_def Let_def node_zero_def write_at_def)
  moreover have "is_split ns f 0 (BLf j es) ?ns (BLf j [e0, e1]) (fst e2) (BLf f [e2])"
    using R k es H nodes_ok_update [of "ns[f := ?r]" "(ns ! j)\<lparr>bn_count := 2\<rparr>" j] nodes_ok_update [of ns ?r f]
    by (auto simp: is_split_def holds_def node_zero_def BTREE_MAX_KEYS_def)
  ultimately show ?thesis by blast
qed

lemma split_internal_spec:
  assumes H: "holds ns f (BNd j ks ts)" and sh: "shape (Suc h) (BNd j ks ts)" and len: "length ks = BTREE_MAX_KEYS"
    and bt: "bt_nodes bt = ns" "bt_free_node bt = f" "f < bt_max_nodes bt" "bt_max_nodes bt = length ns" "length ns < UINT32_MAX"
  shows "\<exists>ns' l p r. split_internal bt j = (f, p, bt\<lparr>bt_nodes := ns', bt_free_node := f + 1\<rparr>) \<and>
    is_split ns f (Suc h) (BNd j ks ts) ns' l p r"
proof -
  obtain k0 k1 k2 where ks: "ks = [k0, k1, k2]" using length_3 [of ks] len by (auto simp: BTREE_MAX_KEYS_def)
  have "length ts = 4" using sh ks by simp
  then obtain t0 t1 t2 t3 where ts: "ts = [t0, t1, t2, t3]" using length_4 by metis
  have R: "j < length ns" "j < f" "f < length ns" "\<not> bn_is_leaf (ns ! j)" "bn_count (ns ! j) = 3"
    "take 3 (bn_keys (ns ! j)) = ks" "take 4 (bn_slots (ns ! j)) = map ridx ts" "list_all (rep ns) ts"
    "length (bn_keys (ns ! j)) = 3" "length (bn_slots (ns ! j)) = 4"
    using H nodes_okD [of ns j] bt ks ts by (simp_all add: holds_def numeral_eq_Suc)
  have k: "bn_keys (ns ! j) = [k0, k1, k2]" "bn_slots (ns ! j) = [ridx t0, ridx t1, ridx t2, ridx t3]"
    using R(6,7,9,10) ks ts by simp_all
  let ?r = "node_zero\<lparr>bn_count := 1, bn_keys := [k2, 0, 0], bn_slots := [ridx t2, ridx t3, 0, 0]\<rparr>"
  let ?ns = "ns[f := ?r, j := (ns ! j)\<lparr>bn_count := 1\<rparr>]"
  have "split_internal bt j = (f, k1, bt\<lparr>bt_nodes := ?ns, bt_free_node := f + 1\<rparr>)"
    using bt R(1-5) k alloc_node_ok [OF bt(2,3)]
    by (simp add: split_internal_def Let_def node_zero_def write_at_def BTREE_MAX_KEYS_def)
  moreover have "is_split ns f (Suc h) (BNd j ks ts) ?ns (BNd j [k0] [t0, t1]) k1 (BNd f [k2] [t2, t3])"
  proof -
    have fr: "?ns ! i = ns ! i" if "i \<in> set (concat (map idxs ts))" for i
    proof -
      have "i \<noteq> f" "i \<noteq> j" using that H by (auto simp: holds_def)
      then show ?thesis by simp
    qed
    have reps: "list_all (rep ?ns) ts" using R(8) by (rule rep_frame_list) (simp, rule fr)
    have ok: "nodes_ok ?ns"
      using H k nodes_ok_update [of "ns[f := ?r]" "(ns ! j)\<lparr>bn_count := 1\<rparr>" j] nodes_ok_update [of ns ?r f]
      by (simp add: holds_def)
    show ?thesis using R k ks ts H sh reps ok by (simp add: is_split_def node_zero_def BTREE_MAX_KEYS_def)
  qed
  ultimately show ?thesis by blast
qed

lemma split_child_spec:
  assumes H: "holds ns f c" and sh: "shape h c" and len: "root_keys c = BTREE_MAX_KEYS"
    and bt: "bt_nodes bt = ns" "bt_free_node bt = f" "f < bt_max_nodes bt" "bt_max_nodes bt = length ns" "length ns < UINT32_MAX"
  shows "\<exists>ns' l p r. split_child bt (ridx c) = (f, p, bt\<lparr>bt_nodes := ns', bt_free_node := f + 1\<rparr>) \<and> is_split ns f h c ns' l p r"
proof (cases h)
  case 0
  then obtain j es where c: "c = BLf j es" using sh by (auto simp: shape_0)
  then show ?thesis
    using split_leaf_spec [OF H [unfolded c] _ bt] len 0 H bt(1) by (simp add: split_child_def holds_def)
next
  case (Suc h')
  then obtain j ks ts where c: "c = BNd j ks ts" using sh by (auto simp: shape_Suc)
  then show ?thesis
    using split_internal_spec [OF H [unfolded c] _ _ bt, of h'] sh len Suc H bt(1) by (simp add: split_child_def holds_def)
qed

end
