(* ===== verification/BTree_Insert.thy ===== *)
theory BTree_Insert
  imports BTree_Rep
begin

text \<open>
  The descent of \<open>insert_nonfull\<close>: the child that takes the new entry is split when it is full, and
  replacing one child of a node by its result gives the result for the node.
\<close>

section \<open>A node seen from one of its children\<close>

definition before :: "btr list \<Rightarrow> int list \<Rightarrow> int list" where
  "before ts ks = concat (map2 (\<lambda>x k. x @ [k]) (map fulls ts) ks)"

fun after :: "int list \<Rightarrow> btr list \<Rightarrow> int list" where
  "after [] ts = concat (map fulls ts)"
| "after (k # ks) ts = k # weave (map fulls ts) ks"

lemma fulls_focus:
  assumes "length ts1 = length ks1"
  shows "fulls (BNd i (ks1 @ ks2) (ts1 @ c # ts2)) = before ts1 ks1 @ fulls c @ after ks2 ts2"
  using assms weave_append [of "map fulls ts1" ks1 "fulls c" "map fulls ts2" ks2]
  by (cases ks2) (simp_all add: before_def)

lemma before_le:
  assumes "length ts = length ks" "sorted (before ts ks)" "\<forall>k \<in> set ks. k \<le> s"
  shows "\<forall>x \<in> set (before ts ks). x \<le> s"
  using assms by (induction ts ks rule: list_induct2) (fastforce simp: before_def sorted_append)+

lemma after_ge:
  assumes "sorted (after ks ts)" "ks \<noteq> [] \<Longrightarrow> s \<le> hd ks" "ks = [] \<Longrightarrow> ts = []"
  shows "\<forall>x \<in> set (after ks ts). s \<le> x"
  using assms by (cases ks) auto

lemma before_snoc: "length ts = length ks \<Longrightarrow> before (ts @ [t]) (ks @ [k]) = before ts ks @ fulls t @ [k]"
  by (simp add: before_def)

lemma after_split: "after (p # ks) (r # ts) = p # fulls r @ after ks ts"
  by (cases ks) simp_all

lemma sorted_replace:
  assumes "sorted (A @ B @ C)" "sorted B'" "set B' \<subseteq> set B"
  shows "sorted (A @ B' @ C)"
  using assms by (auto simp: sorted_append subset_iff)

lemma sorted_replace_insert:
  assumes "sorted (A @ B @ C)" "sorted B'" "set B' \<subseteq> insert s (set B)" "\<forall>x \<in> set A. x \<le> s" "\<forall>x \<in> set C. s \<le> x"
  shows "sorted (A @ B' @ C)"
  using assms unfolding sorted_append by (auto simp: subset_iff)

lemma inserted_focus:
  assumes ins: "inserted c c' s m" and len: "length ts1 = length ks1"
    and srt: "sorted (fulls (BNd i (ks1 @ ks2) (ts1 @ c # ts2)))"
    and le: "\<forall>x \<in> set (before ts1 ks1). x \<le> s" and ge: "\<forall>x \<in> set (after ks2 ts2). s \<le> x"
  shows "inserted (BNd i (ks1 @ ks2) (ts1 @ c # ts2)) (BNd i (ks1 @ ks2) (ts1 @ c' # ts2)) s m"
proof -
  obtain xs ys where e: "entries c = xs @ ys" "entries c' = xs @ (s, m) # ys"
    and c': "sorted (fulls c')" "set (fulls c') \<subseteq> insert s (set (fulls c))"
    using ins by (auto simp: inserted_def)
  let ?xs = "concat (map entries ts1) @ xs" and ?ys = "ys @ concat (map entries ts2)"
  have "entries (BNd i (ks1 @ ks2) (ts1 @ c # ts2)) = ?xs @ ?ys"
    "entries (BNd i (ks1 @ ks2) (ts1 @ c' # ts2)) = ?xs @ (s, m) # ?ys"
    using e by simp_all
  moreover have "sorted (before ts1 ks1 @ fulls c' @ after ks2 ts2)"
    using sorted_replace_insert [OF _ c' le ge] srt fulls_focus [OF len] by simp
  ultimately show ?thesis
    unfolding inserted_def fulls_focus [OF len] using c'(2) by (intro conjI exI [of _ ?xs] exI [of _ ?ys]) auto
qed

text \<open>Replacing one child by what became of it.\<close>

lemma graft:
  assumes H: "holds ns f (BNd i ks (ts1 @ c # ts2))" and G: "grows ns f c ns' f' c'"
  shows "grows ns f (BNd i ks (ts1 @ c # ts2)) ns' f' (BNd i ks (ts1 @ c' # ts2))"
proof -
  let ?o = "concat (map idxs ts1) @ concat (map idxs ts2)"
  have H': "rep ns (BNd i ks (ts1 @ c # ts2))" "distinct (i # ?o)" "distinct (idxs c)"
    "set (i # ?o) \<inter> set (idxs c) = {}" "\<forall>j \<in> set (i # ?o). j < f"
    using H by (auto simp: holds_def)
  have G': "rep ns' c'" "ridx c' = ridx c" "nodes_ok ns'" "length ns' = length ns" "f \<le> f'" "distinct (idxs c')"
    "set (idxs c') = set (idxs c) \<union> {f..<f'}" "\<And>j. j < f \<Longrightarrow> j \<notin> set (idxs c) \<Longrightarrow> ns' ! j = ns ! j"
    using G by (auto simp: grows_def)
  have fr: "ns' ! j = ns ! j" if "j \<in> set (i # ?o)" for j
  proof (rule G'(8))
    show "j < f" using that H'(5) by blast
    show "j \<notin> set (idxs c)" using that H'(4) by blast
  qed
  have r: "list_all (rep ns') ts1" "list_all (rep ns') ts2"
    using H'(1) G'(4) by (auto intro!: rep_frame_list [of ns] fr)
  have "rep ns' (BNd i ks (ts1 @ c' # ts2))"
    using H'(1) r G'(1,2,4) fr [of i] by auto
  moreover have "distinct (idxs (BNd i ks (ts1 @ c' # ts2)))"
  proof -
    have "set (i # ?o) \<inter> set (idxs c') = {}" using H'(4,5) G'(7) by fastforce
    then show ?thesis using H'(2) G'(6) by auto
  qed
  moreover have "set (idxs (BNd i ks (ts1 @ c' # ts2))) = set (idxs (BNd i ks (ts1 @ c # ts2))) \<union> {f..<f'}"
    using G'(7) by auto
  moreover have "\<forall>j < f. j \<notin> set (idxs (BNd i ks (ts1 @ c # ts2))) \<longrightarrow> ns' ! j = ns ! j"
    using G'(8) by auto
  ultimately show ?thesis using G'(3,4,5) by (simp add: grows_def del: rep.simps idxs.simps)
qed

text \<open>A child never has more room than its parent, and a full node has room for a split.\<close>

lemma shape_list: "list_all (shape h) us \<Longrightarrow> length (concat (map idxs us)) + length us \<le> 2 * length (concat (map entries us))"
  by (induction us) (use shape_nodes in fastforce)+

lemma slack_child:
  assumes "shape (Suc h) (BNd i ks (ts1 @ c # ts2))"
  shows "2 * length (entries c) + length (idxs (BNd i ks (ts1 @ c # ts2))) \<le>
    2 * length (entries (BNd i ks (ts1 @ c # ts2))) + length (idxs c)"
  using assms shape_list [of h ts1] shape_list [of h ts2] by simp

lemma full_slack:
  assumes "shape h c" "root_keys c = BTREE_MAX_KEYS"
  shows "length (idxs c) + 3 \<le> 2 * length (entries c)"
proof (cases h)
  case 0
  then show ?thesis using assms by (auto simp: shape_0 BTREE_MAX_KEYS_def)
next
  case (Suc h')
  then obtain i ks ts where c: "c = BNd i ks ts" "list_all (shape h') ts" "length ts = 4"
    using assms by (auto simp: shape_Suc BTREE_MAX_KEYS_def)
  then show ?thesis using shape_list [OF c(2)] by simp
qed

section \<open>Splitting a child of a node\<close>

lemma add_child_rep:
  fixes p :: int
  assumes P: "rep ns (BNd i (ks1 @ ks2) (ts1 @ c # ts2))" and ok: "nodes_ok ns" and len: "length ts1 = length ks1"
    and room: "length (ks1 @ ks2) < BTREE_MAX_KEYS"
    and ns': "length ns' = length ns" and ts: "list_all (rep ns') (ts1 @ l # r # ts2)"
    and notin: "i \<notin> set (concat (map idxs (ts1 @ l # r # ts2)))" and ridx: "ridx l = ridx c"
  defines "n' \<equiv> add_child (ns ! i) (length ks1) p (ridx r)"
  shows "rep (ns'[i := n']) (BNd i (ks1 @ p # ks2) (ts1 @ l # r # ts2)) \<and> length (bn_keys n') = 3 \<and> length (bn_slots n') = 4"
proof -
  let ?n = "ns ! i"
  have R: "i < length ns" "\<not> bn_is_leaf ?n" "bn_count ?n = length (ks1 @ ks2)" "length ts2 = length ks2"
    "take (length (ks1 @ ks2)) (bn_keys ?n) = ks1 @ ks2" "take (Suc (length (ks1 @ ks2))) (bn_slots ?n) = map ridx (ts1 @ c # ts2)"
    "length (bn_keys ?n) = 3" "length (bn_slots ?n) = 4"
    using P len nodes_okD [OF ok] by auto
  have t: "take a (take b xs) = take a xs" if "a \<le> b" for a b and xs :: "'x list" using that by (simp add: min_absorb1)
  have "take (Suc (length (ks1 @ ks2))) (bn_keys n') = take (length ks1) (bn_keys ?n) @ p # drop (length ks1) (take (length (ks1 @ ks2)) (bn_keys ?n))"
    using take_shift_up [of "length (ks1 @ ks2)" "bn_keys ?n" "length ks1" p] R(3,7) room
    by (simp add: n'_def add_child_def BTREE_MAX_KEYS_def)
  also have "take (length ks1) (bn_keys ?n) = ks1"
    using arg_cong [OF R(5), of "take (length ks1)"] t [of "length ks1" "length (ks1 @ ks2)" "bn_keys ?n"] by simp
  finally have k: "take (Suc (length (ks1 @ ks2))) (bn_keys n') = ks1 @ p # ks2" unfolding R(5) by simp
  have "take (Suc (Suc (length (ks1 @ ks2)))) (bn_slots n') =
      take (Suc (length ks1)) (bn_slots ?n) @ ridx r # drop (Suc (length ks1)) (take (Suc (length (ks1 @ ks2))) (bn_slots ?n))"
    using take_shift_up [of "Suc (length (ks1 @ ks2))" "bn_slots ?n" "Suc (length ks1)" "ridx r"] R(3,8) room
    by (simp add: n'_def add_child_def BTREE_MAX_KEYS_def)
  also have "take (Suc (length ks1)) (bn_slots ?n) = map ridx (ts1 @ [c])"
    using arg_cong [OF R(6), of "take (Suc (length ks1))"] t [of "Suc (length ks1)" "Suc (length (ks1 @ ks2))" "bn_slots ?n"] len by simp
  finally have v: "take (Suc (Suc (length (ks1 @ ks2)))) (bn_slots n') = map ridx (ts1 @ l # r # ts2)"
    unfolding R(6) using len ridx by simp
  have "ns'[i := n'] ! j = ns' ! j" if "j \<in> set (concat (map idxs (ts1 @ l # r # ts2)))" for j
    using that notin by (cases "i = j") (blast, simp)
  then have "list_all (rep (ns'[i := n'])) (ts1 @ l # r # ts2)" by (intro rep_frame_list [OF ts]) simp_all
  then show ?thesis using R k v len ns' by (auto simp: n'_def add_child_def)
qed

text \<open>The state after splitting the full child \<open>c\<close>: the same entries, one more node, still sorted and balanced.\<close>

lemma split_step:
  assumes H: "holds ns f (BNd i (ks1 @ ks2) (ts1 @ c # ts2))" and sh: "shape (Suc h) (BNd i (ks1 @ ks2) (ts1 @ c # ts2))"
    and len: "length ts1 = length ks1" and room: "length (ks1 @ ks2) < BTREE_MAX_KEYS"
    and srt: "sorted (fulls (BNd i (ks1 @ ks2) (ts1 @ c # ts2)))" and sp: "is_split ns f h c ns1 l p r" and f: "f < length ns"
  defines "t \<equiv> BNd i (ks1 @ ks2) (ts1 @ c # ts2)" and "t1 \<equiv> BNd i (ks1 @ p # ks2) (ts1 @ l # r # ts2)"
    and "ns2 \<equiv> ns1[i := add_child (ns ! i) (length ks1) p f]"
  shows "holds ns2 (f + 1) t1" "shape (Suc h) t1" "entries t1 = entries t" "length (idxs t1) = Suc (length (idxs t))"
    "sorted (fulls t1)" "set (fulls t1) \<subseteq> set (fulls t)" "set (idxs t1) = insert f (set (idxs t))" "length ns2 = length ns"
    "\<forall>j < f. j \<notin> set (idxs t) \<longrightarrow> ns2 ! j = ns ! j"
proof -
  let ?o = "concat (map idxs ts1) @ concat (map idxs ts2)"
  have S: "rep ns1 l" "rep ns1 r" "ridx l = ridx c" "ridx r = f" "nodes_ok ns1" "length ns1 = length ns"
    "\<And>j. j \<noteq> f \<Longrightarrow> j \<noteq> ridx c \<Longrightarrow> ns1 ! j = ns ! j" "mset (idxs l @ idxs r) = add_mset f (mset (idxs c))"
    "shape h l" "shape h r" "entries l @ entries r = entries c"
    "sorted (fulls c) \<Longrightarrow> sorted (fulls l @ p # fulls r)" "set (fulls l @ p # fulls r) \<subseteq> set (fulls c)"
    using sp unfolding is_split_def by blast+
  have H': "rep ns t" "nodes_ok ns" "distinct (i # ?o @ idxs c)" "\<forall>j \<in> set (i # ?o @ idxs c). j < f"
    using H by (auto simp: holds_def t_def)
  have sets: "set (idxs l @ idxs r) = insert f (set (idxs c))" using arg_cong [OF S(8), of set_mset] by simp
  have ms: "mset (idxs t1) = add_mset f (mset (idxs t))" using S(8) by (simp add: t_def t1_def ac_simps)
  have fnot: "f \<notin> set (idxs t)" using H'(4) by (auto simp: t_def)
  have d1: "distinct (idxs t1)"
  proof -
    have "distinct (f # idxs t)" using fnot H by (simp add: holds_def t_def)
    moreover have "mset (f # idxs t) = mset (idxs t1)" using ms by simp
    ultimately show ?thesis by (metis mset_eq_imp_distinct_iff)
  qed
  have fr: "ns1 ! j = ns ! j" if "j \<in> set (i # ?o)" for j
  proof (rule S(7))
    show "j \<noteq> f" using that H'(4) by auto
    have "ridx c \<in> set (idxs c)" by simp
    then show "j \<noteq> ridx c" using that H'(3) by auto
  qed
  have reps: "list_all (rep ns1) (ts1 @ l # r # ts2)"
  proof -
    have "list_all (rep ns) ts1" "list_all (rep ns) ts2" using H'(1) by (simp_all add: t_def)
    then have "list_all (rep ns1) ts1" "list_all (rep ns1) ts2"
      using S(6) by (auto intro!: rep_frame_list [of ns] fr)
    then show ?thesis using S(1,2) by simp
  qed
  have notin: "i \<notin> set (concat (map idxs (ts1 @ l # r # ts2)))" using d1 by (simp add: t1_def)
  note A = add_child_rep [OF H'(1) [unfolded t_def] H'(2) len room S(6) reps notin S(3), where p = p, unfolded S(4)]
  show "length ns2 = length ns" using S(6) by (simp add: ns2_def)
  show st: "set (idxs t1) = insert f (set (idxs t))" using arg_cong [OF ms, of set_mset] by simp
  have "\<forall>j \<in> set (idxs t). j < f" using H by (simp add: holds_def t_def)
  then have "\<forall>j \<in> set (idxs t1). j < f + 1" unfolding st by auto
  then show "holds ns2 (f + 1) t1"
    using A d1 nodes_ok_update [OF S(5)] unfolding holds_def t1_def ns2_def by blast
  show "shape (Suc h) t1" using sh S(9,10) room by (auto simp: t1_def)
  show "entries t1 = entries t" using S(11) by (simp add: t_def t1_def)
  show "length (idxs t1) = Suc (length (idxs t))" using arg_cong [OF ms, of size] by simp
  have full: "fulls t = before ts1 ks1 @ fulls c @ after ks2 ts2"
    "fulls t1 = before ts1 ks1 @ (fulls l @ p # fulls r) @ after ks2 ts2"
    using fulls_focus [OF len, of i ks2 c ts2] fulls_focus [OF len, of i "p # ks2" l "r # ts2"] after_split [of p ks2 r ts2]
    by (simp_all add: t_def t1_def)
  have sA: "sorted (before ts1 ks1 @ fulls c @ after ks2 ts2)" using srt full(1) unfolding t_def by metis
  then have "sorted (fulls c)" by (simp add: sorted_append)
  then show "sorted (fulls t1)" unfolding full(2) using sorted_replace [OF sA] S(12,13) by blast
  show "set (fulls t1) \<subseteq> set (fulls t)" unfolding full set_append using S(13) by auto
  show "\<forall>j < f. j \<notin> set (idxs t) \<longrightarrow> ns2 ! j = ns ! j"
  proof (intro allI impI)
    fix j
    assume j: "j < f" "j \<notin> set (idxs t)"
    have "ridx c \<in> set (idxs t)" "i \<in> set (idxs t)" using ridx_idxs [of c] by (auto simp: t_def)
    then have "j \<noteq> ridx c" "i \<noteq> j" using j by blast+
    then show "ns2 ! j = ns ! j" using S(7) [of j] j by (simp add: ns2_def)
  qed
qed

section \<open>The descent\<close>

text \<open>The array has a node for every entry that could still need one.\<close>

definition roomy :: "btree_node list \<Rightarrow> nat \<Rightarrow> btr \<Rightarrow> bool" where
  "roomy ns f t \<longleftrightarrow> f \<le> length ns \<and> f + 2 * length (entries t) \<le> length ns + length (idxs t) + 1"

text \<open>The array, the free index and the limits of a tree record.\<close>

definition over :: "zedis_btree \<Rightarrow> btree_node list \<Rightarrow> nat \<Rightarrow> bool" where
  "over bt ns f \<longleftrightarrow> bt_nodes bt = ns \<and> bt_free_node bt = f \<and> bt_max_nodes bt = length ns \<and> length ns < UINT32_MAX"

text \<open>The result of an insertion below \<open>t\<close>.\<close>

definition result :: "zedis_btree \<Rightarrow> btree_node list \<Rightarrow> nat \<Rightarrow> nat \<Rightarrow> btr \<Rightarrow> int \<Rightarrow> nat \<Rightarrow> (int \<times> zedis_btree) option \<Rightarrow> bool" where
  "result bt ns f h t s m r \<longleftrightarrow> (\<exists>ns' f' t'. r = Some (0, bt\<lparr>bt_nodes := ns', bt_free_node := f'\<rparr>) \<and>
     grows ns f t ns' f' t' \<and> shape h t' \<and> inserted t t' s m)"

text \<open>One level: the child with index \<open>length ts1\<close> has room and takes the entry.\<close>

lemma result_focus:
  assumes H: "holds ns f (BNd i (ks1 @ ks2) (ts1 @ c # ts2))" and sh: "shape (Suc h) (BNd i (ks1 @ ks2) (ts1 @ c # ts2))"
    and len: "length ts1 = length ks1" and srt: "sorted (fulls (BNd i (ks1 @ ks2) (ts1 @ c # ts2)))"
    and le: "\<forall>k \<in> set ks1. k \<le> s" and ge: "ks2 \<noteq> [] \<Longrightarrow> s \<le> hd ks2" and res: "result bt ns f h c s m r"
  shows "result bt ns f (Suc h) (BNd i (ks1 @ ks2) (ts1 @ c # ts2)) s m r"
proof -
  obtain ns' f' c' where r: "r = Some (0, bt\<lparr>bt_nodes := ns', bt_free_node := f'\<rparr>)" "grows ns f c ns' f' c'" "shape h c'" "inserted c c' s m"
    using res by (auto simp: result_def)
  have s: "sorted (before ts1 ks1)" "sorted (after ks2 ts2)"
    using srt fulls_focus [OF len] by (metis sorted_append)+
  have e: "ks2 = [] \<Longrightarrow> ts2 = []" using sh len by simp
  have "inserted (BNd i (ks1 @ ks2) (ts1 @ c # ts2)) (BNd i (ks1 @ ks2) (ts1 @ c' # ts2)) s m"
    by (rule inserted_focus [OF r(4) len srt before_le [OF len s(1) le] after_ge [OF s(2) ge e]])
  moreover have "shape (Suc h) (BNd i (ks1 @ ks2) (ts1 @ c' # ts2))" using sh r(3) by simp
  ultimately show ?thesis unfolding result_def using r(1) graft [OF H r(2)] by blast
qed

text \<open>An insertion into the tree after a split is an insertion into the tree before it.\<close>

lemma result_after_split:
  assumes "result bt1 ns1 (f + 1) h t1 s m r" "bt1 = bt\<lparr>bt_nodes := ns1, bt_free_node := f + 1\<rparr>"
    and "entries t1 = entries t" "set (fulls t1) \<subseteq> set (fulls t)" "set (idxs t1) = insert f (set (idxs t))"
    and "length ns1 = length ns" "\<forall>j < f. j \<notin> set (idxs t) \<longrightarrow> ns1 ! j = ns ! j" "ridx t1 = ridx t"
  shows "result bt ns f h t s m r"
proof -
  obtain ns' f' t' where r: "r = Some (0, bt1\<lparr>bt_nodes := ns', bt_free_node := f'\<rparr>)" and g: "grows ns1 (f + 1) t1 ns' f' t'"
    and sh: "shape h t'" and ins: "inserted t1 t' s m"
    using assms(1) by (auto simp: result_def)
  have "grows ns f t ns' f' t'" using g assms(5-8) unfolding grows_def by auto
  moreover have "inserted t t' s m" using ins assms(3,4) by (auto simp: inserted_def)
  ultimately show ?thesis using r sh assms(2) by (auto simp: result_def)
qed

lemma roomy_child:
  assumes "shape (Suc h) (BNd i ks (ts1 @ c # ts2))" "roomy ns f (BNd i ks (ts1 @ c # ts2))"
  shows "roomy ns f c"
  using slack_child [OF assms(1)] assms(2) unfolding roomy_def by linarith

lemma holds_child: "holds ns f (BNd i ks (ts1 @ c # ts2)) \<Longrightarrow> holds ns f c"
  by (auto simp: holds_def)

lemma sorted_child: "length ts1 = length ks1 \<Longrightarrow> sorted (fulls (BNd i (ks1 @ ks2) (ts1 @ c # ts2))) \<Longrightarrow> sorted (fulls c)"
  by (metis fulls_focus sorted_append)

lemma update_swap: "bt\<lparr>bt_free_node := f, bt_nodes := ns\<rparr> = bt\<lparr>bt_nodes := ns, bt_free_node := f\<rparr>"
  by (cases bt) simp

lemma insert_nonfull_node:
  assumes "\<not> bn_is_leaf (bt_nodes bt ! i)" "child_index (bt_nodes bt ! i) s = k" "bn_slots (bt_nodes bt ! i) ! k = c"
  shows "insert_nonfull (Suc fuel) bt i s m =
    (if bn_count (bt_nodes bt ! c) \<ge> BTREE_MAX_KEYS then
       (case split_child bt c of (sibling, promoted, tree) \<Rightarrow>
          if sibling = UINT32_MAX then Some (-1, tree)
          else insert_nonfull fuel (tree\<lparr>bt_nodes := (bt_nodes tree)[i := add_child (bt_nodes bt ! i) k promoted sibling]\<rparr>)
                 (if s \<ge> promoted then sibling else c) s m)
     else insert_nonfull fuel bt c s m)"
  unfolding insert_nonfull.simps Let_def assms(2,3) split_child_def using assms(1) by simp

lemma insert_nonfull_spec:
  assumes "shape h t" "root_keys t < BTREE_MAX_KEYS" "holds ns f t" "sorted (fulls t)" "roomy ns f t" "over bt ns f" "h < fuel"
  shows "result bt ns f h t s m (insert_nonfull fuel bt (ridx t) s m)"
  using assms
proof (induction h arbitrary: t ns f bt fuel)
  case 0
  obtain fuel' where fuel: "fuel = Suc fuel'" using 0 by (cases fuel) auto
  obtain i es where t: "t = BLf i es" using 0 by (auto simp: shape_0)
  have "bn_is_leaf (ns ! i)" "bt_nodes bt = ns" "bt_free_node bt = f" using 0 t by (auto simp: holds_def over_def)
  moreover obtain ns' es' where "insert_into_leaf bt i s m = (0, bt\<lparr>bt_nodes := ns'\<rparr>)" "grows ns f (BLf i es) ns' f (BLf i es')"
      "length es' = Suc (length es)" "inserted (BLf i es) (BLf i es') s m"
    using insert_into_leaf_spec [of ns f i es bt s m] 0 t by (auto simp: over_def)
  ultimately show ?case using 0 t fuel unfolding result_def
    by (intro exI [of _ ns'] exI [of _ f] exI [of _ "BLf i es'"]) (auto simp: Let_def)
next
  case (Suc h)
  obtain fuel' where fuel: "fuel = Suc fuel'" using Suc.prems by (cases fuel) auto
  obtain i ks ts where t: "t = BNd i ks ts" "length ts = Suc (length ks)" "list_all (shape h) ts" "length ks < BTREE_MAX_KEYS"
    using Suc.prems(1,2) by (auto simp: shape_Suc)
  define ks1 ks2 where "ks1 = takeWhile (\<lambda>k. s > k) ks" and "ks2 = dropWhile (\<lambda>k. s > k) ks"
  define ts1 c ts2 where "ts1 = take (length ks1) ts" and "c = ts ! length ks1" and "ts2 = drop (Suc (length ks1)) ts"
  have ks: "ks = ks1 @ ks2" by (simp add: ks1_def ks2_def)
  then have n: "length ks1 < length ts" using t(2) by simp
  have ts: "ts = ts1 @ c # ts2" unfolding ts1_def c_def ts2_def using n by (simp add: id_take_nth_drop)
  have len: "length ts1 = length ks1" using n by (simp add: ts1_def)
  have le: "\<forall>k \<in> set ks1. k \<le> s" by (auto simp: ks1_def dest: set_takeWhileD)
  have ge: "ks2 \<noteq> [] \<Longrightarrow> s \<le> hd ks2" using hd_dropWhile [of "\<lambda>k. s > k" ks] by (auto simp: ks2_def)
  note T = t(1)[unfolded ks ts]
  note P = Suc.prems(1,3,4,5)[unfolded T]
  have bt: "bt_nodes bt = ns" "bt_free_node bt = f" "bt_max_nodes bt = length ns" "length ns < UINT32_MAX" "over bt ns f"
    using Suc.prems(6) by (simp_all add: over_def)
  have hc: "holds ns f c" "shape h c" "roomy ns f c" "sorted (fulls c)"
    using holds_child [OF P(2)] P(1) roomy_child [OF P(1,4)] sorted_child [OF len P(3)] by simp_all
  have R: "\<not> bn_is_leaf (ns ! i)" "bn_count (ns ! i) = length ks" "take (length ks) (bn_keys (ns ! i)) = ks"
    "take (length ts) (bn_slots (ns ! i)) = map ridx ts"
    using Suc.prems(3) t(1) by (auto simp: holds_def)
  have ci: "child_index (ns ! i) s = length ks1" unfolding child_index_def R(2,3) by (simp add: ks1_def)
  have sl: "bn_slots (ns ! i) ! length ks1 = ridx c"
    using arg_cong [OF R(4), of "\<lambda>xs. xs ! length ks1"] n by (simp add: c_def)
  have cnt: "bn_count (ns ! ridx c) = root_keys c" using rep_count hc(1) by (simp add: holds_def)
  note step = insert_nonfull_node [OF R(1) [folded bt(1)] ci [folded bt(1)] sl [folded bt(1)], unfolded bt(1) cnt]
  show ?case
  proof (cases "root_keys c < BTREE_MAX_KEYS")
    case True
    have "result bt ns f h c s m (insert_nonfull fuel' bt (ridx c) s m)"
      using Suc.IH [OF hc(2) True hc(1,4,3) bt(5)] Suc.prems(7) fuel by simp
    then have "result bt ns f (Suc h) t s m (insert_nonfull fuel' bt (ridx c) s m)"
      unfolding T using result_focus [OF P(2,1) len P(3) le ge] by blast
    moreover have "insert_nonfull fuel bt (ridx t) s m = insert_nonfull fuel' bt (ridx c) s m"
      unfolding fuel t(1) ridx.simps step using True by simp
    ultimately show ?thesis by simp
  next
    case False
    then have full: "root_keys c = BTREE_MAX_KEYS" using hc(2) by (cases h) (auto simp: shape_0 shape_Suc)
    have f: "f < length ns" using full_slack [OF hc(2) full] hc(3) unfolding roomy_def by linarith
    obtain ns1 l p r where sp: "split_child bt (ridx c) = (f, p, bt\<lparr>bt_nodes := ns1, bt_free_node := f + 1\<rparr>)" "is_split ns f h c ns1 l p r"
      using split_child_spec [OF hc(1,2) full bt(1,2)] f bt(3,4) by auto
    define ns2 where "ns2 = ns1[i := add_child (ns ! i) (length ks1) p f]"
    define bt2 where "bt2 = bt\<lparr>bt_nodes := ns2, bt_free_node := f + 1\<rparr>"
    define t1 where "t1 = BNd i (ks1 @ p # ks2) (ts1 @ l # r # ts2)"
    have room: "length (ks1 @ ks2) < BTREE_MAX_KEYS" using t(4) ks by simp
    note S = split_step [OF P(2,1) len room P(3) sp(2) f, folded ns2_def t1_def T]
    have rm: "roomy ns2 (f + 1) t1" using Suc.prems(5) S(3,4,8) f unfolding roomy_def by simp
    have ov: "over bt2 ns2 (f + 1)" using bt S(8) by (simp add: over_def bt2_def)
    have lr: "shape h l" "shape h r" "root_keys l < BTREE_MAX_KEYS" "root_keys r < BTREE_MAX_KEYS" "ridx l = ridx c" "ridx r = f"
      using sp(2) by (simp_all add: is_split_def)
    let ?c = "if s \<ge> p then f else ridx c"
    have "result bt2 ns2 (f + 1) (Suc h) t1 s m (insert_nonfull fuel' bt2 ?c s m)"
    proof (cases "s \<ge> p")
      case True
      let ?ks1 = "ks1 @ [p]" and ?ts1 = "ts1 @ [l]"
      have t1: "t1 = BNd i (?ks1 @ ks2) (?ts1 @ r # ts2)" by (simp add: t1_def)
      have len1: "length ?ts1 = length ?ks1" using len by simp
      note S1 = S(1,2,5)[unfolded t1] rm [unfolded t1]
      have "result bt2 ns2 (f + 1) h r s m (insert_nonfull fuel' bt2 (ridx r) s m)"
        using Suc.IH [OF lr(2,4) holds_child [OF S1(1)] sorted_child [OF len1 S1(3)] roomy_child [OF S1(2,4)] ov] Suc.prems(7) fuel by simp
      then show ?thesis
        unfolding t1 using result_focus [OF S1(1,2) len1 S1(3) _ ge] le True lr(6) by auto
    next
      case False
      have t1: "t1 = BNd i (ks1 @ (p # ks2)) (ts1 @ l # (r # ts2))" by (simp add: t1_def)
      note S1 = S(1,2,5)[unfolded t1] rm [unfolded t1]
      have "result bt2 ns2 (f + 1) h l s m (insert_nonfull fuel' bt2 (ridx l) s m)"
        using Suc.IH [OF lr(1,3) holds_child [OF S1(1)] sorted_child [OF len S1(3)] roomy_child [OF S1(2,4)] ov] Suc.prems(7) fuel by simp
      then show ?thesis
        unfolding t1 using result_focus [OF S1(1,2) len S1(3) le] False lr(5) by auto
    qed
    moreover have "ridx t1 = ridx t" by (simp add: t1_def T)
    ultimately have "result bt ns f (Suc h) t s m (insert_nonfull fuel' bt2 ?c s m)"
      using result_after_split [OF _ bt2_def S(3,6,7,8,9)] by blast
    moreover have "insert_nonfull fuel bt (ridx t) s m = insert_nonfull fuel' bt2 ?c s m"
      unfolding fuel t(1) ridx.simps step sp(1) using False f bt(4) by (simp add: bt2_def ns2_def update_swap)
    ultimately show ?thesis by simp
  qed
qed

section \<open>The whole tree\<close>

definition limits :: "zedis_btree \<Rightarrow> bool" where
  "limits bt \<longleftrightarrow> nodes_ok (bt_nodes bt) \<and> length (bt_nodes bt) = bt_max_nodes bt \<and>
     bt_max_nodes bt = 2 * bt_max_members bt + 4 \<and> bt_max_nodes bt < UINT32_MAX"

text \<open>The array holds a sorted, balanced tree in its first \<open>bt_free_node\<close> nodes, with the given entries.\<close>

definition tree_at :: "zedis_btree \<Rightarrow> nat \<Rightarrow> btr \<Rightarrow> bool" where
  "tree_at bt h t \<longleftrightarrow> bt_root bt = ridx t \<and> holds (bt_nodes bt) (bt_free_node bt) t \<and>
     set (idxs t) = {..<bt_free_node bt} \<and> shape h t \<and> sorted (fulls t)"

definition indexed :: "zedis_btree \<Rightarrow> (int \<times> nat) list \<Rightarrow> bool" where
  "indexed bt es \<longleftrightarrow> (es = [] \<and> bt_root bt = UINT32_MAX \<and> bt_free_node bt = 0) \<or>
     (\<exists>h t. tree_at bt h t \<and> entries t = es)"

lemma tree_at_facts:
  assumes "limits bt" "tree_at bt h t"
  shows "length (idxs t) = bt_free_node bt" "bt_free_node bt \<le> bt_max_nodes bt" "h < bt_max_nodes bt" "bt_root bt \<noteq> UINT32_MAX"
    "bt_root bt < length (bt_nodes bt)"
proof -
  have T: "distinct (idxs t)" "set (idxs t) = {..<bt_free_node bt}" "rep (bt_nodes bt) t" "bt_root bt = ridx t" "shape h t"
    using assms(2) by (simp_all add: tree_at_def holds_def)
  show n: "length (idxs t) = bt_free_node bt" using distinct_card [OF T(1)] T(2) by simp
  have "{..<bt_free_node bt} \<subseteq> {..<length (bt_nodes bt)}" unfolding T(2) [symmetric] using rep_idxs [OF T(3)] by auto
  then show m: "bt_free_node bt \<le> bt_max_nodes bt" using assms(1) by (simp add: limits_def)
  show "h < bt_max_nodes bt" using shape_height [OF T(5)] n m by simp
  show b: "bt_root bt < length (bt_nodes bt)" using rep_bound [OF T(3)] T(4) by simp
  then show "bt_root bt \<noteq> UINT32_MAX" using assms(1) by (simp add: limits_def)
qed

text \<open>What \<open>insert_entry\<close> may change.\<close>

definition same_members :: "zedis_btree \<Rightarrow> zedis_btree \<Rightarrow> bool" where
  "same_members bt bt' \<longleftrightarrow> bt_members bt' = bt_members bt \<and> bt_member_count bt' = bt_member_count bt \<and>
     bt_max_members bt' = bt_max_members bt \<and> bt_max_nodes bt' = bt_max_nodes bt"

definition entered :: "zedis_btree \<Rightarrow> (int \<times> nat) list \<Rightarrow> int \<Rightarrow> nat \<Rightarrow> (int \<times> zedis_btree) option \<Rightarrow> bool" where
  "entered bt es s m r \<longleftrightarrow> (\<exists>bt' xs ys. r = Some (0, bt') \<and> es = xs @ ys \<and> indexed bt' (xs @ (s, m) # ys) \<and> limits bt' \<and> same_members bt bt')"

lemma result_entered:
  assumes res: "result bt1 ns f h t s m r" and ov: "over bt1 ns f" and idx: "set (idxs t) = {..<f}" and H: "holds ns f t"
    and root: "bt_root bt1 = ridx t" and lim: "limits bt1" and same: "same_members bt bt1" and es: "entries t = es"
  shows "entered bt es s m r"
proof -
  obtain ns' f' t' where r: "r = Some (0, bt1\<lparr>bt_nodes := ns', bt_free_node := f'\<rparr>)" and g: "grows ns f t ns' f' t'"
    and sh: "shape h t'" and ins: "inserted t t' s m"
    using res by (auto simp: result_def)
  let ?b = "bt1\<lparr>bt_nodes := ns', bt_free_node := f'\<rparr>"
  obtain xs ys where e: "es = xs @ ys" "entries t' = xs @ (s, m) # ys" and srt: "sorted (fulls t')"
    using ins es by (auto simp: inserted_def)
  have G: "f \<le> f'" "set (idxs t') = set (idxs t) \<union> {f..<f'}" "ridx t' = ridx t"
    "nodes_ok ns'" "length ns' = length ns" using g by (simp_all add: grows_def)
  then have "set (idxs t') = {..<f'}" unfolding idx by (simp add: ivl_disj_un_one)
  then have "tree_at ?b h t'"
    using sh srt root G(3) grows_holds [OF g H] by (simp add: tree_at_def)
  then have "indexed ?b (xs @ (s, m) # ys)" using e(2) by (auto simp: indexed_def)
  moreover have "limits ?b"
  proof -
    have "length ns = bt_max_nodes bt1" using ov by (simp add: over_def)
    then show ?thesis using lim G(4,5) by (simp add: limits_def)
  qed
  moreover have "same_members bt ?b" using same by (simp add: same_members_def)
  ultimately show ?thesis unfolding entered_def using r e(1) by blast
qed

lemma insert_entry_empty:
  assumes "limits bt" "bt_root bt = UINT32_MAX" "bt_free_node bt = 0"
  shows "entered bt [] s m (insert_entry bt s m)"
proof -
  let ?n = "bt_nodes bt ! 0"
  let ?n' = "?n\<lparr>bn_is_leaf := True, bn_count := 1, bn_keys := (bn_keys ?n)[0 := s], bn_slots := (bn_slots ?n)[0 := m]\<rparr>"
  let ?b = "bt\<lparr>bt_free_node := 1, bt_root := 0, bt_nodes := (bt_nodes bt)[0 := ?n']\<rparr>"
  have L: "0 < length (bt_nodes bt)" "0 < bt_max_nodes bt" "nodes_ok (bt_nodes bt)" using assms(1) by (auto simp: limits_def)
  have k: "length (bn_keys ?n) = 3" "length (bn_slots ?n) = 4" using nodes_okD [OF L(3,1)] by simp_all
  have "insert_entry bt s m = Some (0, ?b)"
    using assms L alloc_node_ok [of bt 0] by (simp add: insert_entry_def Let_def UINT32_MAX_def)
  moreover have "tree_at ?b 0 (BLf 0 [(s, m)])"
  proof -
    have "take 1 ((bn_keys ?n)[0 := s]) = [s]" "take 1 ((bn_slots ?n)[0 := m]) = [m]"
      using length_3 [OF k(1)] length_4 [OF k(2)] by auto
    moreover have "nodes_ok ((bt_nodes bt)[0 := ?n'])" using nodes_ok_update [OF L(3), of ?n' 0] k by simp
    ultimately show ?thesis using L(1) by (auto simp: tree_at_def holds_def BTREE_MAX_KEYS_def)
  qed
  moreover have "limits ?b" using assms(1) nodes_ok_update [OF L(3), of ?n' 0] k by (simp add: limits_def)
  moreover from calculation(2) have "indexed ?b ([] @ (s, m) # [])" unfolding indexed_def by fastforce
  moreover have "same_members bt ?b" by (simp add: same_members_def)
  ultimately show ?thesis unfolding entered_def by blast
qed

text \<open>The old root and its new sibling under a new root.\<close>

lemma new_root:
  assumes sp: "is_split ns f h t ns1 l p r" and H: "holds ns f t" and srt: "sorted (fulls t)"
    and nr: "length (bn_keys nr) = 3" "length (bn_slots nr) = 4" "\<not> bn_is_leaf nr" "bn_count nr = 1"
      "take 1 (bn_keys nr) = [p]" "take 2 (bn_slots nr) = [ridx t, f]"
    and q: "q < length ns" "q < f" "q \<notin> set (idxs t)"
  shows "holds (ns1[q := nr]) (f + 1) (BNd q [p] [l, r])" "set (idxs (BNd q [p] [l, r])) = insert q (insert f (set (idxs t)))"
    "shape (Suc h) (BNd q [p] [l, r])" "sorted (fulls (BNd q [p] [l, r]))" "entries (BNd q [p] [l, r]) = entries t"
    "length (idxs (BNd q [p] [l, r])) = length (idxs t) + 2"
proof -
  have S: "rep ns1 l" "rep ns1 r" "ridx l = ridx t" "ridx r = f" "nodes_ok ns1" "length ns1 = length ns"
    "mset (idxs l @ idxs r) = add_mset f (mset (idxs t))" "shape h l" "shape h r" "entries l @ entries r = entries t"
    "sorted (fulls l @ p # fulls r)"
    using sp srt unfolding is_split_def by blast+
  have sets: "set (idxs l @ idxs r) = insert f (set (idxs t))" using arg_cong [OF S(7), of set_mset] by simp
  have H': "distinct (idxs t)" "\<forall>i \<in> set (idxs t). i < f" using H by (simp_all add: holds_def)
  have "mset (idxs l @ idxs r) = mset (f # idxs t)" using S(7) by simp
  moreover have "distinct (f # idxs t)" using H' by auto
  ultimately have d: "distinct (idxs l @ idxs r)" by (metis mset_eq_imp_distinct_iff)
  have qn: "q \<notin> set (idxs l @ idxs r)" unfolding sets using q by simp
  have "rep (ns1[q := nr]) l" "rep (ns1[q := nr]) r"
    using qn by (auto intro!: rep_frame [OF S(1)] rep_frame [OF S(2)] nth_list_update_neq)
  then have "rep (ns1[q := nr]) (BNd q [p] [l, r])"
    using nr q(1) S(3,4,6) by (simp add: numeral_2_eq_2)
  moreover have "distinct (idxs (BNd q [p] [l, r]))" using d qn by auto
  moreover have "\<forall>i \<in> set (idxs (BNd q [p] [l, r])). i < f + 1"
  proof -
    have "set (idxs (BNd q [p] [l, r])) = insert q (insert f (set (idxs t)))" using sets by simp
    then show ?thesis using q(2) H'(2) by auto
  qed
  ultimately show "holds (ns1[q := nr]) (f + 1) (BNd q [p] [l, r])"
    using nodes_ok_update [OF S(5) nr(1,2), of q] unfolding holds_def by blast
  show "set (idxs (BNd q [p] [l, r])) = insert q (insert f (set (idxs t)))" using sets by simp
  show "shape (Suc h) (BNd q [p] [l, r])" using S(8,9) by (simp add: BTREE_MAX_KEYS_def)
  show "sorted (fulls (BNd q [p] [l, r]))" using S(11) by simp
  show "entries (BNd q [p] [l, r]) = entries t" using S(10) by simp
  show "length (idxs (BNd q [p] [l, r])) = length (idxs t) + 2" using arg_cong [OF S(7), of size] by simp
qed

lemma tree_over: "limits bt \<Longrightarrow> over bt (bt_nodes bt) (bt_free_node bt)"
  by (simp add: limits_def over_def)

lemma insert_entry_root:
  assumes "bt_root bt \<noteq> UINT32_MAX" "\<not> bn_count (bt_nodes bt ! bt_root bt) < BTREE_MAX_KEYS" "alloc_node bt = (q, b0)"
    and "bt_nodes b0 = bt_nodes bt" "bt_root b0 = bt_root bt" "split_child b0 (bt_root bt) = (g, p, b1)"
    and "g \<noteq> UINT32_MAX" "q \<noteq> UINT32_MAX"
  shows "insert_entry bt s m =
    (let nr = node_zero\<lparr>bn_count := 1, bn_keys := (bn_keys node_zero)[0 := p], bn_slots := (bn_slots node_zero)[0 := bt_root b1, 1 := g]\<rparr>;
         b2 = b1\<lparr>bt_nodes := (bt_nodes b1)[q := nr], bt_root := q\<rparr>
     in insert_nonfull (btree_fuel b2) b2 (if s \<ge> p then g else q) s m)"
proof -
  have sp: "(if bn_is_leaf (bt_nodes bt ! bt_root bt) then split_leaf b0 (bt_root b0) else split_internal b0 (bt_root b0)) = (g, p, b1)"
    using assms(6) unfolding split_child_def assms(4,5) .
  show ?thesis
    unfolding insert_entry_def Let_def assms(3) prod.case sp using assms(1,2,7,8) by simp
qed

lemma insert_entry_nonempty:
  assumes lim: "limits bt" and T: "tree_at bt h t" and room: "length (entries t) < bt_max_members bt"
  shows "entered bt (entries t) s m (insert_entry bt s m)"
proof -
  let ?ns = "bt_nodes bt" and ?f = "bt_free_node bt"
  note F = tree_at_facts [OF lim T]
  have t: "bt_root bt = ridx t" "holds ?ns ?f t" "set (idxs t) = {..<?f}" "shape h t" "sorted (fulls t)" "rep ?ns t"
    using T by (simp_all add: tree_at_def holds_def)
  have L: "length ?ns = bt_max_nodes bt" "bt_max_nodes bt = 2 * bt_max_members bt + 4" "bt_max_nodes bt < UINT32_MAX"
    using lim by (simp_all add: limits_def)
  have cnt: "bn_count (?ns ! ridx t) = root_keys t" using rep_count [OF t(6)] .
  show ?thesis
  proof (cases "root_keys t < BTREE_MAX_KEYS")
    case True
    have "roomy ?ns ?f t" using F(1,2) room L unfolding roomy_def by simp
    then have "result bt ?ns ?f h t s m (insert_nonfull (btree_fuel bt) bt (ridx t) s m)"
      using F(3) by (intro insert_nonfull_spec [OF t(4) True t(2,5) _ tree_over [OF lim]]) (simp_all add: btree_fuel_def)
    moreover have "insert_entry bt s m = insert_nonfull (btree_fuel bt) bt (ridx t) s m"
      using F(4) True t(1) cnt by (simp add: insert_entry_def Let_def)
    ultimately show ?thesis
      using result_entered [OF _ tree_over [OF lim] t(3,2,1) lim] by (simp add: same_members_def)
  next
    case False
    then have full: "root_keys t = BTREE_MAX_KEYS" using t(4) by (cases h) (auto simp: shape_0 shape_Suc)
    have f1: "?f + 1 < bt_max_nodes bt" using full_slack [OF t(4) full] F(1) room L(2) by linarith
    define b0 where "b0 = bt\<lparr>bt_free_node := ?f + 1\<rparr>"
    have a0: "alloc_node bt = (?f, b0)" using alloc_node_ok [of bt ?f] f1 by (simp add: b0_def)
    have h0: "holds ?ns (?f + 1) t" using t(2) by (auto simp: holds_def)
    have b0: "bt_nodes b0 = ?ns" "bt_free_node b0 = ?f + 1" "bt_max_nodes b0 = bt_max_nodes bt" "bt_root b0 = ridx t"
      using t(1) by (simp_all add: b0_def)
    obtain ns1 l p r where sp: "split_child b0 (ridx t) = (?f + 1, p, b0\<lparr>bt_nodes := ns1, bt_free_node := ?f + 2\<rparr>)"
        "is_split ?ns (?f + 1) h t ns1 l p r"
      using split_child_spec [OF h0 t(4) full b0(1,2)] f1 L(1,3) b0(3) by auto
    define nr where "nr = node_zero\<lparr>bn_count := 1, bn_keys := (bn_keys node_zero)[0 := p],
        bn_slots := (bn_slots node_zero)[0 := ridx t, 1 := ?f + 1]\<rparr>"
    define ns2 where "ns2 = ns1[?f := nr]"
    define b2 where "b2 = bt\<lparr>bt_nodes := ns2, bt_free_node := ?f + 2, bt_root := ?f\<rparr>"
    define t1 where "t1 = BNd ?f [p] [l, r]"
    have nr: "length (bn_keys nr) = 3" "length (bn_slots nr) = 4" "\<not> bn_is_leaf nr" "bn_count nr = 1"
      "take 1 (bn_keys nr) = [p]" "take 2 (bn_slots nr) = [ridx t, ?f + 1]"
      by (simp_all add: nr_def node_zero_def)
    have q: "?f < length ?ns" "?f < ?f + 1" "?f \<notin> set (idxs t)" using f1 L(1) t(3) by simp_all
    note N = new_root [OF sp(2) h0 t(5) nr q, folded ns2_def t1_def]
    have ns2: "length ns2 = length ?ns" using sp(2) by (simp add: ns2_def is_split_def)
    have idx1: "set (idxs t1) = {..<?f + 2}" unfolding N(2) t(3) by auto
    have "nodes_ok ns2" using N(1) by (simp add: holds_def)
    then have lim2: "limits b2" using lim ns2 by (simp add: limits_def b2_def)
    have ov2: "over b2 ns2 (?f + 2)" using tree_over [OF lim2] by (simp add: b2_def)
    have rm: "roomy ns2 (?f + 2) t1" using f1 ns2 L(1,2) N(5,6) F(1) room unfolding roomy_def by simp
    have H1: "holds ns2 (?f + 2) t1" using N(1) by simp
    let ?c = "if s \<ge> p then ?f + 1 else ?f"
    have "result b2 ns2 (?f + 2) (Suc h) t1 s m (insert_nonfull (btree_fuel b2) b2 ?c s m)"
    proof (cases "s \<ge> p")
      case True
      have t1: "t1 = BNd ?f ([p] @ []) ([l] @ r # [])" by (simp add: t1_def)
      note S1 = H1 [unfolded t1] N(3) [unfolded t1] N(4) [unfolded t1] rm [unfolded t1]
      have lr: "shape h r" "root_keys r < BTREE_MAX_KEYS" "ridx r = ?f + 1" using sp(2) by (simp_all add: is_split_def)
      have "result b2 ns2 (?f + 2) h r s m (insert_nonfull (btree_fuel b2) b2 (ridx r) s m)"
        using F(3) sorted_child [OF _ S1(3)]
        by (intro insert_nonfull_spec [OF lr(1,2) holds_child [OF S1(1)] _ roomy_child [OF S1(2,4)] ov2])
          (simp_all add: btree_fuel_def b2_def)
      then show ?thesis
        unfolding t1 using result_focus [OF S1(1,2) _ S1(3)] True lr(3) by simp
    next
      case False
      have "root_keys t1 < BTREE_MAX_KEYS" by (simp add: t1_def BTREE_MAX_KEYS_def)
      then have "result b2 ns2 (?f + 2) (Suc h) t1 s m (insert_nonfull (btree_fuel b2) b2 (ridx t1) s m)"
        using F(3) by (intro insert_nonfull_spec [OF N(3) _ H1 N(4) rm ov2]) (simp_all add: btree_fuel_def b2_def)
      then show ?thesis using False by (simp add: t1_def)
    qed
    moreover have "insert_entry bt s m = insert_nonfull (btree_fuel b2) b2 ?c s m"
    proof -
      have r: "bt_root bt = ridx t" "bt_root b0 = bt_root bt" "bt_nodes b0 = bt_nodes bt" using t(1) b0 by simp_all
      have "\<not> bn_count (bt_nodes bt ! bt_root bt) < BTREE_MAX_KEYS" using full cnt r(1) by simp
      note I = insert_entry_root [OF F(4) this a0 r(3,2) sp(1) [folded r(1)], of s m]
      have b: "(b0\<lparr>bt_nodes := ns1, bt_free_node := ?f + 2\<rparr>)\<lparr>bt_nodes := ns2, bt_root := ?f\<rparr> = b2"
        by (cases bt) (simp add: b0_def b2_def)
      have "node_zero\<lparr>bn_count := 1, bn_keys := (bn_keys node_zero)[0 := p], bn_slots := (bn_slots node_zero)[0 := bt_root (b0\<lparr>bt_nodes := ns1, bt_free_node := ?f + 2\<rparr>), 1 := ?f + 1]\<rparr> = nr"
        using b0(4) by (simp add: nr_def)
      then show ?thesis using I f1 L(3) b by (simp add: Let_def ns2_def)
    qed
    moreover have "bt_root b2 = ridx t1" "same_members bt b2" by (simp_all add: b2_def t1_def same_members_def)
    ultimately show ?thesis using result_entered [OF _ ov2 idx1 H1 _ lim2 _ N(5)] by simp
  qed
qed

end
