(* ===== verification/BTree_Set.thy ===== *)
theory BTree_Set
  imports BTree_Insert Append_Log
begin

text \<open>
  The sorted set the B-tree implements: a finite map from member names to scores, and a listing of it in
  the order of the scores. The invariant relates the node array, the member array and this map; every
  operation of \<^verbatim>\<open>src/src/btree.c\<close> keeps it, returns, and acts on the map as its name says.
\<close>

section \<open>Traversals\<close>

lemma find_append: "List.find P (xs @ ys) = (case List.find P xs of None \<Rightarrow> List.find P ys | Some x \<Rightarrow> Some x)"
  by (induction xs) simp_all

lemma first_hit_find:
  "(\<And>t. t \<in> set ts \<Longrightarrow> f (ridx t) = Some (List.find P (map snd (entries t)))) \<Longrightarrow>
     first_hit f (map ridx ts) = Some (List.find P (map snd (concat (map entries ts))))"
  by (induction ts) (auto simp: find_append split: option.split)

lemma sum_calls_length:
  "(\<And>t. t \<in> set ts \<Longrightarrow> f (ridx t) = Some (length (entries t))) \<Longrightarrow>
     sum_calls f (map ridx ts) = Some (length (concat (map entries ts)))"
  by (induction ts) auto

lemma thread_fold:
  "(\<And>t st. t \<in> set ts \<Longrightarrow> f (ridx t) st = Some (fold g (map snd (entries t)) st)) \<Longrightarrow>
     thread f (map ridx ts) st = Some (fold g (map snd (concat (map entries ts))) st)"
  by (induction ts arbitrary: st) auto

text \<open>Each traversal visits the entries from left to right.\<close>

lemma rep_children:
  assumes "rep ns (BNd i ks ts)"
  shows "take (Suc (bn_count (ns ! i))) (bn_slots (ns ! i)) = map ridx ts" "\<not> bn_is_leaf (ns ! i)" "list_all (rep ns) ts"
  using assms by auto

lemma find_member_spec:
  "shape h t \<Longrightarrow> rep (bt_nodes bt) t \<Longrightarrow> h < fuel \<Longrightarrow>
     find_member fuel bt (ridx t) name = Some (List.find (\<lambda>v. member_equal (bt_members bt ! v) name) (map snd (entries t)))"
proof (induction h arbitrary: t fuel)
  case 0
  then show ?case by (cases fuel) (auto simp: shape_0 find_in_leaf_def Let_def)
next
  case (Suc h)
  obtain i ks ts fuel' where t: "t = BNd i ks ts" "list_all (shape h) ts" "fuel = Suc fuel'" "h < fuel'"
    using Suc.prems by (cases fuel) (auto simp: shape_Suc)
  note R = rep_children [OF Suc.prems(2) [unfolded t(1)]]
  show ?case
    using first_hit_find [of ts "\<lambda>c. find_member fuel' bt c name" "\<lambda>v. member_equal (bt_members bt ! v) name"]
      Suc.IH [OF _ _ t(4)] R t by (simp add: Let_def list_all_iff)
qed

lemma count_entries_spec:
  "shape h t \<Longrightarrow> rep (bt_nodes bt) t \<Longrightarrow> h < fuel \<Longrightarrow> count_entries fuel bt (ridx t) = Some (length (entries t))"
proof (induction h arbitrary: t fuel)
  case 0
  then show ?case by (cases fuel) (auto simp: shape_0 Let_def)
next
  case (Suc h)
  obtain i ks ts fuel' where t: "t = BNd i ks ts" "list_all (shape h) ts" "fuel = Suc fuel'" "h < fuel'"
    using Suc.prems by (cases fuel) (auto simp: shape_Suc)
  note R = rep_children [OF Suc.prems(2) [unfolded t(1)]]
  show ?case
    using sum_calls_length [of ts "count_entries fuel' bt"] Suc.IH [OF _ _ t(4)] R t by (simp add: Let_def list_all_iff)
qed

lemma collect_inorder_spec:
  "shape h t \<Longrightarrow> rep (bt_nodes bt) t \<Longrightarrow> h < fuel \<Longrightarrow>
     collect_inorder fuel bt (ridx t) a b cap st = Some (fold (collect_entry bt a b cap) (map snd (entries t)) st)"
proof (induction h arbitrary: t fuel st)
  case 0
  then show ?case by (cases fuel) (auto simp: shape_0 Let_def)
next
  case (Suc h)
  obtain i ks ts fuel' where t: "t = BNd i ks ts" "list_all (shape h) ts" "fuel = Suc fuel'" "h < fuel'"
    using Suc.prems by (cases fuel) (auto simp: shape_Suc)
  note R = rep_children [OF Suc.prems(2) [unfolded t(1)]]
  show ?case
    using thread_fold [of ts "\<lambda>c. collect_inorder fuel' bt c a b cap" "collect_entry bt a b cap" st]
      Suc.IH [OF _ _ t(4)] R t by (simp add: Let_def list_all_iff)
qed

section \<open>Invariant and abstraction\<close>

text \<open>The member array: fixed-size names, the first \<open>n\<close> of them in use and pairwise different.\<close>

definition members_ok :: "zedis_btree \<Rightarrow> bool" where
  "members_ok bt \<longleftrightarrow> length (bt_members bt) = bt_max_members bt \<and> bt_member_count bt \<le> bt_max_members bt \<and>
     (\<forall>m \<in> set (bt_members bt). length (bm_data m) = ZEDIS_BTREE_MAX_MEMBER) \<and>
     (\<forall>i < bt_member_count bt. bm_len (bt_members bt ! i) < ZEDIS_BTREE_MAX_MEMBER) \<and>
     inj_on (\<lambda>i. member_name (bt_members bt ! i)) {..<bt_member_count bt}"

text \<open>The entries are the first \<open>n\<close> members, each once, with their scores.\<close>

definition lists_members :: "zedis_btree \<Rightarrow> nat \<Rightarrow> (int \<times> nat) list \<Rightarrow> bool" where
  "lists_members bt n es \<longleftrightarrow> mset (map snd es) = mset [0..<n] \<and> (\<forall>(s, v) \<in> set es. s = bm_score (bt_members bt ! v))"

definition btree_inv :: "zedis_btree \<Rightarrow> bool" where
  "btree_inv bt \<longleftrightarrow> limits bt \<and> members_ok bt \<and> (\<exists>es. indexed bt es \<and> lists_members bt (bt_member_count bt) es)"

definition zset_of :: "zedis_btree \<Rightarrow> string \<Rightarrow> int option" where
  "zset_of bt = map_of (map (\<lambda>m. (member_name m, bm_score m)) (take (bt_member_count bt) (bt_members bt)))"

lemma lists_members_set: "lists_members bt n es \<Longrightarrow> set (map snd es) = {..<n}"
  using mset_eq_setD [of "map snd es" "[0..<n]"] by (auto simp: lists_members_def)

lemma lists_members_cong:
  assumes "lists_members bt n es" "\<And>i. i < n \<Longrightarrow> bt_members b ! i = bt_members bt ! i"
  shows "lists_members b n es"
  unfolding lists_members_def
proof (intro conjI ballI)
  show "mset (map snd es) = mset [0..<n]" using assms(1) by (simp add: lists_members_def)
  fix e
  assume e: "e \<in> set es"
  then have "snd e \<in> set (map snd es)" by auto
  then have "snd e < n" unfolding lists_members_set [OF assms(1)] by simp
  then show "case e of (s, v) \<Rightarrow> s = bm_score (bt_members b ! v)"
    using assms(1) e assms(2) [of "snd e"] by (auto simp: lists_members_def)
qed

lemma indexed_sorted: "indexed bt es \<Longrightarrow> sorted (map fst es)"
  using fulls_entries by (auto simp: indexed_def tree_at_def)

lemma indexed_nonempty:
  assumes "indexed bt es" "limits bt"
  shows "bt_root bt = UINT32_MAX \<longleftrightarrow> es = []"
proof -
  have "es \<noteq> []" "bt_root bt \<noteq> UINT32_MAX" if "tree_at bt h t" "entries t = es" for h t
  proof -
    show "bt_root bt \<noteq> UINT32_MAX" by (rule tree_at_facts(4) [OF assms(2) that(1)])
    have "shape h t" using that(1) by (simp add: tree_at_def)
    then show "es \<noteq> []" using shape_nodes [of h t] that(2) by fastforce
  qed
  then show ?thesis using assms(1) unfolding indexed_def by blast
qed

lemma indexed_tree:
  assumes "indexed bt es" "limits bt" "es \<noteq> []"
  obtains h t where "tree_at bt h t" "entries t = es" "h < btree_fuel bt" "shape h t" "rep (bt_nodes bt) t" "bt_root bt = ridx t"
proof -
  obtain h t where t: "tree_at bt h t" "entries t = es" using assms by (auto simp: indexed_def)
  then show ?thesis using that [OF t] tree_at_facts(3) [OF assms(2) t(1)] by (auto simp: btree_fuel_def tree_at_def holds_def)
qed

lemma member_equal_name:
  "length (bm_data m) = ZEDIS_BTREE_MAX_MEMBER \<Longrightarrow> bm_len m < ZEDIS_BTREE_MAX_MEMBER \<Longrightarrow> member_equal m name \<longleftrightarrow> member_name m = name"
  by (auto simp: member_equal_def member_name_def)

lemma map_of_index:
  assumes "inj_on (\<lambda>i. f (xs ! i)) {..<length xs}" "i < length xs"
  shows "map_of (map (\<lambda>x. (f x, g x)) xs) (f (xs ! i)) = Some (g (xs ! i))"
proof -
  have "distinct (map f xs)" using assms(1) unfolding distinct_conv_nth by (auto simp: inj_on_def)
  then have "distinct (map fst (map (\<lambda>x. (f x, g x)) xs))" by (simp add: comp_def)
  then show ?thesis using assms(2) by (intro map_of_is_SomeI) auto
qed

text \<open>The lookup in the tree is the lookup in the map.\<close>

lemma zset_of_member:
  assumes "members_ok bt" "i < bt_member_count bt"
  shows "zset_of bt (member_name (bt_members bt ! i)) = Some (bm_score (bt_members bt ! i))"
proof -
  let ?xs = "take (bt_member_count bt) (bt_members bt)"
  have "length ?xs = bt_member_count bt" "inj_on (\<lambda>i. member_name (?xs ! i)) {..<bt_member_count bt}"
    using assms(1) by (auto simp: members_ok_def inj_on_def)
  then show ?thesis using map_of_index [of member_name ?xs i bm_score] assms(2) by (simp add: zset_of_def)
qed

lemma zset_of_None:
  assumes "members_ok bt" "\<And>i. i < bt_member_count bt \<Longrightarrow> member_name (bt_members bt ! i) \<noteq> name"
  shows "zset_of bt name = None"
  using assms by (fastforce simp: zset_of_def map_of_eq_None_iff members_ok_def in_set_conv_nth)

lemma find_cases:
  assumes "btree_inv bt"
  obtains (found) i where "i < bt_member_count bt" "member_name (bt_members bt ! i) = name" "bt_root bt \<noteq> UINT32_MAX"
      "find_member (btree_fuel bt) bt (bt_root bt) name = Some (Some i)"
  | (missing) "\<And>i. i < bt_member_count bt \<Longrightarrow> member_name (bt_members bt ! i) \<noteq> name"
      "bt_root bt \<noteq> UINT32_MAX \<Longrightarrow> find_member (btree_fuel bt) bt (bt_root bt) name = Some None"
proof -
  obtain es where I: "limits bt" "members_ok bt" "indexed bt es" "lists_members bt (bt_member_count bt) es"
    using assms by (auto simp: btree_inv_def)
  have S: "set (map snd es) = {..<bt_member_count bt}" by (rule lists_members_set [OF I(4)])
  have eq: "member_equal (bt_members bt ! i) name \<longleftrightarrow> member_name (bt_members bt ! i) = name" if "i < bt_member_count bt" for i
    using member_equal_name I(2) that by (simp add: members_ok_def)
  let ?P = "\<lambda>v. member_equal (bt_members bt ! v) name"
  have F: "find_member (btree_fuel bt) bt (bt_root bt) name = Some (List.find ?P (map snd es))" if "es \<noteq> []"
    using indexed_tree [OF I(3,1) that] find_member_spec by metis
  show ?thesis
  proof (cases "List.find ?P (map snd es)")
    case None
    have "\<not> ?P i" if "i < bt_member_count bt" for i
    proof -
      have "i \<in> set (map snd es)" unfolding S using that by simp
      then show ?thesis using None by (auto simp: find_None_iff)
    qed
    then show ?thesis using missing eq F None indexed_nonempty [OF I(3,1)] by auto
  next
    case (Some i)
    then have i: "i \<in> set (map snd es)" "?P i" by (auto simp: find_Some_iff)
    then have "es \<noteq> []" by auto
    then show ?thesis using found [of i] i S eq F Some indexed_nonempty [OF I(3,1)] by auto
  qed
qed

section \<open>Adding a member\<close>

text \<open>The members do not depend on the index, and the index not on the names.\<close>

lemma members_ok_same: "same_members bt bt' \<Longrightarrow> members_ok bt' = members_ok bt"
  by (simp add: same_members_def members_ok_def)

lemma zset_of_same: "same_members bt bt' \<Longrightarrow> zset_of bt' = zset_of bt"
  by (simp add: same_members_def zset_of_def)

lemma enteredE:
  assumes "entered bt es s m r" "lists_members bt n es" "m = n" "s = bm_score (bt_members bt ! n)"
  obtains bt' es' where "r = Some (0, bt')" "limits bt'" "same_members bt bt'" "indexed bt' es'" "lists_members bt' (Suc n) es'"
proof -
  obtain bt' xs ys where b: "r = Some (0, bt')" "es = xs @ ys" "indexed bt' (xs @ (s, m) # ys)" "limits bt'" "same_members bt bt'"
    using assms(1) by (auto simp: entered_def)
  have "lists_members bt' (Suc n) (xs @ (s, m) # ys)"
    using assms(2-4) b(2,5) by (auto simp: lists_members_def same_members_def)
  then show ?thesis using that b by blast
qed

text \<open>\<open>insert_entry\<close> on a tree that lists the first \<open>n\<close> members adds the next one.\<close>

lemma insert_next:
  assumes "limits bt" "indexed bt es" "lists_members bt n es" "n < bt_max_members bt"
  obtains bt' es' where "insert_entry bt (bm_score (bt_members bt ! n)) n = Some (0, bt')" "limits bt'" "same_members bt bt'"
    "indexed bt' es'" "lists_members bt' (Suc n) es'"
proof -
  have len: "length es = n" using mset_eq_length [of "map snd es" "[0..<n]"] assms(3) unfolding lists_members_def by simp
  have "entered bt es (bm_score (bt_members bt ! n)) n (insert_entry bt (bm_score (bt_members bt ! n)) n)"
    using assms(2)
    unfolding indexed_def
  proof (elim disjE exE conjE)
    assume "es = []" "bt_root bt = UINT32_MAX" "bt_free_node bt = 0"
    then show ?thesis using insert_entry_empty [OF assms(1)] by simp
  next
    fix h t
    assume "tree_at bt h t" "entries t = es"
    then show ?thesis using insert_entry_nonempty [OF assms(1)] len assms(4) by blast
  qed
  then show ?thesis by (rule enteredE [OF _ assms(3) refl refl that])
qed

text \<open>Rebuilding the index from the members.\<close>

lemma rebuild_loop:
  assumes "limits bt" "indexed bt es" "lists_members bt k es" "k \<le> n" "n \<le> bt_max_members bt"
  shows "\<exists>bt' es'. thread (\<lambda>i t. map_option snd (insert_entry t (bm_score (bt_members t ! i)) i)) [k..<n] bt = Some bt' \<and>
    limits bt' \<and> same_members bt bt' \<and> indexed bt' es' \<and> lists_members bt' n es'"
  using assms
proof (induction "n - k" arbitrary: bt es k)
  case 0
  then show ?case by (auto simp: same_members_def)
next
  case (Suc d)
  then have k: "[k..<n] = k # [Suc k..<n]" "k < bt_max_members bt" by (simp_all add: upt_conv_Cons)
  obtain bt1 es1 where b: "insert_entry bt (bm_score (bt_members bt ! k)) k = Some (0, bt1)" "limits bt1" "same_members bt bt1"
    "indexed bt1 es1" "lists_members bt1 (Suc k) es1" by (rule insert_next [OF Suc.prems(1-3) k(2)])
  have d: "d = n - Suc k" "Suc k \<le> n" using Suc.hyps(2) by simp_all
  have "n \<le> bt_max_members bt1" using b(3) Suc.prems(5) by (simp add: same_members_def)
  then obtain bt2 es2 where c: "thread (\<lambda>i t. map_option snd (insert_entry t (bm_score (bt_members t ! i)) i)) [Suc k..<n] bt1 = Some bt2"
      "limits bt2" "same_members bt1 bt2" "indexed bt2 es2" "lists_members bt2 n es2"
    using Suc.hyps(1) [OF _ b(2,4,5)] d by blast
  have "same_members bt bt2" using b(3) c(3) by (simp add: same_members_def)
  then show ?case unfolding k(1) thread.simps b(1) using c by auto
qed

lemma rebuild_spec:
  assumes "limits bt" "bt_member_count bt \<le> bt_max_members bt"
  obtains bt' es' where "rebuild_btree bt = Some bt'" "limits bt'" "same_members bt bt'" "indexed bt' es'"
    "lists_members bt' (bt_member_count bt) es'"
proof -
  let ?b = "bt\<lparr>bt_nodes := replicate (bt_max_nodes bt) node_zero, bt_root := UINT32_MAX, bt_free_node := 0\<rparr>"
  have "limits ?b" using assms(1) by (auto simp: limits_def nodes_ok_def node_zero_def)
  moreover have "indexed ?b []" by (simp add: indexed_def)
  moreover have "lists_members ?b 0 []" by (simp add: lists_members_def)
  moreover have "bt_member_count bt \<le> bt_max_members ?b" using assms(2) by simp
  ultimately obtain bt' es' where "rebuild_btree bt = Some bt'" "limits bt'" "same_members ?b bt'" "indexed bt' es'"
      "lists_members bt' (bt_member_count bt) es'"
    using rebuild_loop [of ?b "[]" 0 "bt_member_count bt"] unfolding rebuild_btree_def by auto
  moreover have "same_members bt bt'" using calculation(3) by (simp add: same_members_def)
  ultimately show ?thesis using that by blast
qed

text \<open>The map in terms of the member array, and two maps that agree on it.\<close>

lemma zset_of_iff:
  assumes "members_ok bt"
  shows "zset_of bt name = Some s \<longleftrightarrow> (\<exists>i < bt_member_count bt. member_name (bt_members bt ! i) = name \<and> bm_score (bt_members bt ! i) = s)"
proof
  assume *: "zset_of bt name = Some s"
  then obtain i where "i < bt_member_count bt" "member_name (bt_members bt ! i) = name"
    using zset_of_None [OF assms] by (metis option.distinct(1))
  then show "\<exists>i < bt_member_count bt. member_name (bt_members bt ! i) = name \<and> bm_score (bt_members bt ! i) = s"
    using zset_of_member [OF assms] * by fastforce
qed (use zset_of_member [OF assms] in auto)

lemma map_eqI: "(\<And>x v. f x = Some v \<longleftrightarrow> g x = Some v) \<Longrightarrow> f = g"
  by (metis ext option.exhaust)

text \<open>Giving a member a new score.\<close>

lemma rescore:
  fixes s :: int
  assumes M: "members_ok bt" and i: "i < bt_member_count bt"
  defines "bt1 \<equiv> bt\<lparr>bt_members := (bt_members bt)[i := (bt_members bt ! i)\<lparr>bm_score := s\<rparr>]\<rparr>"
  shows "members_ok bt1" "zset_of bt1 = (zset_of bt)(member_name (bt_members bt ! i) \<mapsto> s)"
proof -
  have len: "i < length (bt_members bt)" using M i by (simp add: members_ok_def)
  have f: "member_name (bt_members bt1 ! j) = member_name (bt_members bt ! j)" "bm_len (bt_members bt1 ! j) = bm_len (bt_members bt ! j)"
    "bm_score (bt_members bt1 ! j) = (if j = i then s else bm_score (bt_members bt ! j))" for j
    using len by (auto simp: bt1_def nth_list_update member_name_def)
  have "\<forall>m \<in> set (bt_members bt1). length (bm_data m) = ZEDIS_BTREE_MAX_MEMBER"
    using M len set_update_subset_insert [of "bt_members bt" i] by (fastforce simp: members_ok_def bt1_def)
  then show ok: "members_ok bt1" using M by (simp add: members_ok_def f) (simp add: bt1_def)
  have c: "bt_member_count bt1 = bt_member_count bt" by (simp add: bt1_def)
  have inj: "j = i" if "j < bt_member_count bt" "member_name (bt_members bt ! j) = member_name (bt_members bt ! i)" for j
    using M i that by (auto simp: members_ok_def inj_on_def)
  show "zset_of bt1 = (zset_of bt)(member_name (bt_members bt ! i) \<mapsto> s)"
  proof (rule map_eqI)
    fix x v
    show "zset_of bt1 x = Some v \<longleftrightarrow> ((zset_of bt)(member_name (bt_members bt ! i) \<mapsto> s)) x = Some v"
      using zset_of_iff [OF ok, of x v] zset_of_iff [OF M, of x v] inj i by (auto simp: f c)
  qed
qed

text \<open>A fresh member.\<close>

lemma alloc_member_spec:
  assumes M: "members_ok bt" and room: "bt_member_count bt < bt_max_members bt"
    and len: "length name < ZEDIS_BTREE_MAX_MEMBER"
    and new: "\<And>i. i < bt_member_count bt \<Longrightarrow> member_name (bt_members bt ! i) \<noteq> name"
  obtains bt1 where "alloc_member bt s name = (bt_member_count bt, bt1)" "members_ok bt1" "zset_of bt1 = (zset_of bt)(name \<mapsto> s)"
    "bt_member_count bt1 = Suc (bt_member_count bt)" "bm_score (bt_members bt1 ! bt_member_count bt) = s"
    "\<And>i. i < bt_member_count bt \<Longrightarrow> bt_members bt1 ! i = bt_members bt ! i"
    "bt_nodes bt1 = bt_nodes bt" "bt_root bt1 = bt_root bt" "bt_free_node bt1 = bt_free_node bt"
    "bt_max_nodes bt1 = bt_max_nodes bt" "bt_max_members bt1 = bt_max_members bt"
proof -
  let ?n = "bt_member_count bt"
  let ?d = "write_at (length name) [NUL] (write_at 0 name (bm_data (bt_members bt ! ?n)))"
  let ?m = "\<lparr>bm_data = ?d, bm_len = length name, bm_score = s\<rparr>"
  define bt1 where "bt1 = bt\<lparr>bt_member_count := ?n + 1, bt_members := (bt_members bt)[?n := ?m]\<rparr>"
  have n: "?n < length (bt_members bt)" using M room by (simp add: members_ok_def)
  have dl: "length (bm_data (bt_members bt ! ?n)) = ZEDIS_BTREE_MAX_MEMBER" using M n by (simp add: members_ok_def)
  have d: "length ?d = ZEDIS_BTREE_MAX_MEMBER" "take (length name) ?d = name"
    using dl len by (simp_all add: write_at_def)
  have b1: "bt_members bt1 ! ?n = ?m" "\<And>i. i < ?n \<Longrightarrow> bt_members bt1 ! i = bt_members bt ! i"
    "bt_member_count bt1 = Suc ?n" "length (bt_members bt1) = length (bt_members bt)"
    using n by (simp_all add: bt1_def)
  have nm: "member_name ?m = name" using d(2) by (simp add: member_name_def)
  then have nm': "member_name (bt_members bt1 ! ?n) = name" "bm_score (bt_members bt1 ! ?n) = s" unfolding b1(1) by simp_all
  have "inj_on (\<lambda>i. member_name (bt_members bt1 ! i)) {..<Suc ?n}"
  proof -
    have "inj_on (\<lambda>i. member_name (bt_members bt1 ! i)) {..<?n}"
      using M b1(2) by (simp add: members_ok_def inj_on_def)
    then show ?thesis using new b1(1,2) nm by (fastforce simp: lessThan_Suc)
  qed
  moreover have "\<forall>m \<in> set (bt_members bt1). length (bm_data m) = ZEDIS_BTREE_MAX_MEMBER"
    using M d(1) set_update_subset_insert [of "bt_members bt" ?n ?m] by (fastforce simp: members_ok_def bt1_def)
  moreover have "\<forall>i < Suc ?n. bm_len (bt_members bt1 ! i) < ZEDIS_BTREE_MAX_MEMBER"
    using M len b1(1,2) by (auto simp: members_ok_def less_Suc_eq)
  ultimately have ok: "members_ok bt1" using M room b1(3,4) by (simp add: members_ok_def) (simp add: bt1_def)
  have z: "zset_of bt1 = (zset_of bt)(name \<mapsto> s)"
  proof (rule map_eqI)
    fix x v
    show "zset_of bt1 x = Some v \<longleftrightarrow> ((zset_of bt)(name \<mapsto> s)) x = Some v"
      using zset_of_iff [OF ok, of x v] zset_of_iff [OF M, of x v] new b1(2,3) nm'
      by (auto simp: less_Suc_eq)
  qed
  have "alloc_member bt s name = (?n, bt1)"
    using room len by (simp add: alloc_member_def bt1_def Let_def)
  then show ?thesis using that [of bt1] ok z b1 by (simp add: bt1_def)
qed

text \<open>The operation admits a member name of 1 to 47 bytes that is present or still has a slot.\<close>

definition zset_admits :: "zedis_btree \<Rightarrow> string \<Rightarrow> bool" where
  "zset_admits bt name \<longleftrightarrow> name \<noteq> [] \<and> length name < ZEDIS_BTREE_MAX_MEMBER \<and>
     (zset_of bt name \<noteq> None \<or> bt_member_count bt < bt_max_members bt)"

lemma limits_UINT32: "limits bt \<Longrightarrow> n < bt_max_members bt \<Longrightarrow> n \<noteq> UINT32_MAX"
  by (auto simp: limits_def)

lemma btree_add_ok:
  assumes inv: "btree_inv bt" and adm: "zset_admits bt name"
  shows "\<exists>bt'. zedis_btree_add bt s name = Some (0, bt') \<and> btree_inv bt' \<and> zset_of bt' = (zset_of bt)(name \<mapsto> s) \<and>
    bt_max_members bt' = bt_max_members bt"
proof -
  have len: "length name \<noteq> 0" "length name < ZEDIS_BTREE_MAX_MEMBER" using adm by (auto simp: zset_admits_def)
  obtain es where I: "limits bt" "members_ok bt" "indexed bt es" "lists_members bt (bt_member_count bt) es"
    using inv by (auto simp: btree_inv_def)
  show ?thesis
    using inv
  proof (cases rule: find_cases [where name = name])
    case (found i)
    let ?b = "bt\<lparr>bt_members := (bt_members bt)[i := (bt_members bt ! i)\<lparr>bm_score := s\<rparr>]\<rparr>"
    have b: "limits ?b" "bt_member_count ?b \<le> bt_max_members ?b"
      using I(1,2) by (simp_all add: limits_def members_ok_def)
    obtain bt' es' where r: "rebuild_btree ?b = Some bt'" "limits bt'" "same_members ?b bt'" "indexed bt' es'"
      "lists_members bt' (bt_member_count ?b) es'" by (rule rebuild_spec [OF b])
    have "btree_inv bt'" "zset_of bt' = (zset_of bt)(name \<mapsto> s)"
      using r members_ok_same [OF r(3)] zset_of_same [OF r(3)] rescore [OF I(2) found(1), of s] found(2)
      by (auto simp: btree_inv_def same_members_def)
    moreover have "zedis_btree_add bt s name = Some (0, bt')"
      using len found(3,4) r(1) by (simp add: zedis_btree_add_def)
    ultimately show ?thesis using r(3) by (simp add: same_members_def)
  next
    case missing
    have z: "zset_of bt name = None" by (rule zset_of_None [OF I(2) missing(1)])
    then have room: "bt_member_count bt < bt_max_members bt" using adm by (simp add: zset_admits_def)
    obtain b where b: "alloc_member bt s name = (bt_member_count bt, b)" "members_ok b" "zset_of b = (zset_of bt)(name \<mapsto> s)"
      "bt_member_count b = Suc (bt_member_count bt)" "bm_score (bt_members b ! bt_member_count bt) = s"
      "\<And>i. i < bt_member_count bt \<Longrightarrow> bt_members b ! i = bt_members bt ! i"
      "bt_nodes b = bt_nodes bt" "bt_root b = bt_root bt" "bt_free_node b = bt_free_node bt"
      "bt_max_nodes b = bt_max_nodes bt" "bt_max_members b = bt_max_members bt"
      by (rule alloc_member_spec [OF I(2) room len(2) missing(1), of s]) simp_all
    have lim: "limits b" using I(1) b by (simp add: limits_def)
    have idx: "indexed b es" using I(3) b by (simp add: indexed_def tree_at_def)
    have "lists_members b (bt_member_count bt) es"
      by (rule lists_members_cong [OF I(4) b(6)])
    moreover have "bt_member_count bt < bt_max_members b" using room b(11) by simp
    ultimately obtain bt' es' where i: "insert_entry b s (bt_member_count bt) = Some (0, bt')" "limits bt'" "same_members b bt'"
      "indexed bt' es'" "lists_members bt' (Suc (bt_member_count bt)) es'"
      using insert_next [OF lim idx] b(5) by metis
    have "btree_inv bt'" "zset_of bt' = (zset_of bt)(name \<mapsto> s)"
      using i members_ok_same [OF i(3)] zset_of_same [OF i(3)] b(2-4) by (auto simp: btree_inv_def same_members_def)
    moreover have "zedis_btree_add bt s name = Some (0, bt')"
      using len missing(2) i(1) b(1) limits_UINT32 [OF I(1) room] by (simp add: zedis_btree_add_def)
    ultimately show ?thesis using i(3) b(11) by (simp add: same_members_def)
  qed
qed

lemma btree_add_refused:
  assumes inv: "btree_inv bt" and adm: "\<not> zset_admits bt name"
  shows "zedis_btree_add bt s name = Some (-1, bt)"
proof (cases "name = [] \<or> length name \<ge> ZEDIS_BTREE_MAX_MEMBER")
  case True
  then show ?thesis by (auto simp: zedis_btree_add_def)
next
  case False
  then have z: "zset_of bt name = None" "\<not> bt_member_count bt < bt_max_members bt" using adm by (auto simp: zset_admits_def)
  have M: "members_ok bt" using inv by (simp add: btree_inv_def)
  show ?thesis
    using inv
  proof (cases rule: find_cases [where name = name])
    case (found i)
    then show ?thesis using z(1) zset_of_member [OF M found(1)] by simp
  next
    case missing
    then show ?thesis using False z(2) by (simp add: zedis_btree_add_def alloc_member_def)
  qed
qed

lemma btree_score_spec:
  assumes inv: "btree_inv bt"
  shows "zedis_btree_score bt name = Some (zset_of bt name)"
proof -
  have M: "members_ok bt" using inv by (simp add: btree_inv_def)
  show ?thesis
    using inv
  proof (cases rule: find_cases [where name = name])
    case (found i)
    then show ?thesis using zset_of_member [OF M found(1)] by (simp add: zedis_btree_score_def)
  next
    case missing
    then show ?thesis using zset_of_None [OF M missing(1)] by (simp add: zedis_btree_score_def)
  qed
qed

section \<open>Listing in order\<close>

fun window :: "int \<Rightarrow> int \<Rightarrow> int \<Rightarrow> 'a list \<Rightarrow> 'a list" where
  "window a b k [] = []"
| "window a b k (v # vs) = (if a \<le> k \<and> k \<le> b then v # window a b (k + 1) vs else window a b (k + 1) vs)"

lemma window_slice: "window a b k vs = take (nat (b - max a k + 1)) (drop (nat (a - k)) vs)"
proof (induction vs arbitrary: k)
  case (Cons v vs)
  consider "k < a" | "a \<le> k" "k \<le> b" | "a \<le> k" "b < k" by linarith
  then show ?case
  proof cases
    case 1
    then have "nat (a - k) = Suc (nat (a - (k + 1)))" "max a k = a" "max a (k + 1) = a" by auto
    then show ?thesis using Cons.IH [of "k + 1"] 1 by simp
  next
    case 2
    then have "nat (a - k) = 0" "nat (a - (k + 1)) = 0" "nat (b - max a k + 1) = Suc (nat (b - max a (k + 1) + 1))" by auto
    then show ?thesis using Cons.IH [of "k + 1"] 2 by simp
  next
    case 3
    then have "nat (b - max a k + 1) = 0" "nat (b - max a (k + 1) + 1) = 0" by auto
    then show ?thesis using Cons.IH [of "k + 1"] 3 by simp
  qed
qed simp

lemma collect_fold:
  "length (r @ concat (map (\<lambda>v. member_text (bt_members bt ! v)) (window a b k vs))) < cap \<Longrightarrow>
     fold (collect_entry bt a b cap) vs (k, r) =
       (k + int (length vs), r @ concat (map (\<lambda>v. member_text (bt_members bt ! v)) (window a b k vs)))"
  by (induction vs arbitrary: k r) (auto simp: collect_entry_def Let_def algebra_simps)

text \<open>The members in the order of the index: every pair of the map once, scores ascending.\<close>

definition ordered_pairs :: "zedis_btree \<Rightarrow> (int \<times> string) list \<Rightarrow> bool" where
  "ordered_pairs bt L \<longleftrightarrow> sorted (map fst L) \<and> distinct (map snd L) \<and> (\<forall>name s. zset_of bt name = Some s \<longleftrightarrow> (s, name) \<in> set L)"

lemma listed_pairs:
  assumes M: "members_ok bt" and es: "lists_members bt (bt_member_count bt) es" and srt: "sorted (map fst es)"
  shows "ordered_pairs bt (map (\<lambda>(s, v). (s, member_name (bt_members bt ! v))) es)"
proof -
  let ?n = "bt_member_count bt" and ?f = "\<lambda>v. member_name (bt_members bt ! v)"
  let ?L = "map (\<lambda>(s, v). (s, ?f v)) es"
  have S: "set (map snd es) = {..<?n}" by (rule lists_members_set [OF es])
  have "mset (map snd es) = mset [0..<?n]" using es unfolding lists_members_def by blast
  then have d: "distinct (map snd es)" by (metis distinct_upt mset_eq_imp_distinct_iff)
  have m: "map snd ?L = map ?f (map snd es)" "map fst ?L = map fst es" by auto
  have "inj_on ?f (set (map snd es))" unfolding S using M by (simp add: members_ok_def)
  then have dist: "distinct (map snd ?L)" unfolding m using d by (simp add: distinct_map comp_inj_on)
  have sc: "s = bm_score (bt_members bt ! v)" "v < ?n" if "(s, v) \<in> set es" for s v
  proof -
    show "s = bm_score (bt_members bt ! v)" using es that by (auto simp: lists_members_def)
    have "v \<in> set (map snd es)" using that by force
    then show "v < ?n" unfolding S by simp
  qed
  have ex: "(bm_score (bt_members bt ! i), i) \<in> set es" if "i < ?n" for i
  proof -
    have "i \<in> set (map snd es)" unfolding S using that by simp
    then obtain s where "(s, i) \<in> set es" by auto
    then show ?thesis using sc(1) by metis
  qed
  have "zset_of bt name = Some s \<longleftrightarrow> (s, name) \<in> set ?L" for name s
    unfolding zset_of_iff [OF M] using sc ex by (force simp: image_iff)
  then show ?thesis unfolding ordered_pairs_def m(2) using dist srt by blast
qed

lemma member_text_sent:
  "length (bm_data m) = ZEDIS_BTREE_MAX_MEMBER \<Longrightarrow> bm_len m < ZEDIS_BTREE_MAX_MEMBER \<Longrightarrow> member_text m = sent_bulk (member_name m)"
  by (simp add: member_text_def sent_bulk_def member_name_def)

lemma btree_range_spec:
  assumes inv: "btree_inv bt"
  obtains L where "ordered_pairs bt L"
    "\<And>start stop cap. length (sent_array (lrange_spec start stop (map snd L))) < cap \<Longrightarrow>
       zedis_btree_range bt start stop cap = Some (Some (sent_array (lrange_spec start stop (map snd L))))"
proof -
  obtain es where I: "limits bt" "members_ok bt" "indexed bt es" "lists_members bt (bt_member_count bt) es"
    using inv by (auto simp: btree_inv_def)
  let ?nm = "\<lambda>v. member_name (bt_members bt ! v)"
  define L where "L = map (\<lambda>(s, v). (s, ?nm v)) es"
  have names: "map snd L = map ?nm (map snd es)" by (auto simp: L_def)
  have len: "length (map snd L) = length es" "length L = length es" by (simp_all add: L_def)
  have mt: "member_text (bt_members bt ! v) = sent_bulk (?nm v)" if "v \<in> set (map snd es)" for v
  proof (rule member_text_sent)
    have "v < bt_member_count bt" using that unfolding lists_members_set [OF I(4)] by simp
    then show "length (bm_data (bt_members bt ! v)) = ZEDIS_BTREE_MAX_MEMBER" "bm_len (bt_members bt ! v) < ZEDIS_BTREE_MAX_MEMBER"
      using I(2) by (simp_all add: members_ok_def)
  qed
  have empty: "sent_array [] = ''*0'' @ crlf" by (simp add: sent_array_def show_nat_0)
  have "zedis_btree_range bt start stop cap = Some (Some (sent_array (lrange_spec start stop (map snd L))))"
    if fits: "length (sent_array (lrange_spec start stop (map snd L))) < cap" for start stop cap
  proof (cases "es = []")
    case True
    then have "lrange_spec start stop (map snd L) = []" by (simp add: L_def lrange_spec_def)
    then show ?thesis
      using fits True indexed_nonempty [OF I(3,1)] empty by (simp add: zedis_btree_range_def reply_start_def)
  next
    case False
    obtain h t where t: "tree_at bt h t" "entries t = es" "h < btree_fuel bt" "shape h t" "rep (bt_nodes bt) t" "bt_root bt = ridx t"
      by (rule indexed_tree [OF I(3,1) False])
    have root: "ridx t \<noteq> UINT32_MAX" using indexed_nonempty [OF I(3,1)] False t(6) by simp
    have cnt: "count_entries (btree_fuel bt) bt (ridx t) = Some (length es)" using count_entries_spec [OF t(4,5,3)] t(2) by simp
    let ?a = "if start < 0 then 0 else start" and ?b = "if stop < 0 \<or> stop \<ge> int (length es) then int (length es) - 1 else stop"
    have spec: "lrange_spec start stop (map snd L) = take (nat (?b - ?a + 1)) (drop (nat ?a) (map snd L))"
      unfolding lrange_spec_def Let_def len max_def by auto
    show ?thesis
    proof (cases "?a > ?b")
      case True
      then have "lrange_spec start stop (map snd L) = []" unfolding spec by simp
      then show ?thesis using fits root t(6) cnt True empty by (simp add: zedis_btree_range_def reply_start_def Let_def)
    next
      case ab: False
      let ?w = "window ?a ?b 0 (map snd es)"
      have "max ?a 0 = ?a" "?a - 0 = ?a" by auto
      then have w: "map ?nm ?w = lrange_spec start stop (map snd L)"
        unfolding spec unfolding window_slice names by (simp only: take_map drop_map)
      have n: "?b - ?a + 1 = int (length (lrange_spec start stop (map snd L)))"
        unfolding spec using ab False by (auto simp: len min_def)
      have "set ?w \<subseteq> set (map snd es)" unfolding window_slice by (meson order_trans set_drop_subset set_take_subset)
      then have tx: "concat (map (\<lambda>v. member_text (bt_members bt ! v)) ?w) = concat (map sent_bulk (lrange_spec start stop (map snd L)))"
        unfolding w [symmetric] map_map comp_def using mt by (intro arg_cong [of _ _ concat] map_cong) auto
      let ?h = "CHR ''*'' # show_int (?b - ?a + 1) @ crlf"
      have h: "?h @ concat (map (\<lambda>v. member_text (bt_members bt ! v)) ?w) = sent_array (lrange_spec start stop (map snd L))"
        unfolding n tx sent_array_def by (simp add: show_int_def)
      have "length (?h @ concat (map (\<lambda>v. member_text (bt_members bt ! v)) ?w)) < cap" unfolding h by (rule fits)
      note C = collect_fold [OF this]
      have "length ?h < cap" using fits unfolding h [symmetric] by simp
      moreover have "collect_inorder (btree_fuel bt) bt (ridx t) ?a ?b cap (0, ?h) =
          Some (0 + int (length (map snd es)), sent_array (lrange_spec start stop (map snd L)))"
        unfolding collect_inorder_spec [OF t(4,5,3)] t(2) C h ..
      ultimately show ?thesis
        using root t(6) cnt ab False unfolding zedis_btree_range_def Let_def reply_start_def by simp
    qed
  qed
  moreover have "ordered_pairs bt L" unfolding L_def by (rule listed_pairs [OF I(2,4) indexed_sorted [OF I(3)]])
  ultimately show ?thesis using that by blast
qed

section \<open>The interface of a sorted set\<close>

text \<open>What the registry of sorted sets relies on: adding a member and asking for a score, as operations on a
  finite map that may refuse a member but then change nothing.\<close>

locale score_store =
  fixes add :: "'s \<Rightarrow> int \<Rightarrow> string \<Rightarrow> (int \<times> 's) option" and score :: "'s \<Rightarrow> string \<Rightarrow> int option option"
    and inv :: "'s \<Rightarrow> bool" and abs :: "'s \<Rightarrow> string \<Rightarrow> int option" and admits :: "'s \<Rightarrow> string \<Rightarrow> bool"
  assumes add_ok: "inv s \<Longrightarrow> admits s m \<Longrightarrow> \<exists>s'. add s x m = Some (0, s') \<and> inv s' \<and> abs s' = (abs s)(m \<mapsto> x)"
    and add_refused: "inv s \<Longrightarrow> \<not> admits s m \<Longrightarrow> add s x m = Some (-1, s)"
    and score_abs: "inv s \<Longrightarrow> score s m = Some (abs s m)"
begin

lemma add_cases:
  assumes "inv s"
  obtains (added) s' where "add s x m = Some (0, s')" "inv s'" "abs s' = (abs s)(m \<mapsto> x)" "admits s m"
  | (refused) "add s x m = Some (-1, s)" "\<not> admits s m"
  using add_ok [OF assms] add_refused [OF assms] by blast

text \<open>A score that was added is read back, and adding never touches another member.\<close>

lemma score_after_add:
  assumes "inv s" "add s x m = Some (0, s')"
  shows "inv s' \<and> score s' m' = (if m' = m then Some (Some x) else score s m')"
  using assms(1)
proof (cases rule: add_cases [where x = x and m = m])
  case (added s'')
  then show ?thesis using assms score_abs by simp
next
  case refused
  then show ?thesis using assms(2) by simp
qed

end

interpretation zset: score_store zedis_btree_add zedis_btree_score btree_inv zset_of zset_admits
proof unfold_locales
  fix s m x
  show "btree_inv s \<Longrightarrow> zset_admits s m \<Longrightarrow>
      \<exists>s'. zedis_btree_add s x m = Some (0, s') \<and> btree_inv s' \<and> zset_of s' = (zset_of s)(m \<mapsto> x)"
    using btree_add_ok by blast
  show "btree_inv s \<Longrightarrow> \<not> zset_admits s m \<Longrightarrow> zedis_btree_add s x m = Some (-1, s)" by (rule btree_add_refused)
  show "btree_inv s \<Longrightarrow> zedis_btree_score s m = Some (zset_of s m)" by (rule btree_score_spec)
qed

text \<open>A fresh tree.\<close>

definition fresh_btree :: "nat \<Rightarrow> zedis_btree" where
  "fresh_btree n = btree_zero\<lparr>bt_max_members := n, bt_max_nodes := n * 2 + 4, bt_root := UINT32_MAX,
     bt_nodes := replicate (n * 2 + 4) node_zero, bt_members := replicate n member_zero\<rparr>"

lemma fresh_btree_inv:
  assumes "n \<le> ZEDIS_BTREE_MAX_ENTRIES"
  shows "btree_inv (fresh_btree n)" "zset_of (fresh_btree n) = Map.empty"
proof -
  have "limits (fresh_btree n)" "members_ok (fresh_btree n)"
    using assms by (auto simp: limits_def members_ok_def fresh_btree_def btree_zero_def nodes_ok_def node_zero_def
        member_zero_def ZEDIS_BTREE_MAX_ENTRIES_def UINT32_MAX_def)
  moreover have "indexed (fresh_btree n) []" "lists_members (fresh_btree n) (bt_member_count (fresh_btree n)) []"
    by (simp_all add: indexed_def lists_members_def fresh_btree_def btree_zero_def)
  ultimately show "btree_inv (fresh_btree n)" by (auto simp: btree_inv_def)
  show "zset_of (fresh_btree n) = Map.empty" by (simp add: zset_of_def fresh_btree_def btree_zero_def)
qed

lemma zedis_btree_init_fresh:
  assumes "zedis_btree_init arena n m tree0 = (0, tree, arena', m')"
  shows "tree = fresh_btree (min n ZEDIS_BTREE_MAX_ENTRIES)" "n \<noteq> 0"
  using assms by (auto simp: zedis_btree_init_def fresh_btree_def btree_zero_def Let_def split: if_splits prod.splits)

section \<open>Properties\<close>

text \<open>
  C7. The B-tree implements a finite map from members to scores. On every tree that satisfies the
  invariant, \<open>zedis_btree_score\<close> returns the score of the map; \<open>zedis_btree_add\<close> returns, never runs out of
  nodes, keeps the invariant (sorted, balanced, each member once) and sets exactly that member's score,
  or, for an empty or too long name or a full set, answers -1 and changes nothing.
\<close>

theorem btree_refines_map:
  assumes "btree_inv bt"
  shows "zedis_btree_score bt name' = Some (zset_of bt name') \<and>
    (if zset_admits bt name
     then \<exists>bt'. zedis_btree_add bt score name = Some (0, bt') \<and> btree_inv bt' \<and> zset_of bt' = (zset_of bt)(name \<mapsto> score)
     else zedis_btree_add bt score name = Some (-1, bt))"
  using zset.add_ok [OF assms] zset.add_refused [OF assms] zset.score_abs [OF assms] by simp

theorem btree_refines_map_witness:
  "\<exists>bt'. zedis_btree_add (fresh_btree 2) 7 ''a'' = Some (0, bt') \<and> btree_inv bt' \<and> zset_of bt' ''a'' = Some 7"
proof -
  have "zset_admits (fresh_btree 2) ''a''"
    by (simp add: zset_admits_def fresh_btree_def btree_zero_def ZEDIS_BTREE_MAX_MEMBER_def)
  then show ?thesis
    using btree_refines_map [OF fresh_btree_inv(1), of 2 "''a''" "''a''" 7] by (auto simp: ZEDIS_BTREE_MAX_ENTRIES_def)
qed



end
