(* ===== verification/BTree_Limits.thy ===== *)
theory BTree_Limits
  imports BTree_Set
begin

text \<open>
  Two limits of the sorted set, shown on concrete trees: members with equal scores are not kept in the
  order of their names, and a range reply that does not fit loses elements it has announced.
\<close>

section \<open>Evaluation\<close>

text \<open>Unfolding rules for fuel given as a numeral.\<close>

lemmas fuel_numeral =
  find_member.simps(2) [of "pred_numeral k" for k, folded numeral_eq_Suc]
  insert_nonfull.simps(2) [of "pred_numeral k" for k, folded numeral_eq_Suc]
  count_entries.simps(2) [of "pred_numeral k" for k, folded numeral_eq_Suc]
  collect_inorder.simps(2) [of "pred_numeral k" for k, folded numeral_eq_Suc]

definition tie_member :: "char \<Rightarrow> btree_member" where
  "tie_member c = \<lparr>bm_data = c # NUL # replicate 46 NUL, bm_len = 1, bm_score = 0\<rparr>"

definition tie_leaf :: "nat list \<Rightarrow> nat \<Rightarrow> btree_node" where
  "tie_leaf vs n = \<lparr>bn_keys = [0, 0, 0], bn_slots = vs, bn_is_leaf = True, bn_count = n\<rparr>"

definition tie_inner :: "nat list \<Rightarrow> nat \<Rightarrow> btree_node" where
  "tie_inner vs n = \<lparr>bn_keys = [0, 0, 0], bn_slots = vs, bn_is_leaf = False, bn_count = n\<rparr>"

definition tie_tree :: "btree_node list \<Rightarrow> nat \<Rightarrow> string \<Rightarrow> zedis_btree" where
  "tie_tree ns root cs = (fresh_btree 6)\<lparr>bt_nodes := ns @ replicate (16 - length ns) node_zero, bt_root := root,
     bt_free_node := length ns, bt_member_count := length cs,
     bt_members := map tie_member cs @ replicate (6 - length cs) member_zero\<rparr>"

lemma tie_name: "member_name (tie_member c) = [c]" "member_equal (tie_member c) [d] \<longleftrightarrow> c = d"
  "bm_score (tie_member c) = 0"
  by (simp_all add: member_name_def member_equal_def tie_member_def)

lemma tie_cmp: "score_member_cmp 0 (tie_member c) 0 [d] \<le> 0 \<longleftrightarrow> (of_char c :: int) \<le> of_char d"
  by (auto simp: score_member_cmp_def tie_member_def Let_def)

lemmas tie_eval = zedis_btree_add_def alloc_member_def insert_entry_def alloc_node_def UINT32_MAX_def btree_fuel_def
  node_zero_def member_zero_def ZEDIS_BTREE_MAX_MEMBER_def BTREE_MAX_KEYS_def write_at_def Let_def fuel_numeral find_in_leaf_def
  tie_name tie_cmp tie_leaf_def tie_inner_def fresh_btree_def btree_zero_def tie_tree_def leaf_find_pos_def leaf_insert_at_def
  insert_into_leaf_def split_leaf_def child_index_def add_child_def

lemma update_numeral:
  "(x # xs)[numeral k := y] = x # xs[pred_numeral k := y]"
  "(replicate (numeral k) x)[0 := y] = y # replicate (pred_numeral k) x"
  "(replicate (numeral k) x)[Suc i := y] = x # (replicate (pred_numeral k) x)[i := y]"
  "shift_up xs (numeral k) pos = (if numeral k > pos then shift_up (xs[numeral k := xs ! pred_numeral k]) (pred_numeral k) pos else xs)"
  by (simp_all add: numeral_eq_Suc)

lemmas tie_fold = tie_member_def [symmetric, simplified] update_numeral

lemma tie1: "zedis_btree_add (fresh_btree 6) 0 ''a'' = Some (0, tie_tree [tie_leaf [0, 0, 0, 0] 1] 0 ''a'')"
  by (simp add: tie_eval tie_fold)

lemma tie2: "zedis_btree_add (tie_tree [tie_leaf [0, 0, 0, 0] 1] 0 ''a'') 0 ''b'' = Some (0, tie_tree [tie_leaf [0, 1, 0, 0] 2] 0 ''ab'')"
  by (simp add: tie_eval tie_fold)

lemma tie3: "zedis_btree_add (tie_tree [tie_leaf [0, 1, 0, 0] 2] 0 ''ab'') 0 ''d'' = Some (0, tie_tree [tie_leaf [0, 1, 2, 0] 3] 0 ''abd'')"
  by (simp add: tie_eval tie_fold)

lemma tie4: "zedis_btree_add (tie_tree [tie_leaf [0, 1, 2, 0] 3] 0 ''abd'') 0 ''e'' =
  Some (0, tie_tree [tie_leaf [0, 1, 2, 0] 2, tie_inner [0, 2, 0, 0] 1, tie_leaf [2, 3, 0, 0] 2] 1 ''abde'')"
  by (simp add: tie_eval tie_fold)

lemma tie5: "zedis_btree_add (tie_tree [tie_leaf [0, 1, 2, 0] 2, tie_inner [0, 2, 0, 0] 1, tie_leaf [2, 3, 0, 0] 2] 1 ''abde'') 0 ''c'' =
  Some (0, tie_tree [tie_leaf [0, 1, 4, 0] 3, tie_inner [0, 2, 0, 0] 1, tie_leaf [2, 3, 0, 0] 2] 1 ''abdec'')"
  by (simp add: tie_eval tie_fold)

lemma tie6: "zedis_btree_add (tie_tree [tie_leaf [0, 1, 4, 0] 3, tie_inner [0, 2, 0, 0] 1, tie_leaf [2, 3, 0, 0] 2] 1 ''abdec'') 0 ''f'' =
  Some (0, tie_tree [tie_leaf [0, 1, 4, 0] 2, tie_inner [0, 3, 2, 0] 2, tie_leaf [2, 3, 0, 0] 2, tie_leaf [4, 5, 0, 0] 2] 1 ''abdecf'')"
  by (simp add: tie_eval tie_fold)

lemma tie_text: "c \<noteq> NUL \<Longrightarrow> member_text (tie_member c) = [CHR ''$'', CHR ''1'', CR, LF, c, CR, LF]"
  using show_nat_small(1) by (simp add: member_text_def tie_name cstr_id) (simp add: tie_member_def)

lemma show_int_small: "show_int 6 = ''6''" "show_int 3 = ''3''"
  by code_simp+

lemmas range_eval = zedis_btree_range_def reply_start_def tie_eval tie_fold collect_entry_def tie_text show_int_small

text \<open>The members of a list added one after the other with score 0.\<close>

fun zadd_all :: "zedis_btree \<Rightarrow> string \<Rightarrow> zedis_btree option" where
  "zadd_all bt [] = Some bt"
| "zadd_all bt (c # cs) = (case zedis_btree_add bt 0 [c] of Some (rc, bt') \<Rightarrow> (if rc = 0 then zadd_all bt' cs else None) | None \<Rightarrow> None)"

section \<open>Properties\<close>

text \<open>
  Members with equal scores are not listed in the order of their names. After ZADD of a, b, d, e, c, f
  with the same score, ZRANGE answers a, b, c, f, d, e: a new entry goes to the child left of an equal
  separator, and after a split to the right of it, so names are compared inside one leaf only.
\<close>

lemma btree_tie_order:
  "map_option (\<lambda>bt. zedis_btree_range bt 0 (-1) 8192) (zadd_all (fresh_btree 6) ''abdecf'') =
     Some (Some (Some (''*6'' @ crlf @ concat (map (\<lambda>c. ''$1'' @ crlf @ [c] @ crlf) ''abcfde''))))"
proof -
  have "zadd_all (fresh_btree 6) ''abdecf'' =
      Some (tie_tree [tie_leaf [0, 1, 4, 0] 2, tie_inner [0, 3, 2, 0] 2, tie_leaf [2, 3, 0, 0] 2, tie_leaf [4, 5, 0, 0] 2] 1 ''abdecf'')"
    by (simp add: tie1 tie2 tie3 tie4 tie5 tie6 del: One_nat_def)
  then show ?thesis by (simp add: range_eval)
qed

text \<open>
  A range reply that does not fit is malformed. With room for two of three members the reply still
  announces three elements, and \<open>zedis_btree_range\<close> reports success: the client waits for an element
  that never comes.
\<close>

lemma btree_range_truncated:
  "map_option (\<lambda>bt. zedis_btree_range bt 0 (-1) 20) (zadd_all (fresh_btree 6) ''abd'') =
     Some (Some (Some (''*3'' @ crlf @ concat (map (\<lambda>c. ''$1'' @ crlf @ [c] @ crlf) ''ab''))))"
proof -
  have "zadd_all (fresh_btree 6) ''abd'' = Some (tie_tree [tie_leaf [0, 1, 2, 0] 3] 0 ''abd'')"
    by (simp add: tie1 tie2 tie3 del: One_nat_def)
  then show ?thesis by (simp add: range_eval)
qed

end
