(* ===== verification/Key_Registry.thy ===== *)
theory Key_Registry
  imports Hash_Table Append_Log BTree_Set
begin

text \<open>
  The registries of \<^verbatim>\<open>src/src/key_registry.c\<close>: an array of sorted sets and an array of lists, each with a hash
  table that maps a key to the decimal index of its slot. Slots are handed out in order and never
  returned. Results are \<open>None\<close> where a probe loop of the hash table would not return; the lemmas show
  that it does.
\<close>

section \<open>Model\<close>

record zset_registry =
  zr_trees :: "zedis_btree list"
  zr_keys :: zedis_hash_table
  zr_max_zsets :: nat
  zr_used :: nat

record list_registry =
  lr_lists :: "list_meta list"
  lr_keys :: zedis_hash_table
  lr_max_lists :: nat
  lr_used :: nat

definition zset_reg_zero :: zset_registry where
  "zset_reg_zero = \<lparr>zr_trees = [], zr_keys = ht_zero, zr_max_zsets = 0, zr_used = 0\<rparr>"

definition list_reg_zero :: list_registry where
  "list_reg_zero = \<lparr>lr_lists = [], lr_keys = ht_zero, lr_max_lists = 0, lr_used = 0\<rparr>"

definition sizeof_zedis_btree :: nat where "sizeof_zedis_btree = 40"
definition sizeof_list_meta :: nat where "sizeof_list_meta = 12"

text \<open>\<open>Some None\<close> is the return value -1, \<open>Some (Some idx)\<close> is 0 with the index.\<close>

definition lookup_index :: "zedis_hash_table \<Rightarrow> string \<Rightarrow> nat option option" where
  "lookup_index ht key =
     (case zedis_ht_get ht key 32 of
        None \<Rightarrow> None
      | Some None \<Rightarrow> Some None
      | Some (Some (buf, len)) \<Rightarrow> Some (Some (wrap_u32 (strtoul10 buf))))"

definition store_index :: "zedis_hash_table \<Rightarrow> string \<Rightarrow> nat \<Rightarrow> (int \<times> zedis_hash_table) option" where
  "store_index ht key idx =
     (let buf = show_nat idx
      in if length buf \<le> 0 then Some (-1, ht) else zedis_ht_set ht key buf)"

text \<open>The loop of \<open>zedis_zset_reg_init\<close>: \<open>n\<close> trees from slot \<open>i\<close> on.\<close>

fun init_trees :: "nat \<Rightarrow> nat \<Rightarrow> nat \<Rightarrow> zedis_btree list \<Rightarrow> zedis_arena \<Rightarrow> mem \<Rightarrow> int \<times> zedis_btree list \<times> zedis_arena \<times> mem" where
  "init_trees 0 i members trees arena m = (0, trees, arena, m)"
| "init_trees (Suc n) i members trees arena m =
     (case zedis_btree_init arena members m (trees ! i) of
        (rc, tree, arena, m) \<Rightarrow>
          if rc \<noteq> 0 then (-1, trees[i := tree], arena, m)
          else init_trees n (i + 1) members (trees[i := tree]) arena m)"

definition zedis_zset_reg_init ::
  "zset_registry \<Rightarrow> zedis_arena \<Rightarrow> nat \<Rightarrow> nat \<Rightarrow> mem \<Rightarrow> int \<times> zset_registry \<times> zedis_arena \<times> mem" where
  "zedis_zset_reg_init reg0 arena max_zsets max_members m =
     (if max_zsets = 0 then (-1, reg0, arena, m)
      else let reg = zset_reg_zero\<lparr>zr_max_zsets := max_zsets\<rparr> in
        case zedis_arena_calloc arena (of_nat max_zsets) (of_nat sizeof_zedis_btree) 64 m of
          (None, arena, m) \<Rightarrow> (-1, reg, arena, m)
        | (Some p, arena, m) \<Rightarrow>
            (case init_trees max_zsets 0 max_members (replicate max_zsets btree_zero) arena m of
               (rc, trees, arena, m) \<Rightarrow>
                 let reg = reg\<lparr>zr_trees := trees\<rparr> in
                 if rc \<noteq> 0 then (-1, reg, arena, m)
                 else case zedis_ht_init (zr_keys reg) arena (wrap_u32 (max_zsets * 2)) m of
                        (rc, keys, arena, m) \<Rightarrow> (if rc \<noteq> 0 then -1 else 0, reg\<lparr>zr_keys := keys\<rparr>, arena, m)))"

definition zedis_zset_reg_destroy :: "zset_registry \<Rightarrow> zset_registry" where
  "zedis_zset_reg_destroy reg = zset_reg_zero"

definition zset_index_for_key :: "zset_registry \<Rightarrow> string \<Rightarrow> bool \<Rightarrow> (nat option \<times> zset_registry) option" where
  "zset_index_for_key reg key create =
     (case lookup_index (zr_keys reg) key of
        None \<Rightarrow> None
      | Some (Some idx) \<Rightarrow> Some (Some idx, reg)
      | Some None \<Rightarrow>
          (if \<not> create then Some (None, reg)
           else if zr_used reg \<ge> zr_max_zsets reg then Some (None, reg)
           else let idx = zr_used reg; reg = reg\<lparr>zr_used := wrap_u32 (zr_used reg + 1)\<rparr> in
             case store_index (zr_keys reg) key idx of
               None \<Rightarrow> None
             | Some (rc, keys) \<Rightarrow>
                 let reg = reg\<lparr>zr_keys := keys\<rparr> in Some (if rc \<noteq> 0 then None else Some idx, reg)))"

definition zedis_zset_reg_add :: "zset_registry \<Rightarrow> string \<Rightarrow> int \<Rightarrow> string \<Rightarrow> (int \<times> zset_registry) option" where
  "zedis_zset_reg_add reg key score member =
     (case zset_index_for_key reg key True of
        None \<Rightarrow> None
      | Some (None, reg) \<Rightarrow> Some (-1, reg)
      | Some (Some idx, reg) \<Rightarrow>
          (case zedis_btree_add (zr_trees reg ! idx) score member of
             None \<Rightarrow> None
           | Some (rc, tree) \<Rightarrow> Some (rc, reg\<lparr>zr_trees := (zr_trees reg)[idx := tree]\<rparr>)))"

definition zedis_zset_reg_score :: "zset_registry \<Rightarrow> string \<Rightarrow> string \<Rightarrow> int option option" where
  "zedis_zset_reg_score reg key member =
     (case lookup_index (zr_keys reg) key of
        None \<Rightarrow> None
      | Some None \<Rightarrow> Some None
      | Some (Some idx) \<Rightarrow> zedis_btree_score (zr_trees reg ! idx) member)"

text \<open>The reply of a missing key.\<close>

definition empty_reply :: "nat \<Rightarrow> string option" where
  "empty_reply reply_cap = (let n = length (''*0'' @ crlf) in if n \<le> 0 \<or> n \<ge> reply_cap then None else Some (''*0'' @ crlf))"

definition zedis_zset_reg_range :: "zset_registry \<Rightarrow> string \<Rightarrow> int \<Rightarrow> int \<Rightarrow> nat \<Rightarrow> string option option" where
  "zedis_zset_reg_range reg key start stop reply_cap =
     (case lookup_index (zr_keys reg) key of
        None \<Rightarrow> None
      | Some None \<Rightarrow> Some (empty_reply reply_cap)
      | Some (Some idx) \<Rightarrow> zedis_btree_range (zr_trees reg ! idx) start stop reply_cap)"

definition zedis_list_reg_init ::
  "list_registry \<Rightarrow> zedis_arena \<Rightarrow> nat \<Rightarrow> mem \<Rightarrow> int \<times> list_registry \<times> zedis_arena \<times> mem" where
  "zedis_list_reg_init reg0 arena max_lists m =
     (if max_lists = 0 then (-1, reg0, arena, m)
      else let reg = list_reg_zero\<lparr>lr_max_lists := max_lists\<rparr> in
        case zedis_arena_calloc arena (of_nat max_lists) (of_nat sizeof_list_meta) 64 m of
          (None, arena, m) \<Rightarrow> (-1, reg, arena, m)
        | (Some p, arena, m) \<Rightarrow>
            let reg = reg\<lparr>lr_lists := map (\<lambda>l. l\<lparr>lm_head_off := ZEDIS_AOL_NO_PREV, lm_tail_off := ZEDIS_AOL_NO_PREV\<rparr>)
                            (replicate max_lists \<lparr>lm_head_off = 0, lm_tail_off = 0, lm_count = 0\<rparr>)\<rparr> in
            case zedis_ht_init (lr_keys reg) arena (wrap_u32 (max_lists * 2)) m of
              (rc, keys, arena, m) \<Rightarrow> (if rc \<noteq> 0 then -1 else 0, reg\<lparr>lr_keys := keys\<rparr>, arena, m))"

definition zedis_list_reg_destroy :: "list_registry \<Rightarrow> list_registry" where
  "zedis_list_reg_destroy reg = list_reg_zero"

definition list_index_for_key :: "list_registry \<Rightarrow> string \<Rightarrow> bool \<Rightarrow> (nat option \<times> list_registry) option" where
  "list_index_for_key reg key create =
     (case lookup_index (lr_keys reg) key of
        None \<Rightarrow> None
      | Some (Some idx) \<Rightarrow> Some (Some idx, reg)
      | Some None \<Rightarrow>
          (if \<not> create then Some (None, reg)
           else if lr_used reg \<ge> lr_max_lists reg then Some (None, reg)
           else let idx = lr_used reg; reg = reg\<lparr>lr_used := wrap_u32 (lr_used reg + 1)\<rparr> in
             case store_index (lr_keys reg) key idx of
               None \<Rightarrow> None
             | Some (rc, keys) \<Rightarrow>
                 let reg = reg\<lparr>lr_keys := keys\<rparr> in Some (if rc \<noteq> 0 then None else Some idx, reg)))"

definition zedis_list_reg_lpush ::
  "list_registry \<Rightarrow> zedis_append_log \<Rightarrow> string \<Rightarrow> string \<Rightarrow> (int \<times> list_registry \<times> zedis_append_log) option" where
  "zedis_list_reg_lpush reg log key val =
     (case list_index_for_key reg key True of
        None \<Rightarrow> None
      | Some (None, reg) \<Rightarrow> Some (-1, reg, log)
      | Some (Some idx, reg) \<Rightarrow>
          (case zedis_aol_lpush log (lr_lists reg ! idx) key val of
             (rc, log, meta) \<Rightarrow> Some (rc, reg\<lparr>lr_lists := (lr_lists reg)[idx := meta]\<rparr>, log)))"

definition zedis_list_reg_lrange ::
  "list_registry \<Rightarrow> zedis_append_log \<Rightarrow> string \<Rightarrow> int \<Rightarrow> int \<Rightarrow> nat \<Rightarrow> string option option" where
  "zedis_list_reg_lrange reg log key start stop reply_cap =
     (case lookup_index (lr_keys reg) key of
        None \<Rightarrow> None
      | Some None \<Rightarrow> Some (empty_reply reply_cap)
      | Some (Some idx) \<Rightarrow> Some (zedis_aol_lrange log (lr_lists reg ! idx) start stop reply_cap))"

definition zedis_list_reg_llen :: "list_registry \<Rightarrow> string \<Rightarrow> nat option" where
  "zedis_list_reg_llen reg key =
     (case lookup_index (lr_keys reg) key of
        None \<Rightarrow> None
      | Some None \<Rightarrow> Some 0
      | Some (Some idx) \<Rightarrow> Some (zedis_aol_llen (lr_lists reg ! idx)))"

section \<open>The directory of slots\<close>

text \<open>What both registries need of their key table: it finds the slot of a key, no two keys share one, and
  it records the next free slot for a new key unless the key is too long.\<close>

locale slot_directory =
  fixes inv :: "'t \<Rightarrow> nat \<Rightarrow> nat \<Rightarrow> bool" and slot :: "'t \<Rightarrow> string \<Rightarrow> nat option"
    and find :: "'t \<Rightarrow> string \<Rightarrow> nat option option" and store :: "'t \<Rightarrow> string \<Rightarrow> nat \<Rightarrow> (int \<times> 't) option"
  assumes find_slot: "inv t u mx \<Longrightarrow> find t k = Some (slot t k)"
    and slot_used: "inv t u mx \<Longrightarrow> slot t k = Some i \<Longrightarrow> i < u"
    and used_max: "inv t u mx \<Longrightarrow> u \<le> mx \<and> mx < 2 ^ 31"
    and slot_inj: "inv t u mx \<Longrightarrow> slot t k = Some i \<Longrightarrow> slot t k' = Some i \<Longrightarrow> k = k'"
    and store_ok: "inv t u mx \<Longrightarrow> u < mx \<Longrightarrow> slot t k = None \<Longrightarrow> length k \<le> ZEDIS_HT_MAX_KEY \<Longrightarrow>
      \<exists>t'. store t k u = Some (0, t') \<and> inv t' (u + 1) mx \<and> slot t' = (slot t)(k \<mapsto> u)"
    and store_long: "length k > ZEDIS_HT_MAX_KEY \<Longrightarrow> store t k u = Some (-1, t)"
    and inv_leak: "inv t u mx \<Longrightarrow> u < mx \<Longrightarrow> inv t (u + 1) mx"
begin

text \<open>The search for a key that takes the next slot when the key is new, as in the two registries.\<close>

definition acquire :: "'t \<Rightarrow> nat \<Rightarrow> nat \<Rightarrow> string \<Rightarrow> (nat option \<times> 't \<times> nat) option" where
  "acquire t u mx k =
     (case find t k of
        None \<Rightarrow> None
      | Some (Some i) \<Rightarrow> Some (Some i, t, u)
      | Some None \<Rightarrow>
          if u \<ge> mx then Some (None, t, u)
          else case store t k u of None \<Rightarrow> None | Some (rc, t') \<Rightarrow> Some (if rc \<noteq> 0 then None else Some u, t', wrap_u32 (u + 1)))"

lemma acquire_cases:
  assumes "inv t u mx"
  obtains (found) i where "slot t k = Some i" "i < u" "acquire t u mx k = Some (Some i, t, u)"
  | (full) "slot t k = None" "u = mx" "acquire t u mx k = Some (None, t, u)"
  | (fresh) t' where "slot t k = None" "u < mx" "length k \<le> ZEDIS_HT_MAX_KEY" "acquire t u mx k = Some (Some u, t', u + 1)"
      "inv t' (u + 1) mx" "slot t' = (slot t)(k \<mapsto> u)"
  | (leaked) "slot t k = None" "u < mx" "length k > ZEDIS_HT_MAX_KEY" "acquire t u mx k = Some (None, t, u + 1)" "inv t (u + 1) mx"
proof (cases "slot t k")
  case (Some i)
  then show ?thesis using found slot_used [OF assms Some] by (simp add: acquire_def find_slot [OF assms])
next
  case None
  note f = find_slot [OF assms, of k, unfolded None]
  show ?thesis
  proof (cases "u < mx")
    case True
    then have w: "wrap_u32 (u + 1) = u + 1" using used_max [OF assms] by (simp add: wrap_u32_def)
    show ?thesis
    proof (cases "length k \<le> ZEDIS_HT_MAX_KEY")
      case len: True
      then obtain t' where "store t k u = Some (0, t')" "inv t' (u + 1) mx" "slot t' = (slot t)(k \<mapsto> u)"
        using store_ok [OF assms True None] by blast
      then show ?thesis using fresh [of t'] None True len w by (simp add: acquire_def f)
    next
      case False
      then show ?thesis using leaked None True w store_long [of k t u] inv_leak [OF assms True] by (simp add: acquire_def f)
    qed
  next
    case False
    then show ?thesis using full None used_max [OF assms] by (simp add: acquire_def f)
  qed
qed

end

definition key_slot :: "zedis_hash_table \<Rightarrow> string \<Rightarrow> nat option" where
  "key_slot ht key = map_option (dec_value 0) (ht_lookup ht key)"

text \<open>The key table of a registry with \<open>used\<close> of \<open>mx\<close> slots taken.\<close>

definition dir_inv :: "zedis_hash_table \<Rightarrow> nat \<Rightarrow> nat \<Rightarrow> bool" where
  "dir_inv ht used mx \<longleftrightarrow> ht_inv ht \<and> ht_capacity ht = 2 * mx \<and> mx < 2 ^ 31 \<and> ht_count ht \<le> used \<and> used \<le> mx \<and>
     (\<forall>k v. ht_lookup ht k = Some v \<longrightarrow> (\<exists>i < used. v = show_nat i)) \<and> inj_on (ht_lookup ht) (dom (ht_lookup ht))"

lemma dir_inv_slot:
  assumes "dir_inv ht used mx" "ht_lookup ht k = Some v"
  obtains i where "i < used" "v = show_nat i" "key_slot ht k = Some i"
  using assms that by (force simp: dir_inv_def key_slot_def dec_value_show_nat)

lemma length_show_nat: "n < 10 ^ k \<Longrightarrow> 0 < k \<Longrightarrow> length (show_nat n) \<le> k"
proof (induction k arbitrary: n)
  case (Suc k)
  then show ?case
  proof (cases "n < 10")
    case False
    then have "0 < k" using Suc.prems(1) by (cases k) auto
    moreover have "n div 10 < 10 ^ k" using Suc.prems(1) by (simp add: less_mult_imp_div_less mult.commute)
    ultimately show ?thesis using Suc.IH [of "n div 10"] False by (simp add: show_nat.simps [of n])
  qed (simp add: show_nat.simps)
qed simp

lemma lookup_index_slot:
  assumes "dir_inv ht used mx"
  shows "lookup_index ht k = Some (key_slot ht k)"
proof (cases "ht_lookup ht k")
  case None
  then show ?thesis using assms ht.fetch_lookup [of ht k 32] by (simp add: lookup_index_def key_slot_def dir_inv_def)
next
  case (Some v)
  obtain i where i: "i < used" "v = show_nat i" "key_slot ht k = Some i" by (rule dir_inv_slot [OF assms Some])
  have b: "i < 2 ^ 31" using i(1) assms by (simp add: dir_inv_def)
  then have "length (show_nat i) < 32" using length_show_nat [of i 10] by simp
  then obtain out len where "zedis_ht_get ht k 32 = Some (Some (out, len))" "strtoul10 out = i"
    using ht.fetch_number [of ht k i 32] Some i(2) b assms by (auto simp: dir_inv_def)
  then show ?thesis using i(3) b by (simp add: lookup_index_def wrap_u32_def)
qed

lemma store_index_ok:
  assumes I: "dir_inv ht used mx" and "used < mx" "key_slot ht k = None" "length k \<le> ZEDIS_HT_MAX_KEY"
  shows "\<exists>ht'. store_index ht k used = Some (0, ht') \<and> dir_inv ht' (used + 1) mx \<and> key_slot ht' = (key_slot ht)(k \<mapsto> used)"
proof -
  have D: "ht_inv ht" "ht_capacity ht = 2 * mx" "mx < 2 ^ 31" "ht_count ht \<le> used" using I by (simp_all add: dir_inv_def)
  have new: "ht_lookup ht k = None" using assms(3) by (simp add: key_slot_def)
  have "length (show_nat used) \<le> 10" using D(3) assms(2) by (intro length_show_nat) simp_all
  then have "ht_accepts ht k (show_nat used)"
    using assms(2,4) D by (simp add: ht_accepts_def ht_has_room_def ZEDIS_HT_MAX_VALUE_def)
  then obtain ht' where h: "zedis_ht_set ht k (show_nat used) = Some (0, ht')" "ht_inv ht'"
      "ht_lookup ht' = (ht_lookup ht)(k \<mapsto> show_nat used)" "ht_capacity ht' = 2 * mx" "ht_count ht' = ht_count ht + 1"
    using zedis_ht_set_inv [OF D(1)] new D(2) by force
  have old: "ht_lookup ht k' \<noteq> Some (show_nat used)" for k'
    using I dir_inv_slot [OF I, of k' "show_nat used"] by (metis dec_value_show_nat less_irrefl)
  then have "inj_on (ht_lookup ht') (dom (ht_lookup ht'))"
    using I new unfolding h(3) dir_inv_def inj_on_def by (metis domIff fun_upd_apply)
  moreover have "\<exists>i < used + 1. v = show_nat i" if "ht_lookup ht' k' = Some v" for k' v
    using I that unfolding h(3) dir_inv_def by (metis fun_upd_apply less_add_one option.inject trans_less_add1)
  ultimately have "dir_inv ht' (used + 1) mx" using h D assms(2) by (simp add: dir_inv_def)
  moreover have "key_slot ht' = (key_slot ht)(k \<mapsto> used)" by (auto simp: key_slot_def h(3) dec_value_show_nat)
  ultimately show ?thesis using h(1) by (simp add: store_index_def)
qed

interpretation dir: slot_directory dir_inv key_slot lookup_index store_index
proof unfold_locales
  fix t u mx k k' i
  show "dir_inv t u mx \<Longrightarrow> lookup_index t k = Some (key_slot t k)" by (rule lookup_index_slot)
  show "i < u" if "dir_inv t u mx" "key_slot t k = Some i"
    using that dir_inv_slot [OF that(1), of k] by (metis key_slot_def map_option_eq_Some option.inject)
  show "dir_inv t u mx \<Longrightarrow> u \<le> mx \<and> mx < 2 ^ 31" by (simp add: dir_inv_def)
  show "k = k'" if T: "dir_inv t u mx" "key_slot t k = Some i" "key_slot t k' = Some i"
  proof -
    obtain v v' where v: "ht_lookup t k = Some v" "ht_lookup t k' = Some v'" using T(2,3) by (auto simp: key_slot_def)
    then have "v = show_nat i" "v' = show_nat i"
      using dir_inv_slot [OF T(1) v(1)] dir_inv_slot [OF T(1) v(2)] T(2,3) by (metis option.inject)+
    then show ?thesis using v T(1) by (metis dir_inv_def inj_onD domI)
  qed
  show "dir_inv t u mx \<Longrightarrow> u < mx \<Longrightarrow> key_slot t k = None \<Longrightarrow> length k \<le> ZEDIS_HT_MAX_KEY \<Longrightarrow>
      \<exists>t'. store_index t k u = Some (0, t') \<and> dir_inv t' (u + 1) mx \<and> key_slot t' = (key_slot t)(k \<mapsto> u)"
    by (rule store_index_ok)
  show "length k > ZEDIS_HT_MAX_KEY \<Longrightarrow> store_index t k u = Some (-1, t)"
    by (simp add: store_index_def zedis_ht_set_def)
  show "dir_inv t u mx \<Longrightarrow> u < mx \<Longrightarrow> dir_inv t (u + 1) mx" by (auto simp: dir_inv_def less_Suc_eq)
qed

section \<open>Sorted sets by key\<close>

text \<open>The registry as a map from keys to sorted sets; a key without a slot has the empty set.\<close>

definition zsets_of :: "zset_registry \<Rightarrow> string \<Rightarrow> string \<Rightarrow> int option" where
  "zsets_of reg key = (case key_slot (zr_keys reg) key of None \<Rightarrow> Map.empty | Some i \<Rightarrow> zset_of (zr_trees reg ! i))"

definition zreg_inv :: "zset_registry \<Rightarrow> bool" where
  "zreg_inv reg \<longleftrightarrow> dir_inv (zr_keys reg) (zr_used reg) (zr_max_zsets reg) \<and> length (zr_trees reg) = zr_max_zsets reg \<and>
     (\<forall>tree \<in> set (zr_trees reg). btree_inv tree) \<and>
     (\<forall>i < zr_max_zsets reg. zr_used reg \<le> i \<longrightarrow> zset_of (zr_trees reg ! i) = Map.empty)"

text \<open>ZADD is accepted when the key has a slot or can get one, and its tree takes the member.\<close>

definition zreg_admits :: "zset_registry \<Rightarrow> string \<Rightarrow> string \<Rightarrow> bool" where
  "zreg_admits reg key member \<longleftrightarrow>
     (case key_slot (zr_keys reg) key of
        Some i \<Rightarrow> zset_admits (zr_trees reg ! i) member
      | None \<Rightarrow> zr_used reg < zr_max_zsets reg \<and> length key \<le> ZEDIS_HT_MAX_KEY \<and> zset_admits (zr_trees reg ! zr_used reg) member)"

lemma zset_index_acquire:
  "zset_index_for_key reg key True =
     map_option (\<lambda>(i, keys, used). (i, reg\<lparr>zr_keys := keys, zr_used := used\<rparr>)) (dir.acquire (zr_keys reg) (zr_used reg) (zr_max_zsets reg) key)"
  by (cases reg) (auto simp: zset_index_for_key_def dir.acquire_def Let_def split: option.splits)

lemma zreg_tree:
  assumes "zreg_inv reg"
  shows "key_slot (zr_keys reg) key = Some i \<Longrightarrow> i < zr_used reg \<and> i < zr_max_zsets reg \<and> btree_inv (zr_trees reg ! i)"
    "i < zr_max_zsets reg \<Longrightarrow> btree_inv (zr_trees reg ! i)"
proof -
  show tree: "btree_inv (zr_trees reg ! i)" if "i < zr_max_zsets reg" for i using assms that by (simp add: zreg_inv_def)
  have D: "dir_inv (zr_keys reg) (zr_used reg) (zr_max_zsets reg)" using assms by (simp add: zreg_inv_def)
  show "key_slot (zr_keys reg) key = Some i \<Longrightarrow> i < zr_used reg \<and> i < zr_max_zsets reg \<and> btree_inv (zr_trees reg ! i)"
    using dir.slot_used [OF D] dir.used_max [OF D] tree by fastforce
qed

text \<open>Storing a tree in the slot of a key changes the set of that key only.\<close>

lemma zreg_update:
  assumes inv: "zreg_inv reg" and i: "key_slot (zr_keys reg) key = Some i" and t: "btree_inv tree"
  shows "zreg_inv (reg\<lparr>zr_trees := (zr_trees reg)[i := tree]\<rparr>)"
    "zsets_of (reg\<lparr>zr_trees := (zr_trees reg)[i := tree]\<rparr>) = (zsets_of reg)(key := zset_of tree)"
proof -
  have D: "dir_inv (zr_keys reg) (zr_used reg) (zr_max_zsets reg)" "length (zr_trees reg) = zr_max_zsets reg"
    using inv by (simp_all add: zreg_inv_def)
  note b = zreg_tree(1) [OF inv i]
  have "set ((zr_trees reg)[i := tree]) \<subseteq> insert tree (set (zr_trees reg))" by (rule set_update_subset_insert)
  then show "zreg_inv (reg\<lparr>zr_trees := (zr_trees reg)[i := tree]\<rparr>)"
    using inv t b by (auto simp: zreg_inv_def nth_list_update)
  have "key_slot (zr_keys reg) key' \<noteq> Some i" if "key' \<noteq> key" for key' using dir.slot_inj [OF D(1) _ i] that by blast
  then have "zsets_of (reg\<lparr>zr_trees := (zr_trees reg)[i := tree]\<rparr>) key' = ((zsets_of reg)(key := zset_of tree)) key'" for key'
    using b D(2) i by (cases "key' = key"; cases "key_slot (zr_keys reg) key'") (auto simp: zsets_of_def nth_list_update)
  then show "zsets_of (reg\<lparr>zr_trees := (zr_trees reg)[i := tree]\<rparr>) = (zsets_of reg)(key := zset_of tree)" by blast
qed

lemma zreg_fresh:
  assumes inv: "zreg_inv reg" and u: "zr_used reg < zr_max_zsets reg" "key_slot (zr_keys reg) key = None"
    and k: "dir_inv keys (zr_used reg + 1) (zr_max_zsets reg)" "key_slot keys = (key_slot (zr_keys reg))(key \<mapsto> zr_used reg)"
  shows "zreg_inv (reg\<lparr>zr_keys := keys, zr_used := zr_used reg + 1\<rparr>)"
    "zsets_of (reg\<lparr>zr_keys := keys, zr_used := zr_used reg + 1\<rparr>) = zsets_of reg"
  using assms by (auto simp: zreg_inv_def zsets_of_def fun_eq_iff split: option.split)

lemma zreg_leak:
  assumes "zreg_inv reg" "dir_inv (zr_keys reg) (zr_used reg + 1) (zr_max_zsets reg)"
  shows "zreg_inv (reg\<lparr>zr_used := zr_used reg + 1\<rparr>)" "zsets_of (reg\<lparr>zr_used := zr_used reg + 1\<rparr>) = zsets_of reg"
  using assms by (auto simp: zreg_inv_def zsets_of_def fun_eq_iff split: option.split)

text \<open>ZADD to the slot of a key.\<close>

lemma zreg_add_at:
  assumes inv: "zreg_inv reg" and i: "key_slot (zr_keys reg) key = Some i"
  shows "\<exists>tree. zedis_btree_add (zr_trees reg ! i) score member =
      Some (if zset_admits (zr_trees reg ! i) member then 0 else -1, tree) \<and>
    zreg_inv (reg\<lparr>zr_trees := (zr_trees reg)[i := tree]\<rparr>) \<and>
    zsets_of (reg\<lparr>zr_trees := (zr_trees reg)[i := tree]\<rparr>) =
      (if zset_admits (zr_trees reg ! i) member then (zsets_of reg)(key := (zsets_of reg key)(member \<mapsto> score)) else zsets_of reg)"
proof -
  have b: "btree_inv (zr_trees reg ! i)" using zreg_tree(1) [OF inv i] by simp
  have here: "zsets_of reg key = zset_of (zr_trees reg ! i)" using i by (simp add: zsets_of_def)
  show ?thesis
    using b
  proof (cases rule: zset.add_cases [where x = score and m = member])
    case (added tree)
    then show ?thesis using zreg_update [OF inv i added(2)] here by (simp add: Let_def)
  next
    case refused
    then show ?thesis using inv by (simp add: Let_def)
  qed
qed

lemma zset_reg_score_spec: "zreg_inv reg \<Longrightarrow> zedis_zset_reg_score reg key member = Some (zsets_of reg key member)"
  using zreg_tree(1) [of reg key] zset.score_abs
  by (auto simp: zedis_zset_reg_score_def zsets_of_def zreg_inv_def dir.find_slot split: option.split)

lemma zset_reg_add_spec:
  assumes inv: "zreg_inv reg"
  shows "\<exists>reg'. zedis_zset_reg_add reg key score member = Some (if zreg_admits reg key member then 0 else -1, reg') \<and>
    zreg_inv reg' \<and>
    zsets_of reg' = (if zreg_admits reg key member then (zsets_of reg)(key := (zsets_of reg key)(member \<mapsto> score)) else zsets_of reg)"
proof -
  have D: "dir_inv (zr_keys reg) (zr_used reg) (zr_max_zsets reg)" using inv by (simp add: zreg_inv_def)
  show ?thesis
    using D
  proof (cases rule: dir.acquire_cases [where k = key])
    case (found i)
    obtain tree where t: "zedis_btree_add (zr_trees reg ! i) score member = Some (if zset_admits (zr_trees reg ! i) member then 0 else -1, tree)"
      "zreg_inv (reg\<lparr>zr_trees := (zr_trees reg)[i := tree]\<rparr>)" "zsets_of (reg\<lparr>zr_trees := (zr_trees reg)[i := tree]\<rparr>) =
      (if zset_admits (zr_trees reg ! i) member then (zsets_of reg)(key := (zsets_of reg key)(member \<mapsto> score)) else zsets_of reg)"
      using zreg_add_at [OF inv found(1)] by blast
    have "zreg_admits reg key member = zset_admits (zr_trees reg ! i) member" using found(1) by (simp add: zreg_admits_def)
    then show ?thesis using found(3) t by (simp add: zedis_zset_reg_add_def zset_index_acquire)
  next
    case full
    then have "\<not> zreg_admits reg key member" by (simp add: zreg_admits_def)
    then show ?thesis using inv full(3) by (simp add: zedis_zset_reg_add_def zset_index_acquire)
  next
    case leaked
    then show ?thesis using zreg_leak [OF inv leaked(5)] by (simp add: zedis_zset_reg_add_def zset_index_acquire zreg_admits_def)
  next
    case (fresh keys)
    let ?reg = "reg\<lparr>zr_keys := keys, zr_used := zr_used reg + 1\<rparr>"
    note F = zreg_fresh [OF inv fresh(2,1,5,6)]
    have "key_slot (zr_keys ?reg) key = Some (zr_used reg)" by (simp add: fresh(6))
    note A = zreg_add_at [OF F(1) this, of score member, unfolded F(2), simplified]
    have "zreg_admits reg key member = zset_admits (zr_trees reg ! zr_used reg) member" using fresh(1-3) by (simp add: zreg_admits_def)
    then show ?thesis using fresh(4) A by (auto simp: zedis_zset_reg_add_def zset_index_acquire)
  qed
qed

text \<open>ZRANGE of a key, as the listing of its set.\<close>

lemma empty_reply_text: "empty_reply cap = (if length (sent_array []) < cap then Some (sent_array []) else None)"
  by (simp add: empty_reply_def sent_array_def show_nat_0)

lemma zset_reg_range_spec:
  assumes inv: "zreg_inv reg"
  obtains L where "sorted (map fst L)" "distinct (map snd L)" "\<And>name s. zsets_of reg key name = Some s \<longleftrightarrow> (s, name) \<in> set L"
    "\<And>start stop cap. length (sent_array (lrange_spec start stop (map snd L))) < cap \<Longrightarrow>
       zedis_zset_reg_range reg key start stop cap = Some (Some (sent_array (lrange_spec start stop (map snd L))))"
proof (cases "key_slot (zr_keys reg) key")
  have D: "dir_inv (zr_keys reg) (zr_used reg) (zr_max_zsets reg)" using inv by (simp add: zreg_inv_def)
  note r = zedis_zset_reg_range_def dir.find_slot [OF D]
  {
    case None
    then show ?thesis using that [of "[]"] by (simp add: r zsets_of_def empty_reply_text lrange_spec_def)
  next
    case (Some i)
    have b: "btree_inv (zr_trees reg ! i)" using zreg_tree(1) [OF inv Some] by simp
    show ?thesis
      by (rule btree_range_spec [OF b]) (rule that, auto simp: r Some zsets_of_def ordered_pairs_def)
  }
qed

section \<open>Lists by key\<close>

definition lists_held :: "zedis_hash_table \<Rightarrow> list_meta list \<Rightarrow> zedis_append_log \<Rightarrow> (string \<Rightarrow> string list) \<Rightarrow> bool" where
  "lists_held keys metas log vss \<longleftrightarrow>
     (\<forall>key. case key_slot keys key of None \<Rightarrow> vss key = [] | Some i \<Rightarrow> list_rep log (metas ! i) key (vss key))"

text \<open>The registry and the log together hold the lists \<open>vss\<close>, one for each key, newest element first.\<close>

definition lreg_rep :: "list_registry \<Rightarrow> zedis_append_log \<Rightarrow> (string \<Rightarrow> string list) \<Rightarrow> bool" where
  "lreg_rep reg log vss \<longleftrightarrow> dir_inv (lr_keys reg) (lr_used reg) (lr_max_lists reg) \<and> length (lr_lists reg) = lr_max_lists reg \<and>
     log_wf log \<and> (\<forall>key. length (vss key) \<le> lg_write_pos log) \<and>
     lists_held (lr_keys reg) (lr_lists reg) log vss \<and>
     (\<forall>i < lr_max_lists reg. lr_used reg \<le> i \<longrightarrow> lr_lists reg ! i = empty_list)"

definition lreg_admits :: "list_registry \<Rightarrow> zedis_append_log \<Rightarrow> string \<Rightarrow> string \<Rightarrow> bool" where
  "lreg_admits reg log key val \<longleftrightarrow>
     (key_slot (lr_keys reg) key \<noteq> None \<or> lr_used reg < lr_max_lists reg) \<and> log_admits log key val"

lemma list_index_acquire:
  "list_index_for_key reg key True =
     map_option (\<lambda>(i, keys, used). (i, reg\<lparr>lr_keys := keys, lr_used := used\<rparr>)) (dir.acquire (lr_keys reg) (lr_used reg) (lr_max_lists reg) key)"
  by (cases reg) (auto simp: list_index_for_key_def dir.acquire_def Let_def split: option.splits)

lemma lreg_case:
  "lreg_rep reg log vss \<Longrightarrow>
     case key_slot (lr_keys reg) key of None \<Rightarrow> vss key = [] | Some i \<Rightarrow> list_rep log (lr_lists reg ! i) key (vss key)"
  unfolding lreg_rep_def lists_held_def by blast

lemma lreg_slot:
  assumes "lreg_rep reg log vss" "key_slot (lr_keys reg) key = Some i"
  shows "i < lr_used reg" "i < length (lr_lists reg)" "list_rep log (lr_lists reg ! i) key (vss key)"
proof -
  have D: "dir_inv (lr_keys reg) (lr_used reg) (lr_max_lists reg)" using assms(1) by (simp add: lreg_rep_def)
  show "i < lr_used reg" by (rule dir.slot_used [OF D assms(2)])
  then show "i < length (lr_lists reg)" using assms(1) dir.used_max [OF D] by (simp add: lreg_rep_def)
  show "list_rep log (lr_lists reg ! i) key (vss key)" using lreg_case [OF assms(1), of key] by (simp add: assms(2))
qed

lemma list_rep_empty: "list_rep log empty_list key []"
  by (simp add: list_rep_def empty_list_def wrap_u32_def)

lemma lreg_fresh:
  assumes R: "lreg_rep reg log vss" and u: "lr_used reg < lr_max_lists reg" "key_slot (lr_keys reg) key = None"
    and k: "dir_inv keys (lr_used reg + 1) (lr_max_lists reg)" "key_slot keys = (key_slot (lr_keys reg))(key \<mapsto> lr_used reg)"
  shows "lreg_rep (reg\<lparr>lr_keys := keys, lr_used := lr_used reg + 1\<rparr>) log vss"
proof -
  have "vss key = []" using lreg_case [OF R, of key] u(2) by simp
  moreover have "lr_lists reg ! lr_used reg = empty_list" using R u(1) by (simp add: lreg_rep_def)
  ultimately have "list_rep log (lr_lists reg ! lr_used reg) key (vss key)" using list_rep_empty by simp
  moreover have "lists_held (lr_keys reg) (lr_lists reg) log vss" using R by (simp add: lreg_rep_def)
  ultimately have "lists_held keys (lr_lists reg) log vss" unfolding lists_held_def k(2) by simp
  then show ?thesis using R k(1) unfolding lreg_rep_def by simp
qed

lemma lreg_leak:
  "lreg_rep reg log vss \<Longrightarrow> dir_inv (lr_keys reg) (lr_used reg + 1) (lr_max_lists reg) \<Longrightarrow> lreg_rep (reg\<lparr>lr_used := lr_used reg + 1\<rparr>) log vss"
  by (simp add: lreg_rep_def)

lemma lpush_write_pos: "zedis_aol_lpush log meta key val = (rc, log', meta') \<Longrightarrow>
    lg_write_pos log' = lg_write_pos log + (if log_admits log key val then record_size (length key) (length val) else 0)"
  by (auto simp: zedis_aol_lpush_def log_admits_def Let_def split: if_splits)

text \<open>LPUSH to the slot of a key.\<close>

lemma lreg_push_at:
  assumes R: "lreg_rep reg log vss" and i: "key_slot (lr_keys reg) key = Some i"
  shows "\<exists>log' meta. zedis_aol_lpush log (lr_lists reg ! i) key val = (if log_admits log key val then 0 else -1, log', meta) \<and>
    lreg_rep (reg\<lparr>lr_lists := (lr_lists reg)[i := meta]\<rparr>) log' (if log_admits log key val then vss(key := val # vss key) else vss)"
proof (cases "log_admits log key val")
  case True
  note S = lreg_slot [OF R i]
  have W: "log_wf log" and D: "dir_inv (lr_keys reg) (lr_used reg) (lr_max_lists reg)" using R by (simp_all add: lreg_rep_def)
  obtain log' meta where p: "zedis_aol_lpush log (lr_lists reg ! i) key val = (0, log', meta)" "log_wf log'"
      "list_rep log' meta key (val # vss key)"
    using aol.push_ok [OF W S(3) True] by blast
  let ?reg = "reg\<lparr>lr_lists := (lr_lists reg)[i := meta]\<rparr>" and ?vss = "vss(key := val # vss key)"
  have "case key_slot (lr_keys reg) key' of None \<Rightarrow> ?vss key' = [] | Some j \<Rightarrow> list_rep log' ((lr_lists reg)[i := meta] ! j) key' (?vss key')" for key'
  proof (cases "key' = key")
    case True
    then show ?thesis using i p(3) S(2) by simp
  next
    case False
    then have "key_slot (lr_keys reg) key' \<noteq> Some i" using dir.slot_inj [OF D _ i] by blast
    then show ?thesis using False lreg_case [OF R, of key'] aol.push_frame [OF p(1)] by (auto split: option.splits)
  qed
  then have "lists_held (lr_keys reg) ((lr_lists reg)[i := meta]) log' ?vss" unfolding lists_held_def by blast
  moreover have "length (?vss key') \<le> lg_write_pos log'" for key'
  proof -
    have "length (vss key') \<le> lg_write_pos log" "length (vss key) \<le> lg_write_pos log" using R by (simp_all add: lreg_rep_def)
    then show ?thesis using lpush_write_pos [OF p(1)] True by (simp add: record_size_def sizeof_aol_hdr_def)
  qed
  ultimately have "lreg_rep ?reg log' ?vss" using R p(2) S(1) unfolding lreg_rep_def by simp
  then show ?thesis using True p(1) by auto
next
  case False
  then show ?thesis using aol.push_refused R by simp
qed

lemma list_reg_lpush_spec:
  assumes R: "lreg_rep reg log vss"
  shows "\<exists>reg' log'. zedis_list_reg_lpush reg log key val = Some (if lreg_admits reg log key val then 0 else -1, reg', log') \<and>
    lreg_rep reg' log' (if lreg_admits reg log key val then vss(key := val # vss key) else vss)"
proof -
  have D: "dir_inv (lr_keys reg) (lr_used reg) (lr_max_lists reg)" using R by (simp add: lreg_rep_def)
  show ?thesis
    using D
  proof (cases rule: dir.acquire_cases [where k = key])
    case (found i)
    have "lreg_admits reg log key val = log_admits log key val" using found(1) by (simp add: lreg_admits_def)
    then show ?thesis using lreg_push_at [OF R found(1), of val] found(3) by (auto simp: zedis_list_reg_lpush_def list_index_acquire)
  next
    case full
    then have "\<not> lreg_admits reg log key val" by (simp add: lreg_admits_def)
    then show ?thesis using R full(3) by (simp add: zedis_list_reg_lpush_def list_index_acquire)
  next
    case leaked
    then have "\<not> lreg_admits reg log key val" by (simp add: lreg_admits_def log_admits_def ZEDIS_HT_MAX_KEY_def ZEDIS_AOL_MAX_KEY_def)
    then show ?thesis using leaked(4) lreg_leak [OF R leaked(5)] by (simp add: zedis_list_reg_lpush_def list_index_acquire)
  next
    case (fresh keys)
    let ?reg = "reg\<lparr>lr_keys := keys, lr_used := lr_used reg + 1\<rparr>"
    have "key_slot (lr_keys ?reg) key = Some (lr_used reg)" by (simp add: fresh(6))
    note A = lreg_push_at [OF lreg_fresh [OF R fresh(2,1,5,6)] this, of val, simplified]
    have "lreg_admits reg log key val = log_admits log key val" using fresh(2) by (simp add: lreg_admits_def)
    then show ?thesis using fresh(4) A by (auto simp: zedis_list_reg_lpush_def list_index_acquire)
  qed
qed

lemma list_reg_llen_spec:
  assumes R: "lreg_rep reg log vss"
  shows "zedis_list_reg_llen reg key = Some (length (vss key))"
proof -
  have D: "dir_inv (lr_keys reg) (lr_used reg) (lr_max_lists reg)" and n: "length (vss key) < 2 ^ 32"
    using R order_le_less_trans [of "length (vss key)" "lg_write_pos log" "2 ^ 32"] by (auto simp: lreg_rep_def log_wf_def)
  then show ?thesis using lreg_case [OF R, of key]
    by (auto simp: zedis_list_reg_llen_def dir.find_slot [OF D] zedis_aol_llen_def list_rep_def wrap_u32_def split: option.splits)
qed

lemma list_reg_lrange_spec:
  assumes R: "lreg_rep reg log vss"
  shows "zedis_list_reg_lrange reg log key start stop cap =
    Some (let txt = sent_array (lrange_spec start stop (take 1024 (vss key))) in if length txt < cap then Some txt else None)"
proof -
  have D: "dir_inv (lr_keys reg) (lr_used reg) (lr_max_lists reg)" and n: "length (vss key) < 2 ^ 32"
    and W: "lg_write_pos log \<le> lg_capacity log"
    using R order_le_less_trans [of "length (vss key)" "lg_write_pos log" "2 ^ 32"] by (auto simp: lreg_rep_def log_wf_def)
  show ?thesis
  proof (cases "key_slot (lr_keys reg) key")
    case None
    then have "vss key = []" using lreg_case [OF R, of key] by simp
    then show ?thesis using None
      by (simp add: zedis_list_reg_lrange_def dir.find_slot [OF D] empty_reply_text lrange_spec_def Let_def)
  next
    case (Some i)
    then show ?thesis using zedis_aol_lrange_text [OF lreg_slot(3) [OF R Some] W n]
      by (simp add: zedis_list_reg_lrange_def dir.find_slot [OF D] AOL_MAX_OFFSETS_def)
  qed
qed

section \<open>Initialisation\<close>

lemma dir_inv_new:
  assumes "zedis_ht_init ht0 arena (2 * mx) m = (0, ht, arena', m')" "mx < 2 ^ 31"
  shows "dir_inv ht 0 mx" "key_slot ht = Map.empty"
proof -
  have "ht_count ht = 0" using assms(1) by (auto simp: zedis_ht_init_def split: if_splits prod.splits option.splits)
  then show "dir_inv ht 0 mx" "key_slot ht = Map.empty"
    using zedis_ht_init_inv [OF assms(1)] assms(2) by (auto simp: dir_inv_def key_slot_def)
qed

lemma init_trees_fresh:
  assumes "init_trees n i members trees arena m = (0, trees', arena', m')" "i + n = length trees"
    "\<forall>j < i. trees ! j = fresh_btree (min members ZEDIS_BTREE_MAX_ENTRIES)"
  shows "trees' = replicate (length trees) (fresh_btree (min members ZEDIS_BTREE_MAX_ENTRIES))"
  using assms
proof (induction n arbitrary: i trees arena m)
  case 0
  then show ?case by (auto intro: nth_equalityI)
next
  case (Suc n)
  obtain rc tree a m1 where t: "zedis_btree_init arena members m (trees ! i) = (rc, tree, a, m1)" by (metis prod_cases4)
  then have r: "rc = 0" "init_trees n (i + 1) members (trees[i := tree]) a m1 = (0, trees', arena', m')"
    using Suc.prems(1) by (auto split: if_splits)
  have "tree = fresh_btree (min members ZEDIS_BTREE_MAX_ENTRIES)" using zedis_btree_init_fresh(1) t r(1) by simp
  then have "\<forall>j < i + 1. trees[i := tree] ! j = fresh_btree (min members ZEDIS_BTREE_MAX_ENTRIES)"
    using Suc.prems(2,3) by (auto simp: nth_list_update less_Suc_eq)
  then show ?case using Suc.IH [OF r(2)] Suc.prems(2) by simp
qed

lemma zset_reg_init_ok:
  assumes "zedis_zset_reg_init reg0 arena mx members m = (0, reg, arena', m')" "mx < 2 ^ 31"
  shows "zreg_inv reg" "zsets_of reg = (\<lambda>_. Map.empty)" "zr_used reg = 0" "zr_max_zsets reg = mx"
    "zr_trees reg = replicate mx (fresh_btree (min members ZEDIS_BTREE_MAX_ENTRIES))"
proof -
  obtain keys a1 m1 a2 m2 where k: "zedis_ht_init ht_zero a1 (wrap_u32 (mx * 2)) m1 = (0, keys, a2, m2)"
    and t: "\<exists>a m. init_trees mx 0 members (replicate mx btree_zero) a m = (0, zr_trees reg, a1, m1)"
    and r: "reg = \<lparr>zr_trees = zr_trees reg, zr_keys = keys, zr_max_zsets = mx, zr_used = 0\<rparr>"
    using assms(1)
    by (auto simp: zedis_zset_reg_init_def zset_reg_zero_def Let_def split: if_splits prod.splits option.splits) blast
  show T: "zr_trees reg = replicate mx (fresh_btree (min members ZEDIS_BTREE_MAX_ENTRIES))"
    using t init_trees_fresh [of mx 0 members "replicate mx btree_zero"] by auto
  have "wrap_u32 (mx * 2) = 2 * mx" using assms(2) by (simp add: wrap_u32_def)
  with k have "zedis_ht_init ht_zero a1 (2 * mx) m1 = (0, keys, a2, m2)" by simp
  note K = dir_inv_new [OF this assms(2)]
  show "zr_used reg = 0" "zr_max_zsets reg = mx" by (subst r, simp)+
  moreover have "zr_keys reg = keys" by (subst r, simp)
  ultimately show "zreg_inv reg" "zsets_of reg = (\<lambda>_. Map.empty)"
    using K T fresh_btree_inv [of "min members ZEDIS_BTREE_MAX_ENTRIES"] by (auto simp: zreg_inv_def zsets_of_def fun_eq_iff)
qed

lemma list_reg_init_ok:
  assumes "zedis_list_reg_init reg0 arena mx m = (0, reg, arena', m')" "mx < 2 ^ 31" "log_wf log"
  shows "lreg_rep reg log (\<lambda>_. [])" "lr_used reg = 0" "lr_max_lists reg = mx"
proof -
  obtain keys a1 m1 a2 m2 where k: "zedis_ht_init ht_zero a1 (wrap_u32 (mx * 2)) m1 = (0, keys, a2, m2)"
    and r: "reg = \<lparr>lr_lists = replicate mx empty_list, lr_keys = keys, lr_max_lists = mx, lr_used = 0\<rparr>"
    using assms(1) by (auto simp: zedis_list_reg_init_def list_reg_zero_def empty_list_def Let_def split: if_splits prod.splits option.splits)
  have "wrap_u32 (mx * 2) = 2 * mx" using assms(2) by (simp add: wrap_u32_def)
  with k have "zedis_ht_init ht_zero a1 (2 * mx) m1 = (0, keys, a2, m2)" by simp
  note K = dir_inv_new [OF this assms(2)]
  show "lr_used reg = 0" "lr_max_lists reg = mx" "lreg_rep reg log (\<lambda>_. [])"
    using K assms(3) by (simp_all add: r lreg_rep_def lists_held_def)
qed

section \<open>Lost slots\<close>

text \<open>The same request \<open>n\<close> times.\<close>

fun zadd_repeat :: "nat \<Rightarrow> zset_registry \<Rightarrow> string \<Rightarrow> int \<Rightarrow> string \<Rightarrow> zset_registry option" where
  "zadd_repeat 0 reg key score member = Some reg"
| "zadd_repeat (Suc n) reg key score member =
     (case zedis_zset_reg_add reg key score member of None \<Rightarrow> None | Some (rc, reg') \<Rightarrow> zadd_repeat n reg' key score member)"

lemma zadd_repeat_leaks:
  assumes "zreg_inv reg" "key_slot (zr_keys reg) key = None" "length key > ZEDIS_HT_MAX_KEY" "zr_used reg + n \<le> zr_max_zsets reg"
  shows "zadd_repeat n reg key score member = Some (reg\<lparr>zr_used := zr_used reg + n\<rparr>) \<and> zreg_inv (reg\<lparr>zr_used := zr_used reg + n\<rparr>)"
  using assms
proof (induction n arbitrary: reg)
  case (Suc n)
  let ?reg = "reg\<lparr>zr_used := zr_used reg + 1\<rparr>"
  have D: "dir_inv (zr_keys reg) (zr_used reg) (zr_max_zsets reg)" using Suc.prems(1) by (simp add: zreg_inv_def)
  have I: "zreg_inv ?reg"
    using zreg_leak(1) [OF Suc.prems(1)] dir.inv_leak [OF D] Suc.prems(4) by simp
  have "zedis_zset_reg_add reg key score member = Some (-1, ?reg)"
    using D
  proof (cases rule: dir.acquire_cases [where k = key])
    case leaked
    then show ?thesis by (simp add: zedis_zset_reg_add_def zset_index_acquire)
  qed (use Suc.prems in simp_all)
  then show ?case using Suc.IH [OF I] Suc.prems by simp
qed simp

section \<open>Properties\<close>

text \<open>
  C11. The sorted-set registry is a map from keys to maps. With the invariant, \<open>zedis_zset_reg_score\<close> reads
  the score of the member in the set of the key, a missing key being an empty set; \<open>zedis_zset_reg_add\<close>
  returns, keeps the invariant and sets exactly that member of exactly that key, or answers -1 and leaves
  every set as it is.
\<close>

theorem zset_registry_refines:
  assumes "zreg_inv reg"
  shows "zedis_zset_reg_score reg key' member' = Some (zsets_of reg key' member') \<and>
    (\<exists>reg'. zedis_zset_reg_add reg key score member = Some (if zreg_admits reg key member then 0 else -1, reg') \<and> zreg_inv reg' \<and>
      zsets_of reg' = (if zreg_admits reg key member then (zsets_of reg)(key := (zsets_of reg key)(member \<mapsto> score)) else zsets_of reg))"
  using zset_reg_score_spec [OF assms] zset_reg_add_spec [OF assms] by simp

definition demo_zreg :: zset_registry where
  "demo_zreg = \<lparr>zr_trees = replicate 4 (fresh_btree 2), zr_keys = demo_table, zr_max_zsets = 4, zr_used = 0\<rparr>"

lemma demo_dir: "dir_inv demo_table 0 4" "key_slot demo_table = Map.empty"
  using demo_table_inv by (simp_all add: dir_inv_def key_slot_def [abs_def]) (simp_all add: demo_table_def)

lemma demo_zreg_inv: "zreg_inv demo_zreg" "zsets_of demo_zreg = (\<lambda>_. Map.empty)" "zreg_admits demo_zreg ''k'' ''a''"
  using demo_dir fresh_btree_inv [of 2]
  by (auto simp: zreg_inv_def demo_zreg_def zsets_of_def zreg_admits_def zset_admits_def ZEDIS_BTREE_MAX_ENTRIES_def
      ZEDIS_HT_MAX_KEY_def ZEDIS_BTREE_MAX_MEMBER_def fresh_btree_def btree_zero_def)

theorem zset_registry_refines_witness:
  "\<exists>reg'. zedis_zset_reg_add demo_zreg ''k'' 7 ''a'' = Some (0, reg') \<and> zsets_of reg' ''k'' ''a'' = Some 7 \<and>
     zsets_of reg' ''l'' ''a'' = None"
  using zset_registry_refines [OF demo_zreg_inv(1), of "''k''" "''a''" "''k''" 7 "''a''"] demo_zreg_inv(2,3) by auto

text \<open>
  C10. The list registry is a map from keys to lists. When registry and log hold the lists \<open>vss\<close>, LPUSH
  prepends the value to the list of its key and leaves all others, or answers -1 and changes no list;
  LLEN is the length of the list; LRANGE answers with the array of the elements between the two positions
  of the newest 1024 elements if that fits the reply, and fails otherwise.
\<close>

theorem list_registry_refines:
  assumes "lreg_rep reg log vss"
  shows "(\<exists>reg' log'. zedis_list_reg_lpush reg log key val = Some (if lreg_admits reg log key val then 0 else -1, reg', log') \<and>
      lreg_rep reg' log' (if lreg_admits reg log key val then vss(key := val # vss key) else vss)) \<and>
    zedis_list_reg_llen reg key' = Some (length (vss key')) \<and>
    zedis_list_reg_lrange reg log key' start stop cap =
      Some (let txt = sent_array (lrange_spec start stop (take 1024 (vss key'))) in if length txt < cap then Some txt else None)"
  using list_reg_lpush_spec [OF assms] list_reg_llen_spec [OF assms] list_reg_lrange_spec [OF assms] by simp

definition demo_lreg :: list_registry where
  "demo_lreg = \<lparr>lr_lists = replicate 4 empty_list, lr_keys = demo_table, lr_max_lists = 4, lr_used = 0\<rparr>"

lemma demo_lreg_rep: "lreg_rep demo_lreg demo_log (\<lambda>_. [])" "lreg_admits demo_lreg demo_log ''k'' ''v''"
  using demo_dir demo_log_ok by (simp_all add: lreg_rep_def lists_held_def demo_lreg_def lreg_admits_def)

theorem list_registry_refines_witness:
  "\<exists>reg' log'. zedis_list_reg_lpush demo_lreg demo_log ''k'' ''v'' = Some (0, reg', log') \<and>
     zedis_list_reg_llen reg' ''k'' = Some 1 \<and> zedis_list_reg_llen reg' ''l'' = Some 0"
proof -
  obtain reg' log' where r: "zedis_list_reg_lpush demo_lreg demo_log ''k'' ''v'' = Some (0, reg', log')"
      "lreg_rep reg' log' ((\<lambda>_. [])(''k'' := [''v'']))"
    using conjunct1 [OF list_registry_refines [OF demo_lreg_rep(1), of "''k''" "''v''"]] demo_lreg_rep(2) by auto
  then show ?thesis using list_registry_refines [OF r(2)] by simp
qed

text \<open>
  C38. A key that is too long costs a slot. \<open>zset_index_for_key\<close> counts the slot as used before the key
  table refuses the key, so ZADD with one key of more than 256 bytes, repeated as often as slots are free,
  fails each time and leaves a registry that refuses every new key forever.
\<close>

theorem zset_slots_exhausted:
  assumes "zreg_inv reg" and "key_slot (zr_keys reg) key = None" and "length key > ZEDIS_HT_MAX_KEY"
  shows "\<exists>reg'. zadd_repeat (zr_max_zsets reg - zr_used reg) reg key score member = Some reg' \<and> zsets_of reg' = zsets_of reg \<and>
    (\<forall>key2 score2 member2. key_slot (zr_keys reg) key2 = None \<longrightarrow> zedis_zset_reg_add reg' key2 score2 member2 = Some (-1, reg'))"
proof -
  let ?reg = "reg\<lparr>zr_used := zr_max_zsets reg\<rparr>"
  have "zr_used reg \<le> zr_max_zsets reg" using assms(1) by (simp add: zreg_inv_def dir_inv_def)
  then have "zadd_repeat (zr_max_zsets reg - zr_used reg) reg key score member = Some ?reg \<and> zreg_inv ?reg"
    using zadd_repeat_leaks [OF assms, of "zr_max_zsets reg - zr_used reg"] by simp
  moreover have "lookup_index (zr_keys reg) key2 = Some (key_slot (zr_keys reg) key2)" for key2
    using dir.find_slot assms(1) unfolding zreg_inv_def by blast
  then have "zedis_zset_reg_add ?reg key2 score2 member2 = Some (-1, ?reg)" if "key_slot (zr_keys reg) key2 = None" for key2 score2 member2
    using that by (simp add: zedis_zset_reg_add_def zset_index_for_key_def)
  moreover have "zsets_of ?reg = zsets_of reg" by (auto simp: zsets_of_def fun_eq_iff split: option.split)
  ultimately show ?thesis by blast
qed

theorem zset_slots_exhausted_witness:
  "\<exists>reg'. zadd_repeat 4 demo_zreg (replicate 257 CHR ''x'') 0 ''a'' = Some reg' \<and> zedis_zset_reg_add reg' ''k'' 7 ''a'' = Some (-1, reg')"
proof -
  have "zr_max_zsets demo_zreg - zr_used demo_zreg = 4" "key_slot (zr_keys demo_zreg) = Map.empty"
    using demo_dir by (simp_all add: demo_zreg_def)
  then show ?thesis
    using zset_slots_exhausted [OF demo_zreg_inv(1), of "replicate 257 CHR ''x''" 0 "''a''"] by (auto simp: ZEDIS_HT_MAX_KEY_def)
qed

end
