(* ===== verification/Event_Loop.thy ===== *)
theory Event_Loop
  imports Arena
begin

text \<open>
  The operating system as the program sees it, and the event loop of \<^verbatim>\<open>src/src/event_loop.c\<close>.

  System calls are not part of the program: they are the fields of a record \<open>'w os\<close> over a state \<open>'w\<close> of
  which nothing is known, passed to every definition that makes such a call. What a theorem needs of
  them is one of the predicates below. The handlers are the three functions the program registers.
\<close>

unbundle bit_operations_syntax

section \<open>The operating system\<close>

text \<open>The outcome of \<open>write\<close>, \<open>read\<close> and \<open>epoll_wait\<close>: a result, or an \<open>errno\<close> the program distinguishes.\<close>

datatype write_result = WroteBytes nat | WriteAgain | WriteError
datatype read_result = ReadBytes string | ReadAgain | ReadError
datatype wait_result = Ready "(int \<times> nat) list" | WaitInterrupted | WaitError

datatype epoll_op = EPOLL_CTL_ADD | EPOLL_CTL_MOD | EPOLL_CTL_DEL

text \<open>The dispositions of a signal the program distinguishes: its own handler, and anything set before it ran.\<close>

datatype disposition = HANDLE_SHUTDOWN_SIGNAL | Previous nat

text \<open>\<open>os_memory w n\<close> is the contents of \<open>n\<close> bytes of memory that has not been written. \<open>os_signal\<close> and \<open>os_set_signal\<close>
  read and write the variable \<open>signal_received\<close>, which the signal handler may write at any time. \<open>os_mmap w True n\<close>
  asks for huge pages. \<open>os_map_log\<close> is the mapping of a file, or of no file when the descriptor is -1. \<open>os_calloc\<close>
  tells whether the allocator had memory.\<close>

record 'w os =
  os_epoll_create :: "'w \<Rightarrow> int \<times> 'w"
  os_epoll_ctl :: "'w \<Rightarrow> epoll_op \<Rightarrow> int \<Rightarrow> nat \<Rightarrow> int \<times> 'w"
  os_epoll_wait :: "'w \<Rightarrow> int \<Rightarrow> wait_result \<times> 'w"
  os_signal :: "'w \<Rightarrow> int"
  os_set_signal :: "'w \<Rightarrow> int \<Rightarrow> 'w"
  os_sigaction :: "'w \<Rightarrow> int \<Rightarrow> disposition \<Rightarrow> (int \<times> disposition) \<times> 'w"
  os_close :: "'w \<Rightarrow> int \<Rightarrow> 'w"
  os_read :: "'w \<Rightarrow> int \<Rightarrow> nat \<Rightarrow> read_result \<times> 'w"
  os_write :: "'w \<Rightarrow> int \<Rightarrow> string \<Rightarrow> write_result \<times> 'w"
  os_socket :: "'w \<Rightarrow> int \<times> 'w"
  os_setsockopt :: "'w \<Rightarrow> int \<Rightarrow> int \<times> 'w"
  os_bind :: "'w \<Rightarrow> int \<Rightarrow> nat \<Rightarrow> int \<times> 'w"
  os_listen :: "'w \<Rightarrow> int \<Rightarrow> int \<times> 'w"
  os_accept :: "'w \<Rightarrow> int \<Rightarrow> int \<times> 'w"
  os_getfl :: "'w \<Rightarrow> int \<Rightarrow> int \<times> 'w"
  os_setfl :: "'w \<Rightarrow> int \<Rightarrow> int \<Rightarrow> int \<times> 'w"
  os_malloc :: "'w \<Rightarrow> nat \<Rightarrow> string option \<times> 'w"
  os_calloc :: "'w \<Rightarrow> bool \<times> 'w"
  os_memory :: "'w \<Rightarrow> nat \<Rightarrow> string"
  os_mmap :: "'w \<Rightarrow> bool \<Rightarrow> u64 \<Rightarrow> u64 option \<times> 'w"
  os_open :: "'w \<Rightarrow> string \<Rightarrow> int \<times> 'w"
  os_ftruncate :: "'w \<Rightarrow> int \<Rightarrow> nat \<Rightarrow> int \<times> 'w"
  os_map_log :: "'w \<Rightarrow> int \<Rightarrow> nat \<Rightarrow> (nat \<Rightarrow> char) option \<times> 'w"
  os_msync :: "'w \<Rightarrow> nat \<Rightarrow> 'w"
  os_munmap :: "'w \<Rightarrow> nat \<Rightarrow> 'w"
  os_clock :: "'w \<Rightarrow> (nat \<times> nat) option \<times> 'w"
  os_mkstemp :: "'w \<Rightarrow> string \<Rightarrow> (int \<times> string) \<times> 'w"
  os_fchmod :: "'w \<Rightarrow> int \<Rightarrow> int \<times> 'w"
  os_fdopen :: "'w \<Rightarrow> int \<Rightarrow> bool \<times> 'w"
  os_fprintf :: "'w \<Rightarrow> int \<Rightarrow> string \<Rightarrow> int \<times> 'w"
  os_fflush :: "'w \<Rightarrow> int \<Rightarrow> int \<times> 'w"
  os_fsync :: "'w \<Rightarrow> int \<Rightarrow> int \<times> 'w"
  os_fclose :: "'w \<Rightarrow> int \<Rightarrow> int \<times> 'w"
  os_rename :: "'w \<Rightarrow> string \<Rightarrow> string \<Rightarrow> int \<times> 'w"
  os_unlink :: "'w \<Rightarrow> string \<Rightarrow> 'w"
  os_setaffinity :: "'w \<Rightarrow> int \<Rightarrow> int \<times> 'w"
  os_stderr :: "'w \<Rightarrow> string \<Rightarrow> 'w"

text \<open>\<open>write\<close> on a stream takes between one and all of the bytes offered, or fails.\<close>

definition write_progress :: "'w os \<Rightarrow> bool" where
  "write_progress os \<longleftrightarrow> (\<forall>w fd data n w'. data \<noteq> [] \<longrightarrow> os_write os w fd data = (WroteBytes n, w') \<longrightarrow> 0 < n \<and> n \<le> length data)"

definition memory_sized :: "'w os \<Rightarrow> bool" where
  "memory_sized os \<longleftrightarrow> (\<forall>w n. length (os_memory os w n) = n) \<and> (\<forall>w n b w'. os_malloc os w n = (Some b, w') \<longrightarrow> length b = n)"

text \<open>What the kernel keeps for the process: the descriptors on the interest list of the event loop, the open
  descriptors, and how many bytes and connections the peers will have delivered before the server waits again.\<close>

record 'w kernel =
  k_watched :: "'w \<Rightarrow> int set"
  k_open :: "'w \<Rightarrow> int set"
  k_input :: "'w \<Rightarrow> nat"

text \<open>A call that touches neither descriptor table and brings no new input.\<close>

definition undisturbed :: "'w kernel \<Rightarrow> 'w \<Rightarrow> 'w \<Rightarrow> bool" where
  "undisturbed K w w' \<longleftrightarrow> k_watched K w' = k_watched K w \<and> k_open K w' = k_open K w \<and> k_input K w' \<le> k_input K w"

text \<open>\<open>epoll_ctl\<close>, \<open>close\<close>, \<open>accept\<close>, \<open>read\<close> and the rest as their manual pages have them: \<open>EPOLL_CTL_MOD\<close> succeeds only for
  a watched descriptor, \<open>EPOLL_CTL_DEL\<close> always for one; closing a descriptor takes it off the interest list;
  \<open>accept\<close> returns a descriptor that was not open; \<open>read\<close> returns at most as many bytes as asked for.\<close>

definition kernel_ok :: "'w os \<Rightarrow> 'w kernel \<Rightarrow> bool" where
  "kernel_ok os K \<longleftrightarrow> write_progress os \<and> memory_sized os \<and>
     (\<forall>w fd data. undisturbed K w (snd (os_write os w fd data))) \<and>
     (\<forall>w fd ev. undisturbed K w (snd (os_epoll_ctl os w EPOLL_CTL_MOD fd ev)) \<and>
        (fst (os_epoll_ctl os w EPOLL_CTL_MOD fd ev) = 0 \<longrightarrow> fd \<in> k_watched K w)) \<and>
     (\<forall>w fd ev rc w'. os_epoll_ctl os w EPOLL_CTL_ADD fd ev = (rc, w') \<longrightarrow>
        k_watched K w' = (if rc = 0 then insert fd (k_watched K w) else k_watched K w) \<and> k_open K w' = k_open K w \<and> k_input K w' \<le> k_input K w) \<and>
     (\<forall>w fd ev rc w'. os_epoll_ctl os w EPOLL_CTL_DEL fd ev = (rc, w') \<longrightarrow> (fd \<in> k_watched K w \<longrightarrow> rc = 0) \<and>
        k_watched K w' = k_watched K w - {fd} \<and> k_open K w' = k_open K w \<and> k_input K w' \<le> k_input K w) \<and>
     (\<forall>w fd. k_watched K (os_close os w fd) = k_watched K w - {fd} \<and> k_open K (os_close os w fd) = k_open K w - {fd} \<and>
        k_input K (os_close os w fd) \<le> k_input K w) \<and>
     (\<forall>w fd n. undisturbed K w (snd (os_read os w fd n))) \<and>
     (\<forall>w fd n bs w'. os_read os w fd n = (ReadBytes bs, w') \<longrightarrow> length bs \<le> n \<and> (bs \<noteq> [] \<longrightarrow> k_input K w' < k_input K w)) \<and>
     (\<forall>w fd r w'. os_accept os w fd = (r, w') \<longrightarrow>
        (if r < 0 then undisturbed K w w'
         else r \<notin> k_open K w \<and> k_open K w' = insert r (k_open K w) \<and> k_watched K w' = k_watched K w \<and> k_input K w' < k_input K w)) \<and>
     (\<forall>w fd. undisturbed K w (snd (os_getfl os w fd))) \<and> (\<forall>w fd fl. undisturbed K w (snd (os_setfl os w fd fl))) \<and>
     (\<forall>w n. undisturbed K w (snd (os_malloc os w n))) \<and>
     (\<forall>w t. k_watched K (snd (os_epoll_wait os w t)) = k_watched K w \<and> k_open K (snd (os_epoll_wait os w t)) = k_open K w)"

lemma undisturbed_refl [simp]: "undisturbed K w w"
  by (simp add: undisturbed_def)

lemma undisturbed_trans: "undisturbed K w w1 \<Longrightarrow> undisturbed K w1 w2 \<Longrightarrow> undisturbed K w w2"
  by (simp add: undisturbed_def)

lemma kernel_calls:
  assumes "kernel_ok os K"
  shows "write_progress os" "memory_sized os"
    "os_write os w fd data = (r, w') \<Longrightarrow> undisturbed K w w'"
    "os_epoll_ctl os w EPOLL_CTL_MOD fd ev = (rc, w') \<Longrightarrow> undisturbed K w w'"
    "os_epoll_ctl os w EPOLL_CTL_MOD fd ev = (0, w') \<Longrightarrow> fd \<in> k_watched K w"
    "os_read os w fd n = (rr, w') \<Longrightarrow> undisturbed K w w'"
    "os_getfl os w fd = (rc, w') \<Longrightarrow> undisturbed K w w'" "os_setfl os w fd fl = (rc, w') \<Longrightarrow> undisturbed K w w'"
    "os_malloc os w n = (b, w') \<Longrightarrow> undisturbed K w w'"
proof -
  note k = assms [unfolded kernel_ok_def]
  show "write_progress os" "memory_sized os" using k by simp_all
  show "os_write os w fd data = (r, w') \<Longrightarrow> undisturbed K w w'" using k by (elim conjE) (metis snd_conv)
  show "os_epoll_ctl os w EPOLL_CTL_MOD fd ev = (rc, w') \<Longrightarrow> undisturbed K w w'" using k by (elim conjE) (metis snd_conv)
  show "os_epoll_ctl os w EPOLL_CTL_MOD fd ev = (0, w') \<Longrightarrow> fd \<in> k_watched K w" using k by (elim conjE) (metis fst_conv)
  show "os_read os w fd n = (rr, w') \<Longrightarrow> undisturbed K w w'" using k by (elim conjE) (metis snd_conv)
  show "os_getfl os w fd = (rc, w') \<Longrightarrow> undisturbed K w w'" using k by (elim conjE) (metis snd_conv)
  show "os_setfl os w fd fl = (rc, w') \<Longrightarrow> undisturbed K w w'" using k by (elim conjE) (metis snd_conv)
  show "os_malloc os w n = (b, w') \<Longrightarrow> undisturbed K w w'" using k by (elim conjE) (metis snd_conv)
qed

lemma kernel_tables:
  assumes "kernel_ok os K"
  shows "os_epoll_ctl os w EPOLL_CTL_ADD fd ev = (rc, w') \<Longrightarrow>
      k_watched K w' = (if rc = 0 then insert fd (k_watched K w) else k_watched K w) \<and> k_open K w' = k_open K w \<and> k_input K w' \<le> k_input K w"
    "os_epoll_ctl os w EPOLL_CTL_DEL fd ev = (rc, w') \<Longrightarrow> (fd \<in> k_watched K w \<longrightarrow> rc = 0) \<and>
      k_watched K w' = k_watched K w - {fd} \<and> k_open K w' = k_open K w \<and> k_input K w' \<le> k_input K w"
    "k_watched K (os_close os w fd) = k_watched K w - {fd}" "k_open K (os_close os w fd) = k_open K w - {fd}"
    "k_input K (os_close os w fd) \<le> k_input K w"
    "os_read os w fd n = (ReadBytes bs, w') \<Longrightarrow> length bs \<le> n \<and> (bs \<noteq> [] \<longrightarrow> k_input K w' < k_input K w)"
    "os_accept os w fd = (r, w') \<Longrightarrow> if r < 0 then undisturbed K w w'
      else r \<notin> k_open K w \<and> k_open K w' = insert r (k_open K w) \<and> k_watched K w' = k_watched K w \<and> k_input K w' < k_input K w"
    "os_epoll_wait os w t = (wr, w') \<Longrightarrow> k_watched K w' = k_watched K w \<and> k_open K w' = k_open K w"
proof -
  note k = assms [unfolded kernel_ok_def]
  show "os_epoll_ctl os w EPOLL_CTL_ADD fd ev = (rc, w') \<Longrightarrow>
      k_watched K w' = (if rc = 0 then insert fd (k_watched K w) else k_watched K w) \<and> k_open K w' = k_open K w \<and> k_input K w' \<le> k_input K w"
    using k by (elim conjE) metis
  show "os_epoll_ctl os w EPOLL_CTL_DEL fd ev = (rc, w') \<Longrightarrow> (fd \<in> k_watched K w \<longrightarrow> rc = 0) \<and>
      k_watched K w' = k_watched K w - {fd} \<and> k_open K w' = k_open K w \<and> k_input K w' \<le> k_input K w"
    using k by (elim conjE) metis
  have "k_watched K (os_close os w fd) = k_watched K w - {fd} \<and> k_open K (os_close os w fd) = k_open K w - {fd} \<and>
      k_input K (os_close os w fd) \<le> k_input K w" using k by (elim conjE) metis
  then show "k_watched K (os_close os w fd) = k_watched K w - {fd}" "k_open K (os_close os w fd) = k_open K w - {fd}"
    "k_input K (os_close os w fd) \<le> k_input K w" by simp_all
  show "os_read os w fd n = (ReadBytes bs, w') \<Longrightarrow> length bs \<le> n \<and> (bs \<noteq> [] \<longrightarrow> k_input K w' < k_input K w)"
    using k by (elim conjE) metis
  show "os_accept os w fd = (r, w') \<Longrightarrow> if r < 0 then undisturbed K w w'
      else r \<notin> k_open K w \<and> k_open K w' = insert r (k_open K w) \<and> k_watched K w' = k_watched K w \<and> k_input K w' < k_input K w"
    using k by (elim conjE) metis
  show "os_epoll_wait os w t = (wr, w') \<Longrightarrow> k_watched K w' = k_watched K w \<and> k_open K w' = k_open K w"
    using k by (elim conjE) (metis snd_conv)
qed

section \<open>The event loop\<close>

definition ZEDIS_MAX_EVENTS :: nat where "ZEDIS_MAX_EVENTS = 1024"
definition ZEDIS_MAX_FDS :: int where "ZEDIS_MAX_FDS = 4096"

definition EPOLLIN :: nat where "EPOLLIN = 1"
definition EPOLLOUT :: nat where "EPOLLOUT = 4"
definition EPOLLET :: nat where "EPOLLET = 2 ^ 31"

datatype handler = CONN_ON_READABLE | CONN_ON_WRITABLE | SERVER_ON_ACCEPT

record event_loop =
  el_epfd :: int
  el_stop :: bool
  el_max_fds :: int
  el_handlers :: "(handler option \<times> nat) list"

definition sizeof_event_loop :: nat where "sizeof_event_loop = 12312"
definition sizeof_handler :: nat where "sizeof_handler = 16"

definition event_loop_create ::
  "'w os \<Rightarrow> 'w \<Rightarrow> zedis_arena \<Rightarrow> int \<Rightarrow> mem \<Rightarrow> event_loop option \<times> zedis_arena \<times> mem \<times> 'w" where
  "event_loop_create os w arena max_fds m =
     (if max_fds \<le> 0 then (None, arena, m, w)
      else case zedis_arena_calloc arena 1 (of_nat sizeof_event_loop) 64 m of
        (None, arena, m) \<Rightarrow> (None, arena, m, w)
      | (Some p, arena, m) \<Rightarrow>
          (case zedis_arena_calloc arena (of_int max_fds) (of_nat sizeof_handler) 64 m of
             (None, arena, m) \<Rightarrow> (None, arena, m, w)
           | (Some q, arena, m) \<Rightarrow>
               (case os_epoll_create os w of
                  (epfd, w) \<Rightarrow>
                    if epfd < 0 then (None, arena, m, w)
                    else (Some \<lparr>el_epfd = epfd, el_stop = False, el_max_fds = max_fds,
                                el_handlers = replicate (nat max_fds) (None, 0)\<rparr>, arena, m, w))))"

definition event_loop_destroy :: "'w os \<Rightarrow> 'w \<Rightarrow> event_loop \<Rightarrow> 'w" where
  "event_loop_destroy os w loop = (if el_epfd loop \<ge> 0 then os_close os w (el_epfd loop) else w)"

definition event_loop_add ::
  "'w os \<Rightarrow> 'w \<Rightarrow> event_loop \<Rightarrow> int \<Rightarrow> nat \<Rightarrow> handler \<Rightarrow> nat \<Rightarrow> int \<times> event_loop \<times> 'w" where
  "event_loop_add os w loop fd events handler userdata =
     (if fd < 0 \<or> fd \<ge> el_max_fds loop then (-1, loop, w)
      else case os_epoll_ctl os w EPOLL_CTL_ADD fd events of
        (rc, w) \<Rightarrow>
          if rc \<noteq> 0 then (-1, loop, w)
          else (0, loop\<lparr>el_handlers := (el_handlers loop)[nat fd := (Some handler, userdata)]\<rparr>, w))"

definition event_loop_mod ::
  "'w os \<Rightarrow> 'w \<Rightarrow> event_loop \<Rightarrow> int \<Rightarrow> nat \<Rightarrow> handler \<Rightarrow> nat \<Rightarrow> int \<times> event_loop \<times> 'w" where
  "event_loop_mod os w loop fd events handler userdata =
     (if fd < 0 \<or> fd \<ge> el_max_fds loop then (-1, loop, w)
      else case os_epoll_ctl os w EPOLL_CTL_MOD fd events of
        (rc, w) \<Rightarrow>
          if rc \<noteq> 0 then (-1, loop, w)
          else (0, loop\<lparr>el_handlers := (el_handlers loop)[nat fd := (Some handler, userdata)]\<rparr>, w))"

definition event_loop_del :: "'w os \<Rightarrow> 'w \<Rightarrow> event_loop \<Rightarrow> int \<Rightarrow> int \<times> event_loop \<times> 'w" where
  "event_loop_del os w loop fd =
     (case os_epoll_ctl os w EPOLL_CTL_DEL fd 0 of
        (rc, w) \<Rightarrow>
          if rc \<noteq> 0 then (-1, loop, w)
          else (0, if fd \<ge> 0 \<and> fd < el_max_fds loop then loop\<lparr>el_handlers := (el_handlers loop)[nat fd := (None, 0)]\<rparr>
                   else loop, w))"

definition event_loop_stop :: "event_loop \<Rightarrow> event_loop" where
  "event_loop_stop loop = loop\<lparr>el_stop := True\<rparr>"

end
