(* ===== verification/Server_State.thy ===== *)
theory Server_State
  imports Event_Loop Slab Hash_Table Order_Book Ring_Buffer Append_Log Key_Registry Resp_Format "HOL-Library.Monad_Syntax"
begin

text \<open>
  The state of a running server: the configuration (\<^verbatim>\<open>src/include/zedis.h\<close>), the metrics counters
  (\<^verbatim>\<open>src/src/metrics.c\<close>), a connection (\<^verbatim>\<open>src/include/conn.h\<close>) and the server structure (\<^verbatim>\<open>src/include/server.h\<close>),
  and the list of connections (\<open>server_link_conn\<close>, \<open>server_unlink_conn\<close>).

  Connections live in a store from addresses to records, because they are linked to each other and the
  event loop holds their addresses. An operation that follows an address of no live connection has the
  result \<open>None\<close>, like a loop that does not return; a theorem that an operation is defined therefore also says
  that it never uses a connection after it was freed. The state of the operating system is a field of
  the server record.
\<close>

section \<open>Types\<close>

record zedis_config =
  cf_port :: nat
  cf_cpu_core :: int
  cf_arena_size :: nat
  cf_max_keys :: nat
  cf_max_connections :: nat
  cf_ring_capacity :: nat
  cf_max_zsets :: nat
  cf_max_lists :: nat
  cf_zset_members :: nat
  cf_aol_size :: nat
  cf_aol_path :: "string option"
  cf_book_price_min :: int
  cf_book_price_max :: int
  cf_busy_poll :: bool
  cf_metrics_dir :: "string option"
  cf_metrics_interval_ms :: nat

record zedis_metrics =
  mt_collector_dir :: string
  mt_interval_ms :: nat
  mt_last_write_ms :: nat
  mt_command_counts :: "nat list"

definition ZEDIS_CONN_WRITE_SIZE :: nat where "ZEDIS_CONN_WRITE_SIZE = 4096"

text \<open>The size of \<open>subscribe_channel\<close>.\<close>

definition sub_channel_cap :: nat where "sub_channel_cap = 64"

text \<open>\<open>cn_write_buf\<close> is the address of the write buffer, \<open>cn_write_data\<close> its bytes; the back pointers to the
  server and its event loop are the state itself.\<close>

record conn =
  cn_fd :: int
  cn_parser :: resp_parser
  cn_write_buf :: addr
  cn_write_data :: string
  cn_write_len :: nat
  cn_write_sent :: nat
  cn_channel :: string
  cn_subscribed :: bool
  cn_closed :: bool
  cn_next :: addr
  cn_prev :: addr

text \<open>Added to the fields of the source: the slab's memory, the addresses \<open>malloc\<close> will return for nodes, the
  store of connections, and the operating system. The write buffer of a connection is a block of the
  4096-byte class whose payload is 8 bytes shorter (\<open>slab_hdr\<close>); \<open>sv_overrun\<close> records that bytes were written behind
  the payload. What they destroy there is not tracked: a state with this mark says nothing about the
  program's memory any more.\<close>

record 'w zedis_server =
  sv_config :: zedis_config
  sv_metrics :: "zedis_metrics option"
  sv_loop :: event_loop
  sv_listen_fd :: int
  sv_running :: bool
  sv_arena :: zedis_arena
  sv_slab :: zedis_slab
  sv_kv :: zedis_hash_table
  sv_book :: zedis_order_book
  sv_ring :: zedis_ring_buffer
  sv_aol :: zedis_append_log
  sv_zsets :: zset_registry
  sv_lists :: list_registry
  sv_conns_head :: addr
  sv_conn_count :: nat
  sv_heap :: heap
  sv_malloc :: "addr list"
  sv_conns :: "addr \<Rightarrow> conn option"
  sv_overrun :: bool
  sv_world :: 'w

section \<open>The list of connections\<close>

text \<open>Changing a live connection.\<close>

definition upd_conn :: "addr \<Rightarrow> (conn \<Rightarrow> conn) \<Rightarrow> 'w zedis_server \<Rightarrow> 'w zedis_server option" where
  "upd_conn a f s = do { c \<leftarrow> sv_conns s a; Some (s\<lparr>sv_conns := (sv_conns s)(a \<mapsto> f c)\<rparr>) }"

definition server_link_conn :: "addr \<Rightarrow> 'w zedis_server \<Rightarrow> 'w zedis_server option" where
  "server_link_conn a s =
     do {
       s \<leftarrow> upd_conn a (\<lambda>c. c\<lparr>cn_next := sv_conns_head s, cn_prev := 0\<rparr>) s;
       s \<leftarrow> (if sv_conns_head s \<noteq> 0 then upd_conn (sv_conns_head s) (\<lambda>c. c\<lparr>cn_prev := a\<rparr>) s else Some s);
       Some (s\<lparr>sv_conns_head := a, sv_conn_count := wrap_u64 (sv_conn_count s + 1)\<rparr>)
     }"

definition server_unlink_conn :: "addr \<Rightarrow> 'w zedis_server \<Rightarrow> 'w zedis_server option" where
  "server_unlink_conn a s =
     do {
       c \<leftarrow> sv_conns s a;
       s \<leftarrow> (if cn_prev c \<noteq> 0 then upd_conn (cn_prev c) (\<lambda>p. p\<lparr>cn_next := cn_next c\<rparr>) s
             else Some (s\<lparr>sv_conns_head := cn_next c\<rparr>));
       s \<leftarrow> (if cn_next c \<noteq> 0 then upd_conn (cn_next c) (\<lambda>n. n\<lparr>cn_prev := cn_prev c\<rparr>) s else Some s);
       Some (if sv_conn_count s > 0 then s\<lparr>sv_conn_count := sv_conn_count s - 1\<rparr> else s)
     }"

text \<open>The connections in the order of the \<open>next\<close> links from \<open>a\<close>, at most \<open>n\<close> of them.\<close>

fun conn_walk :: "nat \<Rightarrow> (addr \<Rightarrow> conn option) \<Rightarrow> addr \<Rightarrow> addr list" where
  "conn_walk 0 cs a = []"
| "conn_walk (Suc n) cs a =
     (if a = 0 then [] else case cs a of None \<Rightarrow> [] | Some c \<Rightarrow> a # conn_walk n cs (cn_next c))"

section \<open>Linked segments\<close>

text \<open>\<open>lseg cs p a xs q b\<close>: following \<open>next\<close> from \<open>a\<close> passes exactly the connections \<open>xs\<close> and arrives at \<open>b\<close>; the
  \<open>prev\<close> links lead back, from \<open>p\<close> before the first to \<open>q\<close> at the end.\<close>

fun lseg :: "(addr \<Rightarrow> conn option) \<Rightarrow> addr \<Rightarrow> addr \<Rightarrow> addr list \<Rightarrow> addr \<Rightarrow> addr \<Rightarrow> bool" where
  "lseg cs p a [] q b \<longleftrightarrow> p = q \<and> a = b"
| "lseg cs p a (x # xs) q b \<longleftrightarrow> a = x \<and> x \<noteq> 0 \<and> (\<exists>c. cs x = Some c \<and> cn_prev c = p \<and> lseg cs x (cn_next c) xs q b)"

lemma lseg_append: "lseg cs p a (xs @ ys) q b \<longleftrightarrow> (\<exists>q' b'. lseg cs p a xs q' b' \<and> lseg cs q' b' ys q b)"
  by (induction xs arbitrary: p a) auto

lemma lseg_cong: "(\<And>x. x \<in> set xs \<Longrightarrow> cs' x = cs x) \<Longrightarrow> lseg cs' p a xs q b = lseg cs p a xs q b"
  by (induction xs arbitrary: p a) auto

lemma lseg_upd_other [simp]: "x \<notin> set xs \<Longrightarrow> lseg (cs(x := v)) p a xs q b = lseg cs p a xs q b"
  by (rule lseg_cong) auto

lemma lseg_live: "lseg cs p a xs q b \<Longrightarrow> set xs \<subseteq> dom cs \<and> 0 \<notin> set xs"
  by (induction xs arbitrary: p a) auto

lemma lseg_last: "lseg cs p a xs q b \<Longrightarrow> q = (if xs = [] then p else last xs)"
  by (induction xs arbitrary: p a) (auto split: if_splits)

text \<open>Redirecting the end of a segment, and its beginning.\<close>

lemma lseg_next:
  assumes "lseg cs p a xs q b" "xs \<noteq> []" "distinct xs" "cs q = Some c"
  shows "lseg (cs(q \<mapsto> c\<lparr>cn_next := b'\<rparr>)) p a xs q b'"
proof -
  have q: "q = last xs" using lseg_last [OF assms(1)] assms(2) by simp
  let ?ys = "butlast xs"
  have xs: "xs = ?ys @ [q]" "q \<notin> set ?ys"
    using assms(2,3) q append_butlast_last_id [OF assms(2)] by (simp, metis distinct_append disjoint_iff list.set_intros(1))
  obtain q' a' where s: "lseg cs p a ?ys q' a'" "lseg cs q' a' [q] q b"
    using assms(1) xs(1) lseg_append [of cs p a ?ys "[q]"] by auto
  have "lseg (cs(q \<mapsto> c\<lparr>cn_next := b'\<rparr>)) p a ?ys q' a'"
    using s(1) xs(2) by simp
  moreover have "lseg (cs(q \<mapsto> c\<lparr>cn_next := b'\<rparr>)) q' a' [q] q b'" using s(2) assms(4) by simp
  ultimately have "lseg (cs(q \<mapsto> c\<lparr>cn_next := b'\<rparr>)) p a (?ys @ [q]) q b'" unfolding lseg_append by blast
  then show ?thesis unfolding xs(1) [symmetric] .
qed

lemma lseg_prev:
  assumes "lseg cs p a xs q b" "xs \<noteq> []" "distinct xs" "cs a = Some c"
  shows "lseg (cs(a \<mapsto> c\<lparr>cn_prev := p'\<rparr>)) p' a xs q b"
proof -
  obtain ys where xs: "xs = a # ys" "a \<notin> set ys" using assms(1-3) by (cases xs) auto
  then have "lseg cs a (cn_next c) ys q b" "a \<noteq> 0" using assms(1,4) by auto
  then show ?thesis using xs by simp
qed

lemma conn_walk_lseg: "lseg cs p a xs q 0 \<Longrightarrow> length xs < n \<Longrightarrow> conn_walk n cs a = xs"
proof (induction xs arbitrary: p a n)
  case Nil
  then show ?case by (cases n) auto
next
  case (Cons x xs)
  then show ?case by (cases n) auto
qed

definition conn_list :: "'w zedis_server \<Rightarrow> addr list \<Rightarrow> bool" where
  "conn_list s xs \<longleftrightarrow> (\<exists>q. lseg (sv_conns s) 0 (sv_conns_head s) xs q 0) \<and> distinct xs \<and> sv_conn_count s = length xs"

text \<open>Two stores that differ in the links only.\<close>

definition same_but_links :: "(addr \<Rightarrow> conn option) \<Rightarrow> (addr \<Rightarrow> conn option) \<Rightarrow> bool" where
  "same_but_links cs cs' \<longleftrightarrow> (\<forall>a. map_option (\<lambda>c. c\<lparr>cn_next := 0, cn_prev := 0\<rparr>) (cs' a) =
     map_option (\<lambda>c. c\<lparr>cn_next := 0, cn_prev := 0\<rparr>) (cs a))"

lemma same_but_links_refl [simp]: "same_but_links cs cs"
  by (simp add: same_but_links_def)

lemma same_but_links_trans: "same_but_links cs cs' \<Longrightarrow> same_but_links cs' cs'' \<Longrightarrow> same_but_links cs cs''"
  by (simp add: same_but_links_def)

lemma same_but_links_upd:
  "cs a = Some c \<Longrightarrow> same_but_links cs (cs(a \<mapsto> c\<lparr>cn_next := n\<rparr>))"
  "cs a = Some c \<Longrightarrow> same_but_links cs (cs(a \<mapsto> c\<lparr>cn_prev := p\<rparr>))"
  "cs a = Some c \<Longrightarrow> same_but_links cs (cs(a \<mapsto> c\<lparr>cn_next := n, cn_prev := p\<rparr>))"
  by (auto simp: same_but_links_def)

lemma same_but_links_dom: "same_but_links cs cs' \<Longrightarrow> dom cs' = dom cs"
  unfolding same_but_links_def dom_def by (metis map_option_is_None)

lemma link_conn_ok:
  assumes L: "conn_list s xs" and a: "sv_conns s a = Some c" "a \<notin> set xs" "a \<noteq> 0" and n: "length xs < 2 ^ 64 - 1"
  shows "\<exists>s'. server_link_conn a s = Some s' \<and> conn_list s' (a # xs) \<and> same_but_links (sv_conns s) (sv_conns s') \<and>
    s' = s\<lparr>sv_conns := sv_conns s', sv_conns_head := a, sv_conn_count := sv_conn_count s + 1\<rparr>"
proof -
  let ?h = "sv_conns_head s"
  let ?cs = "(sv_conns s)(a \<mapsto> c\<lparr>cn_next := ?h, cn_prev := 0\<rparr>)"
  obtain q where q: "lseg (sv_conns s) 0 ?h xs q 0" "distinct xs" "sv_conn_count s = length xs"
    using L by (auto simp: conn_list_def)
  have s1: "lseg ?cs 0 ?h xs q 0" using q(1) a(2) by simp
  have cnt: "wrap_u64 (sv_conn_count s + 1) = sv_conn_count s + 1" using q(3) n by (simp add: wrap_u64_def)
  have same: "same_but_links (sv_conns s) ?cs" by (rule same_but_links_upd(3)) (rule a(1))
  show ?thesis
  proof (cases "xs = []")
    case True
    then have "?h = 0" "q = 0" using q(1) by auto
    then show ?thesis using a True q(3) cnt same
      by (auto simp: server_link_conn_def upd_conn_def conn_list_def)
  next
    case False
    then have h: "?h \<in> set xs" "?h \<noteq> 0" using q(1) by (cases xs; auto)+
    then obtain d where d: "?cs ?h = Some d" using lseg_live [OF s1] by blast
    let ?cs' = "?cs(?h \<mapsto> d\<lparr>cn_prev := a\<rparr>)"
    have s2: "lseg ?cs' a ?h xs q 0" by (rule lseg_prev [OF s1 False q(2) d])
    have "?h \<noteq> a" using h a by auto
    then have "lseg ?cs' 0 a (a # xs) q 0" using s2 a by simp
    moreover have "same_but_links (sv_conns s) ?cs'"
      by (rule same_but_links_trans [OF same], rule same_but_links_upd(2)) (rule d)
    ultimately show ?thesis using a q(2,3) cnt h(2) d \<open>?h \<noteq> a\<close>
      by (auto simp: server_link_conn_def upd_conn_def conn_list_def)
  qed
qed

lemma unlink_conn_ok:
  assumes L: "conn_list s (ys @ a # zs)"
  shows "\<exists>s'. server_unlink_conn a s = Some s' \<and> conn_list s' (ys @ zs) \<and> same_but_links (sv_conns s) (sv_conns s') \<and>
    s' = s\<lparr>sv_conns := sv_conns s', sv_conns_head := sv_conns_head s', sv_conn_count := sv_conn_count s - 1\<rparr>"
proof -
  obtain r where r: "lseg (sv_conns s) 0 (sv_conns_head s) (ys @ a # zs) r 0" "distinct (ys @ a # zs)"
      "sv_conn_count s = length (ys @ a # zs)"
    using L by (auto simp: conn_list_def)
  obtain q c where s1: "lseg (sv_conns s) 0 (sv_conns_head s) ys q a" and c: "sv_conns s a = Some c" "cn_prev c = q" "a \<noteq> 0"
      and s2: "lseg (sv_conns s) a (cn_next c) zs r 0"
    using r(1) by (auto simp: lseg_append)
  let ?n = "cn_next c"
  obtain h1 cs1 where one: "(if q \<noteq> 0 then upd_conn q (\<lambda>p. p\<lparr>cn_next := ?n\<rparr>) s else Some (s\<lparr>sv_conns_head := ?n\<rparr>)) =
        Some (s\<lparr>sv_conns := cs1, sv_conns_head := h1\<rparr>)"
      "lseg cs1 0 h1 ys q ?n" "\<forall>x \<in> set zs. cs1 x = sv_conns s x" "same_but_links (sv_conns s) cs1"
  proof (cases "ys = []")
    case True
    then have "q = 0" using s1 by simp
    then show ?thesis using that [of ?n "sv_conns s"] True by simp
  next
    case False
    then have q: "q \<in> set ys" "q \<noteq> 0" using lseg_last [OF s1] lseg_live [OF s1] last_in_set [OF False] by (simp, metis)
    then obtain d where d: "sv_conns s q = Some d" using lseg_live [OF s1] by blast
    have "distinct ys" "q \<notin> set zs" using r(2) q(1) by auto
    then show ?thesis
      using that [of "sv_conns_head s" "(sv_conns s)(q \<mapsto> d\<lparr>cn_next := ?n\<rparr>)"] lseg_next [OF s1 False _ d, of ?n] q(2) d
        same_but_links_upd(1) [of "sv_conns s" q d ?n]
      by (auto simp: upd_conn_def)
  qed
  have s2': "lseg cs1 a ?n zs r 0" using s2 one(3) lseg_cong [of zs cs1 "sv_conns s"] by simp
  obtain cs2 r' where two: "(if ?n \<noteq> 0 then upd_conn ?n (\<lambda>m. m\<lparr>cn_prev := q\<rparr>) (s\<lparr>sv_conns := cs1, sv_conns_head := h1\<rparr>)
        else Some (s\<lparr>sv_conns := cs1, sv_conns_head := h1\<rparr>)) = Some (s\<lparr>sv_conns := cs2, sv_conns_head := h1\<rparr>)"
      "lseg cs2 q ?n zs r' 0" "\<forall>x \<in> set ys. cs2 x = cs1 x" "same_but_links cs1 cs2"
  proof (cases "zs = []")
    case True
    then have "?n = 0" using s2' by simp
    then show ?thesis using that [of cs1 q] True by simp
  next
    case False
    then have n: "?n \<in> set zs" "?n \<noteq> 0" using s2' by (cases zs; auto)+
    then obtain d where d: "cs1 ?n = Some d" using lseg_live [OF s2'] by blast
    have "distinct zs" "?n \<notin> set ys" using r(2) n(1) by auto
    then show ?thesis
      using that [of "cs1(?n \<mapsto> d\<lparr>cn_prev := q\<rparr>)" r] lseg_prev [OF s2' False _ d, of q] n(2) d same_but_links_upd(2) [of cs1 ?n d q]
      by (auto simp: upd_conn_def)
  qed
  have "lseg cs2 0 h1 ys q ?n" using one(2) two(3) lseg_cong [of ys cs2 cs1] by simp
  then have "lseg cs2 0 h1 (ys @ zs) r' 0" using two(2) lseg_append by blast
  moreover have "server_unlink_conn a s =
      Some (s\<lparr>sv_conns := cs2, sv_conns_head := h1, sv_conn_count := sv_conn_count s - 1\<rparr>)"
    unfolding server_unlink_conn_def c(1) Option.bind_lunit c(2) one(1) two(1) using r(3) by simp
  moreover have "distinct (ys @ zs)" using r(2) by simp
  moreover have "same_but_links (sv_conns s) cs2" by (rule same_but_links_trans [OF one(4) two(4)])
  ultimately show ?thesis using r(3) by (auto simp: conn_list_def)
qed

end
