(* ===== verification/Conn.thy ===== *)
theory Conn
  imports Server_State
begin

text \<open>
  The write side and the life of a connection (\<^verbatim>\<open>src/src/conn.c\<close>). Replies are collected in a buffer of
  4096 bytes and written as far as the socket takes them; what is left waits for the socket to become
  writable. The loop of \<open>conn_flush\<close> runs until the socket refuses or everything is sent.
\<close>

unbundle bit_operations_syntax

section \<open>Model\<close>

definition write_buf_append :: "addr \<Rightarrow> string \<Rightarrow> 'w zedis_server \<Rightarrow> (int \<times> 'w zedis_server) option" where
  "write_buf_append a data s =
     do {
       c \<leftarrow> sv_conns s a;
       if cn_closed c then Some (-1, s)
       else if cn_write_len c + length data > ZEDIS_CONN_WRITE_SIZE then Some (-1, s)
       else do {
         s \<leftarrow> upd_conn a (\<lambda>c. c\<lparr>cn_write_data := write_at (cn_write_len c) data (cn_write_data c),
                                cn_write_len := cn_write_len c + length data\<rparr>) s;
         Some (0, s\<lparr>sv_overrun := sv_overrun s \<or> cn_write_len c + length data > ZEDIS_CONN_WRITE_SIZE - slab_hdr\<rparr>)
       }
     }"

definition conn_enable_write :: "'w os \<Rightarrow> addr \<Rightarrow> 'w zedis_server \<Rightarrow> 'w zedis_server option" where
  "conn_enable_write os a s =
     do {
       c \<leftarrow> sv_conns s a;
       let (rc, loop, w) = event_loop_mod os (sv_world s) (sv_loop s) (cn_fd c) (EPOLLIN OR EPOLLOUT OR EPOLLET) CONN_ON_WRITABLE a;
       Some (s\<lparr>sv_loop := loop, sv_world := w\<rparr>)
     }"

definition conn_disable_write :: "'w os \<Rightarrow> addr \<Rightarrow> 'w zedis_server \<Rightarrow> 'w zedis_server option" where
  "conn_disable_write os a s =
     do {
       c \<leftarrow> sv_conns s a;
       let (rc, loop, w) = event_loop_mod os (sv_world s) (sv_loop s) (cn_fd c) (EPOLLIN OR EPOLLET) CONN_ON_READABLE a;
       Some (s\<lparr>sv_loop := loop, sv_world := w\<rparr>)
     }"

text \<open>The unsent bytes moved to the front of the buffer.\<close>

definition shift_unsent :: "conn \<Rightarrow> conn" where
  "shift_unsent c =
     (if cn_write_sent c > 0
      then c\<lparr>cn_write_data := write_at 0 (slice (cn_write_sent c) (cn_write_len c - cn_write_sent c) (cn_write_data c)) (cn_write_data c),
             cn_write_len := cn_write_len c - cn_write_sent c, cn_write_sent := 0\<rparr>
      else c)"

partial_function (option) conn_flush :: "'w os \<Rightarrow> addr \<Rightarrow> 'w zedis_server \<Rightarrow> (int \<times> 'w zedis_server) option" where
  "conn_flush os a s =
     do {
       c \<leftarrow> sv_conns s a;
       if cn_write_sent c < cn_write_len c then
         (case os_write os (sv_world s) (cn_fd c)
                 (slice (cn_write_sent c) (cn_write_len c - cn_write_sent c) (cn_write_data c)) of
            (WriteAgain, w) \<Rightarrow>
              do {
                s \<leftarrow> conn_enable_write os a (s\<lparr>sv_world := w\<rparr>);
                s \<leftarrow> upd_conn a shift_unsent s;
                Some (0, s)
              }
          | (WriteError, w) \<Rightarrow>
              do { s \<leftarrow> upd_conn a (\<lambda>c. c\<lparr>cn_closed := True\<rparr>) (s\<lparr>sv_world := w\<rparr>); Some (-1, s) }
          | (WroteBytes n, w) \<Rightarrow>
              do {
                s \<leftarrow> upd_conn a (\<lambda>c. c\<lparr>cn_write_sent := cn_write_sent c + n\<rparr>) (s\<lparr>sv_world := w\<rparr>);
                conn_flush os a s
              })
       else do {
         s \<leftarrow> upd_conn a (\<lambda>c. c\<lparr>cn_write_len := 0, cn_write_sent := 0\<rparr>) s;
         s \<leftarrow> conn_disable_write os a s;
         Some (0, s)
       }
     }"

definition conn_queue_write :: "'w os \<Rightarrow> addr \<Rightarrow> string \<Rightarrow> 'w zedis_server \<Rightarrow> (int \<times> 'w zedis_server) option" where
  "conn_queue_write os a data s =
     do {
       c \<leftarrow> sv_conns s a;
       if cn_closed c then Some (-1, s)
       else do {
         (rc, s) \<leftarrow> write_buf_append a data s;
         if rc \<noteq> 0 then do { s \<leftarrow> upd_conn a (\<lambda>c. c\<lparr>cn_closed := True\<rparr>) s; Some (-1, s) }
         else do {
           (rc, s) \<leftarrow> conn_flush os a s;
           if rc \<noteq> 0 then do { s \<leftarrow> upd_conn a (\<lambda>c. c\<lparr>cn_closed := True\<rparr>) s; Some (-1, s) }
           else Some (0, s)
         }
       }
     }"

text \<open>A new connection. Its parser shares the slab; \<open>with_pool\<close> and \<open>put_pool\<close> lend the server's slab and
  \<open>malloc\<close> to the parser and take them back.\<close>

definition with_pool :: "'w zedis_server \<Rightarrow> resp_parser \<Rightarrow> resp_parser" where
  "with_pool s p = p\<lparr>p_pool := (p_pool p)\<lparr>np_slab := Some (sv_slab s, sv_heap s), np_malloc := sv_malloc s\<rparr>\<rparr>"

definition put_pool :: "resp_parser \<Rightarrow> 'w zedis_server \<Rightarrow> 'w zedis_server" where
  "put_pool p s =
     (case np_slab (p_pool p) of
        None \<Rightarrow> s
      | Some (slab, h) \<Rightarrow> s\<lparr>sv_slab := slab, sv_heap := h, sv_malloc := np_malloc (p_pool p)\<rparr>)"

definition slab_free :: "addr \<Rightarrow> nat \<Rightarrow> 'w zedis_server \<Rightarrow> 'w zedis_server" where
  "slab_free ptr sz s = (case zedis_slab_free 0 (sv_slab s) (sv_heap s) ptr sz of (slab, h) \<Rightarrow> s\<lparr>sv_slab := slab, sv_heap := h\<rparr>)"

definition conn_create :: "'w os \<Rightarrow> int \<Rightarrow> 'w zedis_server \<Rightarrow> (addr option \<times> 'w zedis_server) option" where
  "conn_create os fd s =
     (case zedis_slab_alloc 0 (sv_slab s) (sv_heap s) ZEDIS_SLAB_512 of
        (None, slab, h) \<Rightarrow> Some (None, s\<lparr>sv_slab := slab, sv_heap := h\<rparr>)
      | (Some a, slab, h) \<Rightarrow>
          (let s = s\<lparr>sv_slab := slab, sv_heap := h\<rparr>;
               (buf, w) = os_malloc os (sv_world s) RESP_PARSER_DEFAULT_BUF;
               s = s\<lparr>sv_world := w\<rparr> in
           case resp_parser_init (Some (sv_slab s, sv_heap s)) (sv_malloc s) (\<lambda>_. buf) of
             None \<Rightarrow> Some (None, slab_free a ZEDIS_SLAB_512 s)
           | Some parser \<Rightarrow>
               (case zedis_slab_alloc 0 (sv_slab s) (sv_heap s) ZEDIS_CONN_WRITE_SIZE of
                  (None, slab, h) \<Rightarrow> Some (None, slab_free a ZEDIS_SLAB_512 (s\<lparr>sv_slab := slab, sv_heap := h\<rparr>))
                | (Some b, slab, h) \<Rightarrow>
                    let s = s\<lparr>sv_slab := slab, sv_heap := h\<rparr>;
                        c = \<lparr>cn_fd = fd, cn_parser = parser, cn_write_buf = b,
                             cn_write_data = os_memory os (sv_world s) ZEDIS_CONN_WRITE_SIZE, cn_write_len = 0, cn_write_sent = 0,
                             cn_channel = replicate sub_channel_cap NUL, cn_subscribed = False, cn_closed = False,
                             cn_next = 0, cn_prev = 0\<rparr>
                    in do { s \<leftarrow> server_link_conn a (s\<lparr>sv_conns := (sv_conns s)(a \<mapsto> c)\<rparr>); Some (Some a, s) })))"

text \<open>The parser of a connection has a slab, so \<open>resp_parser_destroy\<close> frees its buffer and nothing else.\<close>

definition conn_destroy :: "'w os \<Rightarrow> addr \<Rightarrow> 'w zedis_server \<Rightarrow> 'w zedis_server option" where
  "conn_destroy os a s =
     do {
       s \<leftarrow> server_unlink_conn a s;
       c \<leftarrow> sv_conns s a;
       let (rc, loop, w) = event_loop_del os (sv_world s) (sv_loop s) (cn_fd c);
       let s = s\<lparr>sv_loop := loop, sv_world := os_close os w (cn_fd c)\<rparr>;
       let s = slab_free (cn_write_buf c) ZEDIS_CONN_WRITE_SIZE s;
       let s = slab_free a ZEDIS_SLAB_512 s;
       Some (s\<lparr>sv_conns := (sv_conns s)(a := None)\<rparr>)
     }"

definition conn_on_writable :: "'w os \<Rightarrow> addr \<Rightarrow> 'w zedis_server \<Rightarrow> 'w zedis_server option" where
  "conn_on_writable os a s =
     do {
       (rc, s) \<leftarrow> conn_flush os a s;
       if rc \<noteq> 0 then conn_destroy os a s else Some s
     }"

section \<open>What a write changes\<close>

definition conn_wf :: "conn \<Rightarrow> bool" where
  "conn_wf c \<longleftrightarrow> length (cn_write_data c) = ZEDIS_CONN_WRITE_SIZE \<and> cn_write_sent c \<le> cn_write_len c \<and>
     cn_write_len c \<le> ZEDIS_CONN_WRITE_SIZE \<and> parser_wf (cn_parser c) \<and> length (cn_channel c) = sub_channel_cap"

text \<open>The bytes that are queued and not sent.\<close>

definition pending :: "conn \<Rightarrow> string" where
  "pending c = slice (cn_write_sent c) (cn_write_len c - cn_write_sent c) (cn_write_data c)"

lemma length_pending: "conn_wf c \<Longrightarrow> length (pending c) = cn_write_len c - cn_write_sent c"
  by (simp add: pending_def conn_wf_def)

text \<open>A connection after output: only the write buffer and the closed flag may differ.\<close>

definition input_part :: "conn \<Rightarrow> conn" where
  "input_part c = c\<lparr>cn_write_data := [], cn_write_len := 0, cn_write_sent := 0, cn_closed := False\<rparr>"

definition same_input :: "conn \<Rightarrow> conn \<Rightarrow> bool" where
  "same_input c c' \<longleftrightarrow> input_part c' = input_part c \<and> (cn_closed c \<longrightarrow> cn_closed c') \<and> (conn_wf c \<longrightarrow> conn_wf c')"

lemma same_input_refl [simp]: "same_input c c"
  by (simp add: same_input_def)

lemma same_input_trans: "same_input c d \<Longrightarrow> same_input d e \<Longrightarrow> same_input c e"
  by (simp add: same_input_def)

lemma same_input_fields:
  assumes "same_input c c'"
  shows "cn_fd c' = cn_fd c" "cn_parser c' = cn_parser c" "cn_write_buf c' = cn_write_buf c" "cn_channel c' = cn_channel c"
    "cn_subscribed c' = cn_subscribed c" "cn_next c' = cn_next c" "cn_prev c' = cn_prev c" "conn_wf c \<Longrightarrow> conn_wf c'"
    "cn_closed c \<Longrightarrow> cn_closed c'"
  using assms by (cases c, cases c', simp add: same_input_def input_part_def)+

text \<open>Writes and changes of the interest list's entries: the calls made while sending.\<close>

inductive quiet :: "'w os \<Rightarrow> 'w \<Rightarrow> 'w \<Rightarrow> bool" for os where
  quiet_refl [simp]: "quiet os w w"
| quiet_write: "os_write os w fd data = (r, w1) \<Longrightarrow> quiet os w1 w2 \<Longrightarrow> quiet os w w2"
| quiet_mod: "os_epoll_ctl os w EPOLL_CTL_MOD fd ev = (rc, w1) \<Longrightarrow> quiet os w1 w2 \<Longrightarrow> quiet os w w2"

lemma quiet_trans: "quiet os w w1 \<Longrightarrow> quiet os w1 w2 \<Longrightarrow> quiet os w w2"
  by (induction rule: quiet.induct) (auto intro: quiet.intros)

lemma quiet_undisturbed:
  assumes K: "kernel_ok os K" and "quiet os w w'"
  shows "undisturbed K w w'"
  using assms(2)
proof (induction rule: quiet.induct)
  case (quiet_write w fd data r w1 w2)
  show ?case by (rule undisturbed_trans [OF kernel_calls(3) [OF K quiet_write(1)] quiet_write.IH])
next
  case (quiet_mod w fd ev rc w1 w2)
  show ?case by (rule undisturbed_trans [OF kernel_calls(4) [OF K quiet_mod(1)] quiet_mod.IH])
qed simp

text \<open>The handler table after \<open>event_loop_mod\<close> on connections in \<open>A\<close>: an entry that differs was set for the descriptor of
  such a connection, and the kernel had accepted the change.\<close>

definition rearmed :: "'w os \<Rightarrow> addr set \<Rightarrow> (addr \<Rightarrow> conn option) \<Rightarrow> 'w \<Rightarrow> event_loop \<Rightarrow> event_loop \<Rightarrow> bool" where
  "rearmed os A cs w l l' \<longleftrightarrow> l' = l\<lparr>el_handlers := el_handlers l'\<rparr> \<and> length (el_handlers l') = length (el_handlers l) \<and>
     (\<forall>i < length (el_handlers l). el_handlers l' ! i = el_handlers l ! i \<or>
        (\<exists>b \<in> A. \<exists>c h ev w1 w2. cs b = Some c \<and> cn_fd c = int i \<and> el_handlers l' ! i = (Some h, b) \<and> h \<noteq> SERVER_ON_ACCEPT \<and>
           quiet os w w1 \<and> os_epoll_ctl os w1 EPOLL_CTL_MOD (int i) ev = (0, w2)))"

lemma rearmed_refl [simp]: "rearmed os A cs w l l"
  by (simp add: rearmed_def)

lemma rearmed_mono: "rearmed os A cs w l l' \<Longrightarrow> A \<subseteq> B \<Longrightarrow> rearmed os B cs w l l'"
  unfolding rearmed_def by blast

lemma rearmed_trans:
  assumes "rearmed os A cs w l l1" "rearmed os A cs1 w1 l1 l2" "quiet os w w1"
    and "\<And>b c1. cs1 b = Some c1 \<Longrightarrow> \<exists>c. cs b = Some c \<and> cn_fd c = cn_fd c1"
  shows "rearmed os A cs w l l2"
proof -
  have eq: "l2 = l\<lparr>el_handlers := el_handlers l2\<rparr>" "length (el_handlers l2) = length (el_handlers l)"
    using assms(1,2) unfolding rearmed_def by (cases l, cases l1, cases l2, simp)+
  have "el_handlers l2 ! i = el_handlers l ! i \<or>
      (\<exists>b \<in> A. \<exists>c h ev w1 w2. cs b = Some c \<and> cn_fd c = int i \<and> el_handlers l2 ! i = (Some h, b) \<and> h \<noteq> SERVER_ON_ACCEPT \<and>
         quiet os w w1 \<and> os_epoll_ctl os w1 EPOLL_CTL_MOD (int i) ev = (0, w2))" if i: "i < length (el_handlers l)" for i
  proof (cases "el_handlers l2 ! i = el_handlers l1 ! i")
    case True
    then show ?thesis using assms(1) i unfolding rearmed_def by metis
  next
    case False
    have "i < length (el_handlers l1)" using assms(1) i unfolding rearmed_def by simp
    then obtain b c1 h ev w2 w3 where h: "b \<in> A" "cs1 b = Some c1" "cn_fd c1 = int i" "el_handlers l2 ! i = (Some h, b)"
        "h \<noteq> SERVER_ON_ACCEPT" "quiet os w1 w2" "os_epoll_ctl os w2 EPOLL_CTL_MOD (int i) ev = (0, w3)"
      using assms(2) False unfolding rearmed_def by meson
    then show ?thesis using assms(4) [OF h(2)] quiet_trans [OF assms(3) h(6)] by metis
  qed
  then show ?thesis using eq unfolding rearmed_def by blast
qed

text \<open>A server after output on the connections in \<open>A\<close>.\<close>

definition wrote :: "'w os \<Rightarrow> addr set \<Rightarrow> 'w zedis_server \<Rightarrow> 'w zedis_server \<Rightarrow> bool" where
  "wrote os A s s' \<longleftrightarrow>
     s' = s\<lparr>sv_conns := sv_conns s', sv_loop := sv_loop s', sv_world := sv_world s', sv_overrun := sv_overrun s'\<rparr> \<and>
     (\<forall>b. rel_option same_input (sv_conns s b) (sv_conns s' b)) \<and> (\<forall>b. b \<notin> A \<longrightarrow> sv_conns s' b = sv_conns s b) \<and>
     quiet os (sv_world s) (sv_world s') \<and> rearmed os A (sv_conns s) (sv_world s) (sv_loop s) (sv_loop s') \<and>
     (sv_overrun s \<longrightarrow> sv_overrun s')"

lemma wrote_refl [simp]: "wrote os A s s"
  by (auto simp: wrote_def intro!: option.rel_refl)

lemma wrote_conn:
  assumes "wrote os A s s'" "sv_conns s b = Some c"
  obtains c' where "sv_conns s' b = Some c'" "same_input c c'"
proof -
  have "rel_option same_input (sv_conns s b) (sv_conns s' b)" using assms(1) unfolding wrote_def by blast
  then show ?thesis using that assms(2) by (auto simp: option_rel_Some1)
qed

lemma wrote_conn_back:
  assumes "wrote os A s s'" "sv_conns s' b = Some c'"
  obtains c where "sv_conns s b = Some c" "same_input c c'"
proof -
  have "rel_option same_input (sv_conns s b) (sv_conns s' b)" using assms(1) unfolding wrote_def by blast
  then show ?thesis using that assms(2) by (auto simp: option_rel_Some2)
qed

lemma wrote_trans:
  assumes "wrote os A s t" "wrote os A t u"
  shows "wrote os A s u"
proof -
  have "rel_option same_input (sv_conns s b) (sv_conns u b)" for b
  proof -
    have "rel_option same_input (sv_conns s b) (sv_conns t b)" "rel_option same_input (sv_conns t b) (sv_conns u b)"
      using assms unfolding wrote_def by blast+
    then show ?thesis using same_input_trans by (auto simp: option_rel_Some1 option_rel_Some2 elim!: option.rel_cases)
  qed
  moreover have "u = s\<lparr>sv_conns := sv_conns u, sv_loop := sv_loop u, sv_world := sv_world u, sv_overrun := sv_overrun u\<rparr>"
  proof -
    have "u = t\<lparr>sv_conns := sv_conns u, sv_loop := sv_loop u, sv_world := sv_world u, sv_overrun := sv_overrun u\<rparr>"
      "t = s\<lparr>sv_conns := sv_conns t, sv_loop := sv_loop t, sv_world := sv_world t, sv_overrun := sv_overrun t\<rparr>"
      using assms unfolding wrote_def by blast+
    then show ?thesis by (cases s, cases t, cases u) simp
  qed
  moreover have "\<forall>b. b \<notin> A \<longrightarrow> sv_conns u b = sv_conns s b" using assms by (simp add: wrote_def)
  moreover have "rearmed os A (sv_conns s) (sv_world s) (sv_loop s) (sv_loop u)"
  proof (rule rearmed_trans)
    show "rearmed os A (sv_conns s) (sv_world s) (sv_loop s) (sv_loop t)" "rearmed os A (sv_conns t) (sv_world t) (sv_loop t) (sv_loop u)"
      "quiet os (sv_world s) (sv_world t)" using assms by (simp_all add: wrote_def)
    show "\<exists>c. sv_conns s b = Some c \<and> cn_fd c = cn_fd c1" if "sv_conns t b = Some c1" for b c1
      by (rule wrote_conn_back [OF assms(1) that]) (simp add: same_input_fields(1))
  qed
  moreover have "quiet os (sv_world s) (sv_world u)" by (rule quiet_trans [of os _ "sv_world t"]) (use assms in \<open>simp_all add: wrote_def\<close>)
  ultimately show ?thesis using assms by (simp add: wrote_def)
qed

lemma wrote_mono: "wrote os A s s' \<Longrightarrow> A \<subseteq> B \<Longrightarrow> wrote os B s s'"
  using rearmed_mono [of os A "sv_conns s" "sv_world s" "sv_loop s" "sv_loop s'" B] by (auto simp: wrote_def)

text \<open>The bytes the operating system accepted on a descriptor between two of its states.\<close>

inductive sends :: "'w os \<Rightarrow> int \<Rightarrow> 'w \<Rightarrow> string \<Rightarrow> 'w \<Rightarrow> bool" for os fd where
  sends_refl: "sends os fd w [] w"
| sends_write: "os_write os w fd data = (WroteBytes n, w1) \<Longrightarrow> n \<le> length data \<Longrightarrow> sends os fd w1 bs w2 \<Longrightarrow>
    sends os fd w (take n data @ bs) w2"
| sends_fail: "os_write os w fd data = (r, w1) \<Longrightarrow> r = WriteAgain \<or> r = WriteError \<Longrightarrow> sends os fd w1 bs w2 \<Longrightarrow> sends os fd w bs w2"
| sends_ctl: "os_epoll_ctl os w EPOLL_CTL_MOD fd' ev = (rc, w1) \<Longrightarrow> sends os fd w1 bs w2 \<Longrightarrow> sends os fd w bs w2"

lemma sends_trans: "sends os fd w as w1 \<Longrightarrow> sends os fd w1 bs w2 \<Longrightarrow> sends os fd w (as @ bs) w2"
  by (induction rule: sends.induct) (auto intro: sends.intros)

lemma sends_quiet: "sends os fd w bs w' \<Longrightarrow> quiet os w w'"
  by (induction rule: sends.induct) (auto intro: quiet.intros)

lemma event_loop_mod_sends: "event_loop_mod os w loop fd' ev h u = (rc, loop', w') \<Longrightarrow> sends os fd w [] w'"
  by (auto simp: event_loop_mod_def intro: sends.intros split: if_splits prod.splits)

lemma event_loop_mod_rearmed:
  assumes "event_loop_mod os w loop fd ev h a = (rc, loop', w')" "cs a = Some c" "cn_fd c = fd" "h \<noteq> SERVER_ON_ACCEPT"
  shows "rearmed os {a} cs w loop loop'"
proof (cases "loop' = loop")
  case False
  then obtain w1 where r: "os_epoll_ctl os w EPOLL_CTL_MOD fd ev = (0, w1)" "0 \<le> fd"
      "loop' = loop\<lparr>el_handlers := (el_handlers loop)[nat fd := (Some h, a)]\<rparr>"
    using assms(1) by (auto simp: event_loop_mod_def split: if_splits prod.splits)
  have "\<exists>c h ev w1 w2. cs a = Some c \<and> cn_fd c = int i \<and> el_handlers loop' ! i = (Some h, a) \<and> h \<noteq> SERVER_ON_ACCEPT \<and>
           quiet os w w1 \<and> os_epoll_ctl os w1 EPOLL_CTL_MOD (int i) ev = (0, w2)"
    if "i < length (el_handlers loop)" "el_handlers loop' ! i \<noteq> el_handlers loop ! i" for i
  proof -
    have "i = nat fd" using that unfolding r(3) by (metis event_loop.select_convs(4) event_loop.update_convs(4) event_loop.surjective nth_list_update_neq)
    then show ?thesis using that(1) r assms(2-4) quiet_refl by fastforce
  qed
  then show ?thesis using r(3) unfolding rearmed_def by auto
qed simp

section \<open>Flushing\<close>

lemma wrote_upd:
  assumes "sv_conns s a = Some c" "same_input c c'" "quiet os (sv_world s) w" "rearmed os {a} (sv_conns s) (sv_world s) (sv_loop s) l"
  shows "wrote os {a} s (s\<lparr>sv_conns := (sv_conns s)(a \<mapsto> c'), sv_loop := l, sv_world := w\<rparr>)"
    "wrote os {a} s (s\<lparr>sv_loop := l, sv_world := w, sv_conns := (sv_conns s)(a \<mapsto> c')\<rparr>)"
  using assms by (auto simp: wrote_def option_rel_Some1 intro!: option.rel_refl)

lemma wrote_conn_only:
  assumes "sv_conns s a = Some c" "same_input c c'"
  shows "wrote os {a} s (s\<lparr>sv_conns := (sv_conns s)(a \<mapsto> c')\<rparr>)"
    "wrote os {a} s (s\<lparr>sv_conns := (sv_conns s)(a \<mapsto> c'), sv_overrun := sv_overrun s \<or> v\<rparr>)"
    "quiet os (sv_world s) w \<Longrightarrow> wrote os {a} s (s\<lparr>sv_world := w, sv_conns := (sv_conns s)(a \<mapsto> c')\<rparr>)"
  using assms by (auto simp: wrote_def option_rel_Some1 intro!: option.rel_refl)

lemma enable_write_ok:
  assumes "sv_conns s a = Some c"
  obtains l w where "conn_enable_write os a s = Some (s\<lparr>sv_loop := l, sv_world := w\<rparr>)" "\<And>fd. sends os fd (sv_world s) [] w"
    "rearmed os {a} (sv_conns s) (sv_world s) (sv_loop s) l"
proof -
  obtain rc l w where m: "event_loop_mod os (sv_world s) (sv_loop s) (cn_fd c) (EPOLLIN OR EPOLLOUT OR EPOLLET) CONN_ON_WRITABLE a = (rc, l, w)"
    by (metis prod_cases3)
  show ?thesis using that m event_loop_mod_sends [OF m] event_loop_mod_rearmed [OF m, of "sv_conns s" c] assms
    by (simp add: conn_enable_write_def)
qed

lemma disable_write_ok:
  assumes "sv_conns s a = Some c"
  obtains l w where "conn_disable_write os a s = Some (s\<lparr>sv_loop := l, sv_world := w\<rparr>)" "\<And>fd. sends os fd (sv_world s) [] w"
    "rearmed os {a} (sv_conns s) (sv_world s) (sv_loop s) l"
proof -
  obtain rc l w where m: "event_loop_mod os (sv_world s) (sv_loop s) (cn_fd c) (EPOLLIN OR EPOLLET) CONN_ON_READABLE a = (rc, l, w)"
    by (metis prod_cases3)
  show ?thesis using that m event_loop_mod_sends [OF m] event_loop_mod_rearmed [OF m, of "sv_conns s" c] assms
    by (simp add: conn_disable_write_def)
qed

lemma shift_unsent_ok:
  assumes "conn_wf c"
  shows "same_input c (shift_unsent c)" "pending (shift_unsent c) = pending c" "cn_write_sent (shift_unsent c) = 0"
    "cn_closed (shift_unsent c) = cn_closed c"
  using assms by (auto simp: shift_unsent_def same_input_def input_part_def conn_wf_def pending_def slice_def write_at_def)

text \<open>One round of the loop that writes \<open>n\<close> bytes.\<close>

lemma wrote_some:
  assumes "conn_wf c" "n \<le> length (pending c)"
  shows "same_input c (c\<lparr>cn_write_sent := cn_write_sent c + n\<rparr>)"
    "take n (pending c) @ pending (c\<lparr>cn_write_sent := cn_write_sent c + n\<rparr>) = pending c"
proof -
  have le: "cn_write_sent c + n \<le> cn_write_len c" using assms(2) length_pending [OF assms(1)] assms(1) by (auto simp: conn_wf_def)
  then show "same_input c (c\<lparr>cn_write_sent := cn_write_sent c + n\<rparr>)"
    using assms(1) by (simp add: same_input_def input_part_def conn_wf_def)
  have "pending (c\<lparr>cn_write_sent := cn_write_sent c + n\<rparr>) = drop n (pending c)"
    using le by (simp add: pending_def slice_def drop_take add.commute)
  then show "take n (pending c) @ pending (c\<lparr>cn_write_sent := cn_write_sent c + n\<rparr>) = pending c" by simp
qed

lemma conn_flush_ok:
  assumes P: "write_progress os" and "sv_conns s a = Some c" "conn_wf c"
  shows "\<exists>rc s' c' bs. conn_flush os a s = Some (rc, s') \<and> wrote os {a} s s' \<and> sv_overrun s' = sv_overrun s \<and> sv_conns s' a = Some c' \<and>
    sends os (cn_fd c) (sv_world s) bs (sv_world s') \<and> bs @ pending c' = pending c \<and>
    (rc = 0 \<and> cn_closed c' = cn_closed c \<and> cn_write_sent c' = 0 \<or> rc = -1 \<and> cn_closed c')"
  using assms(2,3)
proof (induction "cn_write_len c - cn_write_sent c" arbitrary: s c rule: less_induct)
  case less
  note c = less.prems(1) and wf = less.prems(2)
  let ?fd = "cn_fd c" and ?w = "sv_world s"
  show ?case
  proof (cases "cn_write_sent c < cn_write_len c")
    case False
    let ?c = "c\<lparr>cn_write_len := 0, cn_write_sent := 0\<rparr>"
    let ?s = "s\<lparr>sv_conns := (sv_conns s)(a \<mapsto> ?c)\<rparr>"
    obtain l w where d: "conn_disable_write os a ?s = Some (?s\<lparr>sv_loop := l, sv_world := w\<rparr>)" "\<And>fd. sends os fd ?w [] w"
        "rearmed os {a} (sv_conns ?s) ?w (sv_loop s) l"
      by (rule disable_write_ok [of ?s a ?c os]) simp_all
    have si: "same_input c ?c" "pending ?c = pending c"
      using wf False by (auto simp: same_input_def input_part_def conn_wf_def pending_def slice_def)
    have "rearmed os {a} (sv_conns s) ?w (sv_loop s) l" by (rule rearmed_trans [OF rearmed_refl d(3)]) (use c in \<open>auto split: if_splits\<close>)
    then show ?thesis using d False c si wrote_upd(1) [OF c si(1) sends_quiet [OF d(2)]]
      by (subst conn_flush.simps) (auto simp: upd_conn_def intro!: exI [of _ "[]"])
  next
    case True
    obtain r w where r: "os_write os ?w ?fd (pending c) = (r, w)" by (metis surj_pair)
    have qw: "quiet os ?w w" using quiet_write [OF r quiet_refl] .
    note unf = conn_flush.simps [of os a s] c r [unfolded pending_def] True upd_conn_def
    show ?thesis
    proof (cases r)
      case WriteAgain
      obtain l w2 where e: "conn_enable_write os a (s\<lparr>sv_world := w\<rparr>) = Some (s\<lparr>sv_loop := l, sv_world := w2\<rparr>)"
          "\<And>fd. sends os fd w [] w2" "rearmed os {a} (sv_conns s) w (sv_loop s) l"
        by (rule enable_write_ok [of "s\<lparr>sv_world := w\<rparr>" a c os]) (use c in simp_all)
      have snd: "sends os ?fd ?w [] w2" using sends_fail [OF r _ e(2)] WriteAgain by simp
      have "rearmed os {a} (sv_conns s) ?w (sv_loop s) l" by (rule rearmed_trans [OF rearmed_refl e(3) qw]) simp
      then show ?thesis using WriteAgain e(1) snd shift_unsent_ok [OF wf] wrote_upd(2) [OF c shift_unsent_ok(1) [OF wf] sends_quiet [OF snd]]
        by (auto simp: unf intro!: exI [of _ "[]"])
    next
      case WriteError
      let ?c = "c\<lparr>cn_closed := True\<rparr>"
      have "same_input c ?c" "pending ?c = pending c" by (simp_all add: same_input_def input_part_def conn_wf_def pending_def)
      moreover have "sends os ?fd ?w [] w" using sends_fail [OF r _ sends_refl] WriteError by simp
      ultimately show ?thesis using WriteError wrote_conn_only(3) [OF c _ qw, of ?c] by (auto simp: unf intro!: exI [of _ "[]"])
    next
      case (WroteBytes n)
      have "pending c \<noteq> []" using True length_pending [OF wf] by auto
      then have n: "0 < n" "n \<le> length (pending c)" using P r WroteBytes unfolding write_progress_def by blast+
      let ?c = "c\<lparr>cn_write_sent := cn_write_sent c + n\<rparr>"
      let ?s = "s\<lparr>sv_world := w, sv_conns := (sv_conns s)(a \<mapsto> ?c)\<rparr>"
      have dec: "cn_write_len ?c - cn_write_sent ?c < cn_write_len c - cn_write_sent c" using True n(1) by simp
      note W = wrote_some [OF wf n(2)]
      have wf': "conn_wf ?c" using same_input_fields(8) [OF W(1)] wf .
      obtain rc s' c' bs where IH: "conn_flush os a ?s = Some (rc, s')" "wrote os {a} ?s s'" "sv_overrun s' = sv_overrun s" "sv_conns s' a = Some c'"
          "sends os ?fd w bs (sv_world s')" "bs @ pending c' = pending ?c"
          "rc = 0 \<and> cn_closed c' = cn_closed c \<and> cn_write_sent c' = 0 \<or> rc = -1 \<and> cn_closed c'"
        using less.hyps [OF dec, of ?s] wf' by auto
      have "sends os ?fd ?w (take n (pending c) @ bs) (sv_world s')" using sends_write [OF r [unfolded WroteBytes] n(2) IH(5)] .
      moreover have "wrote os {a} s s'" using wrote_trans [OF wrote_conn_only(3) [OF c W(1) qw] IH(2)] .
      moreover have "conn_flush os a s = Some (rc, s')" using IH(1) WroteBytes by (simp add: unf)
      moreover have "(take n (pending c) @ bs) @ pending c' = pending c" using IH(6) W(2) by simp
      ultimately show ?thesis using IH(3,4,7) by blast
    qed
  qed
qed

section \<open>Queueing\<close>

lemma slice_write_at_end:
  "r \<le> w \<Longrightarrow> w \<le> length buf \<Longrightarrow> slice r (w + length data - r) (write_at w data buf) = slice r (w - r) buf @ data"
  by (simp add: slice_def write_at_def take_drop [symmetric] min_def) (simp add: drop_take)

lemma append_pending:
  assumes "conn_wf c" "cn_write_len c + length data \<le> ZEDIS_CONN_WRITE_SIZE"
  defines "c' \<equiv> c\<lparr>cn_write_data := write_at (cn_write_len c) data (cn_write_data c), cn_write_len := cn_write_len c + length data\<rparr>"
  shows "same_input c c'" "pending c' = pending c @ data" "cn_closed c' = cn_closed c"
proof -
  show "same_input c c'" "cn_closed c' = cn_closed c"
    using assms by (auto simp: same_input_def input_part_def conn_wf_def write_at_def)
  show "pending c' = pending c @ data"
    using assms slice_write_at_end [of "cn_write_sent c" "cn_write_len c" "cn_write_data c" data] by (simp add: pending_def conn_wf_def)
qed

lemma conn_queue_write_ok:
  assumes P: "write_progress os" and c: "sv_conns s a = Some c" and wf: "conn_wf c"
  shows "\<exists>rc s' c'. conn_queue_write os a data s = Some (rc, s') \<and> wrote os {a} s s' \<and> sv_conns s' a = Some c' \<and>
    (if \<not> cn_closed c \<and> cn_write_len c + length data \<le> ZEDIS_CONN_WRITE_SIZE
     then (\<exists>bs. sends os (cn_fd c) (sv_world s) bs (sv_world s') \<and> bs @ pending c' = pending c @ data) \<and>
       (rc = 0 \<and> \<not> cn_closed c' \<and> cn_write_sent c' = 0 \<or> rc = -1 \<and> cn_closed c') \<and>
       sv_overrun s' = (sv_overrun s \<or> cn_write_len c + length data > ZEDIS_CONN_WRITE_SIZE - slab_hdr)
     else rc = -1 \<and> cn_closed c' \<and> pending c' = pending c \<and> sv_world s' = sv_world s \<and> sv_overrun s' = sv_overrun s)"
proof -
  let ?cl = "\<lambda>c. c\<lparr>cn_closed := True\<rparr>"
  have cl: "same_input d (?cl d)" "pending (?cl d) = pending d" for d by (simp_all add: same_input_def input_part_def conn_wf_def pending_def)
  consider (closed) "cn_closed c" | (full) "\<not> cn_closed c" "\<not> cn_write_len c + length data \<le> ZEDIS_CONN_WRITE_SIZE"
    | (fits) "\<not> cn_closed c" "cn_write_len c + length data \<le> ZEDIS_CONN_WRITE_SIZE" by blast
  then show ?thesis
  proof cases
    case closed
    then show ?thesis using c by (simp add: conn_queue_write_def)
  next
    case full
    then show ?thesis using c cl [of c] wrote_conn_only(1) [OF c cl(1), of os]
      by (simp add: conn_queue_write_def write_buf_append_def upd_conn_def)
  next
    case fits
    let ?c = "c\<lparr>cn_write_data := write_at (cn_write_len c) data (cn_write_data c), cn_write_len := cn_write_len c + length data\<rparr>"
    let ?v = "cn_write_len c + length data > ZEDIS_CONN_WRITE_SIZE - slab_hdr"
    let ?s = "s\<lparr>sv_conns := (sv_conns s)(a \<mapsto> ?c), sv_overrun := sv_overrun s \<or> ?v\<rparr>"
    note A = append_pending [OF wf fits(2)]
    have wr: "wrote os {a} s ?s" by (rule wrote_conn_only(2) [OF c A(1)])
    obtain rc s' c' bs where f: "conn_flush os a ?s = Some (rc, s')" "wrote os {a} ?s s'" "sv_overrun s' = (sv_overrun s \<or> ?v)" "sv_conns s' a = Some c'"
        "sends os (cn_fd c) (sv_world s) bs (sv_world s')" "bs @ pending c' = pending ?c"
        "rc = 0 \<and> cn_closed c' = cn_closed c \<and> cn_write_sent c' = 0 \<or> rc = -1 \<and> cn_closed c'"
      using conn_flush_ok [OF P, of ?s a ?c] same_input_fields(8) [OF A(1) wf] by auto
    have q: "conn_queue_write os a data s =
        (if rc \<noteq> 0 then do { s \<leftarrow> upd_conn a ?cl s'; Some (-1, s) } else Some (0, s'))"
      using c fits f(1) by (simp add: conn_queue_write_def write_buf_append_def upd_conn_def)
    show ?thesis
    proof (cases "rc = 0")
      case True
      then show ?thesis using q f fits wrote_trans [OF wr f(2)] A(2) by auto
    next
      case False
      then show ?thesis
        using q f fits wrote_trans [OF wrote_trans [OF wr f(2)] wrote_conn_only(1) [OF f(4) cl(1)]] A(2) cl
        by (auto simp: upd_conn_def)
    qed
  qed
qed

section \<open>Properties\<close>

text \<open>
  C16. Queued output is neither lost, repeated nor reordered. If the connection is open and the data fits its write
  buffer, the bytes the socket took followed by the bytes still queued are what was queued before followed by
  the data, and the call succeeds unless the socket failed, which closes the connection. Otherwise nothing is
  written and the connection is closed. The write buffer is a block with eight bytes less than the code takes
  it to have: bytes are written behind its payload exactly if the queue grows beyond that.
\<close>

theorem queued_bytes_conserved:
  assumes "write_progress os" "sv_conns s a = Some c" "conn_wf c"
  shows "\<exists>rc s' c'. conn_queue_write os a data s = Some (rc, s') \<and> sv_conns s' a = Some c' \<and> conn_wf c' \<and>
    (if \<not> cn_closed c \<and> cn_write_len c + length data \<le> ZEDIS_CONN_WRITE_SIZE
     then (\<exists>bs. sends os (cn_fd c) (sv_world s) bs (sv_world s') \<and> bs @ pending c' = pending c @ data) \<and>
       (rc = 0 \<and> \<not> cn_closed c' \<or> rc = -1 \<and> cn_closed c') \<and>
       sv_overrun s' = (sv_overrun s \<or> cn_write_len c + length data > ZEDIS_CONN_WRITE_SIZE - slab_hdr)
     else rc = -1 \<and> cn_closed c' \<and> pending c' = pending c \<and> sv_world s' = sv_world s \<and> sv_overrun s' = sv_overrun s)"
proof -
  obtain rc s' c' where r: "conn_queue_write os a data s = Some (rc, s')" "wrote os {a} s s'" "sv_conns s' a = Some c'"
    "if \<not> cn_closed c \<and> cn_write_len c + length data \<le> ZEDIS_CONN_WRITE_SIZE
     then (\<exists>bs. sends os (cn_fd c) (sv_world s) bs (sv_world s') \<and> bs @ pending c' = pending c @ data) \<and>
       (rc = 0 \<and> \<not> cn_closed c' \<and> cn_write_sent c' = 0 \<or> rc = -1 \<and> cn_closed c') \<and>
       sv_overrun s' = (sv_overrun s \<or> cn_write_len c + length data > ZEDIS_CONN_WRITE_SIZE - slab_hdr)
     else rc = -1 \<and> cn_closed c' \<and> pending c' = pending c \<and> sv_world s' = sv_world s \<and> sv_overrun s' = sv_overrun s"
    using conn_queue_write_ok [OF assms] by blast
  have "conn_wf c'" by (rule wrote_conn [OF r(2) assms(2)]) (use r(3) assms(3) in \<open>simp add: same_input_def\<close>)
  then show ?thesis using r(1,3,4) by (intro exI [of _ rc] exI [of _ s'] exI [of _ c']) (simp split: if_splits; blast)
qed

end
