(* ===== verification/Commands.thy ===== *)
theory Commands
  imports Conn
begin

text \<open>
  The command handlers of \<^verbatim>\<open>src/src/server.c\<close> and the command counters of \<^verbatim>\<open>src/src/metrics.c\<close>. A handler gets the
  address of its connection and the parsed command, whose bulk strings are offsets in the buffer of
  the connection's parser. It changes the server and queues its reply on the connection; the integer
  result is 1 when it destroyed the connection. Buffers on the stack start with arbitrary bytes.
\<close>

section \<open>Parsing arguments\<close>

definition to_lower :: "char \<Rightarrow> char" where
  "to_lower c = (if 65 \<le> (of_char c :: nat) \<and> (of_char c :: nat) \<le> 90 then char_of ((of_char c :: nat) - 65 + 97) else c)"

text \<open>\<open>a\<close> is the slice of \<open>a_len\<close> bytes, \<open>b\<close> a string up to its NUL.\<close>

fun case_equal_loop :: "string \<Rightarrow> string \<Rightarrow> bool" where
  "case_equal_loop (x # xs) (y # ys) = (if to_lower x \<noteq> to_lower y then False else case_equal_loop xs ys)"
| "case_equal_loop _ _ = True"

definition str_case_equal :: "string \<Rightarrow> string \<Rightarrow> bool" where
  "str_case_equal a b = (if length (cstr b) \<noteq> length a then False else case_equal_loop a (cstr b))"

definition parse_i64 :: "string \<Rightarrow> int option" where
  "parse_i64 s =
     (if length s = 0 then None
      else let negative = (s ! 0 = CHR ''-''); i = (if negative then 1 else 0) in
        if i \<ge> length s then None
        else case scan_digits 0 (drop i s) of
               None \<Rightarrow> None
             | Some value \<Rightarrow> Some (if negative then wrap_i64 (- value) else value))"

definition parse_int :: "string \<Rightarrow> int option" where
  "parse_int s = (case parse_i64 s of None \<Rightarrow> None | Some v \<Rightarrow> Some (wrap_i32 v))"

fun array_nth :: "resp_node list \<Rightarrow> nat \<Rightarrow> resp_node option" where
  "array_nth [] n = None"
| "array_nth (x # xs) 0 = Some x"
| "array_nth (x # xs) (Suc n) = array_nth xs n"

definition cmd_bulk :: "string \<Rightarrow> resp_value \<Rightarrow> nat \<Rightarrow> string option" where
  "cmd_bulk buf cmd index =
     (case array_nth (rv_array cmd) index of
        None \<Rightarrow> None
      | Some node \<Rightarrow> if rn_type node \<noteq> RESP_TYPE_BULK then None else Some (slice (rn_bulk node) (rn_bulk_len node) buf))"

section \<open>Replies\<close>

type_synonym 'w step = "'w zedis_server \<Rightarrow> (int \<times> 'w zedis_server) option"

text \<open>\<open>if (n > 0) conn_queue_write(c, reply, n); return 0;\<close>\<close>

definition send_reply :: "'w os \<Rightarrow> addr \<Rightarrow> int \<times> string \<Rightarrow> 'w step" where
  "send_reply os a r s =
     (case r of (n, reply) \<Rightarrow>
        if n > 0 then do { (rc, s) \<leftarrow> conn_queue_write os a (take (nat n) reply) s; Some (0, s) } else Some (0, s))"

definition reply_error :: "'w os \<Rightarrow> addr \<Rightarrow> string \<Rightarrow> 'w step" where
  "reply_error os a msg s = send_reply os a (resp_format_error (os_memory os (sv_world s) 512) 512 msg) s"

definition reply_simple :: "'w os \<Rightarrow> addr \<Rightarrow> string \<Rightarrow> 'w step" where
  "reply_simple os a msg s = send_reply os a (resp_format_simple (os_memory os (sv_world s) 512) 512 msg) s"

definition reply_integer :: "'w os \<Rightarrow> addr \<Rightarrow> int \<Rightarrow> 'w step" where
  "reply_integer os a v s = send_reply os a (resp_format_integer (os_memory os (sv_world s) 64) 64 v) s"

definition reply_bulk :: "'w os \<Rightarrow> addr \<Rightarrow> string \<Rightarrow> 'w step" where
  "reply_bulk os a data s = send_reply os a (resp_format_bulk (os_memory os (sv_world s) 4096) 4096 data) s"

definition reply_null :: "'w os \<Rightarrow> addr \<Rightarrow> 'w step" where
  "reply_null os a s = send_reply os a (resp_format_null (os_memory os (sv_world s) 64) 64) s"

text \<open>A reply printed with \<open>snprintf\<close> into a buffer of \<open>cap\<close> bytes and sent with the length \<open>snprintf\<close> returned; when
  that exceeds the buffer, the bytes behind the buffer are sent.\<close>

definition reply_printed :: "'w os \<Rightarrow> addr \<Rightarrow> nat \<Rightarrow> string \<Rightarrow> 'w step" where
  "reply_printed os a cap text s =
     send_reply os a (snprintf (os_memory os (sv_world s) (max cap (length text))) cap text) s"

section \<open>Handlers\<close>

definition ping_command :: "'w os \<Rightarrow> addr \<Rightarrow> resp_value \<Rightarrow> 'w step" where
  "ping_command os a cmd s =
     do {
       c \<leftarrow> sv_conns s a;
       if length (rv_array cmd) = 1 then reply_simple os a ''PONG'' s
       else case cmd_bulk (p_buf (cn_parser c)) cmd 1 of
              Some msg \<Rightarrow> reply_bulk os a msg s
            | None \<Rightarrow> Some (0, s)
     }"

definition echo_command :: "'w os \<Rightarrow> addr \<Rightarrow> resp_value \<Rightarrow> 'w step" where
  "echo_command os a cmd s =
     do {
       c \<leftarrow> sv_conns s a;
       case cmd_bulk (p_buf (cn_parser c)) cmd 1 of
         Some msg \<Rightarrow> reply_bulk os a msg s
       | None \<Rightarrow> reply_error os a ''ERR wrong number of arguments for 'echo' command'' s
     }"

definition set_command :: "'w os \<Rightarrow> addr \<Rightarrow> resp_value \<Rightarrow> 'w step" where
  "set_command os a cmd s =
     do {
       c \<leftarrow> sv_conns s a;
       case (cmd_bulk (p_buf (cn_parser c)) cmd 1, cmd_bulk (p_buf (cn_parser c)) cmd 2) of
         (Some key, Some val) \<Rightarrow>
           do {
             (rc, kv) \<leftarrow> zedis_ht_set (sv_kv s) key val;
             let s = s\<lparr>sv_kv := kv\<rparr>;
             if rc \<noteq> 0 then reply_error os a ''ERR hash table full or value too large'' s
             else reply_simple os a ''OK'' s
           }
       | _ \<Rightarrow> reply_error os a ''ERR wrong number of arguments for 'set' command'' s
     }"

definition get_command :: "'w os \<Rightarrow> addr \<Rightarrow> resp_value \<Rightarrow> 'w step" where
  "get_command os a cmd s =
     do {
       c \<leftarrow> sv_conns s a;
       case cmd_bulk (p_buf (cn_parser c)) cmd 1 of
         Some key \<Rightarrow>
           do {
             r \<leftarrow> zedis_ht_get (sv_kv s) key ZEDIS_HT_MAX_VALUE;
             case r of
               None \<Rightarrow> reply_null os a s
             | Some (value, value_len) \<Rightarrow>
                 reply_bulk os a (take value_len (value @ os_memory os (sv_world s) (ZEDIS_HT_MAX_VALUE - length value))) s
           }
       | None \<Rightarrow> reply_error os a ''ERR wrong number of arguments for 'get' command'' s
     }"

definition bid_command :: "'w os \<Rightarrow> addr \<Rightarrow> resp_value \<Rightarrow> 'w step" where
  "bid_command os a cmd s =
     do {
       c \<leftarrow> sv_conns s a;
       case (cmd_bulk (p_buf (cn_parser c)) cmd 1, cmd_bulk (p_buf (cn_parser c)) cmd 2) of
         (Some price_str, Some qty_str) \<Rightarrow>
           (case (parse_int price_str, parse_i64 qty_str) of
              (Some price, Some qty) \<Rightarrow>
                (case zedis_book_bid (sv_book s) price qty of
                   (rc, book) \<Rightarrow>
                     if rc \<noteq> 0 then reply_error os a ''ERR price out of range'' (s\<lparr>sv_book := book\<rparr>)
                     else reply_integer os a qty (s\<lparr>sv_book := book\<rparr>))
            | _ \<Rightarrow> reply_error os a ''ERR invalid bid arguments'' s)
       | _ \<Rightarrow> reply_error os a ''ERR wrong number of arguments for 'bid' command'' s
     }"

definition ask_command :: "'w os \<Rightarrow> addr \<Rightarrow> resp_value \<Rightarrow> 'w step" where
  "ask_command os a cmd s =
     do {
       c \<leftarrow> sv_conns s a;
       case (cmd_bulk (p_buf (cn_parser c)) cmd 1, cmd_bulk (p_buf (cn_parser c)) cmd 2) of
         (Some price_str, Some qty_str) \<Rightarrow>
           (case (parse_int price_str, parse_i64 qty_str) of
              (Some price, Some qty) \<Rightarrow>
                (case zedis_book_ask (sv_book s) price qty of
                   (rc, book) \<Rightarrow>
                     if rc \<noteq> 0 then reply_error os a ''ERR price out of range'' (s\<lparr>sv_book := book\<rparr>)
                     else reply_integer os a qty (s\<lparr>sv_book := book\<rparr>))
            | _ \<Rightarrow> reply_error os a ''ERR invalid ask arguments'' s)
       | _ \<Rightarrow> reply_error os a ''ERR wrong number of arguments for 'ask' command'' s
     }"

definition book_command :: "'w os \<Rightarrow> addr \<Rightarrow> resp_value \<Rightarrow> 'w step" where
  "book_command os a cmd s =
     do {
       c \<leftarrow> sv_conns s a;
       case cmd_bulk (p_buf (cn_parser c)) cmd 1 of
         Some price_str \<Rightarrow>
           (case parse_int price_str of
              Some price \<Rightarrow>
                (case zedis_book_level (sv_book s) price of
                   None \<Rightarrow> reply_error os a ''ERR price out of range'' s
                 | Some (bid, ask) \<Rightarrow>
                     reply_printed os a 128 (''*2'' @ crlf @ '':'' @ show_int bid @ crlf @ '':'' @ show_int ask @ crlf) s)
            | None \<Rightarrow> reply_error os a ''ERR invalid price'' s)
       | None \<Rightarrow> reply_error os a ''ERR wrong number of arguments for 'book' command'' s
     }"

definition del_command :: "'w os \<Rightarrow> addr \<Rightarrow> resp_value \<Rightarrow> 'w step" where
  "del_command os a cmd s =
     do {
       c \<leftarrow> sv_conns s a;
       case cmd_bulk (p_buf (cn_parser c)) cmd 1 of
         Some key \<Rightarrow>
           do {
             (rc, kv) \<leftarrow> zedis_ht_del (sv_kv s) key;
             reply_integer os a (if rc = 0 then 1 else 0) (s\<lparr>sv_kv := kv\<rparr>)
           }
       | None \<Rightarrow> reply_error os a ''ERR wrong number of arguments for 'del' command'' s
     }"

definition zadd_command :: "'w os \<Rightarrow> addr \<Rightarrow> resp_value \<Rightarrow> 'w step" where
  "zadd_command os a cmd s =
     do {
       c \<leftarrow> sv_conns s a;
       let buf = p_buf (cn_parser c);
       case (cmd_bulk buf cmd 1, cmd_bulk buf cmd 2, cmd_bulk buf cmd 3) of
         (Some key, Some score_str, Some member) \<Rightarrow>
           (case parse_i64 score_str of
              None \<Rightarrow> reply_error os a ''ERR value is not a valid float'' s
            | Some score \<Rightarrow>
                do {
                  prev \<leftarrow> zedis_zset_reg_score (sv_zsets s) key member;
                  (rc, zsets) \<leftarrow> zedis_zset_reg_add (sv_zsets s) key score member;
                  let s = s\<lparr>sv_zsets := zsets\<rparr>;
                  if rc \<noteq> 0 then reply_error os a ''ERR zset full or member too large'' s
                  else reply_integer os a (if prev \<noteq> None then 0 else 1) s
                })
       | _ \<Rightarrow> reply_error os a ''ERR wrong number of arguments for 'zadd' command'' s
     }"

text \<open>\<open>(double)score\<close>: the nearest integer with 53 significant bits, ties to even.\<close>

fun excess_bits :: "nat \<Rightarrow> nat" where
  "excess_bits n = (if n < 2 ^ 53 then 0 else Suc (excess_bits (n div 2)))"

declare excess_bits.simps [simp del]

text \<open>\<open>n\<close> divided by \<open>d\<close>, rounded to nearest, ties to even.\<close>

definition div_round :: "nat \<Rightarrow> nat \<Rightarrow> nat" where
  "div_round n d =
     (let q = n div d; r = n mod d in if 2 * r > d \<or> (2 * r = d \<and> odd q) then q + 1 else q)"

definition double_of :: "nat \<Rightarrow> nat" where
  "double_of n = div_round n (2 ^ excess_bits n) * 2 ^ excess_bits n"

text \<open>\<open>%.17g\<close> of a nonnegative integral double: its digits, or, from the 18th digit on, scientific notation with
  17 significant digits and without trailing zeros.\<close>

definition strip_zeros :: "string \<Rightarrow> string" where
  "strip_zeros ds = rev (dropWhile (\<lambda>c. c = CHR ''0'') (rev ds))"

definition show_g17 :: "nat \<Rightarrow> string" where
  "show_g17 n =
     (if n < 10 ^ 17 then show_nat n
      else let k = length (show_nat n) - 17;
               m = div_round n (10 ^ k);
               (m, x) = (if m = 10 ^ 17 then (10 ^ 16, 17 + k) else (m, 16 + k));
               ds = show_nat m;
               frac = strip_zeros (tl ds)
           in hd ds # (if frac = [] then [] else CHR ''.'' # frac) @ ''e+'' @ show_nat x)"

definition score_text :: "int \<Rightarrow> string" where
  "score_text v = (if v < 0 then CHR ''-'' # show_g17 (double_of (nat (- v))) else show_g17 (double_of (nat v)))"

definition zscore_command :: "'w os \<Rightarrow> addr \<Rightarrow> resp_value \<Rightarrow> 'w step" where
  "zscore_command os a cmd s =
     do {
       c \<leftarrow> sv_conns s a;
       let buf = p_buf (cn_parser c);
       case (cmd_bulk buf cmd 1, cmd_bulk buf cmd 2) of
         (Some key, Some member) \<Rightarrow>
           do {
             r \<leftarrow> zedis_zset_reg_score (sv_zsets s) key member;
             case r of
               None \<Rightarrow> reply_null os a s
             | Some score \<Rightarrow>
                 (case snprintf (os_memory os (sv_world s) 64) 64 (score_text score) of
                    (len, score_buf) \<Rightarrow> if len > 0 then reply_bulk os a (take (nat len) score_buf) s else Some (0, s))
           }
       | _ \<Rightarrow> reply_error os a ''ERR wrong number of arguments for 'zscore' command'' s
     }"

text \<open>A range reply of \<open>8192\<close> bytes at most, queued with its length.\<close>

definition queue_range :: "'w os \<Rightarrow> addr \<Rightarrow> string option \<Rightarrow> string \<Rightarrow> 'w step" where
  "queue_range os a reply err s =
     (case reply of
        None \<Rightarrow> reply_error os a err s
      | Some txt \<Rightarrow> do { (rc, s) \<leftarrow> conn_queue_write os a txt s; Some (0, s) })"

definition zrange_command :: "'w os \<Rightarrow> addr \<Rightarrow> resp_value \<Rightarrow> 'w step" where
  "zrange_command os a cmd s =
     do {
       c \<leftarrow> sv_conns s a;
       let buf = p_buf (cn_parser c);
       case (cmd_bulk buf cmd 1, cmd_bulk buf cmd 2, cmd_bulk buf cmd 3) of
         (Some key, Some start_str, Some stop_str) \<Rightarrow>
           (case (parse_i64 start_str, parse_i64 stop_str) of
              (Some start, Some stop) \<Rightarrow>
                do {
                  r \<leftarrow> zedis_zset_reg_range (sv_zsets s) key start stop 8192;
                  queue_range os a r ''ERR zrange failed'' s
                }
            | _ \<Rightarrow> reply_error os a ''ERR value is not an integer or out of range'' s)
       | _ \<Rightarrow> reply_error os a ''ERR wrong number of arguments for 'zrange' command'' s
     }"

definition lpush_command :: "'w os \<Rightarrow> addr \<Rightarrow> resp_value \<Rightarrow> 'w step" where
  "lpush_command os a cmd s =
     do {
       c \<leftarrow> sv_conns s a;
       let buf = p_buf (cn_parser c);
       case (cmd_bulk buf cmd 1, cmd_bulk buf cmd 2) of
         (Some key, Some val) \<Rightarrow>
           do {
             (rc, lists, aol) \<leftarrow> zedis_list_reg_lpush (sv_lists s) (sv_aol s) key val;
             let s = s\<lparr>sv_lists := lists, sv_aol := aol\<rparr>;
             if rc \<noteq> 0 then reply_error os a ''ERR list full or append log full'' s
             else do {
               len \<leftarrow> zedis_list_reg_llen (sv_lists s) key;
               reply_integer os a (int len) s
             }
           }
       | _ \<Rightarrow> reply_error os a ''ERR wrong number of arguments for 'lpush' command'' s
     }"

definition lrange_command :: "'w os \<Rightarrow> addr \<Rightarrow> resp_value \<Rightarrow> 'w step" where
  "lrange_command os a cmd s =
     do {
       c \<leftarrow> sv_conns s a;
       let buf = p_buf (cn_parser c);
       case (cmd_bulk buf cmd 1, cmd_bulk buf cmd 2, cmd_bulk buf cmd 3) of
         (Some key, Some start_str, Some stop_str) \<Rightarrow>
           (case (parse_i64 start_str, parse_i64 stop_str) of
              (Some start, Some stop) \<Rightarrow>
                do {
                  r \<leftarrow> zedis_list_reg_lrange (sv_lists s) (sv_aol s) key start stop 8192;
                  queue_range os a r ''ERR lrange failed'' s
                }
            | _ \<Rightarrow> reply_error os a ''ERR value is not an integer or out of range'' s)
       | _ \<Rightarrow> reply_error os a ''ERR wrong number of arguments for 'lrange' command'' s
     }"

definition llen_command :: "'w os \<Rightarrow> addr \<Rightarrow> resp_value \<Rightarrow> 'w step" where
  "llen_command os a cmd s =
     do {
       c \<leftarrow> sv_conns s a;
       case cmd_bulk (p_buf (cn_parser c)) cmd 1 of
         Some key \<Rightarrow> do { len \<leftarrow> zedis_list_reg_llen (sv_lists s) key; reply_integer os a (int len) s }
       | None \<Rightarrow> reply_error os a ''ERR wrong number of arguments for 'llen' command'' s
     }"

section \<open>Publish and subscribe\<close>

definition listens :: "string \<Rightarrow> conn \<Rightarrow> bool" where
  "listens ch c \<longleftrightarrow> cn_subscribed c \<and> str_case_equal (cstr (cn_channel c)) ch"

text \<open>The loops over the connections, from the connection at \<open>b\<close> on.\<close>

partial_function (option) count_receivers :: "string \<Rightarrow> 'w zedis_server \<Rightarrow> addr \<Rightarrow> nat option" where
  "count_receivers ch s b =
     (if b = 0 then Some 0
      else do {
        c \<leftarrow> sv_conns s b;
        n \<leftarrow> count_receivers ch s (cn_next c);
        Some (if listens ch c then n + 1 else n)
      })"

partial_function (option) broadcast_loop :: "'w os \<Rightarrow> string \<Rightarrow> string \<Rightarrow> addr \<Rightarrow> 'w zedis_server \<Rightarrow> 'w zedis_server option" where
  "broadcast_loop os ch msg b s =
     (if b = 0 then Some s
      else do {
        c \<leftarrow> sv_conns s b;
        (rc, s) \<leftarrow> (if listens ch c then conn_queue_write os b msg s else Some (0, s));
        c \<leftarrow> sv_conns s b;
        broadcast_loop os ch msg (cn_next c) s
      })"

definition message_head :: "string \<Rightarrow> nat \<Rightarrow> string" where
  "message_head ch payload_len =
     ''*3'' @ crlf @ ''$7'' @ crlf @ ''message'' @ crlf @ ''$'' @ show_nat (length (cstr ch)) @ crlf @ cstr ch @ crlf @
     ''$'' @ show_nat payload_len @ crlf"

definition server_broadcast_channel :: "'w os \<Rightarrow> string \<Rightarrow> string \<Rightarrow> 'w zedis_server \<Rightarrow> 'w zedis_server option" where
  "server_broadcast_channel os ch payload s =
     (let cap = ZEDIS_RING_MSG_MAX + 256; head = message_head ch (length payload); used = length head in
      if used \<le> 0 \<or> used \<ge> cap then Some s
      else if used + length payload + 2 \<ge> cap then Some s
      else broadcast_loop os ch (head @ payload @ crlf) (sv_conns_head s) s)"

definition publish_command :: "'w os \<Rightarrow> addr \<Rightarrow> resp_value \<Rightarrow> 'w step" where
  "publish_command os a cmd s =
     do {
       c \<leftarrow> sv_conns s a;
       let buf = p_buf (cn_parser c);
       case (cmd_bulk buf cmd 1, cmd_bulk buf cmd 2) of
         (Some channel, Some message) \<Rightarrow>
           (let ch = take (if length channel < 63 then length channel else 63) channel @ [NUL] in
            case zedis_ring_publish (sv_ring s) (Some ch) (Some message) of
              (rc, ring) \<Rightarrow>
                let s = s\<lparr>sv_ring := ring\<rparr> in
                if rc \<noteq> 0 then reply_error os a ''ERR ring buffer full'' s
                else do {
                  receivers \<leftarrow> count_receivers ch s (sv_conns_head s);
                  s \<leftarrow> server_broadcast_channel os ch message s;
                  reply_integer os a (int receivers) s
                })
       | _ \<Rightarrow> reply_error os a ''ERR wrong number of arguments for 'publish' command'' s
     }"

definition subscribe_command :: "'w os \<Rightarrow> addr \<Rightarrow> resp_value \<Rightarrow> 'w step" where
  "subscribe_command os a cmd s =
     do {
       c \<leftarrow> sv_conns s a;
       case cmd_bulk (p_buf (cn_parser c)) cmd 1 of
         Some channel \<Rightarrow>
           do {
             let ch_len = (if length channel < sub_channel_cap - 1 then length channel else sub_channel_cap - 1);
             let field = write_at 0 (take ch_len channel @ [NUL]) (cn_channel c);
             s \<leftarrow> upd_conn a (\<lambda>c. c\<lparr>cn_channel := field, cn_subscribed := True\<rparr>) s;
             reply_printed os a 512 (''*3'' @ crlf @ ''$9'' @ crlf @ ''subscribe'' @ crlf @ ''$'' @ show_nat ch_len @ crlf @
               cstr (take ch_len field) @ crlf @ '':1'' @ crlf) s
           }
       | None \<Rightarrow> reply_error os a ''ERR wrong number of arguments for 'subscribe' command'' s
     }"

definition quit_command :: "'w os \<Rightarrow> addr \<Rightarrow> 'w step" where
  "quit_command os a s = do { s \<leftarrow> conn_destroy os a s; Some (1, s) }"

end
