(* ===== verification/Server.thy ===== *)
theory Server
  imports Commands
begin

text \<open>
  The command table, the dispatcher and the read side of a connection (\<^verbatim>\<open>src/src/server.c\<close>, \<^verbatim>\<open>src/src/conn.c\<close>), and
  the counters of handled commands (\<^verbatim>\<open>src/src/metrics.c\<close>).
\<close>

unbundle bit_operations_syntax

section \<open>Model\<close>

datatype command = PING | ECHO | SET | GET | BID | ASK | BOOK | DEL | ZADD | ZSCORE | ZRANGE | LPUSH | LRANGE | LLEN
  | PUBLISH | SUBSCRIBE | QUIT

definition command_table :: "(string \<times> command) list" where
  "command_table =
     [(''PING'', PING), (''ECHO'', ECHO), (''SET'', SET), (''GET'', GET), (''BID'', BID), (''ASK'', ASK), (''BOOK'', BOOK),
      (''DEL'', DEL), (''ZADD'', ZADD), (''ZSCORE'', ZSCORE), (''ZRANGE'', ZRANGE), (''LPUSH'', LPUSH), (''LRANGE'', LRANGE),
      (''LLEN'', LLEN), (''PUBLISH'', PUBLISH), (''SUBSCRIBE'', SUBSCRIBE), (''QUIT'', QUIT)]"

definition find_command :: "string \<Rightarrow> (string \<times> command) option" where
  "find_command cmd = List.find (\<lambda>e. str_case_equal cmd (fst e)) command_table"

fun run_command :: "command \<Rightarrow> 'w os \<Rightarrow> addr \<Rightarrow> resp_value \<Rightarrow> 'w step" where
  "run_command PING os a cmd = ping_command os a cmd"
| "run_command ECHO os a cmd = echo_command os a cmd"
| "run_command SET os a cmd = set_command os a cmd"
| "run_command GET os a cmd = get_command os a cmd"
| "run_command BID os a cmd = bid_command os a cmd"
| "run_command ASK os a cmd = ask_command os a cmd"
| "run_command BOOK os a cmd = book_command os a cmd"
| "run_command DEL os a cmd = del_command os a cmd"
| "run_command ZADD os a cmd = zadd_command os a cmd"
| "run_command ZSCORE os a cmd = zscore_command os a cmd"
| "run_command ZRANGE os a cmd = zrange_command os a cmd"
| "run_command LPUSH os a cmd = lpush_command os a cmd"
| "run_command LRANGE os a cmd = lrange_command os a cmd"
| "run_command LLEN os a cmd = llen_command os a cmd"
| "run_command PUBLISH os a cmd = publish_command os a cmd"
| "run_command SUBSCRIBE os a cmd = subscribe_command os a cmd"
| "run_command QUIT os a cmd = quit_command os a"

definition command_names :: "string list" where
  "command_names =
     [''PING'', ''ECHO'', ''SET'', ''GET'', ''BID'', ''ASK'', ''BOOK'', ''DEL'', ''ZADD'', ''ZSCORE'', ''ZRANGE'', ''LPUSH'',
      ''LRANGE'', ''LLEN'', ''PUBLISH'', ''SUBSCRIBE'', ''QUIT'']"

text \<open>The index of the name in \<open>names\<close>, counted from \<open>i\<close>; -1 if it is not there.\<close>

fun command_index_loop :: "nat \<Rightarrow> string list \<Rightarrow> string \<Rightarrow> int" where
  "command_index_loop i [] name = -1"
| "command_index_loop i (n # ns) name =
     (if length n = length name \<and> n = name then int i else command_index_loop (i + 1) ns name)"

definition command_index :: "string \<Rightarrow> int" where
  "command_index name = command_index_loop 0 command_names name"

definition zedis_metrics_record_command :: "string \<Rightarrow> 'w zedis_server \<Rightarrow> 'w zedis_server" where
  "zedis_metrics_record_command name s =
     (case sv_metrics s of
        None \<Rightarrow> s
      | Some mt \<Rightarrow>
          let index = command_index name in
          if index \<ge> 0
          then s\<lparr>sv_metrics := Some (mt\<lparr>mt_command_counts := (mt_command_counts mt)
                   [nat index := wrap_u64 (mt_command_counts mt ! nat index + 1)]\<rparr>)\<rparr>
          else s)"

definition server_handle_command :: "'w os \<Rightarrow> addr \<Rightarrow> resp_value \<Rightarrow> 'w step" where
  "server_handle_command os a cmd s =
     do {
       c \<leftarrow> sv_conns s a;
       if rv_type cmd = RESP_TYPE_ARRAY \<and> length (rv_array cmd) = 0 then Some (0, s)
       else if rv_type cmd \<noteq> RESP_TYPE_ARRAY then reply_error os a ''ERR invalid command format'' s
       else case cmd_bulk (p_buf (cn_parser c)) cmd 0 of
         None \<Rightarrow> reply_error os a ''ERR invalid command format'' s
       | Some name \<Rightarrow>
           (case find_command name of
              None \<Rightarrow> reply_printed os a 512 (''-ERR unknown command '' @ CHR 0x27 # cstr name @ CHR 0x27 # crlf) s
            | Some (entry_name, fn) \<Rightarrow> run_command fn os a cmd (zedis_metrics_record_command entry_name s))
     }"

text \<open>The command's nodes go back to the connection's parser.\<close>

definition release_cmd :: "resp_value \<Rightarrow> conn \<Rightarrow> conn" where
  "release_cmd cmd c = c\<lparr>cn_parser := (cn_parser c)\<lparr>p_pool := fst (resp_value_release (p_pool (cn_parser c)) cmd)\<rparr>\<rparr>"

partial_function (option) server_dispatch_commands :: "'w os \<Rightarrow> addr \<Rightarrow> 'w zedis_server \<Rightarrow> (int \<times> 'w zedis_server) option" where
  "server_dispatch_commands os a s =
     do {
       c \<leftarrow> sv_conns s a;
       (status, p, cmd) \<leftarrow> resp_parser_next (with_pool s (cn_parser c));
       s \<leftarrow> upd_conn a (\<lambda>c. c\<lparr>cn_parser := p\<rparr>) (put_pool p s);
       (case status of
          RESP_NEED_MORE \<Rightarrow> Some (0, s)
        | RESP_ERROR \<Rightarrow>
            do {
              (rc, s) \<leftarrow> send_reply os a (resp_format_error (os_memory os (sv_world s) 64) 64 ''ERR protocol error'') s;
              s \<leftarrow> conn_destroy os a s;
              Some (1, s)
            }
        | RESP_OK \<Rightarrow>
            do {
              (closed, s) \<leftarrow> server_handle_command os a cmd s;
              if closed \<noteq> 0 then Some (1, s)
              else do {
                c \<leftarrow> sv_conns s a;
                s \<leftarrow> upd_conn a (release_cmd cmd) s;
                if cn_closed c then do { s \<leftarrow> conn_destroy os a s; Some (1, s) }
                else server_dispatch_commands os a s
              }
            })
     }"

text \<open>Received bytes are written behind the write position, which then advances.\<close>

definition store_input :: "string \<Rightarrow> conn \<Rightarrow> conn" where
  "store_input bs c =
     c\<lparr>cn_parser := resp_parser_commit
         ((cn_parser c)\<lparr>p_buf := write_at (resp_parser_write_ptr (cn_parser c)) bs (p_buf (cn_parser c))\<rparr>) (length bs)\<rparr>"

partial_function (option) conn_on_readable :: "'w os \<Rightarrow> addr \<Rightarrow> 'w zedis_server \<Rightarrow> 'w zedis_server option" where
  "conn_on_readable os a s =
     do {
       c \<leftarrow> sv_conns s a;
       let space = resp_parser_space (cn_parser c);
       if space = 0 then conn_destroy os a s
       else (case os_read os (sv_world s) (cn_fd c) space of
          (ReadAgain, w) \<Rightarrow> Some (s\<lparr>sv_world := w\<rparr>)
        | (ReadError, w) \<Rightarrow> conn_destroy os a (s\<lparr>sv_world := w\<rparr>)
        | (ReadBytes bs, w) \<Rightarrow>
            if length bs = 0 then conn_destroy os a (s\<lparr>sv_world := w\<rparr>)
            else do {
              s \<leftarrow> upd_conn a (store_input bs) (s\<lparr>sv_world := w\<rparr>);
              (rc, s) \<leftarrow> server_dispatch_commands os a s;
              if rc = 1 then Some s else conn_on_readable os a s
            })
     }"

section \<open>Accepting\<close>

definition O_NONBLOCK :: int where "O_NONBLOCK = 2048"

definition set_nonblocking :: "'w os \<Rightarrow> int \<Rightarrow> 'w \<Rightarrow> int \<times> 'w" where
  "set_nonblocking os fd w =
     (case os_getfl os w fd of
        (flags, w) \<Rightarrow>
          if flags < 0 then (-1, w)
          else case os_setfl os w fd (flags OR O_NONBLOCK) of (rc, w) \<Rightarrow> (if rc = 0 then 0 else -1, w))"

partial_function (option) accept_loop :: "'w os \<Rightarrow> int \<Rightarrow> 'w zedis_server \<Rightarrow> 'w zedis_server option" where
  "accept_loop os fd s =
     (case os_accept os (sv_world s) fd of
        (client_fd, w) \<Rightarrow>
          let s = s\<lparr>sv_world := w\<rparr> in
          if client_fd < 0 then Some s
          else (case set_nonblocking os client_fd (sv_world s) of
            (rc, w) \<Rightarrow>
              let s = s\<lparr>sv_world := w\<rparr> in
              if rc \<noteq> 0 then accept_loop os fd (s\<lparr>sv_world := os_close os (sv_world s) client_fd\<rparr>)
              else do {
                (r, s) \<leftarrow> conn_create os client_fd s;
                (case r of
                   None \<Rightarrow> accept_loop os fd (s\<lparr>sv_world := os_close os (sv_world s) client_fd\<rparr>)
                 | Some a \<Rightarrow>
                     (case event_loop_add os (sv_world s) (sv_loop s) client_fd (EPOLLIN OR EPOLLET) CONN_ON_READABLE a of
                        (rc, loop, w) \<Rightarrow>
                          let s = s\<lparr>sv_loop := loop, sv_world := w\<rparr> in
                          if rc \<noteq> 0 then do { s \<leftarrow> conn_destroy os a s; accept_loop os fd s }
                          else accept_loop os fd s))
              }))"

definition server_on_accept :: "'w os \<Rightarrow> int \<Rightarrow> 'w zedis_server \<Rightarrow> 'w zedis_server option" where
  "server_on_accept os fd s =
     (if sv_conn_count s \<ge> cf_max_connections (sv_config s) then Some s else accept_loop os fd s)"

section \<open>The event loop\<close>

text \<open>The call of a registered handler with its user data.\<close>

fun call_handler :: "'w os \<Rightarrow> handler \<Rightarrow> int \<Rightarrow> addr \<Rightarrow> 'w zedis_server \<Rightarrow> 'w zedis_server option" where
  "call_handler os CONN_ON_READABLE fd a s = conn_on_readable os a s"
| "call_handler os CONN_ON_WRITABLE fd a s = conn_on_writable os a s"
| "call_handler os SERVER_ON_ACCEPT fd a s = server_on_accept os fd s"

fun handle_events :: "'w os \<Rightarrow> (int \<times> nat) list \<Rightarrow> 'w zedis_server \<Rightarrow> 'w zedis_server option" where
  "handle_events os [] s = Some s"
| "handle_events os ((fd, ev) # evs) s =
     (if fd < 0 \<or> fd \<ge> el_max_fds (sv_loop s) then handle_events os evs s
      else case el_handlers (sv_loop s) ! nat fd of
        (None, u) \<Rightarrow> handle_events os evs s
      | (Some h, u) \<Rightarrow> do { s \<leftarrow> call_handler os h fd u s; handle_events os evs s })"

definition event_loop_run_once :: "'w os \<Rightarrow> bool \<Rightarrow> 'w step" where
  "event_loop_run_once os block s =
     (if el_stop (sv_loop s) \<or> os_signal os (sv_world s) \<noteq> 0 then Some (-1, s\<lparr>sv_loop := event_loop_stop (sv_loop s)\<rparr>)
      else case os_epoll_wait os (sv_world s) (if block then -1 else 0) of
        (Ready evs, w) \<Rightarrow> do { s \<leftarrow> handle_events os evs (s\<lparr>sv_world := w\<rparr>); Some (int (length evs), s) }
      | (r, w) \<Rightarrow>
          if os_signal os w \<noteq> 0 then Some (-1, s\<lparr>sv_world := w, sv_loop := event_loop_stop (sv_loop s)\<rparr>)
          else Some (if r = WaitInterrupted then 0 else -1, s\<lparr>sv_world := w\<rparr>))"

end
