(* ===== verification/Server_Inv.thy ===== *)
theory Server_Inv
  imports Server
begin

text \<open>
  The invariant of a running server. The connections form one list and are well formed, the stores are well
  formed, every handler the event loop may call belongs to a live connection that owns the descriptor, and
  the blocks of the connections are no free blocks of the slab. The elementary changes keep it: output, a
  change of one connection that keeps its links and its blocks, a run of the parser, and the destruction
  of a connection.
\<close>

section \<open>Invariant\<close>

definition stores_ok :: "'w zedis_server \<Rightarrow> bool" where
  "stores_ok s \<longleftrightarrow> ht_wf (sv_kv s) \<and> book_wf (sv_book s) \<and> (\<exists>k. ring_shape (sv_ring s) k) \<and> zreg_inv (sv_zsets s) \<and>
     (\<exists>vss. lreg_rep (sv_lists s) (sv_aol s) vss)"

definition conns_ok :: "'w zedis_server \<Rightarrow> addr list \<Rightarrow> bool" where
  "conns_ok s xs \<longleftrightarrow> conn_list s xs \<and> dom (sv_conns s) = set xs \<and> (\<forall>a c. sv_conns s a = Some c \<longrightarrow> conn_wf c)"

text \<open>The descriptor and the write buffer of each connection.\<close>

definition ids :: "(addr \<Rightarrow> conn option) \<Rightarrow> addr \<Rightarrow> (int \<times> addr) option" where
  "ids cs a = map_option (\<lambda>c. (cn_fd c, cn_write_buf c)) (cs a)"

definition io_ok :: "'w kernel \<Rightarrow> (addr \<Rightarrow> (int \<times> addr) option) \<Rightarrow> 'w \<Rightarrow> event_loop \<Rightarrow> bool" where
  "io_ok K m w l \<longleftrightarrow>
     (\<forall>a fd b. m a = Some (fd, b) \<longrightarrow> 0 \<le> fd \<and> fd \<in> k_open K w) \<and>
     (\<forall>a a' fd b b'. m a = Some (fd, b) \<longrightarrow> m a' = Some (fd, b') \<longrightarrow> a = a') \<and>
     length (el_handlers l) = nat (el_max_fds l) \<and>
     (\<forall>i h u. i < length (el_handlers l) \<longrightarrow> el_handlers l ! i = (Some h, u) \<longrightarrow> h \<noteq> SERVER_ON_ACCEPT \<longrightarrow>
        (\<exists>b. m u = Some (int i, b)) \<and> int i \<in> k_watched K w)"

definition held :: "(addr \<Rightarrow> (int \<times> addr) option) \<Rightarrow> heap \<times> zedis_slab \<Rightarrow> (nat \<Rightarrow> addr list) \<Rightarrow> bool" where
  "held m st f \<longleftrightarrow>
     (\<forall>a fd b. m a = Some (fd, b) \<longrightarrow> a \<in> slab_blk st 2 \<and> a \<notin> set (f 2) \<and> b \<in> slab_blk st 3 \<and> b \<notin> set (f 3)) \<and>
     (\<forall>a a' fd fd' b. m a = Some (fd, b) \<longrightarrow> m a' = Some (fd', b) \<longrightarrow> a = a')"

definition slab_ok :: "(addr \<Rightarrow> (int \<times> addr) option) \<Rightarrow> heap \<times> zedis_slab \<Rightarrow> bool" where
  "slab_ok m st \<longleftrightarrow> (\<exists>f. slab_R st f \<and> held m st f) \<and> card (slab_blk st 2) < 2 ^ 64 - 1"

definition server_inv :: "'w kernel \<Rightarrow> 'w zedis_server \<Rightarrow> addr list \<Rightarrow> bool" where
  "server_inv K s xs \<longleftrightarrow> conns_ok s xs \<and> stores_ok s \<and> io_ok K (ids (sv_conns s)) (sv_world s) (sv_loop s) \<and>
     slab_ok (ids (sv_conns s)) (sv_heap s, sv_slab s)"

lemma server_inv_conn:
  assumes "server_inv K s xs" "a \<in> set xs"
  obtains c where "sv_conns s a = Some c" "conn_wf c"
  using assms that by (force simp: server_inv_def conns_ok_def)

section \<open>The event loop's table\<close>

lemma io_undisturbed: "io_ok K m w l \<Longrightarrow> undisturbed K w w' \<Longrightarrow> io_ok K m w' l"
  by (simp add: io_ok_def undisturbed_def)

lemma io_rearmed:
  assumes K: "kernel_ok os K" and I: "io_ok K (ids cs) w l" and R: "rearmed os A cs w l l'"
  shows "io_ok K (ids cs) w l'"
proof -
  have l': "l' = l\<lparr>el_handlers := el_handlers l'\<rparr>" "length (el_handlers l') = length (el_handlers l)" using R unfolding rearmed_def by blast+
  have "(\<exists>b. ids cs u = Some (int i, b)) \<and> int i \<in> k_watched K w"
    if i: "i < length (el_handlers l')" "el_handlers l' ! i = (Some h, u)" "h \<noteq> SERVER_ON_ACCEPT" for i h u
  proof (cases "el_handlers l' ! i = el_handlers l ! i")
    case True
    then show ?thesis using I i l'(2) unfolding io_ok_def by metis
  next
    case False
    then obtain b c h' ev w1 w2 where e: "cs b = Some c" "cn_fd c = int i" "el_handlers l' ! i = (Some h', b)" "quiet os w w1"
        "os_epoll_ctl os w1 EPOLL_CTL_MOD (int i) ev = (0, w2)"
      using R i(1) l'(2) unfolding rearmed_def by metis
    have "int i \<in> k_watched K w1" by (rule kernel_calls(5) [OF K e(5)])
    then show ?thesis using e(1-3) i(2) quiet_undisturbed [OF K e(4)] by (simp add: ids_def undisturbed_def)
  qed
  moreover have "el_max_fds l' = el_max_fds l" by (subst l'(1)) simp
  ultimately show ?thesis using I l'(2) unfolding io_ok_def by auto
qed

lemma io_close:
  assumes K: "kernel_ok os K" and I: "io_ok K m w l" and m: "m a = Some (fd, b)" and d: "event_loop_del os w l fd = (rc, l', w')"
  shows "io_ok K (m(a := None)) (os_close os w' fd) l'"
proof -
  obtain r where r: "os_epoll_ctl os w EPOLL_CTL_DEL fd 0 = (r, w')"
      "l' = (if r = 0 \<and> fd \<ge> 0 \<and> fd < el_max_fds l then l\<lparr>el_handlers := (el_handlers l)[nat fd := (None, 0)]\<rparr> else l)"
    using d by (auto simp: event_loop_del_def split: prod.splits if_splits)
  have D: "fd \<in> k_watched K w \<longrightarrow> r = 0" "k_watched K w' = k_watched K w - {fd}" "k_open K w' = k_open K w"
    using kernel_tables(2) [OF K r(1)] by auto
  have fd: "0 \<le> fd" using I m unfolding io_ok_def by blast
  have uniq: "a' = a" if "m a' = Some (fd, b')" for a' b' using I m that unfolding io_ok_def by blast
  have len: "length (el_handlers l') = length (el_handlers l)" "el_max_fds l' = el_max_fds l" using r(2) by auto
  have "(\<exists>b. (m(a := None)) u = Some (int i, b)) \<and> int i \<in> k_watched K (os_close os w' fd)"
    if i: "i < length (el_handlers l')" "el_handlers l' ! i = (Some h, u)" "h \<noteq> SERVER_ON_ACCEPT" for i h u
  proof -
    have "int i \<noteq> fd"
    proof
      assume eq: "int i = fd"
      have "fd < el_max_fds l" using i(1) len eq I by (auto simp: io_ok_def)
      then have "r \<noteq> 0" using i r(2) fd eq len by auto
      then have "el_handlers l ! i = (Some h, u)" using i(2) r(2) by simp
      then have "fd \<in> k_watched K w" using I i(1,3) len eq unfolding io_ok_def by metis
      then show False using D(1) \<open>r \<noteq> 0\<close> by simp
    qed
    then have "el_handlers l ! i = (Some h, u)" using i(2) r(2) fd by (auto split: if_splits)
    then obtain b' where b': "m u = Some (int i, b')" "int i \<in> k_watched K w" using I i(1,3) len(1) unfolding io_ok_def by metis
    moreover have "u \<noteq> a" using b'(1) m \<open>int i \<noteq> fd\<close> by auto
    ultimately show ?thesis using \<open>int i \<noteq> fd\<close> D(2) kernel_tables(3) [OF K, of w' fd] by simp
  qed
  moreover have "0 \<le> fd' \<and> fd' \<in> k_open K (os_close os w' fd)" if "(m(a := None)) a' = Some (fd', b')" for a' fd' b'
  proof -
    have "a' \<noteq> a" "m a' = Some (fd', b')" using that by (auto split: if_splits)
    moreover from this have "fd' \<noteq> fd" using uniq by blast
    ultimately show ?thesis using I D(3) unfolding io_ok_def by (auto simp: kernel_tables(4) [OF K])
  qed
  moreover have "length (el_handlers l') = nat (el_max_fds l')" using I len by (simp add: io_ok_def)
  moreover have "a1 = a2" if "(m(a := None)) a1 = Some (fd', b1)" "(m(a := None)) a2 = Some (fd', b2)" for a1 a2 fd' b1 b2
    using that I unfolding io_ok_def by (metis fun_upd_apply option.distinct(1))
  ultimately show ?thesis unfolding io_ok_def by blast
qed

section \<open>The slab\<close>

lemma class_sizes: "pool_for_size ZEDIS_SLAB_512 = Some 2" "pool_for_size ZEDIS_CONN_WRITE_SIZE = Some 3"
  by (simp_all add: pool_for_size_def ZEDIS_SLAB_64_def ZEDIS_SLAB_256_def ZEDIS_SLAB_512_def ZEDIS_SLAB_4096_def ZEDIS_CONN_WRITE_SIZE_def)

text \<open>Allocation takes blocks off the free lists, so what is held stays held.\<close>

lemma held_less: "held m st f \<Longrightarrow> slab_blk st' = slab_blk st \<Longrightarrow> (\<And>c. set (f' c) \<subseteq> set (f c)) \<Longrightarrow> held m st' f'"
  unfolding held_def by (metis subsetD)

lemma slab_alloc_ok:
  assumes "slab_ok m (h, sl)" "zedis_slab_alloc 0 sl h sz = (r, sl', h')"
  shows "slab_ok m (h', sl')"
proof -
  obtain f where f: "slab_R (h, sl) f" "held m (h, sl) f" "card (slab_blk (h, sl) 2) < 2 ^ 64 - 1" using assms(1) by (auto simp: slab_ok_def)
  have al: "slab_alloc_op 0 (h, sl) sz = (r, h', sl')" using assms(2) by (simp add: slab_alloc_op_def)
  consider (none) "pool_for_size sz = None" | (empty) c where "pool_for_size sz = Some c" "f c = []"
    | (first) c p ps where "pool_for_size sz = Some c" "f c = p # ps" by (metis list.exhaust not_Some_eq)
  then show ?thesis
  proof cases
    case none
    then show ?thesis using slab.al_unsupported [OF f(1), of sz 0] al assms(1) by simp
  next
    case (empty c)
    then show ?thesis using slab.al_empty [OF f(1), of sz c 0] al assms(1) by simp
  next
    case (first c p ps)
    have "slab_R (h', sl') (f(c := ps))" "slab_blk (h', sl') = slab_blk (h, sl)"
      using slab.al_first [OF f(1) first, of 0] al by auto
    moreover have "held m (h', sl') (f(c := ps))" by (rule held_less [OF f(2)]) (use calculation(2) first(2) in auto)
    ultimately show ?thesis using f(3) unfolding slab_ok_def by metis
  qed
qed

lemma slab_node_alloc:
  assumes "slab_ok m (h, sl)" "np_slab pool = Some (sl, h)" "resp__node_alloc pool = (r, pool')"
  shows "\<exists>sl' h'. np_slab pool' = Some (sl', h') \<and> slab_ok m (h', sl')"
  using assms slab_alloc_ok [OF assms(1), of sizeof_resp_node]
  by (auto simp: resp__node_alloc_def node_malloc_def split: list.splits prod.splits option.splits)

lemma slab_drawn:
  assumes "drawn pool as pool'" "np_slab pool = Some (sl, h)" "slab_ok m (h, sl)"
  shows "\<exists>sl' h'. np_slab pool' = Some (sl', h') \<and> slab_ok m (h', sl')"
  using assms
proof (induction rule: drawn.induct)
  case (drawn_snoc pool as q a r pool')
  then obtain sl1 h1 where "np_slab q = Some (sl1, h1)" "slab_ok m (h1, sl1)" by blast
  then show ?case using slab_node_alloc [of m h1 sl1 "q\<lparr>np_free := []\<rparr>" "Some a" r] drawn_snoc.hyps(2,3) by auto
qed simp

lemma slab_close:
  assumes S: "slab_ok m (h, sl)" and a: "m a = Some (fd, b)"
    and r: "zedis_slab_free 0 sl h b ZEDIS_CONN_WRITE_SIZE = (sl1, h1)" "zedis_slab_free 0 sl1 h1 a ZEDIS_SLAB_512 = (sl2, h2)"
  shows "slab_ok (m(a := None)) (h2, sl2)"
proof -
  obtain f where f: "slab_R (h, sl) f" "held m (h, sl) f" "card (slab_blk (h, sl) 2) < 2 ^ 64 - 1" using S by (auto simp: slab_ok_def)
  have H: "a \<in> slab_blk (h, sl) 2" "a \<notin> set (f 2)" "b \<in> slab_blk (h, sl) 3" "b \<notin> set (f 3)" using f(2) a by (auto simp: held_def)
  have s1: "slab_R (h1, sl1) (f(3 := b # f 3))" "slab_blk (h1, sl1) = slab_blk (h, sl)"
    using slab.rel_back [OF f(1) class_sizes(2) H(3,4), of 0] r(1) by (auto simp: slab_free_op_def)
  have s2: "slab_R (h2, sl2) (f(3 := b # f 3, 2 := a # f 2))" "slab_blk (h2, sl2) = slab_blk (h, sl)"
    using slab.rel_back [OF s1(1) class_sizes(1), of a 0] H r(2) s1(2) by (auto simp: slab_free_op_def)
  have "held (m(a := None)) (h2, sl2) (f(3 := b # f 3, 2 := a # f 2))"
    using f(2) a unfolding held_def s2(2) by (auto split: if_splits)
  then show ?thesis using s2 f(3) unfolding slab_ok_def by metis
qed

section \<open>Elementary changes\<close>

text \<open>Connections that differ in their output only are in the same list.\<close>

lemma lseg_wrote:
  assumes "\<And>b. rel_option same_input (cs b) (cs' b)"
  shows "lseg cs p a xs q b \<Longrightarrow> lseg cs' p a xs q b"
proof (induction xs arbitrary: p a)
  case (Cons x xs)
  then obtain c where c: "cs x = Some c" "cn_prev c = p" "lseg cs x (cn_next c) xs q b" by auto
  then obtain c' where "cs' x = Some c'" "same_input c c'" using assms [of x] by (auto simp: option_rel_Some1)
  then show ?case using Cons c same_input_fields(6,7) [of c c'] by auto
qed simp

lemma wrote_rest:
  assumes "wrote os A s s'"
  obtains cs l w v where "s' = s\<lparr>sv_conns := cs, sv_loop := l, sv_world := w, sv_overrun := v\<rparr>"
    "\<And>b. rel_option same_input (sv_conns s b) (cs b)" "quiet os (sv_world s) w" "rearmed os A (sv_conns s) (sv_world s) (sv_loop s) l"
  using assms that unfolding wrote_def by blast

lemma wrote_inv:
  assumes K: "kernel_ok os K" and I: "server_inv K s xs" and W: "wrote os A s s'"
  shows "server_inv K s' xs"
proof -
  obtain cs l w v where s': "s' = s\<lparr>sv_conns := cs, sv_loop := l, sv_world := w, sv_overrun := v\<rparr>"
      and R: "\<And>b. rel_option same_input (sv_conns s b) (cs b)"
      and io: "quiet os (sv_world s) w" "rearmed os A (sv_conns s) (sv_world s) (sv_loop s) l"
    by (rule wrote_rest [OF W]) blast
  have "lseg (sv_conns s) 0 (sv_conns_head s) xs q 0 \<Longrightarrow> lseg cs 0 (sv_conns_head s) xs q 0" for q
    by (rule lseg_wrote [of "sv_conns s"]) (rule R)
  then have "conn_list s' xs" using I by (auto simp: s' server_inv_def conns_ok_def conn_list_def)
  moreover have "cs b = None \<longleftrightarrow> sv_conns s b = None" for b using R [of b] by (cases rule: option.rel_cases) auto
  then have "dom cs = dom (sv_conns s)" by (simp add: dom_def)
  moreover have "conn_wf c" if "cs a = Some c" for a c
    using R [of a] that I same_input_fields(8) by (auto simp: option_rel_Some2 server_inv_def conns_ok_def)
  moreover have ids: "ids cs = ids (sv_conns s)"
  proof
    fix b
    show "ids cs b = ids (sv_conns s) b" using R [of b] same_input_fields(1,3) by (cases rule: option.rel_cases) (auto simp: ids_def)
  qed
  moreover have "io_ok K (ids (sv_conns s)) w l"
    by (rule io_undisturbed [OF io_rearmed [OF K _ io(2)] quiet_undisturbed [OF K io(1)]]) (use I in \<open>simp add: server_inv_def\<close>)
  ultimately show ?thesis using I by (auto simp: s' server_inv_def conns_ok_def stores_ok_def)
qed

text \<open>Replacing a connection without touching its links, its descriptor and its buffer.\<close>

lemma lseg_upd_links:
  "cs a = Some c \<Longrightarrow> cn_next c' = cn_next c \<Longrightarrow> cn_prev c' = cn_prev c \<Longrightarrow> lseg (cs(a \<mapsto> c')) p b ys q z = lseg cs p b ys q z"
  by (induction ys arbitrary: p b) auto

lemma ids_upd: "cs a = Some c \<Longrightarrow> cn_fd c' = cn_fd c \<Longrightarrow> cn_write_buf c' = cn_write_buf c \<Longrightarrow> ids (cs(a \<mapsto> c')) = ids cs"
  by (auto simp: ids_def)

lemma inv_upd:
  assumes "server_inv K s xs" "sv_conns s a = Some c" "cn_next c' = cn_next c" "cn_prev c' = cn_prev c" "conn_wf c'"
    "cn_fd c' = cn_fd c" "cn_write_buf c' = cn_write_buf c"
  shows "server_inv K (s\<lparr>sv_conns := (sv_conns s)(a \<mapsto> c')\<rparr>) xs"
proof -
  have "conn_list (s\<lparr>sv_conns := (sv_conns s)(a \<mapsto> c')\<rparr>) xs"
    using assms(1) by (simp add: server_inv_def conns_ok_def conn_list_def lseg_upd_links [of "sv_conns s", OF assms(2-4)])
  moreover have "dom ((sv_conns s)(a \<mapsto> c')) = set xs" using assms(1,2) by (auto simp: server_inv_def conns_ok_def)
  ultimately show ?thesis using assms(1,5) ids_upd [of "sv_conns s", OF assms(2,6,7)]
    by (simp add: server_inv_def conns_ok_def stores_ok_def)
qed

lemma stores_updates:
  assumes "server_inv K s xs"
  shows "ht_wf kv \<Longrightarrow> server_inv K (s\<lparr>sv_kv := kv\<rparr>) xs" "book_wf book \<Longrightarrow> server_inv K (s\<lparr>sv_book := book\<rparr>) xs"
    "ring_shape ring k \<Longrightarrow> server_inv K (s\<lparr>sv_ring := ring\<rparr>) xs" "zreg_inv zsets \<Longrightarrow> server_inv K (s\<lparr>sv_zsets := zsets\<rparr>) xs"
    "lreg_rep reg log vss \<Longrightarrow> server_inv K (s\<lparr>sv_lists := reg, sv_aol := log\<rparr>) xs" "server_inv K (s\<lparr>sv_metrics := mt\<rparr>) xs"
  using assms by (auto simp: server_inv_def stores_ok_def conns_ok_def conn_list_def)

lemma with_pool_wf [simp]: "parser_wf (with_pool s p) = parser_wf p" "unread (with_pool s p) = unread p"
  by (simp_all add: with_pool_def parser_wf_def unread_def)

lemma put_pool_conns [simp]: "sv_conns (put_pool p s) = sv_conns s" "sv_world (put_pool p s) = sv_world s"
  by (auto simp: put_pool_def split: option.split)

text \<open>A run of the parser: it returns, consumes bytes when it finds a value, and takes nodes from the slab only.\<close>

lemma next_step:
  assumes I: "server_inv K s xs" and c: "sv_conns s a = Some c"
  shows "\<exists>st p v. resp_parser_next (with_pool s (cn_parser c)) = Some (st, p, v) \<and> parser_wf p \<and>
    (st = RESP_OK \<longrightarrow> length (unread p) < length (unread (cn_parser c))) \<and>
    server_inv K ((put_pool p s)\<lparr>sv_conns := (sv_conns s)(a \<mapsto> c\<lparr>cn_parser := p\<rparr>)\<rparr>) xs"
proof -
  let ?q = "with_pool s (cn_parser c)"
  have wf: "conn_wf c" using I c by (auto simp: server_inv_def conns_ok_def)
  then have "parser_wf ?q" by (simp add: conn_wf_def)
  then obtain st p v where n: "resp_parser_next ?q = Some (st, p, v)" "parser_wf p"
      "if st = RESP_OK then (\<exists>n. 0 < n \<and> n \<le> length (unread ?q) \<and> unread p = drop n (unread ?q)) else unread p = unread ?q"
      "\<exists>m. balanced (p_pool ?q) {#} (p_pool p) m"
    using next_safe [of ?q] by (metis (no_types, lifting))
  obtain as where as: "drawn (p_pool ?q) as (p_pool p)" using n(4) by (auto simp: balanced_def)
  have "np_slab (p_pool ?q) = Some (sv_slab s, sv_heap s)" by (simp add: with_pool_def)
  moreover have "slab_ok (ids (sv_conns s)) (sv_heap s, sv_slab s)" using I by (simp add: server_inv_def)
  ultimately obtain sl h where sl: "np_slab (p_pool p) = Some (sl, h)" "slab_ok (ids (sv_conns s)) (h, sl)"
    using slab_drawn [OF as] by blast
  have "server_inv K (put_pool p s) xs"
    using I sl by (auto simp: put_pool_def server_inv_def conns_ok_def conn_list_def stores_ok_def)
  from inv_upd [OF this, of a c "c\<lparr>cn_parser := p\<rparr>"] have "server_inv K ((put_pool p s)\<lparr>sv_conns := (sv_conns s)(a \<mapsto> c\<lparr>cn_parser := p\<rparr>)\<rparr>) xs"
    using c wf n(2) by (simp add: conn_wf_def)
  moreover have "length (unread p) < length (unread (cn_parser c))" if "st = RESP_OK" using n(3) that by auto
  ultimately show ?thesis using n(1,2) by blast
qed

section \<open>Destroying a connection\<close>

lemma same_but_links_fields:
  assumes "same_but_links cs cs'" "cs' a = Some c'"
  shows "\<exists>c. cs a = Some c \<and> (conn_wf c' \<longleftrightarrow> conn_wf c) \<and> cn_fd c' = cn_fd c \<and> cn_write_buf c' = cn_write_buf c"
proof -
  have "map_option (\<lambda>c. c\<lparr>cn_next := 0, cn_prev := 0\<rparr>) (cs a) = Some (c'\<lparr>cn_next := 0, cn_prev := 0\<rparr>)"
    using assms unfolding same_but_links_def by (metis option.simps(9))
  then obtain c where c: "cs a = Some c" "c\<lparr>cn_next := 0, cn_prev := 0\<rparr> = c'\<lparr>cn_next := 0, cn_prev := 0\<rparr>" by auto
  then show ?thesis by (cases c, cases c') (simp add: conn_wf_def)
qed

lemma same_but_links_ids: "same_but_links cs cs' \<Longrightarrow> ids cs' = ids cs"
proof
  fix a
  assume S: "same_but_links cs cs'"
  show "ids cs' a = ids cs a"
  proof (cases "cs' a")
    case None
    then have "cs a = None" using same_but_links_dom [OF S] by (metis domIff)
    then show ?thesis using None by (simp add: ids_def)
  next
    case (Some c')
    then show ?thesis using same_but_links_fields [OF S Some] by (auto simp: ids_def)
  qed
qed

lemma conn_destroy_ok:
  assumes K: "kernel_ok os K" and I: "server_inv K s xs" and a: "a \<in> set xs"
  shows "\<exists>s'. conn_destroy os a s = Some s' \<and> server_inv K s' (remove1 a xs) \<and> sv_conns s' a = None \<and> sv_kv s' = sv_kv s \<and>
    k_input K (sv_world s') \<le> k_input K (sv_world s)"
proof -
  obtain ys zs where xs: "xs = ys @ a # zs" using a by (metis split_list)
  have L: "conn_list s (ys @ a # zs)" "dom (sv_conns s) = set xs" "distinct xs" using I xs by (simp_all add: server_inv_def conns_ok_def conn_list_def)
  obtain s1 where s1: "server_unlink_conn a s = Some s1" "conn_list s1 (ys @ zs)" "same_but_links (sv_conns s) (sv_conns s1)"
      "s1 = s\<lparr>sv_conns := sv_conns s1, sv_conns_head := sv_conns_head s1, sv_conn_count := sv_conn_count s - 1\<rparr>"
    using unlink_conn_ok [OF L(1)] by blast
  have same: "sv_world s1 = sv_world s" "sv_loop s1 = sv_loop s" "sv_slab s1 = sv_slab s" "sv_heap s1 = sv_heap s" "sv_kv s1 = sv_kv s"
      "stores_ok s1 = stores_ok s"
    by (subst s1(4), simp add: stores_ok_def)+
  have dom1: "dom (sv_conns s1) = set xs" using same_but_links_dom [OF s1(3)] L(2) by simp
  then obtain c where c: "sv_conns s1 a = Some c" using a by auto
  have wf: "\<forall>b d. sv_conns s1 b = Some d \<longrightarrow> conn_wf d"
    using same_but_links_fields [OF s1(3)] I unfolding server_inv_def conns_ok_def by blast
  obtain rc l w where d: "event_loop_del os (sv_world s) (sv_loop s) (cn_fd c) = (rc, l, w)" by (metis prod_cases3)
  obtain sl1 h1 where f1: "zedis_slab_free 0 (sv_slab s) (sv_heap s) (cn_write_buf c) ZEDIS_CONN_WRITE_SIZE = (sl1, h1)" by (metis surj_pair)
  obtain sl2 h2 where f2: "zedis_slab_free 0 sl1 h1 a ZEDIS_SLAB_512 = (sl2, h2)" by (metis surj_pair)
  let ?cs = "(sv_conns s1)(a := None)"
  let ?s = "s1\<lparr>sv_loop := l, sv_world := os_close os w (cn_fd c), sv_slab := sl2, sv_heap := h2, sv_conns := ?cs\<rparr>"
  have D: "conn_destroy os a s = Some ?s" using s1(1) c d f1 f2 same by (simp add: conn_destroy_def slab_free_def Let_def)
  have m: "ids (sv_conns s) a = Some (cn_fd c, cn_write_buf c)" "ids ?cs = (ids (sv_conns s))(a := None)"
    unfolding same_but_links_ids [OF s1(3), symmetric] using c by (simp_all add: ids_def fun_eq_iff)
  have "io_ok K ((ids (sv_conns s))(a := None)) (os_close os w (cn_fd c)) l"
    by (rule io_close [of os K "ids (sv_conns s)", OF K _ m(1) d]) (use I in \<open>simp add: server_inv_def\<close>)
  moreover have "slab_ok ((ids (sv_conns s))(a := None)) (h2, sl2)" 
    by (rule slab_close [of "ids (sv_conns s)", OF _ m(1) f1 f2]) (use I in \<open>simp add: server_inv_def\<close>)
  moreover have na: "a \<notin> set (ys @ zs)" "set xs - {a} = set (ys @ zs)" using L(3) xs by auto
  moreover have "conn_list ?s (ys @ zs)" using s1(2) na(1) by (simp add: conn_list_def)
  moreover have "stores_ok ?s" using I same(6) by (simp add: server_inv_def stores_ok_def)
  ultimately have "server_inv K ?s (ys @ zs)" using dom1 wf m(2) by (simp add: server_inv_def conns_ok_def)
  moreover have "remove1 a xs = ys @ zs" using L(3) xs by (simp add: remove1_append)
  moreover have "k_input K (os_close os w (cn_fd c)) \<le> k_input K (sv_world s)"
  proof -
    obtain r where "os_epoll_ctl os (sv_world s) EPOLL_CTL_DEL (cn_fd c) 0 = (r, w)"
      using d by (auto simp: event_loop_del_def split: prod.splits if_splits)
    then show ?thesis using kernel_tables(2,5) [OF K] le_trans by metis
  qed
  ultimately show ?thesis using D same(5) by auto
qed

end
