(* ===== verification/Server_Safe.thy ===== *)
theory Server_Safe
  imports Server_Inv
begin

text \<open>
  Every command keeps the invariant of the server: the handlers return, follow only live connections, and
  leave the data structures well formed; so does the dispatcher, on any input.
\<close>

text \<open>The parsers of all connections are as before.\<close>

definition same_parsers :: "'w zedis_server \<Rightarrow> 'w zedis_server \<Rightarrow> bool" where
  "same_parsers s s' \<longleftrightarrow> (\<forall>b. map_option cn_parser (sv_conns s' b) = map_option cn_parser (sv_conns s b))"

lemma wrote_parsers:
  assumes "wrote os A s s'"
  shows "same_parsers s s'"
proof -
  have "map_option cn_parser (sv_conns s' b) = map_option cn_parser (sv_conns s b)" for b
  proof -
    have "rel_option same_input (sv_conns s b) (sv_conns s' b)" using assms unfolding wrote_def by blast
    then show ?thesis using same_input_fields(2) by (cases rule: option.rel_cases) auto
  qed
  then show ?thesis by (simp add: same_parsers_def)
qed

lemma wrote_input: "kernel_ok os K \<Longrightarrow> wrote os A s s' \<Longrightarrow> k_input K (sv_world s') \<le> k_input K (sv_world s)"
  using quiet_undisturbed by (fastforce simp: wrote_def undisturbed_def)

text \<open>A step that returns 0, keeps the invariant, leaves the parsers alone and brings no input.\<close>

definition safe :: "'w kernel \<Rightarrow> addr list \<Rightarrow> 'w zedis_server \<Rightarrow> (int \<times> 'w zedis_server) option \<Rightarrow> bool" where
  "safe K xs s r \<longleftrightarrow> (\<exists>s'. r = Some (0, s') \<and> server_inv K s' xs \<and> same_parsers s s' \<and> k_input K (sv_world s') \<le> k_input K (sv_world s))"

lemma safe_from:
  assumes "safe K xs s1 r" "same_parsers s s1" "k_input K (sv_world s1) \<le> k_input K (sv_world s)"
  shows "safe K xs s r"
  using assms unfolding safe_def same_parsers_def by (metis le_trans)

lemma queue_safe:
  assumes P: "kernel_ok os K" and I: "server_inv K s xs" and a: "a \<in> set xs"
  obtains rc s' where "conn_queue_write os a data s = Some (rc, s')" "wrote os {a} s s'" "server_inv K s' xs"
proof -
  obtain c where c: "sv_conns s a = Some c" "conn_wf c" by (rule server_inv_conn [OF I a])
  show ?thesis using conn_queue_write_ok [OF kernel_calls(1) [OF P] c, of data] that wrote_inv [OF P I] by blast
qed

lemma send_reply_safe:
  assumes "kernel_ok os K" "server_inv K s xs" "a \<in> set xs"
  shows "safe K xs s (send_reply os a r s)"
proof (cases "fst r > 0")
  case True
  obtain rc s' where "conn_queue_write os a (take (nat (fst r)) (snd r)) s = Some (rc, s')" "wrote os {a} s s'" "server_inv K s' xs"
    by (rule queue_safe [OF assms])
  then show ?thesis using True wrote_parsers wrote_input [OF assms(1)] by (auto simp: safe_def send_reply_def split: prod.splits)
next
  case False
  then show ?thesis using assms(2) by (auto simp: safe_def send_reply_def same_parsers_def split: prod.splits)
qed

lemmas replies = reply_error_def reply_simple_def reply_integer_def reply_bulk_def reply_null_def reply_printed_def

lemma reply_safe:
  assumes "kernel_ok os K" "server_inv K s xs" "a \<in> set xs"
  shows "safe K xs s (reply_error os a msg s)" "safe K xs s (reply_simple os a msg s)" "safe K xs s (reply_integer os a v s)"
    "safe K xs s (reply_bulk os a data s)" "safe K xs s (reply_null os a s)" "safe K xs s (reply_printed os a cap text s)"
    "safe K xs s (Some (0, s))"
proof -
  show "safe K xs s (Some (0, s))" using assms(2) by (auto simp: safe_def same_parsers_def)
qed (unfold replies, (rule send_reply_safe [OF assms])+)

text \<open>Changes that do not touch the connections.\<close>

lemma safe_upd [simp]:
  "safe K xs (s\<lparr>sv_kv := kv\<rparr>) r = safe K xs s r" "safe K xs (s\<lparr>sv_book := book\<rparr>) r = safe K xs s r"
  "safe K xs (s\<lparr>sv_ring := ring\<rparr>) r = safe K xs s r" "safe K xs (s\<lparr>sv_zsets := zsets\<rparr>) r = safe K xs s r"
  "safe K xs (s\<lparr>sv_lists := reg, sv_aol := log\<rparr>) r = safe K xs s r" "safe K xs (s\<lparr>sv_metrics := mt\<rparr>) r = safe K xs s r"
  by (auto simp: safe_def same_parsers_def)

section \<open>Handlers\<close>

lemma simple_commands_safe:
  assumes "kernel_ok os K" "server_inv K s xs" "a \<in> set xs"
  shows "safe K xs s (ping_command os a cmd s)" "safe K xs s (echo_command os a cmd s)" "safe K xs s (book_command os a cmd s)"
proof -
  obtain c where c: "sv_conns s a = Some c" by (rule server_inv_conn [OF assms(2,3)])
  note R = reply_safe [OF assms]
  show "safe K xs s (ping_command os a cmd s)" "safe K xs s (echo_command os a cmd s)" "safe K xs s (book_command os a cmd s)"
    using R by (auto simp: ping_command_def echo_command_def book_command_def c split: option.split)
qed

lemma kv_commands_safe:
  assumes P: "kernel_ok os K" and I: "server_inv K s xs" and a: "a \<in> set xs"
  shows "safe K xs s (set_command os a cmd s)" "safe K xs s (get_command os a cmd s)" "safe K xs s (del_command os a cmd s)"
proof -
  obtain c where c: "sv_conns s a = Some c" by (rule server_inv_conn [OF I a])
  have kv: "ht_wf (sv_kv s)" using I by (simp add: server_inv_def stores_ok_def)
  note R = reply_safe [OF P I a]
  have upd: "safe K xs s (reply_error os a msg (s\<lparr>sv_kv := kv\<rparr>))" "safe K xs s (reply_simple os a msg (s\<lparr>sv_kv := kv\<rparr>))"
    "safe K xs s (reply_integer os a v (s\<lparr>sv_kv := kv\<rparr>))" if "ht_wf kv" for kv msg v
    using reply_safe(1-3) [OF P stores_updates(1) [OF I that] a] by simp_all
  have "\<forall>k v. \<exists>r kv. zedis_ht_set (sv_kv s) k v = Some (r, kv) \<and> ht_wf kv" using zedis_ht_set_wf [OF kv] by metis
  then obtain f g where "\<And>k v. zedis_ht_set (sv_kv s) k v = Some (f k v, g k v)" "\<And>k v. ht_wf (g k v)" by metis
  then show "safe K xs s (set_command os a cmd s)" using R upd by (simp add: set_command_def c Let_def split: option.split)
  have "\<forall>k n. \<exists>r. zedis_ht_get (sv_kv s) k n = Some r" using zedis_ht_get_wf [OF kv] by metis
  then obtain h where "\<And>k n. zedis_ht_get (sv_kv s) k n = Some (h k n)" by metis
  then show "safe K xs s (get_command os a cmd s)" using R by (simp add: get_command_def c split: option.split)
  have "\<forall>k. \<exists>r kv. zedis_ht_del (sv_kv s) k = Some (r, kv) \<and> ht_wf kv" using zedis_ht_del_wf [OF kv] kv by metis
  then obtain f g where "\<And>k. zedis_ht_del (sv_kv s) k = Some (f k, g k)" "\<And>k. ht_wf (g k)" by metis
  then show "safe K xs s (del_command os a cmd s)" using R upd by (simp add: del_command_def c split: option.split)
qed

lemma book_orders_safe:
  assumes P: "kernel_ok os K" and I: "server_inv K s xs" and a: "a \<in> set xs"
  shows "safe K xs s (bid_command os a cmd s)" "safe K xs s (ask_command os a cmd s)"
proof -
  obtain c where c: "sv_conns s a = Some c" by (rule server_inv_conn [OF I a])
  have B: "book_wf (sv_book s)" using I by (simp add: server_inv_def stores_ok_def)
  note R = reply_safe [OF P I a]
  have upd: "safe K xs s (reply_error os a msg (s\<lparr>sv_book := book\<rparr>))" "safe K xs s (reply_integer os a v (s\<lparr>sv_book := book\<rparr>))"
    if "book_wf book" for book msg v
    using reply_safe(1,3) [OF P stores_updates(2) [OF I that] a] by simp_all
  have "book_wf book" if "zedis_book_bid (sv_book s) p q = (r, book)" for p q r book
    using book_bid_step [OF B, of p q] that B by (auto split: option.splits)
  then show "safe K xs s (bid_command os a cmd s)" using R upd by (auto simp: bid_command_def c split: option.split prod.split)
  have "book_wf book" if "zedis_book_ask (sv_book s) p q = (r, book)" for p q r book
    using book_ask_step [OF B, of p q] that B by (auto split: option.splits)
  then show "safe K xs s (ask_command os a cmd s)" using R upd by (auto simp: ask_command_def c split: option.split prod.split)
qed

text \<open>A range request returns, also when its reply does not fit.\<close>

lemma btree_range_returns:
  assumes "btree_inv bt"
  shows "\<exists>r. zedis_btree_range bt start stop cap = Some r"
proof (cases "bt_root bt = UINT32_MAX")
  case False
  obtain es where I: "limits bt" "indexed bt es" using assms by (auto simp: btree_inv_def)
  then have "es \<noteq> []" using False indexed_nonempty by blast
  obtain h t where t: "h < btree_fuel bt" "shape h t" "rep (bt_nodes bt) t" "bt_root bt = ridx t"
    by (rule indexed_tree [OF I(2,1) \<open>es \<noteq> []\<close>])
  show ?thesis
    using False count_entries_spec [OF t(2,3,1)] collect_inorder_spec [OF t(2,3,1)] t(4)
    by (simp add: zedis_btree_range_def Let_def split: option.split)
qed (simp add: zedis_btree_range_def)

lemma zset_reg_range_returns:
  assumes "zreg_inv reg"
  shows "\<exists>r. zedis_zset_reg_range reg key start stop cap = Some r"
proof -
  have D: "lookup_index (zr_keys reg) key = Some (key_slot (zr_keys reg) key)"
    using assms dir.find_slot unfolding zreg_inv_def by blast
  show ?thesis
  proof (cases "key_slot (zr_keys reg) key")
    case None
    then show ?thesis by (simp add: zedis_zset_reg_range_def D)
  next
    case (Some i)
    then show ?thesis using zreg_tree(1) [OF assms Some] btree_range_returns by (simp add: zedis_zset_reg_range_def D)
  qed
qed

lemma queue_range_safe:
  assumes "kernel_ok os K" "server_inv K s xs" "a \<in> set xs"
  shows "safe K xs s (queue_range os a reply err s)"
proof (cases reply)
  case None
  then show ?thesis using reply_safe(1) [OF assms] by (simp add: queue_range_def)
next
  case (Some r)
  obtain rc s' where "conn_queue_write os a r s = Some (rc, s')" "wrote os {a} s s'" "server_inv K s' xs"
    by (rule queue_safe [OF assms])
  then show ?thesis using Some wrote_parsers wrote_input [OF assms(1)] by (auto simp: safe_def queue_range_def)
qed

lemma zset_commands_safe:
  assumes P: "kernel_ok os K" and I: "server_inv K s xs" and a: "a \<in> set xs"
  shows "safe K xs s (zadd_command os a cmd s)" "safe K xs s (zscore_command os a cmd s)" "safe K xs s (zrange_command os a cmd s)"
proof -
  obtain c where c: "sv_conns s a = Some c" by (rule server_inv_conn [OF I a])
  have Z: "zreg_inv (sv_zsets s)" using I by (simp add: server_inv_def stores_ok_def)
  note R = reply_safe [OF P I a]
  have upd: "safe K xs s (reply_error os a msg (s\<lparr>sv_zsets := z\<rparr>))" "safe K xs s (reply_integer os a v (s\<lparr>sv_zsets := z\<rparr>))"
    if "zreg_inv z" for z msg v
    using reply_safe(1,3) [OF P stores_updates(4) [OF I that] a] by simp_all
  note sc = zset_reg_score_spec [OF Z]
  have "\<forall>k x m. \<exists>r z. zedis_zset_reg_add (sv_zsets s) k x m = Some (r, z) \<and> zreg_inv z" using zset_reg_add_spec [OF Z] by metis
  then obtain f g where "\<And>k x m. zedis_zset_reg_add (sv_zsets s) k x m = Some (f k x m, g k x m)" "\<And>k x m. zreg_inv (g k x m)" by metis
  then show "safe K xs s (zadd_command os a cmd s)" using R upd by (simp add: zadd_command_def c sc Let_def split: option.split)
  show "safe K xs s (zscore_command os a cmd s)" using R by (simp add: zscore_command_def c sc Let_def split: option.split prod.split)
  have "\<forall>k x y n. \<exists>r. zedis_zset_reg_range (sv_zsets s) k x y n = Some r" using zset_reg_range_returns [OF Z] by metis
  then obtain h where "\<And>k x y n. zedis_zset_reg_range (sv_zsets s) k x y n = Some (h k x y n)" by metis
  then show "safe K xs s (zrange_command os a cmd s)"
    using R queue_range_safe [OF P I a] by (simp add: zrange_command_def c Let_def split: option.split)
qed

lemma list_commands_safe:
  assumes P: "kernel_ok os K" and I: "server_inv K s xs" and a: "a \<in> set xs"
  shows "safe K xs s (lpush_command os a cmd s)" "safe K xs s (lrange_command os a cmd s)" "safe K xs s (llen_command os a cmd s)"
proof -
  obtain c where c: "sv_conns s a = Some c" by (rule server_inv_conn [OF I a])
  obtain vss where L: "lreg_rep (sv_lists s) (sv_aol s) vss" using I by (auto simp: server_inv_def stores_ok_def)
  note R = reply_safe [OF P I a]
  have upd: "safe K xs s (reply_error os a msg (s\<lparr>sv_lists := reg, sv_aol := log\<rparr>))"
    "safe K xs s (reply_integer os a v (s\<lparr>sv_lists := reg, sv_aol := log\<rparr>))" if "lreg_rep reg log vs" for reg log vs msg v
    using reply_safe(1,3) [OF P stores_updates(5) [OF I that] a] by simp_all
  have "\<forall>k v. \<exists>r reg log vs. zedis_list_reg_lpush (sv_lists s) (sv_aol s) k v = Some (r, reg, log) \<and> lreg_rep reg log vs"
    using list_reg_lpush_spec [OF L] by metis
  then obtain f g h w where F: "\<And>k v. zedis_list_reg_lpush (sv_lists s) (sv_aol s) k v = Some (f k v, g k v, h k v)"
      "\<And>k v. lreg_rep (g k v) (h k v) (w k v)" by metis
  show "safe K xs s (lpush_command os a cmd s)"
    using R upd [OF F(2)] by (simp add: lpush_command_def c F(1) list_reg_llen_spec [OF F(2)] Let_def split: option.split)
  show "safe K xs s (lrange_command os a cmd s)"
    using R queue_range_safe [OF P I a] by (simp add: lrange_command_def c list_reg_lrange_spec [OF L] Let_def split: option.split)
  show "safe K xs s (llen_command os a cmd s)"
    using R by (simp add: llen_command_def c list_reg_llen_spec [OF L] split: option.split)
qed

section \<open>Publish and subscribe\<close>

lemma count_receivers_lseg:
  assumes "lseg (sv_conns s) p b ys q 0"
  shows "count_receivers ch s b = Some (length (filter (\<lambda>y. listens ch (the (sv_conns s y))) ys))"
  using assms
proof (induction ys arbitrary: p b)
  case Nil
  then show ?case by (simp add: count_receivers.simps)
next
  case (Cons y ys)
  then show ?case by (subst count_receivers.simps) auto
qed

lemma broadcast_loop_safe:
  assumes P: "kernel_ok os K" and "server_inv K s xs" "lseg (sv_conns s) p b ys q 0" "set ys \<subseteq> set xs"
  shows "\<exists>s'. broadcast_loop os ch msg b s = Some s' \<and> wrote os (set ys) s s' \<and> server_inv K s' xs"
  using assms(2-)
proof (induction ys arbitrary: p b s)
  case Nil
  then show ?case by (simp add: broadcast_loop.simps)
next
  case (Cons y ys)
  then obtain c where c: "sv_conns s y = Some c" "b = y" "y \<noteq> 0" "lseg (sv_conns s) y (cn_next c) ys q 0" by auto
  obtain rc s1 where s1: "(if listens ch c then conn_queue_write os y msg s else Some (0, s)) = Some (rc, s1)" "wrote os {y} s s1" "server_inv K s1 xs"
  proof (cases "listens ch c")
    case True
    obtain rc s1 where "conn_queue_write os y msg s = Some (rc, s1)" "wrote os {y} s s1" "server_inv K s1 xs"
      by (rule queue_safe [OF P Cons.prems(1)]) (use Cons.prems(3) in auto)
    then show ?thesis using that True by simp
  next
    case False
    then show ?thesis using that Cons.prems(1) by simp
  qed
  obtain c1 where c1: "sv_conns s1 y = Some c1" "same_input c c1" by (rule wrote_conn [OF s1(2) c(1)])
  have nx: "cn_next c1 = cn_next c" by (rule same_input_fields(6) [OF c1(2)])
  have "lseg (sv_conns s1) y (cn_next c) ys q 0"
    by (rule lseg_wrote [OF _ c(4)]) (use s1(2) in \<open>auto simp: wrote_def\<close>)
  then obtain s2 where s2: "broadcast_loop os ch msg (cn_next c) s1 = Some s2" "wrote os (set ys) s1 s2" "server_inv K s2 xs"
    using Cons.IH [OF s1(3), of y "cn_next c"] Cons.prems(3) by auto
  have "wrote os (set (y # ys)) s s2" using wrote_trans [OF wrote_mono [OF s1(2)] wrote_mono [OF s2(2)]] by auto
  moreover have "broadcast_loop os ch msg b s = Some s2"
    by (subst broadcast_loop.simps) (use c s1(1) c1(1) nx s2(1) in \<open>auto split: if_splits\<close>)
  ultimately show ?case using s2(3) by blast
qed

lemma publish_safe:
  assumes P: "kernel_ok os K" and I: "server_inv K s xs" and a: "a \<in> set xs"
  shows "safe K xs s (publish_command os a cmd s)"
proof -
  obtain c where c: "sv_conns s a = Some c" by (rule server_inv_conn [OF I a])
  obtain k where K: "ring_shape (sv_ring s) k" using I by (auto simp: server_inv_def stores_ok_def)
  note R = reply_safe [OF P I a]
  have ring: "ring_shape ring k" if "zedis_ring_publish (sv_ring s) ch m = (rc, ring)" for ch m rc ring
    using that K by (auto simp: zedis_ring_publish_def publish_commit_def ring_shape_def publish_fill_def split: option.splits)
  have sent: "safe K xs s (do { n \<leftarrow> count_receivers ch (s\<lparr>sv_ring := ring\<rparr>) (sv_conns_head s);
      s \<leftarrow> server_broadcast_channel os ch m (s\<lparr>sv_ring := ring\<rparr>); reply_integer os a (int n) s })"
    if r: "ring_shape ring k" for ring ch m
  proof -
    let ?s = "s\<lparr>sv_ring := ring\<rparr>"
    have I': "server_inv K ?s xs" by (rule stores_updates(3) [OF I r])
    obtain q where q: "lseg (sv_conns ?s) 0 (sv_conns_head ?s) xs q 0" using I' by (auto simp: server_inv_def conns_ok_def conn_list_def)
    have "\<exists>s1. server_broadcast_channel os ch m ?s = Some s1 \<and> wrote os (set xs) ?s s1 \<and> server_inv K s1 xs"
      using broadcast_loop_safe [OF P I' q] I' by (simp add: server_broadcast_channel_def Let_def)
    then obtain s1 where s1: "server_broadcast_channel os ch m ?s = Some s1" "wrote os (set xs) ?s s1" "server_inv K s1 xs" by blast
    have "safe K xs s1 (reply_integer os a v s1)" for v by (rule reply_safe(3) [OF P s1(3) a])
    then have "safe K xs s (reply_integer os a v s1)" for v
      by (rule safe_from) (use wrote_parsers [OF s1(2)] wrote_input [OF P s1(2)] in \<open>simp_all add: same_parsers_def\<close>)
    then show ?thesis using count_receivers_lseg [OF q] s1(1) by simp
  qed
  have err: "safe K xs s (reply_error os a msg (s\<lparr>sv_ring := ring\<rparr>))" if "ring_shape ring k" for ring msg
    using reply_safe(1) [OF P stores_updates(3) [OF I that] a] by simp
  show ?thesis using R ring sent err by (auto simp: publish_command_def c Let_def split: option.split prod.split)
qed

lemma subscribe_safe:
  assumes P: "kernel_ok os K" and I: "server_inv K s xs" and a: "a \<in> set xs"
  shows "safe K xs s (subscribe_command os a cmd s)"
proof -
  obtain c where c: "sv_conns s a = Some c" "conn_wf c" by (rule server_inv_conn [OF I a])
  have "safe K xs s (do { s \<leftarrow> upd_conn a (\<lambda>c. c\<lparr>cn_channel := field, cn_subscribed := True\<rparr>) s; reply_printed os a 512 t s })"
    if "length field = sub_channel_cap" for field t
  proof -
    let ?c = "c\<lparr>cn_channel := field, cn_subscribed := True\<rparr>"
    let ?s = "s\<lparr>sv_conns := (sv_conns s)(a \<mapsto> ?c)\<rparr>"
    have "server_inv K ?s xs" by (rule inv_upd [OF I c(1)]) (use c(2) that in \<open>simp_all add: conn_wf_def\<close>)
    then have "safe K xs ?s (reply_printed os a 512 t ?s)" using reply_safe(6) [OF P _ a] by blast
    moreover have "same_parsers s ?s" using c(1) by (simp add: same_parsers_def)
    ultimately show ?thesis using c(1) by (auto simp: safe_def upd_conn_def same_parsers_def)
  qed
  moreover have "length (write_at 0 (take n ch @ [NUL]) (cn_channel c)) = sub_channel_cap" if "n < sub_channel_cap" for n ch
    using c(2) that by (simp add: conn_wf_def)
  ultimately show ?thesis using reply_safe(1) [OF P I a]
    by (simp add: subscribe_command_def c Let_def sub_channel_cap_def split: option.split)
qed

section \<open>Dispatch\<close>

text \<open>A command either keeps the connection and leaves the parsers alone, or it is QUIT and destroys it.\<close>

lemma handle_command_ok:
  assumes P: "kernel_ok os K" and I: "server_inv K s xs" and a: "a \<in> set xs"
  shows "safe K xs s (server_handle_command os a cmd s) \<or>
    (\<exists>s'. server_handle_command os a cmd s = Some (1, s') \<and> server_inv K s' (remove1 a xs) \<and> k_input K (sv_world s') \<le> k_input K (sv_world s))"
proof -
  obtain c where c: "sv_conns s a = Some c" by (rule server_inv_conn [OF I a])
  have "\<exists>mt. zedis_metrics_record_command name s = s\<lparr>sv_metrics := mt\<rparr>" for name
    by (cases s) (auto simp: zedis_metrics_record_command_def Let_def split: option.split)
  then obtain mt where mt: "\<And>name. zedis_metrics_record_command name s = s\<lparr>sv_metrics := mt name\<rparr>" by metis
  have run: "safe K xs s (run_command fn os a cmd (s\<lparr>sv_metrics := m\<rparr>)) \<or>
      (\<exists>s'. run_command fn os a cmd (s\<lparr>sv_metrics := m\<rparr>) = Some (1, s') \<and> server_inv K s' (remove1 a xs) \<and>
         k_input K (sv_world s') \<le> k_input K (sv_world s))" for fn m
  proof -
    have I': "server_inv K (s\<lparr>sv_metrics := m\<rparr>) xs" by (rule stores_updates(6) [OF I])
    note S = simple_commands_safe [OF P I' a] kv_commands_safe [OF P I' a] book_orders_safe [OF P I' a] zset_commands_safe [OF P I' a]
      list_commands_safe [OF P I' a] publish_safe [OF P I' a] subscribe_safe [OF P I' a]
    show ?thesis
    proof (cases fn)
      case QUIT
      then show ?thesis using conn_destroy_ok [OF P I' a] by (auto simp: quit_command_def)
    qed (use S in simp_all)
  qed
  show ?thesis
    using reply_safe [OF P I a] run by (auto simp: server_handle_command_def c mt split: option.split)
qed

lemma dispatch_ok:
  assumes P: "kernel_ok os K" and "server_inv K s xs" "a \<in> set xs"
  shows "\<exists>rc s'. server_dispatch_commands os a s = Some (rc, s') \<and> k_input K (sv_world s') \<le> k_input K (sv_world s) \<and>
    (rc = 0 \<and> server_inv K s' xs \<or> rc = 1 \<and> server_inv K s' (remove1 a xs))"
  using assms(2,3)
proof (induction "length (unread (cn_parser (the (sv_conns s a))))" arbitrary: s rule: less_induct)
  case less
  note I = less.prems(1) and a = less.prems(2)
  obtain c where c: "sv_conns s a = Some c" by (rule server_inv_conn [OF I a])
  obtain st p v where n: "resp_parser_next (with_pool s (cn_parser c)) = Some (st, p, v)" "parser_wf p"
      "st = RESP_OK \<Longrightarrow> length (unread p) < length (unread (cn_parser c))"
      and I': "server_inv K ((put_pool p s)\<lparr>sv_conns := (sv_conns s)(a \<mapsto> c\<lparr>cn_parser := p\<rparr>)\<rparr>) xs"
    using next_step [OF I c] by blast
  let ?s = "(put_pool p s)\<lparr>sv_conns := (sv_conns s)(a \<mapsto> c\<lparr>cn_parser := p\<rparr>)\<rparr>"
  note unf = server_dispatch_commands.simps [of os a s] c n(1) upd_conn_def
  show ?case
  proof (cases st)
    case RESP_NEED_MORE
    then show ?thesis using I' by (simp add: unf)
  next
    case RESP_ERROR
    obtain s1 where s1: "send_reply os a (resp_format_error (os_memory os (sv_world s) 64) 64 ''ERR protocol error'') ?s = Some (0, s1)"
        "server_inv K s1 xs" "k_input K (sv_world s1) \<le> k_input K (sv_world s)"
      using send_reply_safe [OF P I' a] unfolding safe_def by fastforce
    then show ?thesis using RESP_ERROR conn_destroy_ok [OF P s1(2) a] by (auto simp: unf)
  next
    case RESP_OK
    from handle_command_ok [OF P I' a, of v] show ?thesis
    proof
      assume "\<exists>s'. server_handle_command os a v ?s = Some (1, s') \<and> server_inv K s' (remove1 a xs) \<and> k_input K (sv_world s') \<le> k_input K (sv_world ?s)"
      then show ?thesis using RESP_OK by (auto simp: unf)
    next
      assume "safe K xs ?s (server_handle_command os a v ?s)"
      then obtain s1 where s1: "server_handle_command os a v ?s = Some (0, s1)" "server_inv K s1 xs" "same_parsers ?s s1"
          "k_input K (sv_world s1) \<le> k_input K (sv_world s)"
        unfolding safe_def by auto
      obtain c1 where c1: "sv_conns s1 a = Some c1" "conn_wf c1" by (rule server_inv_conn [OF s1(2) a])
      have "map_option cn_parser (sv_conns s1 a) = map_option cn_parser (sv_conns ?s a)" using s1(3) unfolding same_parsers_def by blast
      then have p1: "cn_parser c1 = p" using c1(1) by simp
      let ?c2 = "release_cmd v c1"
      let ?s2 = "s1\<lparr>sv_conns := (sv_conns s1)(a \<mapsto> ?c2)\<rparr>"
      have r: "conn_wf ?c2" "unread (cn_parser ?c2) = unread p" using c1(2) p1 by (auto simp: release_cmd_def conn_wf_def parser_wf_def unread_def)
      have I2: "server_inv K ?s2 xs" by (rule inv_upd [OF s1(2) c1(1) _ _ r(1)]) (simp_all add: release_cmd_def)
      show ?thesis
      proof (cases "cn_closed c1")
        case True
        then show ?thesis using RESP_OK s1(1,4) c1(1) conn_destroy_ok [OF P I2 a] by (auto simp: unf)
      next
        case False
        have "length (unread (cn_parser (the (sv_conns ?s2 a)))) < length (unread (cn_parser (the (sv_conns s a))))"
          using n(3) [OF RESP_OK] r(2) c by simp
        from less.hyps [OF this I2 a] show ?thesis using RESP_OK s1(1,4) c1(1) False by (auto simp: unf)
      qed
    qed
  qed
qed

end
