(* ===== verification/Server_Loop.thy ===== *)
theory Server_Loop
  imports Server_Safe
begin

text \<open>
  One turn of the event loop keeps the invariant of the server. The events the kernel reports are arbitrary;
  a handler that destroys its connection clears its entry in the table, so an event that comes later in
  the same batch finds either no handler or a live connection. The loops that read and accept run until
  the socket has nothing more, so they return when the peers deliver finitely many bytes and connections
  before the server waits again (\<open>k_input\<close>).
\<close>

unbundle bit_operations_syntax

section \<open>Reading and writing\<close>

lemma io_entry:
  assumes "io_ok K m w l" "i < length (el_handlers l)" "el_handlers l ! i = (Some h, u)" "h \<noteq> SERVER_ON_ACCEPT"
  obtains b where "m u = Some (int i, b)" "int i \<in> k_watched K w"
  using assms that unfolding io_ok_def by blast

lemma inv_io:
  assumes "server_inv K s xs" "io_ok K (ids (sv_conns s)) w l"
  shows "server_inv K (s\<lparr>sv_loop := l, sv_world := w\<rparr>) xs" "l = sv_loop s \<Longrightarrow> server_inv K (s\<lparr>sv_world := w\<rparr>) xs"
  using assms by (auto simp: server_inv_def conns_ok_def conn_list_def stores_ok_def)

lemma store_input_ok:
  assumes "conn_wf c" "length bs \<le> resp_parser_space (cn_parser c)"
  shows "conn_wf (store_input bs c)"
  using assms by (auto simp: conn_wf_def store_input_def parser_wf_def resp_parser_commit_def resp_parser_write_ptr_def resp_parser_space_def)

lemma inv_world:
  assumes "server_inv K s xs" "k_watched K w = k_watched K (sv_world s)" "k_open K w = k_open K (sv_world s)"
  shows "server_inv K (s\<lparr>sv_world := w\<rparr>) xs"
  using assms by (auto simp: server_inv_def conns_ok_def conn_list_def stores_ok_def io_ok_def)

lemma inv_undisturbed: "server_inv K s xs \<Longrightarrow> undisturbed K (sv_world s) w \<Longrightarrow> server_inv K (s\<lparr>sv_world := w\<rparr>) xs"
  by (rule inv_world) (simp_all add: undisturbed_def)

text \<open>What a handler guarantees: it returns, the invariant holds for the connections that are left, and there is no
  more input than before.\<close>

definition keeps :: "'w kernel \<Rightarrow> 'w zedis_server \<Rightarrow> 'w zedis_server option \<Rightarrow> bool" where
  "keeps K s r \<longleftrightarrow> (\<exists>s' xs'. r = Some s' \<and> server_inv K s' xs' \<and> k_input K (sv_world s') \<le> k_input K (sv_world s))"

lemma keeps_from: "keeps K s1 r \<Longrightarrow> k_input K (sv_world s1) \<le> k_input K (sv_world s) \<Longrightarrow> keeps K s r"
  unfolding keeps_def using le_trans by blast

lemma destroy_keeps: "kernel_ok os K \<Longrightarrow> server_inv K s xs \<Longrightarrow> a \<in> set xs \<Longrightarrow> keeps K s (conn_destroy os a s)"
  unfolding keeps_def using conn_destroy_ok by metis

lemma on_readable_keeps:
  assumes K: "kernel_ok os K" and "server_inv K s xs" "a \<in> set xs"
  shows "keeps K s (conn_on_readable os a s)"
  using assms(2,3)
proof (induction "k_input K (sv_world s)" arbitrary: s rule: less_induct)
  case less
  note I = less.prems(1) and a = less.prems(2)
  obtain c where c: "sv_conns s a = Some c" "conn_wf c" by (rule server_inv_conn [OF I a])
  let ?sp = "resp_parser_space (cn_parser c)"
  obtain r w where r: "os_read os (sv_world s) (cn_fd c) ?sp = (r, w)" by (metis surj_pair)
  have u: "undisturbed K (sv_world s) w" by (rule kernel_calls(6) [OF K r])
  then have w: "k_input K w \<le> k_input K (sv_world s)" by (simp add: undisturbed_def)
  have I1: "server_inv K (s\<lparr>sv_world := w\<rparr>) xs" by (rule inv_undisturbed [OF I u])
  have D1: "keeps K s (conn_destroy os a (s\<lparr>sv_world := w\<rparr>))" by (rule keeps_from [OF destroy_keeps [OF K I1 a]]) (simp add: w)
  note unf = conn_on_readable.simps [of os a s] c(1) r upd_conn_def
  show ?case
  proof (cases "?sp = 0")
    case True
    then show ?thesis using destroy_keeps [OF K I a] by (simp add: unf)
  next
    case sp: False
    show ?thesis
    proof (cases r)
      case (ReadBytes bs)
      show ?thesis
      proof (cases "bs = []")
        case True
        then show ?thesis using D1 sp ReadBytes by (simp add: unf)
      next
        case False
        have bs: "length bs \<le> ?sp" "k_input K w < k_input K (sv_world s)" using kernel_tables(6) [OF K, of "sv_world s" "cn_fd c" ?sp bs w] r ReadBytes False by auto
        let ?s2 = "s\<lparr>sv_world := w, sv_conns := (sv_conns s)(a \<mapsto> store_input bs c)\<rparr>"
        have I2: "server_inv K ?s2 xs"
          using inv_upd [OF I1, of a c "store_input bs c"] c store_input_ok [OF c(2) bs(1)] by (simp add: store_input_def)
        obtain rc s3 where d: "server_dispatch_commands os a ?s2 = Some (rc, s3)" "k_input K (sv_world s3) \<le> k_input K w"
            "rc = 0 \<and> server_inv K s3 xs \<or> rc = 1 \<and> server_inv K s3 (remove1 a xs)"
          using dispatch_ok [OF K I2 a] by auto
        show ?thesis
        proof (cases "rc = 1")
          case True
          then show ?thesis using d sp ReadBytes False bs(2) by (auto simp: unf keeps_def)
        next
          case rc: False
          have "keeps K s3 (conn_on_readable os a s3)" by (rule less.hyps) (use d rc bs(2) a in auto)
          then have "keeps K s (conn_on_readable os a s3)" by (rule keeps_from) (use d(2) bs(2) in simp)
          then show ?thesis using d(1) rc sp ReadBytes False by (simp add: unf)
        qed
      qed
    next
      case ReadAgain
      then show ?thesis using sp I1 w by (auto simp: unf keeps_def)
    next
      case ReadError
      then show ?thesis using sp D1 by (simp add: unf)
    qed
  qed
qed

lemma on_writable_keeps:
  assumes K: "kernel_ok os K" and I: "server_inv K s xs" and a: "a \<in> set xs"
  shows "keeps K s (conn_on_writable os a s)"
proof -
  obtain c where c: "sv_conns s a = Some c" "conn_wf c" by (rule server_inv_conn [OF I a])
  obtain rc s' where f: "conn_flush os a s = Some (rc, s')" "wrote os {a} s s'"
    using conn_flush_ok [OF kernel_calls(1) [OF K] c] by blast
  have I': "server_inv K s' xs" by (rule wrote_inv [OF K I f(2)])
  have "keeps K s (conn_destroy os a s')" "keeps K s (Some s')"
    using keeps_from [OF destroy_keeps [OF K I' a] wrote_input [OF K f(2)]] I' wrote_input [OF K f(2)] by (auto simp: keeps_def)
  then show ?thesis using f(1) by (simp add: conn_on_writable_def)
qed

section \<open>A new connection\<close>

lemma slab_take:
  assumes R: "slab_R (h, sl) f" and c: "pool_for_size sz = Some c" and al: "zedis_slab_alloc 0 sl h sz = (Some p, sl', h')"
  obtains ps where "f c = p # ps" "slab_R (h', sl') (f(c := ps))" "slab_blk (h', sl') = slab_blk (h, sl)" "p \<in> slab_blk (h, sl) c" "p \<notin> set ps"
proof -
  have op: "slab_alloc_op 0 (h, sl) sz = (Some p, h', sl')" using al by (simp add: slab_alloc_op_def)
  obtain q ps where f: "f c = q # ps" using slab.al_empty [OF R c, of 0] op by (cases "f c") auto
  have "q = p" "slab_R (h', sl') (f(c := ps))" "slab_blk (h', sl') = slab_blk (h, sl)" using slab.al_first [OF R c f, of 0] op by auto
  moreover have "q \<in> slab_blk (h, sl) c" "q \<notin> set ps" using slab.free_in_blk [OF R c] f by auto
  ultimately show ?thesis using that f by blast
qed

text \<open>The two blocks of a connection: taken, or given back.\<close>

lemma slab_open:
  assumes S: "slab_ok m (h, sl)" and a: "zedis_slab_alloc 0 sl h ZEDIS_SLAB_512 = (Some a, sl1, h1)"
    and b: "zedis_slab_alloc 0 sl1 h1 ZEDIS_CONN_WRITE_SIZE = (Some b, sl2, h2)"
  shows "slab_ok (m(a \<mapsto> (fd, b))) (h2, sl2)" "m a = None" "a \<noteq> 0" "insert a (dom m) \<subseteq> slab_blk (h, sl) 2"
proof -
  obtain f where f: "slab_R (h, sl) f" "held m (h, sl) f" "card (slab_blk (h, sl) 2) < 2 ^ 64 - 1" using S by (auto simp: slab_ok_def)
  obtain as where as: "f 2 = a # as" "slab_R (h1, sl1) (f(2 := as))" "slab_blk (h1, sl1) = slab_blk (h, sl)" "a \<in> slab_blk (h, sl) 2" "a \<notin> set as"
    by (rule slab_take [OF f(1) class_sizes(1) a])
  obtain bs where bs: "f 3 = b # bs" "slab_R (h2, sl2) (f(2 := as, 3 := bs))" "slab_blk (h2, sl2) = slab_blk (h, sl)" "b \<in> slab_blk (h, sl) 3" "b \<notin> set bs"
    by (rule slab_take [OF as(2) class_sizes(2) b]) (simp add: as(3))
  show n: "m a = None" using f(2) as(1) by (cases "m a") (auto simp: held_def)
  have "\<forall>a' fd' b'. m a' = Some (fd', b') \<longrightarrow> b' \<noteq> b" using f(2) bs(1) by (auto simp: held_def)
  then have "held (m(a \<mapsto> (fd, b))) (h2, sl2) (f(2 := as, 3 := bs))"
    using f(2) as(1,4,5) bs(1,4,5) unfolding held_def bs(3) by (auto split: if_splits)
  then show "slab_ok (m(a \<mapsto> (fd, b))) (h2, sl2)" using bs(2) f(3) unfolding slab_ok_def bs(3) by blast
  show "a \<noteq> 0" using as(4) by (auto simp: slab_blk_def payloads_def slab_hdr_def)
  show "insert a (dom m) \<subseteq> slab_blk (h, sl) 2" using as(4) f(2) by (auto simp: held_def)
qed

lemma slab_giveback:
  assumes S: "slab_ok m (h, sl)" and a: "zedis_slab_alloc 0 sl h ZEDIS_SLAB_512 = (Some a, sl1, h1)"
    and fr: "zedis_slab_free 0 sl1 h1 a ZEDIS_SLAB_512 = (sl2, h2)"
  shows "slab_ok m (h2, sl2)"
proof -
  obtain f where f: "slab_R (h, sl) f" "held m (h, sl) f" "card (slab_blk (h, sl) 2) < 2 ^ 64 - 1" using S by (auto simp: slab_ok_def)
  obtain as where as: "f 2 = a # as" "slab_R (h1, sl1) (f(2 := as))" "slab_blk (h1, sl1) = slab_blk (h, sl)" "a \<in> slab_blk (h, sl) 2" "a \<notin> set as"
    by (rule slab_take [OF f(1) class_sizes(1) a])
  have "slab_R (h2, sl2) ((f(2 := as))(2 := a # as))" "slab_blk (h2, sl2) = slab_blk (h, sl)"
    using slab.rel_back [OF as(2) class_sizes(1), of a 0] as(3-5) fr by (auto simp: slab_free_op_def)
  moreover have "(f(2 := as))(2 := a # as) = f" using as(1) by auto
  ultimately show ?thesis using f(2,3) unfolding slab_ok_def held_def by auto
qed

lemma slab_alloc_refused:
  "zedis_slab_alloc 0 sl h ZEDIS_CONN_WRITE_SIZE = (None, sl', h') \<Longrightarrow> sl' = sl \<and> h' = h"
  by (auto simp: zedis_slab_alloc_def class_sizes(2) pool_pop.simps [of 0] Let_def split: prod.splits if_splits)

lemma length_conns:
  assumes I: "server_inv K s xs" and sub: "insert a (dom (ids (sv_conns s))) \<subseteq> slab_blk (sv_heap s, sv_slab s) 2" and a: "a \<notin> set xs"
  shows "length xs < 2 ^ 64 - 1"
proof -
  let ?B = "slab_blk (sv_heap s, sv_slab s) 2"
  have d: "distinct xs" "set xs = dom (sv_conns s)" using I by (auto simp: server_inv_def conns_ok_def conn_list_def)
  have "dom (ids (sv_conns s)) = dom (sv_conns s)" by (auto simp: ids_def)
  then have "set (a # xs) \<subseteq> ?B" using sub d(2) by simp
  moreover have "finite ?B" by (simp add: slab_blk_def)
  ultimately have "card (set (a # xs)) \<le> card ?B" by (rule card_mono [rotated])
  moreover have "card (set (a # xs)) = Suc (length xs)" using d(1) a distinct_card [of "a # xs"] by simp
  moreover have "card ?B < 2 ^ 64 - 1" using I by (simp add: server_inv_def slab_ok_def)
  ultimately show ?thesis by linarith
qed

lemma io_open:
  assumes "io_ok K m w l" "m a = None" "0 \<le> fd" "fd \<in> k_open K w" "\<And>a' fd' b'. m a' = Some (fd', b') \<Longrightarrow> fd' \<noteq> fd"
  shows "io_ok K (m(a \<mapsto> (fd, b))) w l"
  using assms unfolding io_ok_def by (auto split: if_splits)

text \<open>The connection is linked, or nothing but the slab and the kernel's state has changed.\<close>

lemma conn_create_ok:
  assumes K: "kernel_ok os K" and I: "server_inv K s xs" and fd: "0 \<le> fd" "fd \<in> k_open K (sv_world s)"
    and new: "\<And>a c. sv_conns s a = Some c \<Longrightarrow> cn_fd c \<noteq> fd"
  shows "\<exists>r s'. conn_create os fd s = Some (r, s') \<and> undisturbed K (sv_world s) (sv_world s') \<and> sv_loop s' = sv_loop s \<and>
    (case r of None \<Rightarrow> server_inv K s' xs \<and> sv_conns s' = sv_conns s
     | Some a \<Rightarrow> server_inv K s' (a # xs) \<and> (\<exists>b. ids (sv_conns s') = (ids (sv_conns s))(a \<mapsto> (fd, b))))"
proof -
  have S: "slab_ok (ids (sv_conns s)) (sv_heap s, sv_slab s)" using I by (simp add: server_inv_def)
  have other: "server_inv K (s\<lparr>sv_world := w, sv_slab := sl, sv_heap := h\<rparr>) xs" "server_inv K (s\<lparr>sv_slab := sl, sv_heap := h\<rparr>) xs"
      if "slab_ok (ids (sv_conns s)) (h, sl)" "undisturbed K (sv_world s) w" for sl h w
    using I that io_undisturbed by (auto simp: server_inv_def conns_ok_def conn_list_def stores_ok_def)
  obtain ra sl1 h1 where a: "zedis_slab_alloc 0 (sv_slab s) (sv_heap s) ZEDIS_SLAB_512 = (ra, sl1, h1)" by (metis prod_cases3)
  obtain buf w where w: "os_malloc os (sv_world s) RESP_PARSER_DEFAULT_BUF = (buf, w)" by (metis surj_pair)
  have u: "undisturbed K (sv_world s) w" by (rule kernel_calls(9) [OF K w])
  show ?thesis
  proof (cases ra)
    case None
    then show ?thesis using a other(2) [OF slab_alloc_ok [OF S a] u] by (simp add: conn_create_def)
  next
    case (Some p)
    obtain sl2 h2 where fr: "zedis_slab_free 0 sl1 h1 p ZEDIS_SLAB_512 = (sl2, h2)" by (metis surj_pair)
    have gb: "slab_ok (ids (sv_conns s)) (h2, sl2)" by (rule slab_giveback [OF S a [unfolded Some] fr])
    obtain rb sl3 h3 where b: "zedis_slab_alloc 0 sl1 h1 ZEDIS_CONN_WRITE_SIZE = (rb, sl3, h3)" by (metis prod_cases3)
    show ?thesis
    proof (cases buf)
      case None
      then show ?thesis using a Some w fr u other(1) [OF gb u]
        by (simp add: conn_create_def Let_def resp_parser_init_def resp_parser_init_ex_def RESP_PARSER_DEFAULT_BUF_def slab_free_def)
    next
      case buf: (Some bf)
      have len: "length bf = RESP_PARSER_DEFAULT_BUF" using kernel_calls(2) [OF K] w buf unfolding memory_sized_def by blast
      show ?thesis
      proof (cases rb)
        case None
        then have "sl3 = sl1" "h3 = h1" using slab_alloc_refused b by blast+
        then show ?thesis using a Some w fr u buf b None other(1) [OF gb u]
          by (simp add: conn_create_def Let_def resp_parser_init_def resp_parser_init_ex_def RESP_PARSER_DEFAULT_BUF_def slab_free_def)
      next
        case rb: (Some q)
        note O = slab_open [OF S a [unfolded Some] b [unfolded rb]]
        define c where "c = \<lparr>cn_fd = fd, cn_parser = \<lparr>p_buf = bf, p_buf_cap = RESP_PARSER_DEFAULT_BUF, p_r_pos = 0, p_w_pos = 0,
            p_pool = \<lparr>np_free = [], np_slab = Some (sl1, h1), np_malloc = sv_malloc s\<rparr>\<rparr>, cn_write_buf = q,
          cn_write_data = os_memory os w ZEDIS_CONN_WRITE_SIZE, cn_write_len = 0, cn_write_sent = 0,
          cn_channel = replicate sub_channel_cap NUL, cn_subscribed = False, cn_closed = False, cn_next = 0, cn_prev = 0\<rparr>"
        define s4 where "s4 = s\<lparr>sv_world := w, sv_slab := sl3, sv_heap := h3, sv_conns := (sv_conns s)(p \<mapsto> c)\<rparr>"
        have wf: "conn_wf c" using len kernel_calls(2) [OF K] by (simp add: c_def conn_wf_def parser_wf_def memory_sized_def)
        have na: "p \<notin> set xs" using O(2) I by (auto simp: ids_def server_inv_def conns_ok_def)
        have L4: "conn_list s4 xs" using I na by (simp add: s4_def server_inv_def conns_ok_def conn_list_def)
        obtain s5 where s5: "server_link_conn p s4 = Some s5" "conn_list s5 (p # xs)" "same_but_links (sv_conns s4) (sv_conns s5)"
            "s5 = s4\<lparr>sv_conns := sv_conns s5, sv_conns_head := p, sv_conn_count := sv_conn_count s4 + 1\<rparr>"
          using link_conn_ok [OF L4, of p c] na O(3) length_conns [OF I O(4) na] by (auto simp: s4_def)
        have "conn_create os fd s = Some (Some p, s5)"
          using a Some w buf b rb s5(1) unfolding s4_def c_def
          by (simp add: conn_create_def Let_def resp_parser_init_def resp_parser_init_ex_def RESP_PARSER_DEFAULT_BUF_def)
        moreover have i5: "ids (sv_conns s5) = (ids (sv_conns s))(p \<mapsto> (fd, q))"
          unfolding same_but_links_ids [OF s5(3)] by (simp add: s4_def c_def ids_def fun_eq_iff)
        moreover have "conns_ok s5 (p # xs)"
          using s5(2) same_but_links_dom [OF s5(3)] same_but_links_fields [OF s5(3)] wf I
          by (fastforce simp: conns_ok_def server_inv_def s4_def split: if_splits)
        moreover have same: "sv_world s5 = w" "sv_loop s5 = sv_loop s" "sv_heap s5 = h3" "sv_slab s5 = sl3" "stores_ok s5 = stores_ok s"
          by (subst s5(4), simp add: s4_def stores_ok_def)+
        moreover have "io_ok K ((ids (sv_conns s))(p \<mapsto> (fd, q))) w (sv_loop s)"
          by (rule io_undisturbed [OF io_open [of K "ids (sv_conns s)", OF _ O(2) fd] u]) (use I new in \<open>auto simp: server_inv_def ids_def\<close>)
        ultimately show ?thesis using u I O(1) by (auto simp: server_inv_def)
      qed
    qed
  qed
qed

section \<open>Accepting\<close>

lemma io_close_other:
  assumes K: "kernel_ok os K" and I: "io_ok K m w l" and new: "\<And>a fd' b. m a = Some (fd', b) \<Longrightarrow> fd' \<noteq> fd"
  shows "io_ok K m (os_close os w fd) l"
proof -
  have "(\<exists>b. m u = Some (int i, b)) \<and> int i \<in> k_watched K (os_close os w fd)"
    if i: "i < length (el_handlers l)" "el_handlers l ! i = (Some h, u)" "h \<noteq> SERVER_ON_ACCEPT" for i h u
  proof -
    obtain b where "m u = Some (int i, b)" "int i \<in> k_watched K w" by (rule io_entry [OF I i])
    then show ?thesis using new by (auto simp: kernel_tables(3) [OF K])
  qed
  moreover have "0 \<le> fd' \<and> fd' \<in> k_open K (os_close os w fd)" if "m a = Some (fd', b)" for a fd' b
    using I that new [OF that] unfolding io_ok_def by (auto simp: kernel_tables(4) [OF K])
  ultimately show ?thesis using I unfolding io_ok_def by blast
qed

lemma io_add:
  assumes K: "kernel_ok os K" and I: "io_ok K m w l" and m: "m a = Some (fd, b)"
    and add: "event_loop_add os w l fd ev h a = (rc, l', w')" and h: "h \<noteq> SERVER_ON_ACCEPT"
  shows "io_ok K m w' l'" "k_input K w' \<le> k_input K w"
proof -
  consider (bad) "l' = l" "w' = w" | (refused) r where "os_epoll_ctl os w EPOLL_CTL_ADD fd ev = (r, w')" "r \<noteq> 0" "l' = l"
    | (added) "os_epoll_ctl os w EPOLL_CTL_ADD fd ev = (0, w')" "0 \<le> fd" "l' = l\<lparr>el_handlers := (el_handlers l)[nat fd := (Some h, a)]\<rparr>"
    using add by (auto simp: event_loop_add_def split: if_splits prod.splits)
  then have "io_ok K m w' l' \<and> k_input K w' \<le> k_input K w"
  proof cases
    case bad
    then show ?thesis using I by simp
  next
    case (refused r)
    then show ?thesis using I kernel_tables(1) [OF K refused(1)] by (simp add: io_ok_def)
  next
    case added
    have "k_watched K w' = insert fd (k_watched K w)" "k_open K w' = k_open K w" "k_input K w' \<le> k_input K w"
      using kernel_tables(1) [OF K added(1)] by simp_all
    moreover have "(\<exists>b. m u = Some (int i, b)) \<and> int i \<in> k_watched K w'"
      if i: "i < length (el_handlers l')" "el_handlers l' ! i = (Some h', u)" "h' \<noteq> SERVER_ON_ACCEPT" for i h' u
    proof (cases "i = nat fd")
      case True
      then show ?thesis using i added(2,3) m calculation(1) by auto
    next
      case False
      have "i < length (el_handlers l)" "el_handlers l ! i = (Some h', u)" using i(1,2) False added(3) by auto
      then obtain b' where "m u = Some (int i, b')" "int i \<in> k_watched K w" using io_entry [OF I _ _ i(3)] by blast
      then show ?thesis using calculation(1) by auto
    qed
    ultimately show ?thesis using I added(3) unfolding io_ok_def by auto
  qed
  then show "io_ok K m w' l'" "k_input K w' \<le> k_input K w" by blast+
qed

lemma set_nonblocking_undisturbed:
  assumes K: "kernel_ok os K" and nb: "set_nonblocking os fd w = (rc, w')"
  shows "undisturbed K w w'"
proof -
  obtain fl w1 where g: "os_getfl os w fd = (fl, w1)" by (metis surj_pair)
  obtain r w2 where st: "os_setfl os w1 fd (fl OR O_NONBLOCK) = (r, w2)" by (metis surj_pair)
  have "undisturbed K w w1" "undisturbed K w1 w2" by (rule kernel_calls(7) [OF K g], rule kernel_calls(8) [OF K st])
  then show ?thesis using nb g st undisturbed_trans by (auto simp: set_nonblocking_def split: if_splits)
qed

lemma accept_loop_keeps:
  assumes K: "kernel_ok os K" and "server_inv K s xs"
  shows "keeps K s (accept_loop os lfd s)"
  using assms(2)
proof (induction "k_input K (sv_world s)" arbitrary: s xs rule: less_induct)
  case less
  note I = less.prems
  obtain fd w where ac: "os_accept os (sv_world s) lfd = (fd, w)" by (metis surj_pair)
  show ?case
  proof (cases "fd < 0")
    case True
    then have u: "undisturbed K (sv_world s) w" using kernel_tables(7) [OF K ac] by simp
    have "keeps K s (Some (s\<lparr>sv_world := w\<rparr>))" using inv_undisturbed [OF I u] u by (auto simp: keeps_def undisturbed_def)
    then show ?thesis using ac True by (subst accept_loop.simps) simp
  next
    case False
    then have f: "fd \<notin> k_open K (sv_world s)" "k_open K w = insert fd (k_open K (sv_world s))" "k_watched K w = k_watched K (sv_world s)"
        "k_input K w < k_input K (sv_world s)" using kernel_tables(7) [OF K ac] by auto
    have new: "cn_fd c \<noteq> fd" if "sv_conns s a = Some c" for a c
      using I that f(1) by (auto simp: server_inv_def io_ok_def ids_def)
    obtain rc w2 where nb: "set_nonblocking os fd w = (rc, w2)" by (metis surj_pair)
    have u2: "undisturbed K w w2" by (rule set_nonblocking_undisturbed [OF K nb])
    have w2: "k_open K w2 = insert fd (k_open K (sv_world s))" "k_input K w2 < k_input K (sv_world s)" using u2 f by (auto simp: undisturbed_def)
    let ?s2 = "s\<lparr>sv_world := w2\<rparr>"
    have I2: "server_inv K ?s2 xs"
      by (rule inv_io(2) [OF I _ refl], rule io_undisturbed [OF _ u2]) (use I f(2,3) in \<open>auto simp: server_inv_def io_ok_def\<close>)
    have closed: "keeps K s (accept_loop os lfd (s'\<lparr>sv_world := os_close os (sv_world s') fd\<rparr>))"
      if I': "server_inv K s' xs" and n': "\<And>a c. sv_conns s' a = Some c \<Longrightarrow> cn_fd c \<noteq> fd" and in': "k_input K (sv_world s') < k_input K (sv_world s)" for s'
    proof -
      let ?s3 = "s'\<lparr>sv_world := os_close os (sv_world s') fd\<rparr>"
      have io: "io_ok K (ids (sv_conns s')) (os_close os (sv_world s') fd) (sv_loop s')"
        by (rule io_close_other [OF K]) (use I' n' in \<open>auto simp: server_inv_def ids_def\<close>)
      have lt: "k_input K (sv_world ?s3) < k_input K (sv_world s)" using in' kernel_tables(5) [OF K, of "sv_world s'" fd] by simp
      show ?thesis by (rule keeps_from [OF less.hyps [OF lt inv_io(2) [OF I' io refl]]]) (use lt in simp)
    qed
    note unf = accept_loop.simps [of os lfd s] ac nb
    show ?thesis
    proof (cases "rc = 0")
      case False
      then show ?thesis using closed [OF I2] new w2 \<open>\<not> fd < 0\<close> by (simp add: unf)
    next
      case True
      obtain r s3 where cr: "conn_create os fd ?s2 = Some (r, s3)" "undisturbed K w2 (sv_world s3)" "sv_loop s3 = sv_loop s"
          "case r of None \<Rightarrow> server_inv K s3 xs \<and> sv_conns s3 = sv_conns ?s2
           | Some a \<Rightarrow> server_inv K s3 (a # xs) \<and> (\<exists>b. ids (sv_conns s3) = (ids (sv_conns ?s2))(a \<mapsto> (fd, b)))"
        using conn_create_ok [OF K I2, of fd] \<open>\<not> fd < 0\<close> w2(1) new by auto
      have in3: "k_input K (sv_world s3) < k_input K (sv_world s)" using cr(2) w2(2) by (simp add: undisturbed_def)
      show ?thesis
      proof (cases r)
        case None
        then show ?thesis using closed [of s3] cr new in3 True \<open>\<not> fd < 0\<close> by (simp add: unf)
      next
        case (Some a)
        then obtain b where I3: "server_inv K s3 (a # xs)" and m3: "ids (sv_conns s3) a = Some (fd, b)" using cr(4) by auto
        obtain rc' l w4 where ad: "event_loop_add os (sv_world s3) (sv_loop s3) fd (EPOLLIN OR EPOLLET) CONN_ON_READABLE a = (rc', l, w4)" by (metis prod_cases3)
        let ?s4 = "s3\<lparr>sv_loop := l, sv_world := w4\<rparr>"
        have io4: "io_ok K (ids (sv_conns s3)) w4 l" "k_input K w4 \<le> k_input K (sv_world s3)"
          by (rule io_add [of os K "ids (sv_conns s3)", OF K _ m3 ad]; use I3 in \<open>simp add: server_inv_def\<close>)+
        have I4: "server_inv K ?s4 (a # xs)" by (rule inv_io(1) [OF I3 io4(1)])
        have in4: "k_input K (sv_world ?s4) < k_input K (sv_world s)" using io4(2) in3 by simp
        obtain s5 xs5 where s5: "conn_destroy os a ?s4 = Some s5" "server_inv K s5 xs5" "k_input K (sv_world s5) \<le> k_input K (sv_world ?s4)"
          using destroy_keeps [OF K I4, of a] by (auto simp: keeps_def)
        have in5: "k_input K (sv_world s5) < k_input K (sv_world s)" using s5(3) in4 by simp
        have "keeps K s (accept_loop os lfd s5)" "keeps K s (accept_loop os lfd ?s4)"
          using keeps_from [OF less.hyps [OF in5 s5(2)]] keeps_from [OF less.hyps [OF in4 I4]] in4 in5 by simp_all
        then show ?thesis using cr(1) Some ad s5(1) True \<open>\<not> fd < 0\<close> by (simp add: unf Let_def)
      qed
    qed
  qed
qed

section \<open>Events\<close>

lemma handle_events_keeps:
  assumes K: "kernel_ok os K" and "server_inv K s xs"
  shows "keeps K s (handle_events os evs s)"
  using assms(2)
proof (induction evs arbitrary: s xs)
  case Nil
  then show ?case by (auto simp: keeps_def)
next
  case (Cons e evs)
  obtain fd ev where e: "e = (fd, ev)" by (cases e)
  show ?case
  proof (cases "fd < 0 \<or> fd \<ge> el_max_fds (sv_loop s)")
    case True
    then show ?thesis using Cons by (simp add: e)
  next
    case False
    obtain h u where t: "el_handlers (sv_loop s) ! nat fd = (h, u)" by (metis surj_pair)
    show ?thesis
    proof (cases h)
      case None
      then show ?thesis using Cons False t by (simp add: e)
    next
      case (Some f)
      have io: "io_ok K (ids (sv_conns s)) (sv_world s) (sv_loop s)" using Cons.prems by (simp add: server_inv_def)
      have i: "nat fd < length (el_handlers (sv_loop s))" using False io by (simp add: io_ok_def)
      have "keeps K s (call_handler os f fd u s)"
      proof (cases "f = SERVER_ON_ACCEPT")
        case True
        then show ?thesis using accept_loop_keeps [OF K Cons.prems] Cons.prems by (auto simp: server_on_accept_def keeps_def)
      next
        case False
        obtain b where "ids (sv_conns s) u = Some (int (nat fd), b)" by (rule io_entry [OF io i]) (use t Some False in simp_all)
        then have "u \<in> set xs" using Cons.prems by (auto simp: ids_def server_inv_def conns_ok_def)
        then show ?thesis using on_readable_keeps [OF K Cons.prems] on_writable_keeps [OF K Cons.prems] False by (cases f) auto
      qed
      then obtain s1 xs1 where s1: "call_handler os f fd u s = Some s1" "server_inv K s1 xs1" "k_input K (sv_world s1) \<le> k_input K (sv_world s)"
        by (auto simp: keeps_def)
      then show ?thesis using keeps_from [OF Cons.IH [OF s1(2)] s1(3)] False t Some by (simp add: e)
    qed
  qed
qed

lemma run_once_ok:
  assumes K: "kernel_ok os K" and I: "server_inv K s xs"
  shows "\<exists>rc s' xs'. event_loop_run_once os block s = Some (rc, s') \<and> server_inv K s' xs'"
proof -
  have stop: "server_inv K (s'\<lparr>sv_loop := event_loop_stop (sv_loop s')\<rparr>) xs" if "server_inv K s' xs" for s'
    using that by (simp add: server_inv_def conns_ok_def conn_list_def stores_ok_def io_ok_def event_loop_stop_def)
  obtain r w where w: "os_epoll_wait os (sv_world s) (if block then -1 else 0) = (r, w)" by (metis surj_pair)
  have Iw: "server_inv K (s\<lparr>sv_world := w\<rparr>) xs" using inv_world [OF I] kernel_tables(8) [OF K w] by blast
  obtain s' xs' where h: "handle_events os evs (s\<lparr>sv_world := w\<rparr>) = Some (s' evs)" "server_inv K (s' evs) (xs' evs)" for evs
    using handle_events_keeps [OF K Iw] unfolding keeps_def by metis
  show ?thesis using stop [OF I] stop [OF Iw] Iw h w by (cases r) (auto simp: event_loop_run_once_def)
qed

end
