(* ===== verification/Metrics.thy ===== *)
theory Metrics
  imports Server_Inv
begin

text \<open>
  The metrics writer of \<^verbatim>\<open>src/src/metrics.c\<close>: a snapshot of the counters is printed to a temporary file in the
  collector's directory and then renamed to its final name.
\<close>

section \<open>Model\<close>

definition ZEDIS_METRICS_FILE :: string where "ZEDIS_METRICS_FILE = ''zedis.prom''"

definition monotonic_ms :: "'w os \<Rightarrow> 'w \<Rightarrow> nat \<times> 'w" where
  "monotonic_ms os w =
     (case os_clock os w of
        (None, w) \<Rightarrow> (0, w)
      | (Some (sec, nsec), w) \<Rightarrow> (wrap_u64 (sec * 1000 + nsec div 1000000), w))"

text \<open>The arguments of the successive \<open>METRIC_LINE\<close>s, with their conversions done.\<close>

definition gauge_lines :: "string \<Rightarrow> string \<Rightarrow> nat \<Rightarrow> string list" where
  "gauge_lines name help v =
     [''# HELP '' @ name @ '' '' @ help @ [LF],
      ''# TYPE '' @ name @ '' gauge'' @ [LF] @ name @ '' '' @ show_nat v @ [LF]]"

definition command_line :: "string \<Rightarrow> nat \<Rightarrow> string" where
  "command_line name n = ''zedis_commands_total{command='' @ [CHR 0x22] @ name @ [CHR 0x22] @ ''} '' @ show_nat n @ [LF]"

definition metric_lines :: "'w zedis_server \<Rightarrow> zedis_metrics \<Rightarrow> string list" where
  "metric_lines server metrics =
     gauge_lines ''zedis_up'' ''Whether the Zedis metrics writer is active.'' 1 @
     gauge_lines ''zedis_connections'' ''Current client connections.'' (sv_conn_count server) @
     gauge_lines ''zedis_keys'' ''Current number of string keys.'' (ht_count (sv_kv server)) @
     gauge_lines ''zedis_zsets'' ''Current number of sorted sets.'' (zr_used (sv_zsets server)) @
     gauge_lines ''zedis_lists'' ''Current number of lists.'' (lr_used (sv_lists server)) @
     gauge_lines ''zedis_arena_bytes_used'' ''Bytes used by the memory arena.'' (unat (ar_offset (sv_arena server))) @
     gauge_lines ''zedis_arena_bytes_capacity'' ''Total arena capacity in bytes.'' (unat (ar_size (sv_arena server))) @
     [''# HELP zedis_commands_total Commands handled by command name.'' @ [LF],
      ''# TYPE zedis_commands_total counter'' @ [LF]] @
     map2 command_line command_names (mt_command_counts metrics)"

fun print_lines :: "'w os \<Rightarrow> int \<Rightarrow> string list \<Rightarrow> bool \<Rightarrow> 'w \<Rightarrow> bool \<times> 'w" where
  "print_lines os file [] failed w = (failed, w)"
| "print_lines os file (line # ls) failed w =
     (case os_fprintf os w file line of (n, w) \<Rightarrow> print_lines os file ls (failed \<or> n < 0) w)"

text \<open>\<open>if (fflush(file) != 0 || fsync(fd) != 0) failed = 1;\<close>\<close>

definition flush_sync :: "'w os \<Rightarrow> int \<Rightarrow> bool \<Rightarrow> 'w \<Rightarrow> bool \<times> 'w" where
  "flush_sync os fd failed w =
     (case os_fflush os w fd of
        (rc, w) \<Rightarrow>
          if rc \<noteq> 0 then (True, w)
          else case os_fsync os w fd of (rc, w) \<Rightarrow> (failed \<or> rc \<noteq> 0, w))"

definition temp_template :: "string \<Rightarrow> string" where
  "temp_template dir = dir @ ''/.zedis.prom.XXXXXX''"

definition final_path :: "string \<Rightarrow> string" where
  "final_path dir = dir @ ''/'' @ ZEDIS_METRICS_FILE"

text \<open>From the open temporary file on: print, close, rename, and remove the temporary file after a failure.\<close>

definition publish_snapshot :: "'w os \<Rightarrow> int \<Rightarrow> string \<Rightarrow> string \<Rightarrow> string list \<Rightarrow> 'w \<Rightarrow> int \<times> 'w" where
  "publish_snapshot os fd temp_path final ls w =
     (let (failed, w) = print_lines os fd ls False w;
          (failed, w) = flush_sync os fd failed w;
          (rc, w) = os_fclose os w fd;
          failed = (failed \<or> rc \<noteq> 0);
          (failed, w) = (if \<not> failed then (case os_rename os w temp_path final of (rc, w) \<Rightarrow> (rc \<noteq> 0, w)) else (True, w));
          w = (if failed then os_unlink os w temp_path else w)
      in (if failed then -1 else 0, w))"

definition write_snapshot :: "'w os \<Rightarrow> 'w zedis_server \<Rightarrow> zedis_metrics \<Rightarrow> 'w \<Rightarrow> int \<times> 'w" where
  "write_snapshot os server metrics w =
     (let dir = cstr (mt_collector_dir metrics);
          temp_len = length dir + 32;
          final_len = length dir + 1 + (length ZEDIS_METRICS_FILE + 1);
          (temp_buf, w) = os_malloc os w temp_len;
          (final_buf, w) = os_malloc os w final_len
      in case (temp_buf, final_buf) of
        (Some tb, Some fb) \<Rightarrow>
          (let temp_written = fst (snprintf tb temp_len (temp_template dir));
               final_written = fst (snprintf fb final_len (final_path dir))
           in if temp_written < 0 \<or> final_written < 0 \<or> nat temp_written \<ge> temp_len \<or> nat final_written \<ge> final_len then (-1, w)
              else case os_mkstemp os w (temp_template dir) of
                ((fd, temp_path), w) \<Rightarrow>
                  if fd < 0 then (-1, w)
                  else case os_fchmod os w fd of
                    (rc, w) \<Rightarrow>
                      if rc \<noteq> 0 then (-1, os_unlink os (os_close os w fd) temp_path)
                      else case os_fdopen os w fd of
                        (ok, w) \<Rightarrow>
                          if \<not> ok then (-1, os_unlink os (os_close os w fd) temp_path)
                          else publish_snapshot os fd temp_path (final_path dir) (metric_lines server metrics) w)
      | _ \<Rightarrow> (-1, w))"

definition zedis_metrics_init :: "'w os \<Rightarrow> string option \<Rightarrow> nat \<Rightarrow> 'w zedis_server \<Rightarrow> int \<times> 'w zedis_server" where
  "zedis_metrics_init os collector_dir interval_ms server =
     (case collector_dir of
        None \<Rightarrow> (-1, server)
      | Some dir \<Rightarrow>
          if cstr dir = [] then (-1, server)
          else case os_calloc os (sv_world server) of
            (ok, w) \<Rightarrow>
              if \<not> ok then (-1, server\<lparr>sv_world := w\<rparr>)
              else case os_calloc os w of
                (ok, w) \<Rightarrow>
                  if \<not> ok then (-1, server\<lparr>sv_world := w\<rparr>)
                  else (0, server\<lparr>sv_world := w, sv_metrics := Some
                         \<lparr>mt_collector_dir = cstr dir, mt_interval_ms = (if interval_ms = 0 then 1000 else interval_ms),
                          mt_last_write_ms = 0, mt_command_counts = replicate (length command_names) 0\<rparr>\<rparr>))"

definition zedis_metrics_destroy :: "'w zedis_server \<Rightarrow> 'w zedis_server" where
  "zedis_metrics_destroy server = (if sv_metrics server = None then server else server\<lparr>sv_metrics := None\<rparr>)"

text \<open>The difference of the two clock values is taken modulo \<open>2 ^ 64\<close>.\<close>

definition zedis_metrics_maybe_write :: "'w os \<Rightarrow> 'w zedis_server \<Rightarrow> 'w zedis_server" where
  "zedis_metrics_maybe_write os server =
     (case sv_metrics server of
        None \<Rightarrow> server
      | Some metrics \<Rightarrow>
          (case monotonic_ms os (sv_world server) of
             (now, w) \<Rightarrow>
               if mt_last_write_ms metrics \<noteq> 0 \<and> wrap_u64 (now + 2 ^ 64 - mt_last_write_ms metrics) < mt_interval_ms metrics
               then server\<lparr>sv_world := w\<rparr>
               else case write_snapshot os server metrics w of
                 (rc, w) \<Rightarrow> server\<lparr>sv_world := w, sv_metrics := Some (metrics\<lparr>mt_last_write_ms := now\<rparr>)\<rparr>))"

section \<open>The file system\<close>

text \<open>The files by path, and for an open stream its path and what was printed to it. What the writer relies on:
  \<open>mkstemp\<close> creates an empty file under a new name made from the template's text up to the six X; calls on an
  open stream change its file only; after a successful \<open>fclose\<close> the file holds what was printed if every print
  succeeded; \<open>rename\<close> replaces its target in one step or does nothing; \<open>unlink\<close> touches its path only.\<close>

record 'w files =
  f_files :: "'w \<Rightarrow> string \<Rightarrow> string option"
  f_stream :: "'w \<Rightarrow> int \<Rightarrow> (string \<times> string) option"

text \<open>A call that leaves every file but \<open>p\<close> and the stream on \<open>fd\<close>.\<close>

definition touches :: "'w files \<Rightarrow> string \<Rightarrow> int \<Rightarrow> 'w \<Rightarrow> 'w \<Rightarrow> bool" where
  "touches F p fd w w' \<longleftrightarrow> (\<forall>q. q \<noteq> p \<longrightarrow> f_files F w' q = f_files F w q) \<and> map_option fst (f_stream F w' fd) = map_option fst (f_stream F w fd)"

definition files_ok :: "'w os \<Rightarrow> 'w files \<Rightarrow> bool" where
  "files_ok os F \<longleftrightarrow>
     (\<forall>w n. f_files F (snd (os_malloc os w n)) = f_files F w) \<and>
     (\<forall>w tmpl fd p w'. os_mkstemp os w tmpl = ((fd, p), w') \<longrightarrow>
        (if fd < 0 then f_files F w' = f_files F w
         else f_files F w p = None \<and> f_files F w' = (f_files F w)(p \<mapsto> []) \<and> f_stream F w' fd = Some (p, []) \<and>
           length p = length tmpl \<and> take (length tmpl - 6) p = take (length tmpl - 6) tmpl)) \<and>
     (\<forall>w fd. f_files F (snd (os_fchmod os w fd)) = f_files F w \<and> f_stream F (snd (os_fchmod os w fd)) = f_stream F w) \<and>
     (\<forall>w fd. f_files F (snd (os_fdopen os w fd)) = f_files F w \<and> f_stream F (snd (os_fdopen os w fd)) = f_stream F w) \<and>
     (\<forall>w fd. f_files F (os_close os w fd) = f_files F w) \<and>
     (\<forall>w fd t p c. f_stream F w fd = Some (p, c) \<longrightarrow> touches F p fd w (snd (os_fprintf os w fd t)) \<and>
        (fst (os_fprintf os w fd t) \<ge> 0 \<longrightarrow> f_stream F (snd (os_fprintf os w fd t)) fd = Some (p, c @ t))) \<and>
     (\<forall>w fd p c. f_stream F w fd = Some (p, c) \<longrightarrow> touches F p fd w (snd (os_fflush os w fd)) \<and> f_stream F (snd (os_fflush os w fd)) = f_stream F w \<and>
        touches F p fd w (snd (os_fsync os w fd)) \<and> f_stream F (snd (os_fsync os w fd)) = f_stream F w) \<and>
     (\<forall>w fd p c. f_stream F w fd = Some (p, c) \<longrightarrow> (\<forall>q. q \<noteq> p \<longrightarrow> f_files F (snd (os_fclose os w fd)) q = f_files F w q) \<and>
        (fst (os_fclose os w fd) = 0 \<longrightarrow> f_files F (snd (os_fclose os w fd)) p = Some c)) \<and>
     (\<forall>w p q. f_files F (snd (os_rename os w p q)) =
        (if fst (os_rename os w p q) = 0 then (f_files F w)(q := f_files F w p, p := None) else f_files F w)) \<and>
     (\<forall>w p q. q \<noteq> p \<longrightarrow> f_files F (os_unlink os w p) q = f_files F w q)"

lemma touches_trans: "touches F p fd w w1 \<Longrightarrow> touches F p fd w1 w2 \<Longrightarrow> touches F p fd w w2"
  by (simp add: touches_def)

lemma file_calls:
  assumes "files_ok os F"
  shows "os_malloc os w n = (b, w') \<Longrightarrow> f_files F w' = f_files F w"
    "os_fchmod os w fd = (rc, w') \<Longrightarrow> f_files F w' = f_files F w \<and> f_stream F w' = f_stream F w"
    "os_fdopen os w fd = (ok, w') \<Longrightarrow> f_files F w' = f_files F w \<and> f_stream F w' = f_stream F w"
    "f_files F (os_close os w fd) = f_files F w"
    "q \<noteq> p \<Longrightarrow> f_files F (os_unlink os w p) q = f_files F w q"
    "os_rename os w p q = (rc, w') \<Longrightarrow> f_files F w' = (if rc = 0 then (f_files F w)(q := f_files F w p, p := None) else f_files F w)"
proof -
  note k = assms [unfolded files_ok_def]
  show "os_malloc os w n = (b, w') \<Longrightarrow> f_files F w' = f_files F w" using k by (elim conjE) (metis snd_conv)
  show "os_fchmod os w fd = (rc, w') \<Longrightarrow> f_files F w' = f_files F w \<and> f_stream F w' = f_stream F w" using k by (elim conjE) (metis snd_conv)
  show "os_fdopen os w fd = (ok, w') \<Longrightarrow> f_files F w' = f_files F w \<and> f_stream F w' = f_stream F w" using k by (elim conjE) (metis snd_conv)
  show "f_files F (os_close os w fd) = f_files F w" using k by (elim conjE) metis
  show "q \<noteq> p \<Longrightarrow> f_files F (os_unlink os w p) q = f_files F w q" using k by (elim conjE) metis
  show "os_rename os w p q = (rc, w') \<Longrightarrow> f_files F w' = (if rc = 0 then (f_files F w)(q := f_files F w p, p := None) else f_files F w)"
    using k by (elim conjE) (metis fst_conv snd_conv)
qed

lemma stream_calls:
  assumes "files_ok os F" and "f_stream F w fd = Some (p, c)"
  shows "os_fprintf os w fd t = (n, w') \<Longrightarrow> touches F p fd w w' \<and> (n \<ge> 0 \<longrightarrow> f_stream F w' fd = Some (p, c @ t))"
    "os_fflush os w fd = (rc, w') \<Longrightarrow> touches F p fd w w' \<and> f_stream F w' = f_stream F w"
    "os_fsync os w fd = (rc, w') \<Longrightarrow> touches F p fd w w' \<and> f_stream F w' = f_stream F w"
    "os_fclose os w fd = (rc, w') \<Longrightarrow> (\<forall>q. q \<noteq> p \<longrightarrow> f_files F w' q = f_files F w q) \<and> (rc = 0 \<longrightarrow> f_files F w' p = Some c)"
proof -
  note k = assms(1) [unfolded files_ok_def] and s = assms(2)
  show "os_fprintf os w fd t = (n, w') \<Longrightarrow> touches F p fd w w' \<and> (n \<ge> 0 \<longrightarrow> f_stream F w' fd = Some (p, c @ t))"
    using k s by (elim conjE) (metis fst_conv snd_conv)
  show "os_fflush os w fd = (rc, w') \<Longrightarrow> touches F p fd w w' \<and> f_stream F w' = f_stream F w" using k s by (elim conjE) (metis snd_conv)
  show "os_fsync os w fd = (rc, w') \<Longrightarrow> touches F p fd w w' \<and> f_stream F w' = f_stream F w" using k s by (elim conjE) (metis snd_conv)
  show "os_fclose os w fd = (rc, w') \<Longrightarrow> (\<forall>q. q \<noteq> p \<longrightarrow> f_files F w' q = f_files F w q) \<and> (rc = 0 \<longrightarrow> f_files F w' p = Some c)"
    using k s by (elim conjE) (metis fst_conv snd_conv)
qed

section \<open>Snapshots\<close>

lemma print_lines_ok:
  assumes F: "files_ok os F" and "f_stream F w fd = Some (p, c)" "print_lines os fd ls failed w = (failed', w')"
  shows "touches F p fd w w' \<and> (failed \<longrightarrow> failed') \<and> (\<not> failed' \<longrightarrow> f_stream F w' fd = Some (p, c @ concat ls))"
  using assms(2,3)
proof (induction ls arbitrary: w c failed)
  case Nil
  then show ?case by (simp add: touches_def)
next
  case (Cons l ls)
  obtain n w1 where w1: "os_fprintf os w fd l = (n, w1)" by (metis surj_pair)
  note P = stream_calls(1) [OF F Cons.prems(1) w1]
  obtain c1 where c1: "f_stream F w1 fd = Some (p, c1)" "n \<ge> 0 \<Longrightarrow> c1 = c @ l" using P Cons.prems(1) by (auto simp: touches_def)
  have "touches F p fd w1 w' \<and> (failed \<or> n < 0 \<longrightarrow> failed') \<and> (\<not> failed' \<longrightarrow> f_stream F w' fd = Some (p, c1 @ concat ls))"
    by (rule Cons.IH [OF c1(1)]) (use Cons.prems(2) w1 in simp)
  then show ?case using P c1 touches_trans [of F p fd w w1 w'] by (cases "n < 0") auto
qed

lemma flush_sync_ok:
  assumes F: "files_ok os F" and s: "f_stream F w fd = Some (p, c)" and r: "flush_sync os fd failed w = (failed', w')"
  shows "touches F p fd w w' \<and> (failed \<longrightarrow> failed') \<and> f_stream F w' fd = Some (p, c)"
proof -
  obtain rc w1 where w1: "os_fflush os w fd = (rc, w1)" by (metis surj_pair)
  obtain rc2 w2 where w2: "os_fsync os w1 fd = (rc2, w2)" by (metis surj_pair)
  note A = stream_calls(2) [OF F s w1]
  then have s1: "f_stream F w1 fd = Some (p, c)" using s by simp
  note B = stream_calls(3) [OF F s1 w2]
  show ?thesis using A B s r w1 w2 touches_trans [of F p fd w w1 w2] by (auto simp: flush_sync_def split: if_splits)
qed

lemma publish_snapshot_ok:
  assumes F: "files_ok os F" and s: "f_stream F w fd = Some (p, [])" and ne: "p \<noteq> final" and r: "publish_snapshot os fd p final ls w = (rc, w')"
  shows "(\<forall>q. q \<noteq> p \<longrightarrow> q \<noteq> final \<longrightarrow> f_files F w' q = f_files F w q) \<and>
    f_files F w' final = (if rc = 0 then Some (concat ls) else f_files F w final)"
proof -
  obtain f1 w1 where w1: "print_lines os fd ls False w = (f1, w1)" by (metis surj_pair)
  obtain f2 w2 where w2: "flush_sync os fd f1 w1 = (f2, w2)" by (metis surj_pair)
  obtain r3 w3 where w3: "os_fclose os w2 fd = (r3, w3)" by (metis surj_pair)
  obtain r4 w4 where w4: "os_rename os w3 p final = (r4, w4)" by (metis surj_pair)
  note A = print_lines_ok [OF F s w1]
  then obtain c1 where c1: "f_stream F w1 fd = Some (p, c1)" "\<not> f1 \<Longrightarrow> c1 = concat ls" using s by (auto simp: touches_def)
  note B = flush_sync_ok [OF F c1(1) w2]
  then have s2: "f_stream F w2 fd = Some (p, c1)" by blast
  note C = stream_calls(4) [OF F s2 w3]
  have same: "f_files F w3 q = f_files F w q" if "q \<noteq> p" for q using A B C that by (simp add: touches_def)
  have un: "f_files F (os_unlink os v p) q = f_files F v q" if "q \<noteq> p" for v q by (rule file_calls(5) [OF F that])
  note D = file_calls(6) [OF F w4]
  have res: "(rc, w') = (if f2 \<or> r3 \<noteq> 0 then (-1, os_unlink os w3 p) else if r4 \<noteq> 0 then (-1, os_unlink os w4 p) else (0, w4))"
    using r w1 w2 w3 w4 by (auto simp: publish_snapshot_def Let_def)
  show ?thesis
  proof (cases "f2 \<or> r3 \<noteq> 0 \<or> r4 \<noteq> 0")
    case True
    then show ?thesis using res same un D ne by (auto split: if_splits)
  next
    case False
    then have "c1 = concat ls" using B c1(2) by blast
    then show ?thesis using False res same D ne C by auto
  qed
qed

lemma mkstemp_call:
  assumes "files_ok os F" "os_mkstemp os w tmpl = ((fd, p), w')"
  shows "if fd < 0 then f_files F w' = f_files F w
    else f_files F w p = None \<and> f_files F w' = (f_files F w)(p \<mapsto> []) \<and> f_stream F w' fd = Some (p, []) \<and>
      length p = length tmpl \<and> take (length tmpl - 6) p = take (length tmpl - 6) tmpl"
  using assms unfolding files_ok_def by (elim conjE) metis

text \<open>Both path buffers are large enough, so the truncation guard never fires.\<close>

lemma path_fits:
  "(fst (snprintf tb (length dir + 32) (temp_template dir)) < 0 \<or>
    fst (snprintf fb (length dir + 1 + (length ZEDIS_METRICS_FILE + 1)) (final_path dir)) < 0 \<or>
    length dir + 32 \<le> nat (fst (snprintf tb (length dir + 32) (temp_template dir))) \<or>
    length dir + 1 + (length ZEDIS_METRICS_FILE + 1) \<le>
      nat (fst (snprintf fb (length dir + 1 + (length ZEDIS_METRICS_FILE + 1)) (final_path dir)))) = False"
  by (auto simp: snprintf_def temp_template_def final_path_def ZEDIS_METRICS_FILE_def)

lemma snapshot_ok:
  assumes F: "files_ok os F" and r: "write_snapshot os server metrics w = (rc, w')"
  defines "dir \<equiv> cstr (mt_collector_dir metrics)"
  shows "f_files F w' (final_path dir) = (if rc = 0 then Some (concat (metric_lines server metrics)) else f_files F w (final_path dir))"
    "\<forall>q. f_files F w q \<noteq> None \<longrightarrow> q \<noteq> final_path dir \<longrightarrow> f_files F w' q = f_files F w q"
proof -
  obtain tb w1 where w1: "os_malloc os w (length dir + 32) = (tb, w1)" by (metis surj_pair)
  obtain fb w2 where w2: "os_malloc os w1 (length dir + 1 + (length ZEDIS_METRICS_FILE + 1)) = (fb, w2)" by (metis surj_pair)
  have f2: "f_files F w2 = f_files F w" using file_calls(1) [OF F w1] file_calls(1) [OF F w2] by simp
  obtain fd p w3 where w3: "os_mkstemp os w2 (temp_template dir) = ((fd, p), w3)" by (metis prod.collapse)
  obtain rc4 w4 where w4: "os_fchmod os w3 fd = (rc4, w4)" by (metis surj_pair)
  obtain ok w5 where w5: "os_fdopen os w4 fd = (ok, w5)" by (metis surj_pair)
  obtain rc6 w6 where w6: "publish_snapshot os fd p (final_path dir) (metric_lines server metrics) w5 = (rc6, w6)" by (metis surj_pair)
  have res: "(rc, w') = (if tb = None \<or> fb = None then (-1, w2) else if fd < 0 then (-1, w3)
      else if rc4 \<noteq> 0 then (-1, os_unlink os (os_close os w4 fd) p)
      else if \<not> ok then (-1, os_unlink os (os_close os w5 fd) p) else (rc6, w6))"
    using r w1 w2 w3 w4 w5 w6 unfolding write_snapshot_def dir_def [symmetric] Let_def path_fits
    by (auto split: option.splits)
  have M: "if fd < 0 then f_files F w3 = f_files F w
    else f_files F w p = None \<and> f_files F w3 = (f_files F w)(p \<mapsto> []) \<and> f_stream F w3 fd = Some (p, []) \<and>
      length p = length (temp_template dir)"
    using mkstemp_call [OF F w3] f2 by (auto split: if_splits)
  have f5: "f_files F w4 = f_files F w3" "f_files F w5 = f_files F w3" "f_stream F w5 = f_stream F w3"
    using file_calls(2) [OF F w4] file_calls(3) [OF F w5] by simp_all
  have un: "f_files F (os_unlink os (os_close os v fd) p) q = f_files F v q" if "q \<noteq> p" for v q
    using file_calls(4,5) [OF F] that by simp
  have "f_files F w' (final_path dir) = (if rc = 0 then Some (concat (metric_lines server metrics)) else f_files F w (final_path dir)) \<and>
    (\<forall>q. f_files F w q \<noteq> None \<longrightarrow> q \<noteq> final_path dir \<longrightarrow> f_files F w' q = f_files F w q)"
  proof (cases "tb = None \<or> fb = None \<or> fd < 0")
    case True
    then show ?thesis using res f2 M by (auto split: if_splits)
  next
    case False
    then have m: "f_files F w p = None" "f_files F w3 = (f_files F w)(p \<mapsto> [])" "f_stream F w3 fd = Some (p, [])" "length p = length (temp_template dir)"
      using M by auto
    then have ne: "p \<noteq> final_path dir" by (auto simp: temp_template_def final_path_def ZEDIS_METRICS_FILE_def)
    have "f_stream F w5 fd = Some (p, [])" using f5(3) m(3) by simp
    note P = publish_snapshot_ok [OF F this ne w6]
    show ?thesis
    proof (cases "rc4 \<noteq> 0 \<or> \<not> ok")
      case True
      then have "(rc, w') = (-1, os_unlink os (os_close os (if rc4 \<noteq> 0 then w4 else w5) fd) p)" using res False by auto
      moreover have "q \<noteq> p" if "f_files F w q \<noteq> None" for q using m(1) that by metis
      ultimately show ?thesis using un ne m(1,2) f5 by simp
    next
      case ok: False
      then have "rc = rc6" "w' = w6" using res False by auto
      moreover have "q \<noteq> p" if "f_files F w q \<noteq> None" for q using m(1) that by metis
      ultimately show ?thesis using P ne m(1,2) f5(2) by simp
    qed
  qed
  then show "f_files F w' (final_path dir) = (if rc = 0 then Some (concat (metric_lines server metrics)) else f_files F w (final_path dir))"
    "\<forall>q. f_files F w q \<noteq> None \<longrightarrow> q \<noteq> final_path dir \<longrightarrow> f_files F w' q = f_files F w q" by blast+
qed

section \<open>The writer and the server's descriptors\<close>

text \<open>What the calls of the writer do to the descriptor tables: \<open>mkstemp\<close> opens a descriptor that was not open,
  \<open>fclose\<close> closes the one of its stream, and the others leave the tables alone, as do setting the processor affinity and a
  message on the standard error stream.\<close>

definition stdio_ok :: "'w os \<Rightarrow> 'w kernel \<Rightarrow> bool" where
  "stdio_ok os K \<longleftrightarrow>
     (\<forall>w. undisturbed K w (snd (os_clock os w))) \<and>
     (\<forall>w tmpl fd p w'. os_mkstemp os w tmpl = ((fd, p), w') \<longrightarrow>
        (if fd < 0 then undisturbed K w w'
         else fd \<notin> k_open K w \<and> k_open K w' = insert fd (k_open K w) \<and> k_watched K w' = k_watched K w)) \<and>
     (\<forall>w fd. undisturbed K w (snd (os_fchmod os w fd)) \<and> undisturbed K w (snd (os_fdopen os w fd)) \<and>
        undisturbed K w (snd (os_fflush os w fd)) \<and> undisturbed K w (snd (os_fsync os w fd))) \<and>
     (\<forall>w fd t. undisturbed K w (snd (os_fprintf os w fd t))) \<and>
     (\<forall>w fd. k_watched K (snd (os_fclose os w fd)) = k_watched K w - {fd} \<and> k_open K (snd (os_fclose os w fd)) = k_open K w - {fd}) \<and>
     (\<forall>w p q. undisturbed K w (snd (os_rename os w p q))) \<and> (\<forall>w p. undisturbed K w (os_unlink os w p)) \<and>
     (\<forall>w core. undisturbed K w (snd (os_setaffinity os w core))) \<and> (\<forall>w t. undisturbed K w (os_stderr os w t))"

lemma stdio_calls:
  assumes "stdio_ok os K"
  shows "os_clock os w = (r, w') \<Longrightarrow> undisturbed K w w'"
    "os_mkstemp os w tmpl = ((fd, p), w') \<Longrightarrow> if fd < 0 then undisturbed K w w'
       else fd \<notin> k_open K w \<and> k_open K w' = insert fd (k_open K w) \<and> k_watched K w' = k_watched K w"
    "os_fchmod os w fd = (rc, w') \<Longrightarrow> undisturbed K w w'" "os_fdopen os w fd = (ok, w') \<Longrightarrow> undisturbed K w w'"
    "os_fflush os w fd = (rc, w') \<Longrightarrow> undisturbed K w w'" "os_fsync os w fd = (rc, w') \<Longrightarrow> undisturbed K w w'"
    "os_fprintf os w fd t = (rc, w') \<Longrightarrow> undisturbed K w w'"
    "os_fclose os w fd = (rc, w') \<Longrightarrow> k_watched K w' = k_watched K w - {fd} \<and> k_open K w' = k_open K w - {fd}"
    "os_rename os w p q = (rc, w') \<Longrightarrow> undisturbed K w w'" "undisturbed K w (os_unlink os w p)"
    "os_setaffinity os w core = (rc, w') \<Longrightarrow> undisturbed K w w'" "undisturbed K w (os_stderr os w t)"
proof -
  note k = assms [unfolded stdio_ok_def]
  show "os_clock os w = (r, w') \<Longrightarrow> undisturbed K w w'" using k by (elim conjE) (metis snd_conv)
  show "os_mkstemp os w tmpl = ((fd, p), w') \<Longrightarrow> if fd < 0 then undisturbed K w w'
       else fd \<notin> k_open K w \<and> k_open K w' = insert fd (k_open K w) \<and> k_watched K w' = k_watched K w" using k by (elim conjE) metis
  show "os_fchmod os w fd = (rc, w') \<Longrightarrow> undisturbed K w w'" using k by (elim conjE) (metis snd_conv)
  show "os_fdopen os w fd = (ok, w') \<Longrightarrow> undisturbed K w w'" using k by (elim conjE) (metis snd_conv)
  show "os_fflush os w fd = (rc, w') \<Longrightarrow> undisturbed K w w'" using k by (elim conjE) (metis snd_conv)
  show "os_fsync os w fd = (rc, w') \<Longrightarrow> undisturbed K w w'" using k by (elim conjE) (metis snd_conv)
  show "os_fprintf os w fd t = (rc, w') \<Longrightarrow> undisturbed K w w'" using k by (elim conjE) (metis snd_conv)
  show "os_fclose os w fd = (rc, w') \<Longrightarrow> k_watched K w' = k_watched K w - {fd} \<and> k_open K w' = k_open K w - {fd}"
    using k by (elim conjE) (metis snd_conv)
  show "os_rename os w p q = (rc, w') \<Longrightarrow> undisturbed K w w'" using k by (elim conjE) (metis snd_conv)
  show "undisturbed K w (os_unlink os w p)" using k by (elim conjE) metis
  show "os_setaffinity os w core = (rc, w') \<Longrightarrow> undisturbed K w w'" using k by (elim conjE) (metis snd_conv)
  show "undisturbed K w (os_stderr os w t)" using k by (elim conjE) metis
qed

text \<open>\<open>spared K w w'\<close>: what was open is open, and what was open and watched is watched.\<close>

definition spared :: "'w kernel \<Rightarrow> 'w \<Rightarrow> 'w \<Rightarrow> bool" where
  "spared K w w' \<longleftrightarrow> k_open K w \<subseteq> k_open K w' \<and> k_watched K w \<inter> k_open K w \<subseteq> k_watched K w'"

lemma undisturbed_spared: "undisturbed K w w' \<Longrightarrow> spared K w w'"
  by (auto simp: undisturbed_def spared_def)

lemma spared_trans: "spared K w w1 \<Longrightarrow> spared K w1 w2 \<Longrightarrow> spared K w w2"
  by (auto simp: spared_def)

lemma print_lines_undisturbed:
  "stdio_ok os K \<Longrightarrow> print_lines os fd ls failed w = (failed', w') \<Longrightarrow> undisturbed K w w'"
proof (induction ls arbitrary: failed w)
  case (Cons l ls)
  obtain n w1 where w1: "os_fprintf os w fd l = (n, w1)" by (metis surj_pair)
  show ?case by (rule undisturbed_trans [OF stdio_calls(7) [OF Cons.prems(1) w1]], rule Cons.IH [OF Cons.prems(1)]) (use Cons.prems(2) w1 in simp)
qed simp

lemma publish_snapshot_tables:
  assumes S: "stdio_ok os K" and r: "publish_snapshot os fd p final ls w = (rc, w')"
  shows "k_open K w' = k_open K w - {fd} \<and> k_watched K w' = k_watched K w - {fd}"
proof -
  obtain f1 w1 where w1: "print_lines os fd ls False w = (f1, w1)" by (metis surj_pair)
  obtain f2 w2 where w2: "flush_sync os fd f1 w1 = (f2, w2)" by (metis surj_pair)
  obtain r3 w3 where w3: "os_fclose os w2 fd = (r3, w3)" by (metis surj_pair)
  obtain r4 w4 where w4: "os_rename os w3 p final = (r4, w4)" by (metis surj_pair)
  have u2: "undisturbed K w1 w2"
    using w2 stdio_calls(5,6) [OF S] undisturbed_trans by (fastforce simp: flush_sync_def split: prod.splits if_splits)
  note u1 = print_lines_undisturbed [OF S w1]
  have "w' \<in> {w3, w4, os_unlink os w3 p, os_unlink os w4 p}"
    using r w1 w2 w3 w4 by (auto simp: publish_snapshot_def Let_def split: if_splits)
  then have "undisturbed K w3 w'" using stdio_calls(9) [OF S w4] stdio_calls(10) [OF S] undisturbed_trans by (metis empty_iff insert_iff undisturbed_refl)
  then show ?thesis using u1 u2 stdio_calls(8) [OF S w3] by (simp add: undisturbed_def)
qed

lemma write_snapshot_spared:
  assumes K: "kernel_ok os K" and S: "stdio_ok os K" and r: "write_snapshot os server metrics w = (rc, w')"
  shows "spared K w w'"
proof -
  define dir where "dir = cstr (mt_collector_dir metrics)"
  obtain tb w1 where w1: "os_malloc os w (length dir + 32) = (tb, w1)" by (metis surj_pair)
  obtain fb w2 where w2: "os_malloc os w1 (length dir + 1 + (length ZEDIS_METRICS_FILE + 1)) = (fb, w2)" by (metis surj_pair)
  have u2: "undisturbed K w w2" by (rule undisturbed_trans [OF kernel_calls(9) [OF K w1] kernel_calls(9) [OF K w2]])
  obtain fd p w3 where w3: "os_mkstemp os w2 (temp_template dir) = ((fd, p), w3)" by (metis prod.collapse)
  obtain rc4 w4 where w4: "os_fchmod os w3 fd = (rc4, w4)" by (metis surj_pair)
  obtain ok w5 where w5: "os_fdopen os w4 fd = (ok, w5)" by (metis surj_pair)
  obtain rc6 w6 where w6: "publish_snapshot os fd p (final_path dir) (metric_lines server metrics) w5 = (rc6, w6)" by (metis surj_pair)
  have res: "(rc, w') = (if tb = None \<or> fb = None then (-1, w2) else if fd < 0 then (-1, w3)
      else if rc4 \<noteq> 0 then (-1, os_unlink os (os_close os w4 fd) p)
      else if \<not> ok then (-1, os_unlink os (os_close os w5 fd) p) else (rc6, w6))"
    using r w1 w2 w3 w4 w5 w6 unfolding write_snapshot_def dir_def [symmetric] Let_def path_fits
    by (auto split: option.splits)
  note M = stdio_calls(2) [OF S w3]
  have u5: "undisturbed K w3 w4" "undisturbed K w3 w5"
    using stdio_calls(3) [OF S w4] undisturbed_trans [OF stdio_calls(3) [OF S w4] stdio_calls(4) [OF S w5]] by simp_all
  show ?thesis
  proof (cases "tb = None \<or> fb = None \<or> fd < 0")
    case True
    then have "undisturbed K w2 w'" using res M by (auto split: if_splits)
    then show ?thesis by (rule undisturbed_spared [OF undisturbed_trans [OF u2]])
  next
    case False
    have "k_open K w' = k_open K w3 - {fd} \<and> k_watched K w' = k_watched K w3 - {fd}"
      using res False u5 publish_snapshot_tables [OF S w6] stdio_calls(10) [OF S] kernel_tables(3,4) [OF K]
      by (auto simp: undisturbed_def split: if_splits)
    then have "spared K w2 w'" using M False by (auto simp: spared_def)
    then show ?thesis by (rule spared_trans [OF undisturbed_spared [OF u2]])
  qed
qed

lemma inv_spared:
  assumes I: "server_inv K s xs" and sp: "spared K (sv_world s) w"
  shows "server_inv K (s\<lparr>sv_world := w, sv_metrics := mts\<rparr>) xs"
proof -
  have "io_ok K (ids (sv_conns s)) w (sv_loop s)"
    using I sp unfolding server_inv_def io_ok_def spared_def by (elim conjE) (intro conjI; blast)
  then show ?thesis using I by (simp add: server_inv_def conns_ok_def conn_list_def stores_ok_def)
qed

lemma maybe_write_inv:
  assumes K: "kernel_ok os K" and S: "stdio_ok os K" and I: "server_inv K s xs"
  shows "server_inv K (zedis_metrics_maybe_write os s) xs"
proof (cases "sv_metrics s")
  case None
  then show ?thesis using I by (simp add: zedis_metrics_maybe_write_def)
next
  case (Some mt)
  obtain now w1 where w1: "monotonic_ms os (sv_world s) = (now, w1)" by (metis surj_pair)
  obtain rc w2 where w2: "write_snapshot os s mt w1 = (rc, w2)" by (metis surj_pair)
  have "undisturbed K (sv_world s) w1"
    using w1 stdio_calls(1) [OF S] by (auto simp: monotonic_ms_def split: prod.splits option.splits)
  then have sp: "spared K (sv_world s) w1" by (rule undisturbed_spared)
  note sp2 = spared_trans [OF sp write_snapshot_spared [OF K S w2]]
  have "server_inv K (s\<lparr>sv_world := w1\<rparr>) xs" using inv_spared [OF I sp, of "sv_metrics s"] by simp
  moreover have "server_inv K (s\<lparr>sv_world := w2, sv_metrics := Some (mt\<lparr>mt_last_write_ms := now\<rparr>)\<rparr>) xs" by (rule inv_spared [OF I sp2])
  ultimately show ?thesis using Some w1 w2 unfolding zedis_metrics_maybe_write_def by simp
qed

section \<open>Properties\<close>


end
