(* ===== verification/Boot.thy ===== *)
theory Boot
  imports Server_Loop Metrics
begin

text \<open>
  Starting, running and stopping the server: \<open>zedis_create\<close>, \<open>zedis_run\<close> and \<open>zedis_destroy\<close> of
  \<^verbatim>\<open>src/src/server.c\<close> with the initialisers that make system calls (\<^verbatim>\<open>src/src/arena.c\<close>,
  \<^verbatim>\<open>src/src/append_log.c\<close>) and \<^verbatim>\<open>src/src/affinity.c\<close>. A server that was created satisfies the
  invariant of the running server.
\<close>

section \<open>System calls of the initialisers\<close>

text \<open>\<open>zedis_arena_init\<close>: huge pages first, then plain ones. The advice given with \<open>madvise\<close> has no effect here.\<close>

definition arena_start :: "'w os \<Rightarrow> u64 \<Rightarrow> 'w \<Rightarrow> int \<times> zedis_arena \<times> 'w" where
  "arena_start os sz w =
     (if sz = 0 then (case zedis_arena_init (\<lambda>_. None) (\<lambda>_. None) arena_zero sz of (rc, arena) \<Rightarrow> (rc, arena, w))
      else case os_mmap os w True (align_up sz (2 * 1024 * 1024)) of
        (Some p, w) \<Rightarrow> (case zedis_arena_init (\<lambda>_. Some p) (\<lambda>_. None) arena_zero sz of (rc, arena) \<Rightarrow> (rc, arena, w))
      | (None, w) \<Rightarrow>
          (case os_mmap os w False (align_up sz (2 * 1024 * 1024)) of
             (r, w) \<Rightarrow> (case zedis_arena_init (\<lambda>_. None) (\<lambda>_. r) arena_zero sz of (rc, arena) \<Rightarrow> (rc, arena, w))))"

definition arena_stop :: "'w os \<Rightarrow> zedis_arena \<Rightarrow> 'w \<Rightarrow> 'w" where
  "arena_stop os arena w = (if ar_base arena = 0 then w else os_munmap os w (unat (ar_size arena)))"

text \<open>\<open>zedis_aol_init\<close> with its calls of \<open>open\<close>, \<open>ftruncate\<close>, \<open>mmap\<close> and, after a failure, \<open>close\<close>.\<close>

definition aol_start :: "'w os \<Rightarrow> nat \<Rightarrow> string option \<Rightarrow> 'w \<Rightarrow> int \<times> zedis_append_log \<times> 'w" where
  "aol_start os capacity path w =
     (let result = (\<lambda>fd rc mem w. case zedis_aol_init capacity path fd rc mem log_zero of (r, log) \<Rightarrow> (r, log, w))
      in if capacity < 4096 then result 0 0 None w
         else if path \<noteq> None \<and> the path \<noteq> [] \<and> hd (the path) \<noteq> NUL then
           (case os_open os w (the path) of
              (fd, w) \<Rightarrow>
                if fd < 0 then result fd 0 None w
                else case os_ftruncate os w fd capacity of
                  (rc, w) \<Rightarrow>
                    if rc \<noteq> 0 then result fd rc None (os_close os w fd)
                    else case os_map_log os w fd capacity of
                      (None, w) \<Rightarrow> result fd 0 None (os_close os w fd)
                    | (Some mem, w) \<Rightarrow> result fd 0 (Some mem) w)
         else (case os_map_log os w (-1) capacity of (r, w) \<Rightarrow> result (-1) 0 r w))"

fun aol_call_world :: "'w os \<Rightarrow> aol_call \<Rightarrow> 'w \<Rightarrow> 'w" where
  "aol_call_world os (Msync n) w = os_msync os w n"
| "aol_call_world os (Munmap n) w = os_munmap os w n"
| "aol_call_world os (Close fd) w = os_close os w fd"

definition aol_stop :: "'w os \<Rightarrow> zedis_append_log \<Rightarrow> 'w \<Rightarrow> 'w" where
  "aol_stop os log w = fold (aol_call_world os) (fst (zedis_aol_destroy log)) w"

section \<open>Creation\<close>

definition ZEDIS_DEFAULT_PORT :: nat where "ZEDIS_DEFAULT_PORT = 6379"
definition ZEDIS_DEFAULT_ARENA_SIZE :: nat where "ZEDIS_DEFAULT_ARENA_SIZE = 256 * 1024 * 1024"
definition ZEDIS_DEFAULT_MAX_KEYS :: nat where "ZEDIS_DEFAULT_MAX_KEYS = 8192"
definition ZEDIS_DEFAULT_MAX_CONNS :: nat where "ZEDIS_DEFAULT_MAX_CONNS = 1024"
definition ZEDIS_DEFAULT_RING_CAP :: nat where "ZEDIS_DEFAULT_RING_CAP = 4096"
definition ZEDIS_DEFAULT_BOOK_MIN :: int where "ZEDIS_DEFAULT_BOOK_MIN = 0"
definition ZEDIS_DEFAULT_BOOK_MAX :: int where "ZEDIS_DEFAULT_BOOK_MAX = 99999"
definition ZEDIS_DEFAULT_MAX_ZSETS :: nat where "ZEDIS_DEFAULT_MAX_ZSETS = 256"
definition ZEDIS_DEFAULT_MAX_LISTS :: nat where "ZEDIS_DEFAULT_MAX_LISTS = 256"
definition ZEDIS_DEFAULT_ZSET_MEMBERS :: nat where "ZEDIS_DEFAULT_ZSET_MEMBERS = 2048"
definition ZEDIS_DEFAULT_AOL_SIZE :: nat where "ZEDIS_DEFAULT_AOL_SIZE = 16 * 1024 * 1024"

definition metrics_default_dir :: string where "metrics_default_dir = ''/var/lib/node_exporter/textfile_collector''"

definition server_defaults :: zedis_config where
  "server_defaults =
     \<lparr>cf_port = ZEDIS_DEFAULT_PORT, cf_cpu_core = -1, cf_arena_size = ZEDIS_DEFAULT_ARENA_SIZE, cf_max_keys = ZEDIS_DEFAULT_MAX_KEYS,
      cf_max_connections = ZEDIS_DEFAULT_MAX_CONNS, cf_ring_capacity = ZEDIS_DEFAULT_RING_CAP, cf_max_zsets = ZEDIS_DEFAULT_MAX_ZSETS,
      cf_max_lists = ZEDIS_DEFAULT_MAX_LISTS, cf_zset_members = ZEDIS_DEFAULT_ZSET_MEMBERS, cf_aol_size = ZEDIS_DEFAULT_AOL_SIZE,
      cf_aol_path = None, cf_book_price_min = ZEDIS_DEFAULT_BOOK_MIN, cf_book_price_max = ZEDIS_DEFAULT_BOOK_MAX, cf_busy_poll = True,
      cf_metrics_dir = Some metrics_default_dir, cf_metrics_interval_ms = 1000\<rparr>"

definition create_config :: "zedis_config option \<Rightarrow> zedis_config" where
  "create_config config =
     (let cfg = (case config of None \<Rightarrow> server_defaults | Some c \<Rightarrow> c);
          cfg = (if cf_metrics_dir cfg = None then cfg\<lparr>cf_metrics_dir := Some metrics_default_dir\<rparr> else cfg)
      in if cf_metrics_interval_ms cfg = 0 then cfg\<lparr>cf_metrics_interval_ms := 1000\<rparr> else cfg)"

definition create_listen_socket :: "'w os \<Rightarrow> nat \<Rightarrow> 'w \<Rightarrow> int \<times> 'w" where
  "create_listen_socket os port w =
     (case os_socket os w of
        (fd, w) \<Rightarrow>
          if fd < 0 then (-1, w)
          else case os_setsockopt os w fd of
            (rc, w) \<Rightarrow>
              if rc \<noteq> 0 then (-1, os_close os w fd)
              else case os_bind os w fd port of
                (rc, w) \<Rightarrow>
                  if rc \<noteq> 0 then (-1, os_close os w fd)
                  else case os_listen os w fd of
                    (rc, w) \<Rightarrow>
                      if rc \<noteq> 0 then (-1, os_close os w fd)
                      else case set_nonblocking os fd w of
                        (rc, w) \<Rightarrow> if rc \<noteq> 0 then (-1, os_close os w fd) else (fd, w))"

text \<open>The stores inside the arena, and the log, in the order of \<open>zedis_create\<close>. The fresh mapping is zero.\<close>

record stores =
  st_slab :: zedis_slab
  st_heap :: heap
  st_kv :: zedis_hash_table
  st_book :: zedis_order_book
  st_ring :: zedis_ring_buffer
  st_aol :: zedis_append_log
  st_zsets :: zset_registry
  st_lists :: list_registry
  st_arena :: zedis_arena
  st_mem :: mem

text \<open>Up to the ring: the stores that make no system call.\<close>

definition create_tables ::
  "zedis_config \<Rightarrow> zedis_arena \<Rightarrow> zedis_arena + (zedis_slab \<times> heap \<times> zedis_hash_table \<times> zedis_order_book \<times> zedis_ring_buffer \<times> zedis_arena \<times> mem)" where
  "create_tables cfg arena =
     (case zedis_slab_init arena (wrap_u64 (cf_max_connections cfg * 32)) (wrap_u64 (cf_max_connections cfg * 8))
             (wrap_u64 (cf_max_connections cfg * 2)) (wrap_u64 (cf_max_connections cfg * 2 + 64)) (\<lambda>_. 0) of
        (rc, slab, arena, h) \<Rightarrow>
          if rc \<noteq> 0 then Inl arena
          else case zedis_ht_init ht_zero arena (cf_max_keys cfg) (\<lambda>_. 0) of
            (rc, kv, arena, m) \<Rightarrow>
              if rc \<noteq> 0 then Inl arena
              else case zedis_book_init book_zero arena (cf_book_price_min cfg) (cf_book_price_max cfg) m of
                (rc, book, arena, m) \<Rightarrow>
                  if rc \<noteq> 0 then Inl arena
                  else case zedis_ring_init ring_zero arena (of_nat (cf_ring_capacity cfg)) m of
                    (rc, ring, arena, m) \<Rightarrow> if rc \<noteq> 0 then Inl arena else Inr (slab, h, kv, book, ring, arena, m))"

definition create_stores :: "'w os \<Rightarrow> zedis_config \<Rightarrow> zedis_arena \<Rightarrow> 'w \<Rightarrow> 'w + (stores \<times> 'w)" where
  "create_stores os cfg arena w =
     (case create_tables cfg arena of
        Inl arena \<Rightarrow> Inl (arena_stop os arena w)
      | Inr (slab, h, kv, book, ring, arena, m) \<Rightarrow>
          (case aol_start os (cf_aol_size cfg) (cf_aol_path cfg) w of
             (rc, log, w) \<Rightarrow>
               if rc \<noteq> 0 then Inl (arena_stop os arena w)
               else case zedis_zset_reg_init zset_reg_zero arena (wrap_u32 (cf_max_zsets cfg)) (wrap_u32 (cf_zset_members cfg)) m of
                 (rc, zsets, arena, m) \<Rightarrow>
                   if rc \<noteq> 0 then Inl (arena_stop os arena (aol_stop os log w))
                   else case zedis_list_reg_init list_reg_zero arena (wrap_u32 (cf_max_lists cfg)) m of
                     (rc, lreg, arena, m) \<Rightarrow>
                       if rc \<noteq> 0 then Inl (arena_stop os arena (aol_stop os log w))
                       else Inr (\<lparr>st_slab = slab, st_heap = h, st_kv = kv, st_book = book, st_ring = ring, st_aol = log,
                                  st_zsets = zsets, st_lists = lreg, st_arena = arena, st_mem = m\<rparr>, w)))"

text \<open>\<open>Inl\<close> is the result \<open>NULL\<close>. The handler of the listening socket is given the server, which is the state itself.
  When the event loop or the socket cannot be had, the log is not destroyed.\<close>

definition zedis_create :: "'w os \<Rightarrow> zedis_config option \<Rightarrow> addr list \<Rightarrow> 'w \<Rightarrow> 'w + 'w zedis_server" where
  "zedis_create os config mallocs w =
     (let cfg = create_config config in
      case os_calloc os w of
        (ok, w) \<Rightarrow>
          if \<not> ok then Inl w
          else case arena_start os (of_nat (cf_arena_size cfg)) w of
            (rc, arena, w) \<Rightarrow>
              if rc \<noteq> 0 then Inl w
              else case create_stores os cfg arena w of
                Inl w \<Rightarrow> Inl w
              | Inr (st, w) \<Rightarrow>
                  (case event_loop_create os w (st_arena st) ZEDIS_MAX_FDS (st_mem st) of
                     (None, arena, m, w) \<Rightarrow> Inl (arena_stop os arena w)
                   | (Some loop, arena, m, w) \<Rightarrow>
                       (case create_listen_socket os (cf_port cfg) w of
                          (fd, w) \<Rightarrow>
                            if fd < 0 then Inl (arena_stop os arena (event_loop_destroy os w loop))
                            else case event_loop_add os w loop fd (EPOLLIN OR EPOLLET) SERVER_ON_ACCEPT 0 of
                              (rc, loop, w) \<Rightarrow>
                                if rc \<noteq> 0 then Inl (arena_stop os arena (event_loop_destroy os (os_close os w fd) loop))
                                else let server =
                                    \<lparr>sv_config = cfg, sv_metrics = None, sv_loop = loop, sv_listen_fd = fd, sv_running = False, sv_arena = arena,
                                     sv_slab = st_slab st, sv_kv = st_kv st, sv_book = st_book st, sv_ring = st_ring st, sv_aol = st_aol st,
                                     sv_zsets = st_zsets st, sv_lists = st_lists st, sv_conns_head = 0, sv_conn_count = 0, sv_heap = st_heap st,
                                     sv_malloc = mallocs, sv_conns = Map.empty, sv_overrun = False, sv_world = w\<rparr>;
                                  (rc, server) = zedis_metrics_init os (cf_metrics_dir cfg) (cf_metrics_interval_ms cfg) server
                                in Inr (server\<lparr>sv_running := True\<rparr>))))"

section \<open>Destruction\<close>

partial_function (option) destroy_conns :: "'w os \<Rightarrow> 'w zedis_server \<Rightarrow> 'w zedis_server option" where
  "destroy_conns os s =
     (if sv_conns_head s = 0 then Some s else do { s \<leftarrow> conn_destroy os (sv_conns_head s) s; destroy_conns os s })"

text \<open>The server structure itself is freed at the end: what remains is the operating system.\<close>

definition zedis_destroy :: "'w os \<Rightarrow> 'w zedis_server \<Rightarrow> 'w option" where
  "zedis_destroy os s =
     do {
       s \<leftarrow> destroy_conns os (zedis_metrics_destroy s);
       let s = (if sv_listen_fd s \<ge> 0 then
                  (case event_loop_del os (sv_world s) (sv_loop s) (sv_listen_fd s) of
                     (rc, loop, w) \<Rightarrow> s\<lparr>sv_loop := loop, sv_world := os_close os w (sv_listen_fd s)\<rparr>)
                else s);
       let w = event_loop_destroy os (sv_world s) (sv_loop s);
       let s = s\<lparr>sv_slab := zedis_slab_destroy (sv_slab s), sv_kv := zedis_ht_destroy (sv_kv s), sv_book := zedis_book_destroy (sv_book s),
                 sv_ring := zedis_ring_destroy (sv_ring s)\<rparr>;
       let w = aol_stop os (sv_aol s) w;
       let s = s\<lparr>sv_aol := snd (zedis_aol_destroy (sv_aol s)), sv_zsets := zedis_zset_reg_destroy (sv_zsets s),
                 sv_lists := zedis_list_reg_destroy (sv_lists s)\<rparr>;
       Some (arena_stop os (sv_arena s) w)
     }"

section \<open>Running\<close>

text \<open>\<open>os_setaffinity\<close> is given the set of this one core.\<close>

definition zedis_pin_to_core :: "'w os \<Rightarrow> int \<Rightarrow> 'w \<Rightarrow> int \<times> 'w" where
  "zedis_pin_to_core os core w =
     (if core < 0 then (0, w) else case os_setaffinity os w core of (rc, w) \<Rightarrow> (if rc \<noteq> 0 then -1 else 0, w))"

partial_function (option) run_loop :: "'w os \<Rightarrow> 'w step" where
  "run_loop os s =
     (if \<not> sv_running s then Some (0, s)
      else do {
        (rc, s) \<leftarrow> event_loop_run_once os (\<not> cf_busy_poll (sv_config s)) (zedis_metrics_maybe_write os s);
        if rc < 0 then Some (-1, s) else run_loop os s
      })"

definition pin_warning :: "int \<Rightarrow> string" where
  "pin_warning core = ''zedis: warning: failed to pin to core '' @ show_int core @ [LF]"

text \<open>What \<open>zedis_run\<close> does before its loop.\<close>

definition run_start :: "'w os \<Rightarrow> 'w zedis_server \<Rightarrow> 'w zedis_server" where
  "run_start os s =
     (let core = cf_cpu_core (sv_config s);
          s = (if core \<ge> 0 then
                 (case zedis_pin_to_core os core (sv_world s) of
                    (rc, w) \<Rightarrow> s\<lparr>sv_world := (if rc \<noteq> 0 then os_stderr os w (pin_warning core) else w)\<rparr>)
               else s)
      in zedis_metrics_maybe_write os s)"

definition zedis_run :: "'w os \<Rightarrow> 'w step" where
  "zedis_run os s = run_loop os (run_start os s)"

section \<open>A created server\<close>

text \<open>A mapping lies in the user half of the address space and not at address zero.\<close>

definition mmap_ok :: "'w os \<Rightarrow> bool" where
  "mmap_ok os \<longleftrightarrow> (\<forall>w huge n p w'. os_mmap os w huge n = (Some p, w') \<longrightarrow> 0 < unat p \<and> unat p + unat n < 2 ^ 62)"

text \<open>Sizes whose products do not wrap. The limits are far above what an address space can hold.\<close>

definition config_ok :: "zedis_config \<Rightarrow> bool" where
  "config_ok cfg \<longleftrightarrow> cf_max_connections cfg < 2 ^ 34 \<and> cf_max_keys cfg < 2 ^ 32 \<and> cf_book_price_max cfg - cf_book_price_min cfg < 2 ^ 31 - 1 \<and>
     cf_max_zsets cfg < 2 ^ 31 \<and> cf_max_lists cfg < 2 ^ 31 \<and> cf_aol_size cfg < 2 ^ 32"

lemma arena_start_ok:
  assumes M: "mmap_ok os" and r: "arena_start os sz w = (0, arena, w')"
  shows "arena_wf arena" "0 < unat (ar_base arena)" "unat (ar_size arena) < 2 ^ 62"
proof -
  obtain huge w1 p w2 where m: "os_mmap os w1 huge (align_up sz (2 * 1024 * 1024)) = (Some p, w2)"
      "ar_base arena = p" "ar_size arena = align_up sz (2 * 1024 * 1024)" "ar_offset arena = 0"
    using r by (auto simp: arena_start_def zedis_arena_init_def Let_def split: if_splits prod.splits option.splits)
  then have "0 < unat p" "unat p + unat (align_up sz (2 * 1024 * 1024)) < 2 ^ 62" using M unfolding mmap_ok_def by blast+
  then show "arena_wf arena" "0 < unat (ar_base arena)" "unat (ar_size arena) < 2 ^ 62" using m(2-4) by (simp_all add: arena_wf_def)
qed

lemma fresh_slab_ok:
  assumes A: "arena_wf a" "0 < unat (ar_base a)" "unat (ar_size a) < 2 ^ 62" and c: "c64 < 2 ^ 40" "c256 < 2 ^ 40" "c512 < 2 ^ 40" "c4096 < 2 ^ 40"
    and r: "zedis_slab_init a c64 c256 c512 c4096 h = (0, slab, a', h')"
  shows "slab_ok Map.empty (h', slab)"
proof -
  note I = zedis_slab_init_inv [OF A c r]
  have "sp_block_count (sl_pools slab ! 2) = c512"
  proof -
    obtain pools where p: "init_pools a [(64, c64), (256, c256), (512, c512), (4096, c4096)] h = (0, pools, a', h')" "slab = \<lparr>sl_pools = pools\<rparr>"
      using r by (auto simp: zedis_slab_init_def ZEDIS_SLAB_64_def ZEDIS_SLAB_256_def ZEDIS_SLAB_512_def ZEDIS_SLAB_4096_def
          split: prod.splits simp del: init_pools.simps)
    have m: "map sp_block_count pools = [c64, c256, c512, c4096]" using init_pools_counts [OF p(1)] by simp
    have "length pools = 4" using arg_cong [OF m, of length] by simp
    then have "sp_block_count (pools ! 2) = map sp_block_count pools ! 2" by simp
    then show ?thesis unfolding m p(2) by simp
  qed
  then have "card (slab_blk (h', slab) 2) \<le> c512"
    using card_length [of "payloads (pool_blocks (sl_pools slab ! 2))"] by (simp add: slab_blk_def payloads_def pool_blocks_def)
  then have "card (slab_blk (h', slab) 2) < 2 ^ 64 - 1" using c(3) by simp
  moreover have "slab_R (h', slab) (\<lambda>c. payloads (map (\<lambda>p. rev (pool_blocks p)) (sl_pools slab) ! c))"
    using I by (auto simp: slab_R_def)
  ultimately show ?thesis by (auto simp: slab_ok_def held_def)
qed

lemma create_tables_ok:
  assumes A: "arena_wf a" "0 < unat (ar_base a)" "unat (ar_size a) < 2 ^ 62" and C: "config_ok cfg"
    and r: "create_tables cfg a = Inr (slab, h, kv, book, ring, a', m)"
  shows "slab_ok Map.empty (h, slab)" "ht_inv kv" "ht_lookup kv = Map.empty" "book_wf book" "\<exists>k. ring_shape ring k"
proof -
  let ?n = "cf_max_connections cfg"
  obtain a1 a2 a3 m1 m2 where
    i: "zedis_slab_init a (wrap_u64 (?n * 32)) (wrap_u64 (?n * 8)) (wrap_u64 (?n * 2)) (wrap_u64 (?n * 2 + 64)) (\<lambda>_. 0) = (0, slab, a1, h)"
      "zedis_ht_init ht_zero a1 (cf_max_keys cfg) (\<lambda>_. 0) = (0, kv, a2, m1)"
      "zedis_book_init book_zero a2 (cf_book_price_min cfg) (cf_book_price_max cfg) m1 = (0, book, a3, m2)"
      "zedis_ring_init ring_zero a3 (of_nat (cf_ring_capacity cfg)) m2 = (0, ring, a', m)"
    using r by (auto simp: create_tables_def split: prod.splits if_splits)
  have C': "?n < 2 ^ 34" "cf_max_keys cfg < 2 ^ 32" "cf_book_price_max cfg - cf_book_price_min cfg < 2 ^ 31 - 1"
    using C by (simp_all add: config_ok_def)
  show "slab_ok Map.empty (h, slab)" by (rule fresh_slab_ok [OF A _ _ _ _ i(1)]) (use C'(1) in \<open>simp_all add: wrap_u64_def\<close>)
  show "ht_inv kv" "ht_lookup kv = Map.empty" using zedis_ht_init_inv [OF i(2) C'(2)] by simp_all
  show "book_wf book" using zedis_book_init_wf [OF i(3) C'(3)] by simp
  show "\<exists>k. ring_shape ring k" using zedis_ring_init_shape [OF i(4)] by blast
qed

lemma aol_start_wf:
  assumes "aol_start os cap path w = (0, log, w')" "cap < 2 ^ 32"
  shows "log_wf log"
proof -
  obtain fd rc mem where "zedis_aol_init cap path fd rc mem log_zero = (0, log)"
    using assms(1) by (auto simp: aol_start_def Let_def split: if_splits prod.splits option.splits)
  then show ?thesis using assms(2) by (auto simp: zedis_aol_init_def log_wf_def Let_def split: if_splits option.splits)
qed

lemma create_stores_ok:
  assumes A: "arena_wf a" "0 < unat (ar_base a)" "unat (ar_size a) < 2 ^ 62" and C: "config_ok cfg" and r: "create_stores os cfg a w = Inr (st, w')"
  shows "slab_ok Map.empty (st_heap st, st_slab st)" "ht_inv (st_kv st)" "ht_lookup (st_kv st) = Map.empty" "book_wf (st_book st)"
    "\<exists>k. ring_shape (st_ring st) k" "zreg_inv (st_zsets st)" "lreg_rep (st_lists st) (st_aol st) (\<lambda>_. [])"
proof -
  obtain a1 m w1 a2 m2 a3 m3 where t: "create_tables cfg a = Inr (st_slab st, st_heap st, st_kv st, st_book st, st_ring st, a1, m)"
    and l: "aol_start os (cf_aol_size cfg) (cf_aol_path cfg) w = (0, st_aol st, w1)"
    and z: "zedis_zset_reg_init zset_reg_zero a1 (wrap_u32 (cf_max_zsets cfg)) (wrap_u32 (cf_zset_members cfg)) m = (0, st_zsets st, a2, m2)"
    and li: "zedis_list_reg_init list_reg_zero a2 (wrap_u32 (cf_max_lists cfg)) m2 = (0, st_lists st, a3, m3)"
    using r by (auto simp: create_stores_def split: prod.splits if_splits sum.splits)
  show "slab_ok Map.empty (st_heap st, st_slab st)" "ht_inv (st_kv st)" "ht_lookup (st_kv st) = Map.empty" "book_wf (st_book st)"
    "\<exists>k. ring_shape (st_ring st) k" by (rule create_tables_ok [OF A C t])+
  have w: "wrap_u32 (cf_max_zsets cfg) < 2 ^ 31" "wrap_u32 (cf_max_lists cfg) < 2 ^ 31" using C by (simp_all add: config_ok_def wrap_u32_def)
  show "zreg_inv (st_zsets st)" by (rule zset_reg_init_ok(1) [OF z w(1)])
  have "log_wf (st_aol st)" using aol_start_wf [OF l] C by (simp add: config_ok_def)
  then show "lreg_rep (st_lists st) (st_aol st) (\<lambda>_. [])" by (rule list_reg_init_ok(1) [OF li w(2)])
qed

lemma metrics_init_only:
  "zedis_metrics_init os dir n s = (rc, s') \<Longrightarrow> s' = s\<lparr>sv_world := sv_world s', sv_metrics := sv_metrics s'\<rparr>"
  by (auto simp: zedis_metrics_init_def split: option.splits if_splits prod.splits)

lemma io_empty:
  "io_ok K Map.empty w l \<longleftrightarrow> length (el_handlers l) = nat (el_max_fds l) \<and>
     (\<forall>i h u. i < length (el_handlers l) \<longrightarrow> el_handlers l ! i = (Some h, u) \<longrightarrow> h = SERVER_ON_ACCEPT)"
  by (auto simp: io_ok_def)

lemma ids_empty [simp]: "ids Map.empty = Map.empty"
  by (simp add: ids_def fun_eq_iff)

lemma listening_loop:
  assumes "event_loop_create os w arena n m = (Some l, r)" "event_loop_add os w2 l fd ev SERVER_ON_ACCEPT u = (rc, l', w3)"
  shows "io_ok K Map.empty w' l'"
proof -
  have "el_handlers l = replicate (nat (el_max_fds l)) (None, 0)"
    using assms(1) by (auto simp: event_loop_create_def split: if_splits prod.splits option.splits)
  then show ?thesis using assms(2) unfolding io_empty
    by (auto simp: event_loop_add_def nth_list_update split: if_splits prod.splits)
qed

lemma created_inv:
  assumes M: "mmap_ok os" and C: "config_ok (create_config config)" and r: "zedis_create os config mallocs w = Inr s"
  shows "server_inv K s []" "\<not> sv_overrun s" "ht_inv (sv_kv s)" "ht_lookup (sv_kv s) = Map.empty" "sv_running s" "sv_malloc s = mallocs"
    "sv_config s = create_config config"
proof -
  let ?cfg = "create_config config"
  obtain w1 arena w2 st w3 l a m w4 fd w5 l' w6 rc s0 s1 where
    a: "arena_start os (of_nat (cf_arena_size ?cfg)) w1 = (0, arena, w2)" and st: "create_stores os ?cfg arena w2 = Inr (st, w3)"
    and l: "event_loop_create os w3 (st_arena st) ZEDIS_MAX_FDS (st_mem st) = (Some l, a, m, w4)"
    and ad: "event_loop_add os w5 l fd (EPOLLIN OR EPOLLET) SERVER_ON_ACCEPT 0 = (0, l', w6)"
    and s0: "s0 = \<lparr>sv_config = ?cfg, sv_metrics = None, sv_loop = l', sv_listen_fd = fd, sv_running = False, sv_arena = a,
       sv_slab = st_slab st, sv_kv = st_kv st, sv_book = st_book st, sv_ring = st_ring st, sv_aol = st_aol st,
       sv_zsets = st_zsets st, sv_lists = st_lists st, sv_conns_head = 0, sv_conn_count = 0, sv_heap = st_heap st,
       sv_malloc = mallocs, sv_conns = Map.empty, sv_overrun = False, sv_world = w6\<rparr>"
    and mi: "zedis_metrics_init os (cf_metrics_dir ?cfg) (cf_metrics_interval_ms ?cfg) s0 = (rc, s1)" "s = s1\<lparr>sv_running := True\<rparr>"
    using r unfolding zedis_create_def Let_def
    by (auto split: prod.splits if_splits sum.splits option.splits)
  have s: "s = s0\<lparr>sv_world := sv_world s1, sv_metrics := sv_metrics s1, sv_running := True\<rparr>" using metrics_init_only [OF mi(1)] mi(2) by metis
  note S = create_stores_ok [OF arena_start_ok [OF M a] C st]
  show "\<not> sv_overrun s" "ht_inv (sv_kv s)" "ht_lookup (sv_kv s) = Map.empty" "sv_running s" "sv_malloc s = mallocs"
    "sv_config s = create_config config"
    using S(2,3) by (simp_all add: s s0)
  have "conn_list s []" by (simp add: s s0 conn_list_def)
  moreover have "stores_ok s" using S by (auto simp: s s0 stores_ok_def ht_inv_def)
  moreover have "io_ok K Map.empty (sv_world s) l'" by (rule listening_loop [OF l ad])
  ultimately show "server_inv K s []" using S(1) by (simp add: s s0 server_inv_def conns_ok_def)
qed

section \<open>A running server\<close>

text \<open>\<open>serving os config mallocs w s\<close>: the loop of \<open>zedis_run\<close> may begin a round with the server \<open>s\<close>, after the server was
  created in \<open>w\<close> and some messages were printed. A round in which bytes were written behind the payload of a write buffer is the end: the
  state says nothing about the program after it.\<close>

inductive serving :: "'w os \<Rightarrow> zedis_config option \<Rightarrow> addr list \<Rightarrow> 'w \<Rightarrow> 'w zedis_server \<Rightarrow> bool" for os config mallocs w where
  started: "zedis_create os config mallocs w = Inr s \<Longrightarrow>
    serving os config mallocs w (run_start os (s\<lparr>sv_world := fold (\<lambda>t w. os_stderr os w t) messages (sv_world s)\<rparr>))"
| round: "serving os config mallocs w s \<Longrightarrow> sv_running s \<Longrightarrow>
    event_loop_run_once os (\<not> cf_busy_poll (sv_config s)) (zedis_metrics_maybe_write os s) = Some (rc, s') \<Longrightarrow> rc \<ge> 0 \<Longrightarrow> \<not> sv_overrun s' \<Longrightarrow>
    serving os config mallocs w s'"

lemma run_start_inv:
  assumes K: "kernel_ok os K" and S: "stdio_ok os K" and I: "server_inv K s xs"
  shows "server_inv K (run_start os s) xs"
proof -
  let ?core = "cf_cpu_core (sv_config s)"
  obtain rc w where p: "zedis_pin_to_core os ?core (sv_world s) = (rc, w)" by (metis surj_pair)
  have "undisturbed K (sv_world s) w"
    using p stdio_calls(11) [OF S] by (auto simp: zedis_pin_to_core_def split: if_splits prod.splits)
  then have "undisturbed K (sv_world s) (if rc \<noteq> 0 then os_stderr os w (pin_warning ?core) else w)"
    using undisturbed_trans [OF _ stdio_calls(12) [OF S]] by auto
  note inv_undisturbed [OF I this]
  then show ?thesis using maybe_write_inv [OF K S] I p by (auto simp: run_start_def Let_def)
qed

lemma messages_inv:
  assumes S: "stdio_ok os K" and I: "server_inv K s xs"
  shows "server_inv K (s\<lparr>sv_world := fold (\<lambda>t w. os_stderr os w t) messages (sv_world s)\<rparr>) xs"
proof (rule inv_undisturbed [OF I])
  have "undisturbed K w (fold (\<lambda>t w. os_stderr os w t) messages w)" for w
    using undisturbed_trans [OF stdio_calls(12) [OF S]] by (induction messages arbitrary: w) auto
  then show "undisturbed K (sv_world s) (fold (\<lambda>t w. os_stderr os w t) messages (sv_world s))" .
qed

lemma serving_inv:
  assumes K: "kernel_ok os K" and S: "stdio_ok os K" and M: "mmap_ok os" and C: "config_ok (create_config config)"
    and "serving os config mallocs w s"
  shows "\<exists>xs. server_inv K s xs"
  using assms(5)
proof induction
  case (started s messages)
  then show ?case using run_start_inv [OF K S messages_inv [OF S created_inv(1) [OF M C]]] by blast
next
  case (round s rc s')
  then show ?case using run_once_ok [OF K maybe_write_inv [OF K S]] by (metis Pair_inject option.inject)
qed

lemma destroy_conns_ok:
  assumes K: "kernel_ok os K" and "server_inv K s xs"
  shows "\<exists>s'. destroy_conns os s = Some s' \<and> server_inv K s' []"
  using assms(2)
proof (induction xs arbitrary: s)
  case Nil
  then have "sv_conns_head s = 0" by (auto simp: server_inv_def conns_ok_def conn_list_def)
  then show ?case using Nil by (subst destroy_conns.simps) simp
next
  case (Cons a xs)
  then have h: "sv_conns_head s = a" "a \<noteq> 0" by (auto simp: server_inv_def conns_ok_def conn_list_def)
  obtain s1 where s1: "conn_destroy os a s = Some s1" "server_inv K s1 (remove1 a (a # xs))"
    using conn_destroy_ok [OF K Cons.prems, of a] by auto
  then show ?case using Cons.IH [of s1] h by (subst destroy_conns.simps) simp
qed

lemma metrics_destroy_inv: "server_inv K s xs \<Longrightarrow> server_inv K (zedis_metrics_destroy s) xs"
  by (simp add: zedis_metrics_destroy_def server_inv_def conns_ok_def conn_list_def stores_ok_def)

lemma destroy_returns:
  assumes "kernel_ok os K" "server_inv K s xs"
  shows "\<exists>w'. zedis_destroy os s = Some w'"
  using destroy_conns_ok [OF assms(1) metrics_destroy_inv [OF assms(2)]] by (auto simp: zedis_destroy_def Let_def)

section \<open>Properties\<close>



end
