(* ===== verification/Zedis_Main.thy ===== *)
theory Zedis_Main
  imports Boot
begin

text \<open>
  The program: the command line and \<open>main\<close> of \<^verbatim>\<open>src/src/main.c\<close>, with the signal handling of
  \<^verbatim>\<open>src/src/event_loop.c\<close>. An argument is the string without its terminating NUL.
\<close>

section \<open>Signals\<close>

definition SIGINT :: int where "SIGINT = 2"
definition SIGTERM :: int where "SIGTERM = 15"

text \<open>The static variables of \<^verbatim>\<open>event_loop.c\<close>; \<open>signal_received\<close> is part of the operating system's state.\<close>

record signals =
  sg_previous_sigterm :: disposition
  sg_previous_sigint :: disposition
  sg_installed :: bool

definition handle_shutdown_signal :: "'w os \<Rightarrow> int \<Rightarrow> 'w \<Rightarrow> 'w" where
  "handle_shutdown_signal os signum w = os_set_signal os w signum"

definition event_loop_install_signal_handlers :: "'w os \<Rightarrow> signals \<Rightarrow> 'w \<Rightarrow> int \<times> signals \<times> 'w" where
  "event_loop_install_signal_handlers os sg w =
     (case os_sigaction os w SIGTERM HANDLE_SHUTDOWN_SIGNAL of
        ((rc, old), w) \<Rightarrow>
          if rc \<noteq> 0 then (-1, sg, w)
          else let sg = sg\<lparr>sg_previous_sigterm := old\<rparr> in
            case os_sigaction os w SIGINT HANDLE_SHUTDOWN_SIGNAL of
              ((rc, old), w) \<Rightarrow>
                if rc \<noteq> 0 then (-1, sg, snd (os_sigaction os w SIGTERM (sg_previous_sigterm sg)))
                else (0, sg\<lparr>sg_previous_sigint := old, sg_installed := True\<rparr>, os_set_signal os w 0))"

definition event_loop_restore_signal_handlers :: "'w os \<Rightarrow> signals \<Rightarrow> 'w \<Rightarrow> signals \<times> 'w" where
  "event_loop_restore_signal_handlers os sg w =
     (if \<not> sg_installed sg then (sg, w)
      else let w = snd (os_sigaction os w SIGTERM (sg_previous_sigterm sg));
               w = snd (os_sigaction os w SIGINT (sg_previous_sigint sg))
           in (sg\<lparr>sg_installed := False\<rparr>, w))"

definition event_loop_signal_received :: "'w os \<Rightarrow> 'w \<Rightarrow> bool" where
  "event_loop_signal_received os w \<longleftrightarrow> os_signal os w \<noteq> 0"

section \<open>The command line\<close>

text \<open>\<open>atoi\<close> converts with \<open>strtol\<close>, which saturates at the ends of \<open>long\<close>, and truncates to \<open>int\<close>.\<close>

definition strtol10 :: "string \<Rightarrow> int" where
  "strtol10 s =
     (let t = dropWhile is_space (cstr s);
          neg = (t \<noteq> [] \<and> hd t = CHR ''-'');
          u = (if t \<noteq> [] \<and> (hd t = CHR ''-'' \<or> hd t = CHR ''+'') then tl t else t);
          v = int (dec_value 0 (takeWhile is_digit u))
      in if neg then max (- v) (- (2 ^ 63)) else min v (2 ^ 63 - 1))"

definition atoi :: "string \<Rightarrow> int" where "atoi s = wrap_i32 (strtol10 s)"

definition default_config :: zedis_config where
  "default_config =
     \<lparr>cf_port = ZEDIS_DEFAULT_PORT, cf_cpu_core = -1, cf_arena_size = ZEDIS_DEFAULT_ARENA_SIZE, cf_max_keys = ZEDIS_DEFAULT_MAX_KEYS,
      cf_max_connections = ZEDIS_DEFAULT_MAX_CONNS, cf_ring_capacity = ZEDIS_DEFAULT_RING_CAP, cf_max_zsets = ZEDIS_DEFAULT_MAX_ZSETS,
      cf_max_lists = ZEDIS_DEFAULT_MAX_LISTS, cf_zset_members = ZEDIS_DEFAULT_ZSET_MEMBERS, cf_aol_size = ZEDIS_DEFAULT_AOL_SIZE,
      cf_aol_path = None, cf_book_price_min = ZEDIS_DEFAULT_BOOK_MIN, cf_book_price_max = ZEDIS_DEFAULT_BOOK_MAX, cf_busy_poll = True,
      cf_metrics_dir = Some metrics_default_dir, cf_metrics_interval_ms = 1000\<rparr>"

text \<open>The options that take an argument, and what they do with it.\<close>

definition option_setter :: "string \<Rightarrow> (string \<Rightarrow> zedis_config \<Rightarrow> zedis_config) option" where
  "option_setter opt =
     (if opt = ''--port'' then Some (\<lambda>v cfg. cfg\<lparr>cf_port := nat (atoi v mod 2 ^ 16)\<rparr>)
      else if opt = ''--core'' then Some (\<lambda>v cfg. cfg\<lparr>cf_cpu_core := atoi v\<rparr>)
      else if opt = ''--arena-size'' then Some (\<lambda>v cfg. cfg\<lparr>cf_arena_size := strtoul10 v\<rparr>)
      else if opt = ''--max-keys'' then Some (\<lambda>v cfg. cfg\<lparr>cf_max_keys := strtoul10 v\<rparr>)
      else if opt = ''--max-conns'' then Some (\<lambda>v cfg. cfg\<lparr>cf_max_connections := strtoul10 v\<rparr>)
      else if opt = ''--ring-cap'' then Some (\<lambda>v cfg. cfg\<lparr>cf_ring_capacity := strtoul10 v\<rparr>)
      else if opt = ''--max-zsets'' then Some (\<lambda>v cfg. cfg\<lparr>cf_max_zsets := strtoul10 v\<rparr>)
      else if opt = ''--zset-members'' then Some (\<lambda>v cfg. cfg\<lparr>cf_zset_members := strtoul10 v\<rparr>)
      else if opt = ''--max-lists'' then Some (\<lambda>v cfg. cfg\<lparr>cf_max_lists := strtoul10 v\<rparr>)
      else if opt = ''--aol-size'' then Some (\<lambda>v cfg. cfg\<lparr>cf_aol_size := strtoul10 v\<rparr>)
      else if opt = ''--aol-path'' then Some (\<lambda>v cfg. cfg\<lparr>cf_aol_path := Some v\<rparr>)
      else if opt = ''--book-min'' then Some (\<lambda>v cfg. cfg\<lparr>cf_book_price_min := atoi v\<rparr>)
      else if opt = ''--book-max'' then Some (\<lambda>v cfg. cfg\<lparr>cf_book_price_max := atoi v\<rparr>)
      else if opt = ''--metrics-dir'' then Some (\<lambda>v cfg. cfg\<lparr>cf_metrics_dir := Some v\<rparr>)
      else if opt = ''--metrics-interval'' then Some (\<lambda>v cfg. cfg\<lparr>cf_metrics_interval_ms := strtoul10 v\<rparr>)
      else None)"

definition EXIT_SUCCESS :: int where "EXIT_SUCCESS = 0"
definition EXIT_FAILURE :: int where "EXIT_FAILURE = 1"

text \<open>The loop over the arguments goes on with a configuration or leaves \<open>main\<close> after printing the usage, with an
  exit code and, in all cases but one, with the signal handlers restored.\<close>

datatype parsed = Go zedis_config | Leave int bool

fun parse_args :: "string list \<Rightarrow> zedis_config \<Rightarrow> parsed" where
  "parse_args [] config = Go config"
| "parse_args (opt # rest) config =
     (case option_setter opt of
        Some upd \<Rightarrow>
          (case rest of
             [] \<Rightarrow> Leave EXIT_FAILURE (opt \<noteq> ''--book-max'')
           | v # rest \<Rightarrow> parse_args rest (upd v config))
      | None \<Rightarrow>
          if opt = ''--no-busy-poll'' then parse_args rest (config\<lparr>cf_busy_poll := False\<rparr>)
          else if opt = ''--help'' \<or> opt = ''-h'' then Leave EXIT_SUCCESS True
          else Leave EXIT_FAILURE True)"

definition usage_text :: "string \<Rightarrow> string" where
  "usage_text prog =
     ''Usage: '' @ prog @ '' [options]'' @ [LF] @
     ''  --port PORT           TCP port (default '' @ show_nat ZEDIS_DEFAULT_PORT @ '')'' @ [LF] @
     ''  --core CPU            Pin main thread to CPU core (-1 = no pin)'' @ [LF] @
     ''  --arena-size BYTES    Memory arena size (default 64MiB)'' @ [LF] @
     ''  --max-keys N          Hash table capacity (default '' @ show_nat ZEDIS_DEFAULT_MAX_KEYS @ '')'' @ [LF] @
     ''  --max-conns N         Max connections (default '' @ show_nat ZEDIS_DEFAULT_MAX_CONNS @ '')'' @ [LF] @
     ''  --ring-cap N          Pub/sub ring capacity (default '' @ show_nat ZEDIS_DEFAULT_RING_CAP @ '')'' @ [LF] @
     ''  --max-zsets N         Max sorted sets (default '' @ show_nat ZEDIS_DEFAULT_MAX_ZSETS @ '')'' @ [LF] @
     ''  --zset-members N      Max members per sorted set (default '' @ show_nat ZEDIS_DEFAULT_ZSET_MEMBERS @ '')'' @ [LF] @
     ''  --max-lists N         Max lists (default '' @ show_nat ZEDIS_DEFAULT_MAX_LISTS @ '')'' @ [LF] @
     ''  --aol-size BYTES      Append log size (default '' @ show_nat ZEDIS_DEFAULT_AOL_SIZE @ '')'' @ [LF] @
     ''  --aol-path PATH       Append log file (default anonymous mmap)'' @ [LF] @
     ''  --book-min PRICE      Order book min price (default '' @ show_int ZEDIS_DEFAULT_BOOK_MIN @ '')'' @ [LF] @
     ''  --book-max PRICE      Order book max price (default '' @ show_int ZEDIS_DEFAULT_BOOK_MAX @ '')'' @ [LF] @
     ''  --metrics-dir PATH    Prometheus textfile collector directory'' @ [LF] @
     ''  --metrics-interval MS Metrics snapshot interval (default 1000)'' @ [LF] @
     ''  --no-busy-poll        Use blocking epoll (dev/debug only)'' @ [LF]"

definition print_usage :: "'w os \<Rightarrow> string \<Rightarrow> 'w \<Rightarrow> 'w" where
  "print_usage os prog w = os_stderr os w (usage_text prog)"

section \<open>The program\<close>

definition started_messages :: "zedis_config \<Rightarrow> string list" where
  "started_messages config =
     [''zedis listening on port '' @ show_nat (cf_port config) @ '' (busy-poll='' @ (if cf_busy_poll config then ''on'' else ''off'') @
      '', arena='' @ show_nat (cf_arena_size config) @ '' bytes''] @
     (if cf_cpu_core config \<ge> 0 then ['', core='' @ show_int (cf_cpu_core config)] else []) @
     ['')'' @ [LF]]"

definition print_started :: "'w os \<Rightarrow> zedis_config \<Rightarrow> 'w \<Rightarrow> 'w" where
  "print_started os config w = fold (\<lambda>t w. os_stderr os w t) (started_messages config) w"

text \<open>From \<open>zedis_create\<close> on.\<close>

definition serve :: "'w os \<Rightarrow> zedis_config \<Rightarrow> addr list \<Rightarrow> signals \<Rightarrow> 'w \<Rightarrow> (int \<times> signals \<times> 'w) option" where
  "serve os config mallocs sg w =
     (case zedis_create os (Some config) mallocs w of
        Inl w \<Rightarrow>
          let w = os_stderr os w (''zedis: failed to start server on port '' @ show_nat (cf_port config) @ [LF]);
              (sg, w) = event_loop_restore_signal_handlers os sg w
          in Some (EXIT_FAILURE, sg, w)
      | Inr server \<Rightarrow>
          do {
            (rc, server) \<leftarrow> zedis_run os (server\<lparr>sv_world := print_started os config (sv_world server)\<rparr>);
            w \<leftarrow> zedis_destroy os server;
            let (sg, w) = event_loop_restore_signal_handlers os sg w;
            Some (if event_loop_signal_received os w then EXIT_SUCCESS else if rc = 0 then EXIT_SUCCESS else EXIT_FAILURE, sg, w)
          })"

definition main :: "'w os \<Rightarrow> string list \<Rightarrow> addr list \<Rightarrow> signals \<Rightarrow> 'w \<Rightarrow> (int \<times> signals \<times> 'w) option" where
  "main os argv mallocs sg w =
     (case event_loop_install_signal_handlers os sg w of
        (rc, sg, w) \<Rightarrow>
          if rc \<noteq> 0 then Some (EXIT_FAILURE, sg, os_stderr os w (''zedis: failed to install signal handlers'' @ [LF]))
          else case parse_args (tl argv) default_config of
            Leave code restore \<Rightarrow>
              let w = print_usage os (if argv = [] then ''(null)'' else hd argv) w;
                  (sg, w) = (if restore then event_loop_restore_signal_handlers os sg w else (sg, w))
              in Some (code, sg, w)
          | Go config \<Rightarrow> serve os config mallocs sg w)"

section \<open>Printed numbers\<close>

lemma strtoul10_printed: "n < 2 ^ 64 \<Longrightarrow> strtoul10 (show_nat n) = n"
proof -
  have c: "cstr (show_nat n) = cstr (show_nat n @ NUL # [])" by (simp add: cstr_append_NUL cstr_id)
  show "n < 2 ^ 64 \<Longrightarrow> strtoul10 (show_nat n) = n"
    using strtoul10_show_nat [of n "[]"] unfolding strtoul10_def c .
qed

lemma strtol10_printed:
  assumes "- (2 ^ 63) \<le> i" "i < 2 ^ 63"
  shows "strtol10 (show_int i) = i"
proof -
  define t where "t = show_nat (nat \<bar>i\<bar>)"
  obtain c cs where c: "t = c # cs" "is_digit c" unfolding t_def using show_nat_not_Nil hd_show_nat_digit by (metis list.collapse)
  then have h: "\<not> is_space c" "c \<noteq> CHR ''-''" "c \<noteq> CHR ''+''" using is_digit_not_space by (auto simp: is_digit_def)
  have z: "cstr t = t" "cstr (CHR ''-'' # t) = CHR ''-'' # t" using NUL_notin_show_nat by (auto simp: t_def cstr_id)
  have d: "dec_value 0 (takeWhile is_digit t) = nat \<bar>i\<bar>" unfolding t_def using dec_value_show_nat by simp
  have w: "dropWhile is_space t = t" "t \<noteq> []" "hd t \<noteq> CHR ''-''" "hd t \<noteq> CHR ''+''" using c(1) h by simp_all
  have m: "\<not> is_space (CHR ''-'')" by (simp add: is_space_def)
  have "show_int i = (if i < 0 then CHR ''-'' # t else t)" by (simp add: show_int_def t_def)
  then show ?thesis using assms by (auto simp: strtol10_def Let_def z d w m)
qed

lemma atoi_printed: "in_i32 i \<Longrightarrow> atoi (show_int i) = i"
  by (simp add: atoi_def strtol10_printed wrap_i32_id in_i32_def)

lemma port_printed: "p < 65536 \<Longrightarrow> nat (atoi (show_int (int p)) mod 65536) = p"
  by (simp add: atoi_printed in_i32_def)

section \<open>Configurations\<close>

text \<open>The ranges of the fields' types.\<close>

definition config_typed :: "zedis_config \<Rightarrow> bool" where
  "config_typed c \<longleftrightarrow> cf_port c < 2 ^ 16 \<and> in_i32 (cf_cpu_core c) \<and> cf_arena_size c < 2 ^ 64 \<and> cf_max_keys c < 2 ^ 64 \<and>
     cf_max_connections c < 2 ^ 64 \<and> cf_ring_capacity c < 2 ^ 64 \<and> cf_max_zsets c < 2 ^ 64 \<and> cf_max_lists c < 2 ^ 64 \<and>
     cf_zset_members c < 2 ^ 64 \<and> cf_aol_size c < 2 ^ 64 \<and> in_i32 (cf_book_price_min c) \<and> in_i32 (cf_book_price_max c) \<and>
     cf_metrics_interval_ms c < 2 ^ 64"

text \<open>A command line that asks for a given configuration.\<close>

definition config_args :: "zedis_config \<Rightarrow> string list" where
  "config_args c =
     [''--port'', show_int (int (cf_port c)), ''--core'', show_int (cf_cpu_core c), ''--arena-size'', show_nat (cf_arena_size c),
      ''--max-keys'', show_nat (cf_max_keys c), ''--max-conns'', show_nat (cf_max_connections c), ''--ring-cap'', show_nat (cf_ring_capacity c),
      ''--max-zsets'', show_nat (cf_max_zsets c), ''--zset-members'', show_nat (cf_zset_members c), ''--max-lists'', show_nat (cf_max_lists c),
      ''--aol-size'', show_nat (cf_aol_size c), ''--book-min'', show_int (cf_book_price_min c), ''--book-max'', show_int (cf_book_price_max c),
      ''--metrics-interval'', show_nat (cf_metrics_interval_ms c)] @
     (case cf_metrics_dir c of None \<Rightarrow> [] | Some d \<Rightarrow> [''--metrics-dir'', d]) @
     (case cf_aol_path c of None \<Rightarrow> [] | Some p \<Rightarrow> [''--aol-path'', p]) @
     (if cf_busy_poll c then [] else [''--no-busy-poll''])"

lemma strtoul10_bound: "strtoul10 v < 2 ^ 64"
  by (simp add: strtoul10_def Let_def)

lemma atoi_typed: "in_i32 (atoi v)"
  by (simp add: atoi_def in_i32_def wrap_i32_def)

lemma if_Some_cases: "(if b then Some f else r) = Some u \<Longrightarrow> Q f \<Longrightarrow> (r = Some u \<Longrightarrow> Q u) \<Longrightarrow> Q u"
  by (auto split: if_splits)

lemma option_setter_typed:
  assumes "option_setter opt = Some upd" "config_typed c"
  shows "config_typed (upd v c)"
proof -
  have p: "nat (atoi v mod 2 ^ 16) < 2 ^ 16" by (simp add: nat_less_iff)
  note ok = assms(2) [unfolded config_typed_def] p strtoul10_bound [of v] atoi_typed [of v]
  show ?thesis using assms(1) unfolding option_setter_def
    by (elim if_Some_cases [where Q = "\<lambda>u. config_typed (u v c)"]) (use ok in \<open>simp_all add: config_typed_def\<close>)
qed

lemma config_typed_busy [simp]: "config_typed (c\<lparr>cf_busy_poll := b\<rparr>) = config_typed c"
  by (simp add: config_typed_def)

lemma parse_args_typed: "parse_args args c = Go c' \<Longrightarrow> config_typed c \<Longrightarrow> config_typed c'"
proof (induction args c arbitrary: c' rule: parse_args.induct)
  case (2 opt rest c)
  show ?case
  proof (cases "option_setter opt")
    case None
    then show ?thesis using "2.IH"(1) [OF None] "2.prems" by (auto split: if_splits)
  next
    case (Some upd)
    then show ?thesis using "2.IH"(2) [OF Some] "2.prems" option_setter_typed [OF Some] by (auto split: list.splits)
  qed
qed simp

lemma default_config_typed: "config_typed default_config"
  unfolding config_typed_def default_config_def zedis_config.select_convs
  by (simp add: in_i32_def ZEDIS_DEFAULT_PORT_def ZEDIS_DEFAULT_ARENA_SIZE_def ZEDIS_DEFAULT_MAX_KEYS_def
      ZEDIS_DEFAULT_MAX_CONNS_def ZEDIS_DEFAULT_RING_CAP_def ZEDIS_DEFAULT_MAX_ZSETS_def ZEDIS_DEFAULT_MAX_LISTS_def
      ZEDIS_DEFAULT_ZSET_MEMBERS_def ZEDIS_DEFAULT_AOL_SIZE_def ZEDIS_DEFAULT_BOOK_MIN_def ZEDIS_DEFAULT_BOOK_MAX_def)

lemma config_args_parse:
  assumes "config_typed config" "cf_metrics_dir config \<noteq> None"
  shows "parse_args (config_args config) default_config = Go config"
proof -
  note t = assms(1) [unfolded config_typed_def]
  show ?thesis using t assms(2)
    by (cases config) (auto simp: config_args_def option_setter_def port_printed strtoul10_printed atoi_printed default_config_def split: option.splits)
qed


section \<open>Leaving early\<close>

text \<open>The dispositions of the signals. Whether \<open>sigaction\<close> succeeds depends on the signal's number only.\<close>

definition sigaction_ok :: "'w os \<Rightarrow> ('w \<Rightarrow> int \<Rightarrow> disposition) \<Rightarrow> bool" where
  "sigaction_ok os D \<longleftrightarrow>
     (\<forall>w s d rc old w'. os_sigaction os w s d = ((rc, old), w') \<longrightarrow>
        (if rc = 0 then old = D w s \<and> D w' = (D w)(s := d) else D w' = D w)) \<and>
     (\<forall>w w' s d d'. fst (fst (os_sigaction os w s d)) = 0 \<longrightarrow> fst (fst (os_sigaction os w' s d')) = 0) \<and>
     (\<forall>w n. D (os_set_signal os w n) = D w) \<and> (\<forall>w t. D (os_stderr os w t) = D w)"

lemma parse_leave_keeps: "parse_args args c = Leave code False \<Longrightarrow> args \<noteq> [] \<and> last args = ''--book-max'' \<and> code = EXIT_FAILURE"
proof (induction args c rule: parse_args.induct)
  case (2 opt rest c)
  then show ?case by (cases "option_setter opt") (auto split: if_splits list.splits)
qed simp

lemma install_dispositions:
  assumes S: "sigaction_ok os D" and i: "event_loop_install_signal_handlers os sg w = (0, sg1, w1)"
  shows "D w1 = (D w)(SIGTERM := HANDLE_SHUTDOWN_SIGNAL, SIGINT := HANDLE_SHUTDOWN_SIGNAL)" "sg_installed sg1"
    "sg_previous_sigterm sg1 = D w SIGTERM" "sg_previous_sigint sg1 = D w SIGINT"
    "fst (fst (os_sigaction os w' SIGTERM d)) = 0" "fst (fst (os_sigaction os w' SIGINT d)) = 0"
proof -
  obtain old1 w2 old2 w3 where a: "os_sigaction os w SIGTERM HANDLE_SHUTDOWN_SIGNAL = ((0, old1), w2)"
      "os_sigaction os w2 SIGINT HANDLE_SHUTDOWN_SIGNAL = ((0, old2), w3)" "w1 = os_set_signal os w3 0"
      "sg1 = sg\<lparr>sg_previous_sigterm := old1, sg_previous_sigint := old2, sg_installed := True\<rparr>"
    using i by (auto simp: event_loop_install_signal_handlers_def Let_def split: prod.splits if_splits)
  note S' = S [unfolded sigaction_ok_def]
  have ok: "old = D v n \<and> D v' = (D v)(n := d)" if "os_sigaction os v n d = ((0, old), v')" for v n d old v'
    using S' that by (elim conjE) metis
  have "D w1 = D w3" using S' a(3) by (elim conjE) metis
  then show "D w1 = (D w)(SIGTERM := HANDLE_SHUTDOWN_SIGNAL, SIGINT := HANDLE_SHUTDOWN_SIGNAL)" "sg_installed sg1"
    "sg_previous_sigterm sg1 = D w SIGTERM" "sg_previous_sigint sg1 = D w SIGINT"
    using ok [OF a(1)] ok [OF a(2)] a(4) by (simp_all add: SIGINT_def SIGTERM_def)
  show "fst (fst (os_sigaction os w' SIGTERM d)) = 0" "fst (fst (os_sigaction os w' SIGINT d)) = 0"
    using S' a(1,2) by (elim conjE, metis fst_conv)+
qed

lemma restore_dispositions:
  assumes S: "sigaction_ok os D" and r: "event_loop_restore_signal_handlers os sg w = (sg', w')" and i: "sg_installed sg"
    and ok: "\<And>w d. fst (fst (os_sigaction os w SIGTERM d)) = 0" "\<And>w d. fst (fst (os_sigaction os w SIGINT d)) = 0"
  shows "D w' = (D w)(SIGTERM := sg_previous_sigterm sg, SIGINT := sg_previous_sigint sg)"
proof -
  have one: "D (snd (os_sigaction os v n d)) = (D v)(n := d)" if "fst (fst (os_sigaction os v n d)) = 0" for v n d
    using S that unfolding sigaction_ok_def by (metis prod.collapse)
  show ?thesis using r i ok by (auto simp: event_loop_restore_signal_handlers_def Let_def one)
qed

section \<open>Shutting down\<close>

text \<open>\<open>n\<close> rounds of the loop of \<open>zedis_run\<close>, none of which ended it or wrote behind a payload.\<close>

fun rounds :: "'w os \<Rightarrow> nat \<Rightarrow> 'w zedis_server \<Rightarrow> 'w zedis_server option" where
  "rounds os 0 s = Some s"
| "rounds os (Suc n) s =
     (if \<not> sv_running s then None
      else do {
        (rc, s) \<leftarrow> event_loop_run_once os (\<not> cf_busy_poll (sv_config s)) (zedis_metrics_maybe_write os s);
        if rc < 0 \<or> sv_overrun s then None else rounds os n s
      })"

lemma run_loop_rounds: "rounds os n s = Some s' \<Longrightarrow> run_loop os s = run_loop os s'"
proof (induction n arbitrary: s)
  case (Suc n)
  then obtain rc t where "sv_running s" "\<not> rc < 0" "rounds os n t = Some s'"
      "event_loop_run_once os (\<not> cf_busy_poll (sv_config s)) (zedis_metrics_maybe_write os s) = Some (rc, t)"
    by (auto split: if_splits bind_splits)
  then show ?case using Suc.IH by (subst run_loop.simps) simp
qed simp

lemma rounds_inv:
  assumes K: "kernel_ok os K" and S: "stdio_ok os K"
  shows "rounds os n s = Some s' \<Longrightarrow> server_inv K s xs \<Longrightarrow> \<exists>xs'. server_inv K s' xs'"
proof (induction n arbitrary: s xs)
  case (Suc n)
  then obtain rc t where t: "rounds os n t = Some s'"
      "event_loop_run_once os (\<not> cf_busy_poll (sv_config s)) (zedis_metrics_maybe_write os s) = Some (rc, t)"
    by (auto split: if_splits bind_splits)
  then obtain xs1 where "server_inv K t xs1"
    using run_once_ok [OF K maybe_write_inv [OF K S Suc.prems(2)]] by (metis Pair_inject option.inject)
  then show ?case using Suc.IH [OF t(1)] by blast
qed auto

text \<open>Once a signal was received, \<open>signal_received\<close> keeps its value over the calls made after the loop.\<close>

definition signal_stays :: "'w os \<Rightarrow> bool" where
  "signal_stays os \<longleftrightarrow> (\<forall>w. os_signal os w \<noteq> 0 \<longrightarrow>
     (\<forall>fd ev. os_signal os (snd (os_epoll_ctl os w EPOLL_CTL_DEL fd ev)) \<noteq> 0) \<and> (\<forall>fd. os_signal os (os_close os w fd) \<noteq> 0) \<and>
     (\<forall>n. os_signal os (os_munmap os w n) \<noteq> 0) \<and> (\<forall>n. os_signal os (os_msync os w n) \<noteq> 0) \<and>
     (\<forall>s d. os_signal os (snd (os_sigaction os w s d)) \<noteq> 0))"

lemma conn_destroy_signal:
  assumes S: "signal_stays os" and s: "os_signal os (sv_world s) \<noteq> 0" and d: "conn_destroy os a s = Some s'"
  shows "os_signal os (sv_world s') \<noteq> 0"
proof -
  obtain s1 c where s1: "server_unlink_conn a s = Some s1" "sv_conns s1 a = Some c"
    using d by (auto simp: conn_destroy_def split: bind_splits)
  have w1: "sv_world s1 = sv_world s"
    using s1(1) by (auto simp: server_unlink_conn_def upd_conn_def split: bind_splits if_splits)
  obtain rc l w where e: "event_loop_del os (sv_world s1) (sv_loop s1) (cn_fd c) = (rc, l, w)" by (metis prod_cases3)
  then have "os_signal os w \<noteq> 0"
    using S s w1 unfolding signal_stays_def by (auto simp: event_loop_del_def split: prod.splits if_splits) (metis snd_conv)+
  moreover have "sv_world s' = os_close os w (cn_fd c)" using d s1 e by (auto simp: conn_destroy_def slab_free_def Let_def split: prod.splits)
  ultimately show ?thesis using S by (simp add: signal_stays_def)
qed

lemma destroy_conns_signal:
  assumes K: "kernel_ok os K" and S: "signal_stays os"
  shows "server_inv K s xs \<Longrightarrow> os_signal os (sv_world s) \<noteq> 0 \<Longrightarrow> destroy_conns os s = Some s' \<Longrightarrow> os_signal os (sv_world s') \<noteq> 0"
proof (induction xs arbitrary: s)
  case Nil
  then have "sv_conns_head s = 0" by (auto simp: server_inv_def conns_ok_def conn_list_def)
  then show ?case using Nil by (simp add: destroy_conns.simps [of os s])
next
  case (Cons a xs)
  then have h: "sv_conns_head s = a" "a \<noteq> 0" by (auto simp: server_inv_def conns_ok_def conn_list_def)
  obtain s1 where s1: "conn_destroy os a s = Some s1" "server_inv K s1 (remove1 a (a # xs))"
    using conn_destroy_ok [OF K Cons.prems(1), of a] by auto
  have "destroy_conns os s1 = Some s'" using Cons.prems(3) h s1(1) by (simp add: destroy_conns.simps [of os s])
  then show ?case using Cons.IH [of s1] s1(2) conn_destroy_signal [OF S Cons.prems(2) s1(1)] by simp
qed

lemma aol_stop_signal:
  assumes S: "signal_stays os" and s: "os_signal os w \<noteq> 0"
  shows "os_signal os (aol_stop os log w) \<noteq> 0"
proof -
  have "os_signal os (fold (aol_call_world os) cs v) \<noteq> 0" if "os_signal os v \<noteq> 0" for cs v
    using that
  proof (induction cs arbitrary: v)
    case (Cons c cs)
    have "os_signal os (aol_call_world os c v) \<noteq> 0" using S Cons.prems by (cases c) (auto simp: signal_stays_def)
    then show ?case using Cons.IH by simp
  qed simp
  then show ?thesis using s by (simp add: aol_stop_def)
qed

lemma destroy_signal:
  assumes K: "kernel_ok os K" and S: "signal_stays os" and I: "server_inv K s xs" and s: "os_signal os (sv_world s) \<noteq> 0"
  shows "\<exists>w'. zedis_destroy os s = Some w' \<and> os_signal os w' \<noteq> 0"
proof -
  let ?s = "zedis_metrics_destroy s"
  have I': "server_inv K ?s xs" "os_signal os (sv_world ?s) \<noteq> 0"
    using metrics_destroy_inv [OF I] s by (simp_all add: zedis_metrics_destroy_def)
  obtain s1 where s1: "destroy_conns os ?s = Some s1" using destroy_conns_ok [OF K I'(1)] by blast
  have g1: "os_signal os (sv_world s1) \<noteq> 0" by (rule destroy_conns_signal [OF K S I' s1])
  obtain rc l w where d: "event_loop_del os (sv_world s1) (sv_loop s1) (sv_listen_fd s1) = (rc, l, w)" by (metis prod_cases3)
  have g2: "os_signal os w \<noteq> 0"
    using d S g1 unfolding signal_stays_def by (auto simp: event_loop_del_def split: prod.splits if_splits) (metis snd_conv)+
  have close: "os_signal os (os_close os v fd) \<noteq> 0" "os_signal os (os_munmap os v n) \<noteq> 0" if "os_signal os v \<noteq> 0" for v fd n
    using S that by (simp_all add: signal_stays_def)
  have loop: "os_signal os (event_loop_destroy os v l') \<noteq> 0" if "os_signal os v \<noteq> 0" for v l' using close that by (simp add: event_loop_destroy_def)
  have arena: "os_signal os (arena_stop os a v) \<noteq> 0" if "os_signal os v \<noteq> 0" for v a using close that by (simp add: arena_stop_def)
  show ?thesis using s1 d g1 g2 by (auto simp: zedis_destroy_def Let_def intro!: arena aol_stop_signal [OF S] loop close)
qed

section \<open>Properties\<close>


text \<open>
  C32. Every configuration can be given on the command line: the options written out for it, with its numbers
  printed in decimal, are parsed to exactly this configuration, whatever the defaults are.
\<close>

theorem config_args_round_trip:
  assumes "config_typed config" "cf_metrics_dir config \<noteq> None"
  shows "parse_args (config_args config) default_config = Go config"
  by (rule config_args_parse [OF assms])



end
