(* ===== verification/Server_Wire.thy ===== *)
theory Server_Wire
  imports Server_Safe
begin

text \<open>
  What a client sees: from the bytes of a request in the read buffer to the bytes of its reply on the socket.
\<close>

section \<open>Output\<close>

text \<open>Between the two states the socket of \<open>a\<close> took some bytes, and these followed by what is now queued are what
  was queued before followed by \<open>t\<close>; no byte went behind a block.\<close>

definition outputs :: "'w os \<Rightarrow> addr \<Rightarrow> string \<Rightarrow> 'w zedis_server \<Rightarrow> 'w zedis_server \<Rightarrow> bool" where
  "outputs os a t s s' \<longleftrightarrow> sv_overrun s' = sv_overrun s \<and> (\<exists>c c' bs. sv_conns s a = Some c \<and> sv_conns s' a = Some c' \<and> cn_fd c' = cn_fd c \<and>
     sends os (cn_fd c) (sv_world s) bs (sv_world s') \<and> bs @ pending c' = pending c @ t)"

lemma outputs_trans:
  assumes "outputs os a t s s1" "outputs os a u s1 s2"
  shows "outputs os a (t @ u) s s2"
proof -
  obtain c c1 bs where 1: "sv_conns s a = Some c" "sv_conns s1 a = Some c1" "cn_fd c1 = cn_fd c"
      "sends os (cn_fd c) (sv_world s) bs (sv_world s1)" "bs @ pending c1 = pending c @ t"
    using assms(1) by (auto simp: outputs_def)
  obtain c2 bs2 where 2: "sv_conns s2 a = Some c2" "cn_fd c2 = cn_fd c1"
      "sends os (cn_fd c) (sv_world s1) bs2 (sv_world s2)" "bs2 @ pending c2 = pending c1 @ u"
    using assms(2) 1(2,3) by (auto simp: outputs_def)
  have "(bs @ bs2) @ pending c2 = pending c @ t @ u" using 1(5) 2(4) by (metis append.assoc)
  moreover have "sv_overrun s2 = sv_overrun s" using assms by (simp add: outputs_def)
  ultimately show ?thesis unfolding outputs_def using 1(1,3) 2(1,2) sends_trans [OF 1(4) 2(3)] by metis
qed

lemma outputs_nil:
  assumes "sv_conns s a = Some c" "sv_conns s' a = Some c'" "cn_fd c' = cn_fd c" "pending c' = pending c" "sv_world s' = sv_world s"
    "sv_overrun s' = sv_overrun s"
  shows "outputs os a [] s s'"
  unfolding outputs_def using assms sends_refl by force

text \<open>Room for \<open>n\<close> more bytes on an open connection, inside the payload of its block.\<close>

definition has_room :: "nat \<Rightarrow> conn \<Rightarrow> bool" where
  "has_room n c \<longleftrightarrow> conn_wf c \<and> \<not> cn_closed c \<and> cn_write_len c + n \<le> ZEDIS_CONN_WRITE_SIZE - slab_hdr"

lemma queue_outputs:
  assumes P: "write_progress os" and c: "sv_conns s a = Some c" and room: "has_room (length t + n) c"
  shows "\<exists>rc s' c'. conn_queue_write os a t s = Some (rc, s') \<and> wrote os {a} s s' \<and> outputs os a t s s' \<and> sv_conns s' a = Some c' \<and>
    (cn_closed c' \<or> has_room n c')"
proof -
  have wf: "conn_wf c" "\<not> cn_closed c" "cn_write_len c + length t \<le> ZEDIS_CONN_WRITE_SIZE"
      "\<not> cn_write_len c + length t > ZEDIS_CONN_WRITE_SIZE - slab_hdr" using room by (auto simp: has_room_def)
  obtain rc s' c' bs where q: "conn_queue_write os a t s = Some (rc, s')" "wrote os {a} s s'" "sv_conns s' a = Some c'"
      "sends os (cn_fd c) (sv_world s) bs (sv_world s')" "bs @ pending c' = pending c @ t"
      "rc = 0 \<and> \<not> cn_closed c' \<and> cn_write_sent c' = 0 \<or> rc = -1 \<and> cn_closed c'" "sv_overrun s' = sv_overrun s"
    using conn_queue_write_ok [OF P c wf(1), of t] wf(2-) by (simp only: if_True simp_thms) blast
  obtain c2 where "sv_conns s' a = Some c2" "same_input c c2" by (rule wrote_conn [OF q(2) c])
  then have S: "same_input c c'" using q(3) by simp
  have wf': "conn_wf c'" by (rule same_input_fields(8) [OF S wf(1)])
  have "has_room n c'" if "\<not> cn_closed c'"
  proof -
    have "cn_write_len c' = length (pending c')" using length_pending [OF wf'] q(6) that by auto
    also have "\<dots> \<le> length (pending c) + length t" using arg_cong [OF q(5), of length] by simp
    also have "\<dots> \<le> cn_write_len c + length t" using length_pending [OF wf(1)] by simp
    finally show ?thesis using that wf' room by (simp add: has_room_def)
  qed
  moreover have "outputs os a t s s'" unfolding outputs_def using c q(3-5,7) same_input_fields(1) [OF S] by blast
  ultimately show ?thesis using q(1-3) by blast
qed

text \<open>A reply from one of the formatters.\<close>

lemma send_outputs:
  assumes "write_progress os" "sv_conns s a = Some c" "has_room (length t + n) c" "formats t cap r" "length t < cap" "t \<noteq> []"
  shows "\<exists>s' c'. send_reply os a r s = Some (0, s') \<and> wrote os {a} s s' \<and> outputs os a t s s' \<and> sv_conns s' a = Some c' \<and>
    (cn_closed c' \<or> has_room n c')"
proof -
  have r: "fst r = int (length t)" "take (length t) (snd r) = t" using assms(4,5) by (auto simp: formats_def)
  then have "send_reply os a r s = do { (rc, s) \<leftarrow> conn_queue_write os a t s; Some (0, s) }"
    using assms(6) by (cases r) (simp add: send_reply_def)
  then show ?thesis using queue_outputs [OF assms(1-3)] by auto
qed

section \<open>Requests\<close>

definition request :: "string list \<Rightarrow> string" where
  "request args = resp_bytes (RArray (map RBulk args))"

lemma node_resp_bulk: "node_resp buf n = RBulk s \<longleftrightarrow> rn_type n = RESP_TYPE_BULK \<and> slice (rn_bulk n) (rn_bulk_len n) buf = s"
  by (cases n) (auto split: resp_type.split)

lemma array_nth_nth: "array_nth ns i = (if i < length ns then Some (ns ! i) else None)"
  by (induction ns i rule: array_nth.induct) auto

lemma request_args:
  assumes "value_resp buf cmd = RArray (map RBulk args)"
  shows "rv_type cmd = RESP_TYPE_ARRAY" "length (rv_array cmd) = length args"
    "cmd_bulk buf cmd i = (if i < length args then Some (args ! i) else None)"
proof -
  have t: "rv_type cmd = RESP_TYPE_ARRAY" and m: "map (node_resp buf) (rv_array cmd) = map RBulk args"
    using assms by (auto simp: value_resp_def value_node_def split: resp_type.splits)
  then show "rv_type cmd = RESP_TYPE_ARRAY" and len: "length (rv_array cmd) = length args" using map_eq_imp_length_eq by blast+
  have "node_resp buf (rv_array cmd ! i) = RBulk (args ! i)" if "i < length args"
    using arg_cong [OF m, of "\<lambda>l. l ! i"] that len by simp
  then show "cmd_bulk buf cmd i = (if i < length args then Some (args ! i) else None)"
    using len by (auto simp: cmd_bulk_def array_nth_nth node_resp_bulk)
qed

text \<open>The parser keeps the slab it was lent.\<close>

lemma drawn_slab: "drawn p as q \<Longrightarrow> np_slab p \<noteq> None \<Longrightarrow> np_slab q \<noteq> None"
proof (induction rule: drawn.induct)
  case (drawn_snoc pool as q a r pool')
  then have "np_slab (q\<lparr>np_free := []\<rparr>) \<noteq> None" by simp
  then have "np_slab r \<noteq> None"
    using drawn_snoc.hyps(2) by (auto simp: resp__node_alloc_def node_malloc_def split: option.splits prod.splits list.splits)
  then show ?case using drawn_snoc.hyps(3) by simp
qed simp

lemma next_keeps_slab:
  assumes "parser_wf q" "resp_parser_next q = Some (st, p, v)" "np_slab (p_pool q) \<noteq> None"
  shows "np_slab (p_pool p) \<noteq> None"
proof -
  have "\<exists>m. balanced (p_pool q) {#} (p_pool p) m"
    using next_safe [OF assms(1)] assms(2) by (auto split: if_splits)
  then show ?thesis using drawn_slab assms(3) by (auto simp: balanced_def)
qed

text \<open>A parsed command is the array of the bulk strings \<open>args\<close>.\<close>

definition is_request :: "conn \<Rightarrow> string list \<Rightarrow> resp_value \<Rightarrow> bool" where
  "is_request c args cmd \<longleftrightarrow> rv_type cmd = RESP_TYPE_ARRAY \<and> length (rv_array cmd) = length args \<and>
     (\<forall>i. cmd_bulk (p_buf (cn_parser c)) cmd i = (if i < length args then Some (args ! i) else None))"

text \<open>The state in which a parsed command is handled, and the state after its nodes are released.\<close>

definition parsed :: "addr \<Rightarrow> conn \<Rightarrow> resp_parser \<Rightarrow> 'w zedis_server \<Rightarrow> 'w zedis_server" where
  "parsed a c p s = (put_pool p s)\<lparr>sv_conns := (sv_conns s)(a \<mapsto> c\<lparr>cn_parser := p\<rparr>)\<rparr>"

definition ready :: "nat \<Rightarrow> 'w zedis_server \<Rightarrow> conn \<Rightarrow> bool" where
  "ready k s c \<longleftrightarrow> k \<le> length (np_free (p_pool (cn_parser c))) + length (sv_malloc s)"

lemma dispatch_request:
  assumes I: "server_inv K s xs" and a: "a \<in> set xs" and c: "sv_conns s a = Some c"
    and u: "unread (cn_parser c) = request args @ rest" and ok: "length args < 2 ^ 63" "\<forall>x \<in> set args. length x < 2 ^ 63"
    and k: "ready (length args + k) s c"
  obtains p cmd where "server_inv K (parsed a c p s) xs" "unread p = rest" "parser_wf p" "ready k (parsed a c p s) (c\<lparr>cn_parser := p\<rparr>)"
    "is_request (c\<lparr>cn_parser := p\<rparr>) args cmd"
    "server_dispatch_commands os a s =
       do {
         (closed, s) \<leftarrow> server_handle_command os a cmd (parsed a c p s);
         if closed \<noteq> 0 then Some (1, s)
         else do {
           c \<leftarrow> sv_conns s a;
           s \<leftarrow> upd_conn a (release_cmd cmd) s;
           if cn_closed c then do { s \<leftarrow> conn_destroy os a s; Some (1, s) } else server_dispatch_commands os a s
         }
       }"
proof -
  let ?q = "with_pool s (cn_parser c)"
  have wf: "conn_wf c" using I c by (auto simp: server_inv_def conns_ok_def)
  then have pw: "parser_wf ?q" by (simp add: conn_wf_def)
  have R: "resp_ok (RArray (map RBulk args))" using ok by (simp add: list_all_iff)
  have "resp_nodes (RArray (map RBulk args)) = length args" by (induction args) auto
  then have K: "pool_ready (resp_nodes (RArray (map RBulk args)) + k) (p_pool ?q)"
    using k by (simp only: pool_ready_def ready_def) (simp add: with_pool_def)
  have U: "unread ?q = resp_bytes (RArray (map RBulk args)) @ rest" using u unfolding request_def by simp
  obtain p cmd where n: "resp_parser_next ?q = Some (RESP_OK, p, cmd)" "parser_wf p"
      "value_resp (p_buf p) cmd = RArray (map RBulk args)" "unread p = rest" "pool_ready k (p_pool p)"
    using next_round_trip_slack [OF pw U R K] by blast
  obtain sl h where sl: "np_slab (p_pool p) = Some (sl, h)"
    using next_keeps_slab [OF pw n(1)] by (auto simp: with_pool_def)
  have "server_inv K (parsed a c p s) xs"
    using next_step [OF I c] n(1) by (simp add: parsed_def)
  moreover have "ready k (parsed a c p s) (c\<lparr>cn_parser := p\<rparr>)"
    using n(5) sl by (simp add: ready_def pool_ready_def parsed_def put_pool_def)
  moreover have "upd_conn a (\<lambda>c. c\<lparr>cn_parser := p\<rparr>) (put_pool p s) = Some (parsed a c p s)"
    using c by (simp add: upd_conn_def parsed_def)
  then have "server_dispatch_commands os a s =
       do {
         (closed, s) \<leftarrow> server_handle_command os a cmd (parsed a c p s);
         if closed \<noteq> 0 then Some (1, s)
         else do {
           c \<leftarrow> sv_conns s a;
           s \<leftarrow> upd_conn a (release_cmd cmd) s;
           if cn_closed c then do { s \<leftarrow> conn_destroy os a s; Some (1, s) } else server_dispatch_commands os a s
         }
       }"
    using c n(1) by (subst server_dispatch_commands.simps) simp
  moreover have "is_request (c\<lparr>cn_parser := p\<rparr>) args cmd" using request_args [OF n(3)] by (simp add: is_request_def)
  ultimately show ?thesis using that n(2,4) by blast
qed

section \<open>SET and GET\<close>

lemma find_commands: "find_command ''SET'' = Some (''SET'', SET)" "find_command ''GET'' = Some (''GET'', GET)"
  by code_simp+

lemma metrics_only: "\<exists>mt. zedis_metrics_record_command name s = s\<lparr>sv_metrics := mt\<rparr>"
  by (cases s) (auto simp: zedis_metrics_record_command_def Let_def split: option.split)

lemma handle_known:
  assumes "sv_conns s a = Some c" "rv_type cmd = RESP_TYPE_ARRAY" "cmd_bulk (p_buf (cn_parser c)) cmd 0 = Some name"
    "find_command name = Some (entry, fn)"
  shows "server_handle_command os a cmd s = run_command fn os a cmd (zedis_metrics_record_command entry s)"
proof -
  have "rv_array cmd \<noteq> []" using assms(3) by (auto simp: cmd_bulk_def)
  then show ?thesis using assms by (simp add: server_handle_command_def)
qed

lemma outputs_same_conn:
  "sv_conns s1 a = sv_conns s a \<Longrightarrow> sv_world s1 = sv_world s \<Longrightarrow> sv_overrun s1 = sv_overrun s \<Longrightarrow> outputs os a t s1 s2 \<Longrightarrow> outputs os a t s s2"
  by (simp add: outputs_def)

text \<open>What handling one request must do: change the metrics and the table, and output \<open>t\<close>.\<close>

definition handles :: "'w os \<Rightarrow> addr \<Rightarrow> resp_value \<Rightarrow> nat \<Rightarrow> string \<Rightarrow> zedis_hash_table \<Rightarrow> 'w zedis_server \<Rightarrow> bool" where
  "handles os a cmd n t kv s \<longleftrightarrow> (\<exists>mt s' c'. server_handle_command os a cmd s = Some (0, s') \<and>
     wrote os {a} (s\<lparr>sv_metrics := mt, sv_kv := kv\<rparr>) s' \<and> outputs os a t s s' \<and> sv_conns s' a = Some c' \<and> (cn_closed c' \<or> has_room n c'))"

text \<open>A handled SET that the table accepts, and a GET of a stored value that fits a reply.\<close>

lemma handle_set:
  assumes P: "write_progress os" and M: "memory_sized os" and c: "sv_conns s a = Some c" and cmd: "is_request c [''SET'', k, v] cmd"
    and kv: "zedis_ht_set (sv_kv s) k v = Some (0, kv)" and room: "has_room (5 + n) c"
  shows "handles os a cmd n (''+OK'' @ crlf) kv s"
proof -
  obtain mt where mt: "zedis_metrics_record_command ''SET'' s = s\<lparr>sv_metrics := mt\<rparr>" using metrics_only by blast
  let ?s = "s\<lparr>sv_metrics := mt, sv_kv := kv\<rparr>" and ?t = "CHR ''+'' # cstr ''OK'' @ crlf"
  have ct: "cstr ''OK'' = ''OK''" by (simp add: cstr_def)
  have F: "formats ?t 512 (resp_format_simple (os_memory os (sv_world ?s) 512) 512 ''OK'')"
    by (rule format_simple) (use M in \<open>simp_all add: memory_sized_def\<close>)
  have pre: "sv_conns ?s a = Some c" "has_room (length ?t + n) c" "length ?t < 512" "?t \<noteq> []"
    using c room ct by (simp_all add: eval_nat_numeral)
  obtain s' c' where r: "reply_simple os a ''OK'' ?s = Some (0, s')" "wrote os {a} ?s s'" "outputs os a ?t ?s s'"
      "sv_conns s' a = Some c'" "cn_closed c' \<or> has_room n c'"
    using send_outputs [OF P pre(1,2) F pre(3,4)] unfolding reply_simple_def by blast
  have b: "rv_type cmd = RESP_TYPE_ARRAY" "cmd_bulk (p_buf (cn_parser c)) cmd 0 = Some ''SET''" "cmd_bulk (p_buf (cn_parser c)) cmd 1 = Some k"
      "cmd_bulk (p_buf (cn_parser c)) cmd 2 = Some v"
    using cmd by (simp_all add: is_request_def)
  have "server_handle_command os a cmd s = Some (0, s')"
    unfolding handle_known [OF c b(1,2) find_commands(1)] mt run_command.simps set_command_def
    using c b(3,4) kv r(1) by simp
  moreover have "outputs os a (''+OK'' @ crlf) s s'" using outputs_same_conn [OF _ _ _ r(3), of s] ct by simp
  ultimately show ?thesis using r(2,4,5) unfolding handles_def by blast
qed

lemma handle_get:
  assumes P: "write_progress os" and M: "memory_sized os" and c: "sv_conns s a = Some c" and cmd: "is_request c [''GET'', k] cmd"
    and T: "ht_inv (sv_kv s)" "ht_lookup (sv_kv s) k = Some v" and len: "length (bulk_text v) < 4096"
    and room: "has_room (length (bulk_text v) + n) c"
  shows "handles os a cmd n (bulk_text v) (sv_kv s) s"
proof -
  obtain mt where mt: "zedis_metrics_record_command ''GET'' s = s\<lparr>sv_metrics := mt\<rparr>" using metrics_only by blast
  let ?s = "s\<lparr>sv_metrics := mt\<rparr>"
  have same: "s\<lparr>sv_metrics := mt, sv_kv := sv_kv s\<rparr> = ?s" by (cases s) simp
  have "length v < 4096" using len by (simp add: bulk_text_def)
  then have g: "zedis_ht_get (sv_kv s) k ZEDIS_HT_MAX_VALUE = Some (Some (v @ [NUL], length v))"
    using ht.fetch_lookup [OF T(1), of k ZEDIS_HT_MAX_VALUE] T(2) by (simp add: ht_out_def ht_copy_out_def ZEDIS_HT_MAX_VALUE_def)
  have F: "formats (bulk_text v) 4096 (resp_format_bulk (os_memory os (sv_world ?s) 4096) 4096 v)"
    unfolding bulk_text_def by (rule format_bulk) (use M in \<open>simp_all add: memory_sized_def\<close>)
  have "sv_conns ?s a = Some c" "bulk_text v \<noteq> []" using c by (simp_all add: bulk_text_def)
  then obtain s' c' where r: "reply_bulk os a v ?s = Some (0, s')" "wrote os {a} ?s s'" "outputs os a (bulk_text v) ?s s'"
      "sv_conns s' a = Some c'" "cn_closed c' \<or> has_room n c'"
    using send_outputs [OF P _ room F len] unfolding reply_bulk_def by blast
  have b: "rv_type cmd = RESP_TYPE_ARRAY" "cmd_bulk (p_buf (cn_parser c)) cmd 0 = Some ''GET''" "cmd_bulk (p_buf (cn_parser c)) cmd 1 = Some k"
    using cmd by (simp_all add: is_request_def)
  have "server_handle_command os a cmd s = Some (0, s')"
    unfolding handle_known [OF c b(1,2) find_commands(2)] mt run_command.simps get_command_def
    using c b(3) g r(1) by simp
  moreover have "outputs os a (bulk_text v) s s'" using outputs_same_conn [OF _ _ _ r(3), of s] by simp
  moreover have "wrote os {a} (s\<lparr>sv_metrics := mt, sv_kv := sv_kv s\<rparr>) s'" using r(2) unfolding same .
  ultimately show ?thesis using r(4,5) unfolding handles_def by blast
qed

text \<open>Nothing left to parse.\<close>

lemma next_empty:
  assumes "parser_wf q" "unread q = []"
  shows "\<exists>p v. resp_parser_next q = Some (RESP_NEED_MORE, p, v) \<and> parser_wf p"
proof -
  let ?q = "settled q"
  have S: "parser_wf ?q" "unread ?q = unread q" using settled [OF assms(1)] by simp_all
  then have "p_w_pos ?q = p_r_pos ?q" using assms(2) length_unread [OF S(1)] by (simp add: parser_wf_def)
  then show ?thesis using S(1)
    by (simp add: resp_parser_next_def settled_def Let_def parser_wf_def parse_value_Suc)
qed

text \<open>Releasing the command keeps everything a client sees.\<close>

lemma released_ok:
  fixes cmd :: resp_value
  assumes I: "server_inv K s xs" and c: "sv_conns s a = Some c" and wf: "conn_wf c"
  defines "s' \<equiv> s\<lparr>sv_conns := (sv_conns s)(a \<mapsto> release_cmd cmd c)\<rparr>"
  shows "server_inv K s' xs" "outputs os a [] s s'" "unread (cn_parser (release_cmd cmd c)) = unread (cn_parser c)"
    "ready k s c \<Longrightarrow> ready k s' (release_cmd cmd c)" "has_room n (release_cmd cmd c) = has_room n c" "cn_closed (release_cmd cmd c) = cn_closed c"
    "upd_conn a (release_cmd cmd) s = Some s'"
proof -
  have w: "conn_wf (release_cmd cmd c) = conn_wf c" by (simp add: release_cmd_def conn_wf_def parser_wf_def)
  show "server_inv K s' xs" unfolding s'_def by (rule inv_upd [OF I c]) (use w wf in \<open>simp_all add: release_cmd_def\<close>)
  show "outputs os a [] s s'" by (rule outputs_nil [OF c, of s' "release_cmd cmd c"]) (simp_all add: s'_def release_cmd_def pending_def)
  show "unread (cn_parser (release_cmd cmd c)) = unread (cn_parser c)" by (simp add: release_cmd_def unread_def)
  have "length (np_free (p_pool (cn_parser c))) \<le> length (np_free (p_pool (cn_parser (release_cmd cmd c))))"
    using list_release_addrs(1) [of "p_pool (cn_parser c)" "rv_array cmd"]
    by (simp add: release_cmd_def resp_value_release_def) (metis le_add1 size_mset size_union)
  then show "ready k s c \<Longrightarrow> ready k s' (release_cmd cmd c)" by (simp add: ready_def s'_def)
  show "has_room n (release_cmd cmd c) = has_room n c" using w by (simp add: has_room_def release_cmd_def)
  show "cn_closed (release_cmd cmd c) = cn_closed c" by (simp add: release_cmd_def)
  show "upd_conn a (release_cmd cmd) s = Some s'" using c by (simp add: upd_conn_def s'_def)
qed

text \<open>A request that was handled without closing the connection: the dispatcher goes on with the rest.\<close>

lemma dispatch_continue:
  assumes K: "kernel_ok os K" and D: "server_dispatch_commands os a s =
       do {
         (closed, s) \<leftarrow> server_handle_command os a cmd s1;
         if closed \<noteq> 0 then Some (1, s)
         else do {
           c \<leftarrow> sv_conns s a;
           s \<leftarrow> upd_conn a (release_cmd cmd) s;
           if cn_closed c then do { s \<leftarrow> conn_destroy os a s; Some (1, s) } else server_dispatch_commands os a s
         }
       }"
    and h: "server_handle_command os a cmd s1 = Some (0, s2)" and I: "server_inv K s2 xs" and a: "a \<in> set xs"
    and c2: "sv_conns s2 a = Some c2"
  defines "s3 \<equiv> s2\<lparr>sv_conns := (sv_conns s2)(a \<mapsto> release_cmd cmd c2)\<rparr>"
  shows "if cn_closed c2 then \<exists>s'. server_dispatch_commands os a s = Some (1, s') \<and> sv_kv s' = sv_kv s2
    else server_dispatch_commands os a s = server_dispatch_commands os a s3"
proof -
  have wf: "conn_wf c2" using I c2 by (auto simp: server_inv_def conns_ok_def)
  note R = released_ok [OF I c2 wf, where cmd = cmd, folded s3_def]
  obtain s' where "conn_destroy os a s3 = Some s'" "sv_kv s' = sv_kv s3" using conn_destroy_ok [OF K R(1) a] by blast
  then show ?thesis using h c2 R(7) by (simp add: D s3_def)
qed

text \<open>The dispatcher is about to look for a request in \<open>rest\<close>.\<close>

definition waiting :: "'w kernel \<Rightarrow> addr list \<Rightarrow> addr \<Rightarrow> string \<Rightarrow> nat \<Rightarrow> nat \<Rightarrow> 'w zedis_server \<Rightarrow> bool" where
  "waiting K xs a rest k n s \<longleftrightarrow> server_inv K s xs \<and> a \<in> set xs \<and>
     (\<exists>c. sv_conns s a = Some c \<and> unread (cn_parser c) = rest \<and> ready k s c \<and> has_room n c)"

lemma one_request:
  assumes K: "kernel_ok os K" and W: "waiting K xs a (request args @ rest) (length args + k) m s" and ok: "length args < 2 ^ 63" "\<forall>x \<in> set args. length x < 2 ^ 63"
    and H: "\<And>s1 c1 cmd. sv_conns s1 a = Some c1 \<Longrightarrow> has_room m c1 \<Longrightarrow> sv_kv s1 = sv_kv s \<Longrightarrow>
      is_request c1 args cmd \<Longrightarrow> handles os a cmd n t kv s1"
    and kv: "ht_wf kv"
  shows "(\<exists>s'. server_dispatch_commands os a s = Some (1, s') \<and> sv_kv s' = kv) \<or>
    (\<exists>s'. server_dispatch_commands os a s = server_dispatch_commands os a s' \<and> waiting K xs a rest k n s' \<and> sv_kv s' = kv \<and> outputs os a t s s')"
proof -
  obtain c where I: "server_inv K s xs" "a \<in> set xs" and c: "sv_conns s a = Some c" "unread (cn_parser c) = request args @ rest"
      "ready (length args + k) s c" "has_room m c" using W by (auto simp: waiting_def)
  obtain p cmd where p: "server_inv K (parsed a c p s) xs" "unread p = rest" "parser_wf p" "ready k (parsed a c p s) (c\<lparr>cn_parser := p\<rparr>)"
    and cmd: "is_request (c\<lparr>cn_parser := p\<rparr>) args cmd"
    and D: "server_dispatch_commands os a s =
       do {
         (closed, s) \<leftarrow> server_handle_command os a cmd (parsed a c p s);
         if closed \<noteq> 0 then Some (1, s)
         else do {
           c \<leftarrow> sv_conns s a;
           s \<leftarrow> upd_conn a (release_cmd cmd) s;
           if cn_closed c then do { s \<leftarrow> conn_destroy os a s; Some (1, s) } else server_dispatch_commands os a s
         }
       }"
    by (rule dispatch_request [OF I c(1,2) ok c(3), where os = os])
  let ?s1 = "parsed a c p s" and ?c1 = "c\<lparr>cn_parser := p\<rparr>"
  have s1: "sv_conns ?s1 a = Some ?c1" "sv_kv ?s1 = sv_kv s" "sv_world ?s1 = sv_world s"
    "sv_overrun ?s1 = sv_overrun s"
    by (simp_all add: parsed_def put_pool_def split: option.split)
  have r1: "has_room m ?c1" using c(4) p(3) by (simp add: has_room_def conn_wf_def)
  have o1: "outputs os a [] s ?s1" by (rule outputs_nil [OF c(1) s1(1) _ _ s1(3,4)]) (simp_all add: pending_def)
  obtain mt s2 c2 where h: "server_handle_command os a cmd ?s1 = Some (0, s2)" "wrote os {a} (?s1\<lparr>sv_metrics := mt, sv_kv := kv\<rparr>) s2"
      "outputs os a t ?s1 s2" and c2: "sv_conns s2 a = Some c2" "cn_closed c2 \<or> has_room n c2"
    using H [OF s1(1) r1 s1(2) cmd] by (auto simp: handles_def)
  have I2: "server_inv K s2 xs" using wrote_inv [OF K stores_updates(1) [OF stores_updates(6) [OF p(1)] kv] h(2)] .
  obtain c2' where "sv_conns s2 a = Some c2'" "same_input ?c1 c2'" by (rule wrote_conn [OF h(2)]) (use s1(1) in simp)
  then have par: "cn_parser c2 = p" using c2(1) same_input_fields(2) [of ?c1 c2] by simp
  have f2: "sv_kv s2 = kv" "sv_malloc s2 = sv_malloc ?s1"
    by (rule wrote_rest [OF h(2)], simp)+
  note C = dispatch_continue [OF K D h(1) I2 I(2) c2(1)]
  show ?thesis
  proof (cases "cn_closed c2")
    case True
    then show ?thesis using C f2(1) by simp
  next
    case False
    have wf: "conn_wf c2" using I2 c2(1) by (auto simp: server_inv_def conns_ok_def)
    note R = released_ok [OF I2 c2(1) wf, where cmd = cmd]
    have "ready k s2 c2" using p(4) par f2(2) by (simp add: ready_def)
    then have "waiting K xs a rest k n (s2\<lparr>sv_conns := (sv_conns s2)(a \<mapsto> release_cmd cmd c2)\<rparr>)"
      using R(1,3-5) I(2) par p(2) c2(2) False by (simp add: waiting_def)
    moreover have "outputs os a t s (s2\<lparr>sv_conns := (sv_conns s2)(a \<mapsto> release_cmd cmd c2)\<rparr>)"
      using outputs_trans [OF outputs_trans [OF o1 h(3)] R(2)] by simp
    ultimately show ?thesis using C False f2(1) by auto
  qed
qed

text \<open>With nothing left to read, the dispatcher returns and waits for more input.\<close>

lemma dispatch_idle:
  assumes "waiting K xs a [] k n s"
  shows "\<exists>s'. server_dispatch_commands os a s = Some (0, s') \<and> sv_kv s' = sv_kv s \<and> outputs os a [] s s'"
proof -
  obtain c where I: "server_inv K s xs" and c: "sv_conns s a = Some c" "unread (cn_parser c) = []"
    using assms by (auto simp: waiting_def)
  have "parser_wf (with_pool s (cn_parser c))" using I c(1) by (auto simp: server_inv_def conns_ok_def conn_wf_def)
  then obtain p v where n: "resp_parser_next (with_pool s (cn_parser c)) = Some (RESP_NEED_MORE, p, v)"
    using next_empty [of "with_pool s (cn_parser c)"] c(2) by auto
  have "upd_conn a (\<lambda>c. c\<lparr>cn_parser := p\<rparr>) (put_pool p s) = Some (parsed a c p s)"
    using c by (simp add: upd_conn_def parsed_def)
  then have "server_dispatch_commands os a s = Some (0, parsed a c p s)"
    using c(1) n by (subst server_dispatch_commands.simps) simp
  moreover have s1: "sv_conns (parsed a c p s) a = Some (c\<lparr>cn_parser := p\<rparr>)" "sv_kv (parsed a c p s) = sv_kv s" "sv_world (parsed a c p s) = sv_world s"
    "sv_overrun (parsed a c p s) = sv_overrun s"
    by (simp_all add: parsed_def put_pool_def split: option.split)
  moreover have "outputs os a [] s (parsed a c p s)" by (rule outputs_nil [OF c(1) s1(1) _ _ s1(3,4)]) (simp_all add: pending_def)
  ultimately show ?thesis by blast
qed

section \<open>Properties\<close>


end
