(* ===== verification/Server_PubSub.thy ===== *)
theory Server_PubSub
  imports Server_Wire
begin

text \<open>
  Publishing (\<^verbatim>\<open>publish_command\<close>, \<^verbatim>\<open>server_broadcast_channel\<close> of \<^verbatim>\<open>server.c\<close>): a message reaches the output of every
  subscriber, and of nobody else. The output is followed over all sockets at once, by the trace of the writes the operating
  system accepted.
\<close>

section \<open>Traffic\<close>

text \<open>The chunks the operating system accepted between two of its states, each with its descriptor.\<close>

inductive traffic :: "'w os \<Rightarrow> 'w \<Rightarrow> (int \<times> string) list \<Rightarrow> 'w \<Rightarrow> bool" for os where
  traffic_refl: "traffic os w [] w"
| traffic_write: "os_write os w fd data = (WroteBytes n, w1) \<Longrightarrow> n \<le> length data \<Longrightarrow> traffic os w1 tr w2 \<Longrightarrow>
    traffic os w ((fd, take n data) # tr) w2"
| traffic_fail: "os_write os w fd data = (r, w1) \<Longrightarrow> r = WriteAgain \<or> r = WriteError \<Longrightarrow> traffic os w1 tr w2 \<Longrightarrow> traffic os w tr w2"
| traffic_ctl: "os_epoll_ctl os w EPOLL_CTL_MOD fd ev = (rc, w1) \<Longrightarrow> traffic os w1 tr w2 \<Longrightarrow> traffic os w tr w2"

definition bytes_to :: "int \<Rightarrow> (int \<times> string) list \<Rightarrow> string" where
  "bytes_to fd tr = concat (map snd (filter (\<lambda>m. fst m = fd) tr))"

lemma bytes_to_simps [simp]:
  "bytes_to fd [] = []" "bytes_to fd ((f, bs) # tr) = (if f = fd then bs else []) @ bytes_to fd tr" "bytes_to fd (tr @ tr') = bytes_to fd tr @ bytes_to fd tr'"
  by (simp_all add: bytes_to_def)

lemma traffic_trans: "traffic os w tr w1 \<Longrightarrow> traffic os w1 tr' w2 \<Longrightarrow> traffic os w (tr @ tr') w2"
  by (induction rule: traffic.induct) (auto intro: traffic.intros)

lemma sends_traffic: "sends os fd w bs w' \<Longrightarrow> \<exists>tr. traffic os w tr w' \<and> (\<forall>f. bytes_to f tr = (if f = fd then bs else []))"
proof (induction rule: sends.induct)
  case (sends_write w data n w1 bs w2)
  then obtain tr where "traffic os w1 tr w2" "\<forall>f. bytes_to f tr = (if f = fd then bs else [])" by blast
  then show ?case using traffic_write [OF sends_write(1,2)] by (intro exI [of _ "(fd, take n data) # tr"]) auto
next
  case (sends_fail w data r w1 bs w2)
  then show ?case using traffic_fail [OF sends_fail(1,2)] by blast
next
  case (sends_ctl w fd' ev rc w1 bs w2)
  then show ?case using traffic_ctl [OF sends_ctl(1)] by blast
qed (auto intro: traffic_refl)

text \<open>Between two states with the same connections, \<open>t y\<close> was output on each connection \<open>y\<close>: the bytes its socket took,
  followed by what is queued now, are what was queued before followed by \<open>t y\<close>. No byte went behind a block.\<close>

definition delivers :: "'w os \<Rightarrow> (addr \<Rightarrow> string) \<Rightarrow> 'w zedis_server \<Rightarrow> 'w zedis_server \<Rightarrow> bool" where
  "delivers os t s s' \<longleftrightarrow> sv_overrun s' = sv_overrun s \<and> (\<exists>tr. traffic os (sv_world s) tr (sv_world s') \<and>
     (\<forall>y c. sv_conns s y = Some c \<longrightarrow> (\<exists>c'. sv_conns s' y = Some c' \<and> cn_fd c' = cn_fd c \<and> bytes_to (cn_fd c) tr @ pending c' = pending c @ t y)))"

lemma delivers_refl: "delivers os (\<lambda>_. []) s s"
  unfolding delivers_def by (auto intro!: exI [of _ "[]"] traffic_refl)

lemma delivers_trans:
  assumes "delivers os t s s1" "delivers os u s1 s2"
  shows "delivers os (\<lambda>y. t y @ u y) s s2"
proof -
  obtain tr where 1: "traffic os (sv_world s) tr (sv_world s1)"
    "\<And>y c. sv_conns s y = Some c \<Longrightarrow> \<exists>c'. sv_conns s1 y = Some c' \<and> cn_fd c' = cn_fd c \<and> bytes_to (cn_fd c) tr @ pending c' = pending c @ t y"
    using assms(1) by (auto simp: delivers_def)
  obtain tr' where 2: "traffic os (sv_world s1) tr' (sv_world s2)"
    "\<And>y c. sv_conns s1 y = Some c \<Longrightarrow> \<exists>c'. sv_conns s2 y = Some c' \<and> cn_fd c' = cn_fd c \<and> bytes_to (cn_fd c) tr' @ pending c' = pending c @ u y"
    using assms(2) by (auto simp: delivers_def)
  have "\<exists>c'. sv_conns s2 y = Some c' \<and> cn_fd c' = cn_fd c \<and> bytes_to (cn_fd c) (tr @ tr') @ pending c' = pending c @ t y @ u y"
    if i: "sv_conns s y = Some c" for y c
  proof -
    obtain c1 where c1: "sv_conns s1 y = Some c1" "cn_fd c1 = cn_fd c" "bytes_to (cn_fd c) tr @ pending c1 = pending c @ t y" using 1(2) [OF i] by blast
    obtain c2 where c2: "sv_conns s2 y = Some c2" "cn_fd c2 = cn_fd c" "bytes_to (cn_fd c) tr' @ pending c2 = pending c1 @ u y"
      using 2(2) [OF c1(1)] c1(2) by auto
    have "bytes_to (cn_fd c) (tr @ tr') @ pending c2 = pending c @ t y @ u y" using c1(3) c2(3) by (metis bytes_to_simps(3) append.assoc)
    then show ?thesis using c2(1,2) by blast
  qed
  then show ?thesis using traffic_trans [OF 1(1) 2(1)] assms unfolding delivers_def by metis
qed

lemma queue_delivers:
  assumes I: "server_inv K s xs" and w: "wrote os {a} s s'" and o: "outputs os a t s s'"
  shows "delivers os (\<lambda>y. if y = a then t else []) s s'"
proof -
  obtain c c' bs where c: "sv_conns s a = Some c" "sv_conns s' a = Some c'" "cn_fd c' = cn_fd c" "bs @ pending c' = pending c @ t"
      and b: "sends os (cn_fd c) (sv_world s) bs (sv_world s')" and ov: "sv_overrun s' = sv_overrun s"
    using o by (auto simp: outputs_def)
  obtain tr where tr: "traffic os (sv_world s) tr (sv_world s')" "\<And>f. bytes_to f tr = (if f = cn_fd c then bs else [])"
    using sends_traffic [OF b] by blast
  have io: "io_ok K (ids (sv_conns s)) (sv_world s) (sv_loop s)" using I by (simp add: server_inv_def)
  have inj: "y = z" if "ids (sv_conns s) y = Some (f, b)" "ids (sv_conns s) z = Some (f, b')" for y z f b b'
    using io that unfolding io_ok_def by blast
  have "cn_fd d \<noteq> cn_fd c" if "sv_conns s y = Some d" "y \<noteq> a" for y d
    using inj [of y "cn_fd d" "cn_write_buf d" a "cn_write_buf c"] that c(1) by (auto simp: ids_def)
  moreover have "sv_conns s' y = sv_conns s y" if "y \<noteq> a" for y using w that by (auto simp: wrote_def)
  ultimately have "\<exists>d'. sv_conns s' y = Some d' \<and> cn_fd d' = cn_fd d \<and> bytes_to (cn_fd d) tr @ pending d' = pending d @ (if y = a then t else [])"
    if "sv_conns s y = Some d" for y d
    using that c tr(2) by (cases "y = a") auto
  then show ?thesis unfolding delivers_def using tr(1) ov by blast
qed

section \<open>The broadcast\<close>

lemma broadcast_delivers:
  assumes K: "kernel_ok os K" and "server_inv K s xs" "lseg (sv_conns s) p b ys q 0" "set ys \<subseteq> set xs" "distinct ys"
    and "\<And>y c. y \<in> set ys \<Longrightarrow> sv_conns s y = Some c \<Longrightarrow> listens ch c \<Longrightarrow> has_room (length msg + n) c"
  shows "\<exists>s'. broadcast_loop os ch msg b s = Some s' \<and> wrote os (set ys) s s' \<and> server_inv K s' xs \<and>
    delivers os (\<lambda>y. if y \<in> set ys \<and> (\<exists>c. sv_conns s y = Some c \<and> listens ch c) then msg else []) s s' \<and>
    (\<forall>y \<in> set ys. \<forall>c c'. sv_conns s y = Some c \<longrightarrow> sv_conns s' y = Some c' \<longrightarrow> (if listens ch c then cn_closed c' \<or> has_room n c' else c' = c))"
  using assms(2-)
proof (induction ys arbitrary: p b s)
  case Nil
  then show ?case using delivers_refl by (auto simp: broadcast_loop.simps)
next
  case (Cons y ys)
  then obtain c where c: "sv_conns s y = Some c" "b = y" "y \<noteq> 0" "lseg (sv_conns s) y (cn_next c) ys q 0" by auto
  have yx: "y \<in> set xs" "y \<notin> set ys" using Cons.prems by auto
  define t where "t = (\<lambda>z. if z = y \<and> listens ch c then msg else [])"
  obtain rc s1 c1 where s1: "(if listens ch c then conn_queue_write os y msg s else Some (0, s)) = Some (rc, s1)" "wrote os {y} s s1" "server_inv K s1 xs"
      "delivers os t s s1" "sv_conns s1 y = Some c1" "if listens ch c then cn_closed c1 \<or> has_room n c1 else c1 = c"
  proof (cases "listens ch c")
    case True
    obtain rc s1 c1 where q: "conn_queue_write os y msg s = Some (rc, s1)" "wrote os {y} s s1" "outputs os y msg s s1" "sv_conns s1 y = Some c1"
        "cn_closed c1 \<or> has_room n c1"
      using queue_outputs [OF kernel_calls(1) [OF K] c(1), of msg n] Cons.prems(5) [OF _ c(1) True] by auto
    have "server_inv K s1 xs" by (rule wrote_inv [OF K Cons.prems(1) q(2)])
    moreover have "delivers os t s s1" using queue_delivers [OF Cons.prems(1) q(2,3)] True by (simp add: t_def cong: if_cong)
    ultimately show ?thesis using that q True by simp
  next
    case False
    then show ?thesis using that [of 0 s c] Cons.prems(1) c(1) delivers_refl [of os s] by (simp add: t_def)
  qed
  obtain c2 where "sv_conns s1 y = Some c2" "same_input c c2" by (rule wrote_conn [OF s1(2) c(1)])
  then have nx: "cn_next c1 = cn_next c" using same_input_fields(6) s1(5) by simp
  have l1: "lseg (sv_conns s1) y (cn_next c) ys q 0"
    by (rule lseg_wrote [OF _ c(4)]) (use s1(2) in \<open>auto simp: wrote_def\<close>)
  have same: "sv_conns s1 z = sv_conns s z" if "z \<noteq> y" for z using s1(2) that by (auto simp: wrote_def)
  have same': "sv_conns s1 z = sv_conns s z" if "z \<in> set ys" for z using same yx(2) that by metis
  obtain s2 where s2: "broadcast_loop os ch msg (cn_next c) s1 = Some s2" "wrote os (set ys) s1 s2" "server_inv K s2 xs"
      "delivers os (\<lambda>z. if z \<in> set ys \<and> (\<exists>c. sv_conns s1 z = Some c \<and> listens ch c) then msg else []) s1 s2"
      "\<And>z c c'. z \<in> set ys \<Longrightarrow> sv_conns s1 z = Some c \<Longrightarrow> sv_conns s2 z = Some c' \<Longrightarrow> (if listens ch c then cn_closed c' \<or> has_room n c' else c' = c)"
    using Cons.IH [OF s1(3) l1] Cons.prems(3-5) same' by fastforce
  have "wrote os (set (y # ys)) s s2" using wrote_trans [OF wrote_mono [OF s1(2)] wrote_mono [OF s2(2)]] by auto
  moreover have "broadcast_loop os ch msg b s = Some s2"
    by (subst broadcast_loop.simps) (use c s1(1,5) nx s2(1) in \<open>auto split: if_splits\<close>)
  moreover have "delivers os (\<lambda>z. if z \<in> set (y # ys) \<and> (\<exists>c. sv_conns s z = Some c \<and> listens ch c) then msg else []) s s2"
  proof -
    have "(\<lambda>z. t z @ (if z \<in> set ys \<and> (\<exists>c. sv_conns s1 z = Some c \<and> listens ch c) then msg else [])) =
        (\<lambda>z. if z \<in> set (y # ys) \<and> (\<exists>c. sv_conns s z = Some c \<and> listens ch c) then msg else [])"
      using c(1) yx(2) same' by (auto simp: t_def fun_eq_iff)
    then show ?thesis using delivers_trans [OF s1(4) s2(4)] by simp
  qed
  moreover have "if listens ch d then cn_closed d' \<or> has_room n d' else d' = d"
    if z: "z \<in> set (y # ys)" "sv_conns s z = Some d" "sv_conns s2 z = Some d'" for z d d'
  proof (cases "z = y")
    case True
    then have "sv_conns s2 y = sv_conns s1 y" using s2(2) yx(2) by (auto simp: wrote_def)
    then show ?thesis using s1(5,6) z True c(1) by (auto split: if_splits)
  next
    case False
    then show ?thesis using s2(5) [of z d d'] same z by auto
  qed
  ultimately show ?case using s2(3) by blast
qed

text \<open>The message a subscriber gets, and the receivers of a channel.\<close>

definition message_text :: "string \<Rightarrow> string \<Rightarrow> string" where
  "message_text ch message = message_head ch (length message) @ message @ crlf"

definition subscribers :: "string \<Rightarrow> 'w zedis_server \<Rightarrow> addr list \<Rightarrow> addr list" where
  "subscribers ch s xs = filter (\<lambda>y. listens ch (the (sv_conns s y))) xs"

text \<open>A message that the ring takes fits the buffer of the broadcast.\<close>

lemma broadcast_fits:
  assumes "length message \<le> ZEDIS_RING_MSG_MAX" "length (cstr ch) < 64"
  shows "server_broadcast_channel os ch message s = broadcast_loop os ch (message_text ch message) (sv_conns_head s) s"
proof -
  have "length (show_nat (length (cstr ch))) \<le> 2" "length (show_nat (length message)) \<le> 3"
    by (rule length_show_nat; use assms in \<open>simp add: ZEDIS_RING_MSG_MAX_def\<close>)+
  then have "length (message_head ch (length message)) < 100" "0 < length (message_head ch (length message))"
    using assms(2) by (simp_all add: message_head_def)
  then show ?thesis using assms(1) by (simp add: server_broadcast_channel_def message_text_def Let_def ZEDIS_RING_MSG_MAX_def)
qed

lemma conns_bounded: "server_inv K s xs \<Longrightarrow> length xs < 2 ^ 64"
proof -
  assume I: "server_inv K s xs"
  then obtain f where f: "held (ids (sv_conns s)) (sv_heap s, sv_slab s) f" "card (slab_blk (sv_heap s, sv_slab s) 2) < 2 ^ 64 - 1"
      and x: "dom (sv_conns s) = set xs" "distinct xs"
    by (auto simp: server_inv_def slab_ok_def conns_ok_def conn_list_def)
  have "set xs \<subseteq> slab_blk (sv_heap s, sv_slab s) 2"
  proof
    fix y
    assume "y \<in> set xs"
    then obtain d where "sv_conns s y = Some d" using x(1) by blast
    then have "ids (sv_conns s) y = Some (cn_fd d, cn_write_buf d)" by (simp add: ids_def)
    then show "y \<in> slab_blk (sv_heap s, sv_slab s) 2" using f(1) unfolding held_def by blast
  qed
  then have "card (set xs) \<le> card (slab_blk (sv_heap s, sv_slab s) 2)" by (rule card_mono [rotated]) (simp add: slab_blk_def)
  then show ?thesis using f(2) distinct_card [OF x(2)] by simp
qed

section \<open>PUBLISH\<close>

text \<open>C13. PUBLISH reaches every subscriber once, and nobody else. If the ring takes the message and the write buffers have
  room for it and for the reply, the handler of PUBLISH returns, keeps the invariant of the server, and outputs on every
  connection that listens to the channel the message, on the publisher then the number of these connections, and on all other
  connections nothing; nothing is lost, repeated or reordered. The reply is missing only if the publisher listens to the channel itself and
  writing the message to its socket failed, so that it is marked as closed.\<close>

theorem publish_delivers:
  assumes K: "kernel_ok os K" and I: "server_inv K s xs" and a: "a \<in> set xs" and c: "sv_conns s a = Some c"
    and args: "cmd_bulk (p_buf (cn_parser c)) cmd 1 = Some channel" "cmd_bulk (p_buf (cn_parser c)) cmd 2 = Some message"
    and ch: "ch = take 63 channel @ [NUL]" and ring: "zedis_ring_publish (sv_ring s) (Some ch) (Some message) = (0, ring)"
    and room: "\<And>y d. y \<in> set xs \<Longrightarrow> sv_conns s y = Some d \<Longrightarrow> listens ch d \<or> y = a \<Longrightarrow> has_room (length (message_text ch message) + 32) d"
  shows "\<exists>s'. publish_command os a cmd s = Some (0, s') \<and> server_inv K s' xs \<and>
    (delivers os (\<lambda>y. (if y \<in> set (subscribers ch s xs) then message_text ch message else []) @
        (if y = a then CHR '':'' # show_nat (length (subscribers ch s xs)) @ crlf else [])) s s' \<or>
     delivers os (\<lambda>y. if y \<in> set (subscribers ch s xs) then message_text ch message else []) s s' \<and>
     a \<in> set (subscribers ch s xs) \<and> (\<exists>d. sv_conns s' a = Some d \<and> cn_closed d))"
proof -
  obtain k where k: "ring_shape (sv_ring s) k" using I by (auto simp: server_inv_def stores_ok_def)
  let ?s = "s\<lparr>sv_ring := ring\<rparr>" and ?n = "length (subscribers ch s xs)"
  have len: "length message \<le> ZEDIS_RING_MSG_MAX" and rs: "ring_shape ring k"
    using ring k by (auto simp: zedis_ring_publish_def publish_check_def publish_commit_def publish_fill_def ring_shape_def split: option.splits if_splits)
  have I': "server_inv K ?s xs" by (rule stores_updates(3) [OF I rs])
  obtain q where q: "lseg (sv_conns ?s) 0 (sv_conns_head ?s) xs q 0" "distinct xs" using I' by (auto simp: server_inv_def conns_ok_def conn_list_def)
  have "length (cstr ch) \<le> 63" using ch by (simp add: cstr_def takeWhile_append split: if_splits) (metis length_takeWhile_le length_take le_trans min.cobounded2)
  then have B: "server_broadcast_channel os ch message ?s = broadcast_loop os ch (message_text ch message) (sv_conns_head ?s) ?s"
    using broadcast_fits [OF len, of ch os ?s] by simp
  have "\<exists>s1. broadcast_loop os ch (message_text ch message) (sv_conns_head ?s) ?s = Some s1 \<and> wrote os (set xs) ?s s1 \<and> server_inv K s1 xs \<and>
      delivers os (\<lambda>y. if y \<in> set xs \<and> (\<exists>c. sv_conns ?s y = Some c \<and> listens ch c) then message_text ch message else []) ?s s1 \<and>
      (\<forall>y \<in> set xs. \<forall>c c'. sv_conns ?s y = Some c \<longrightarrow> sv_conns s1 y = Some c' \<longrightarrow> (if listens ch c then cn_closed c' \<or> has_room 32 c' else c' = c))"
    by (rule broadcast_delivers [OF K I' q(1) subset_refl q(2)]) (use room in simp)
  then obtain s1 where s1: "broadcast_loop os ch (message_text ch message) (sv_conns_head ?s) ?s = Some s1" "server_inv K s1 xs"
      "delivers os (\<lambda>y. if y \<in> set xs \<and> (\<exists>c. sv_conns ?s y = Some c \<and> listens ch c) then message_text ch message else []) ?s s1"
      "\<And>y c c'. y \<in> set xs \<Longrightarrow> sv_conns ?s y = Some c \<Longrightarrow> sv_conns s1 y = Some c' \<Longrightarrow> (if listens ch c then cn_closed c' \<or> has_room 32 c' else c' = c)"
    by blast
  have "y \<in> set (subscribers ch s xs) \<longleftrightarrow> y \<in> set xs \<and> (\<exists>c. sv_conns ?s y = Some c \<and> listens ch c)" for y
    by (cases "sv_conns s y") (auto simp: subscribers_def elim!: server_inv_conn [OF I])
  then have D: "delivers os (\<lambda>y. if y \<in> set (subscribers ch s xs) then message_text ch message else []) s s1"
    using s1(3) by (simp add: delivers_def)
  obtain c1 where c1: "sv_conns s1 a = Some c1" by (rule server_inv_conn [OF s1(2) a])
  have count: "count_receivers ch ?s (sv_conns_head s) = Some ?n" using count_receivers_lseg [OF q(1)] by (simp add: subscribers_def)
  have name: "take (if length channel < 63 then length channel else 63) channel @ [NUL] = ch" using ch by simp
  have P: "publish_command os a cmd s = reply_integer os a (int ?n) s1"
    using c args ring count s1(1) B unfolding publish_command_def Let_def by (simp add: name del: take_all_iff)
  show ?thesis
  proof (cases "cn_closed c1")
    case True
    then have "publish_command os a cmd s = Some (0, s1)"
      using P c1 by (simp add: reply_integer_def send_reply_def conn_queue_write_def split: prod.split)
    moreover have "listens ch c" using s1(4) [OF a _ c1, of c] c room [OF a c] True by (auto simp: has_room_def split: if_splits)
    then have "a \<in> set (subscribers ch s xs)" using a c by (simp add: subscribers_def)
    ultimately show ?thesis using s1(2) D c1 True by blast
  next
    case False
    let ?t = "CHR '':'' # show_int (int ?n) @ crlf"
    have "?n \<le> length xs" by (simp add: subscribers_def)
    then have "length (show_nat ?n) \<le> 20" using conns_bounded [OF I] by (intro length_show_nat) simp_all
    then have t: "?t = CHR '':'' # show_nat ?n @ crlf" "length ?t \<le> 32" "length ?t < 64" by (simp_all add: show_int_def)
    have "has_room 32 c1" using s1(4) [OF a _ c1, of c] c room [OF a c] False by (auto simp: has_room_def split: if_splits)
    then have r: "has_room (length ?t + 0) c1" using t(2) by (simp add: has_room_def)
    have F: "formats ?t 64 (resp_format_integer (os_memory os (sv_world s1) 64) 64 (int ?n))"
      by (rule format_integer) (use kernel_calls(2) [OF K] in \<open>simp add: memory_sized_def\<close>)
    obtain s2 where s2: "reply_integer os a (int ?n) s1 = Some (0, s2)" "wrote os {a} s1 s2" "outputs os a ?t s1 s2"
      using send_outputs [OF kernel_calls(1) [OF K] c1 r F t(3)] unfolding reply_integer_def by auto
    have "server_inv K s2 xs" by (rule wrote_inv [OF K s1(2) s2(2)])
    then show ?thesis using P s2(1) delivers_trans [OF D queue_delivers [OF s1(2) s2(2,3)], unfolded t(1)] by simp
  qed
qed

end
