(* ===== verification/Server_Answers.thy ===== *)
theory Server_Answers
  imports Server_Wire
begin

text \<open>
  What the commands promise a client: an abstract database, the outcomes a request may have on it, and for each
  handler of \<^verbatim>\<open>src/src/server.c\<close> that the server implements them.
\<close>

section \<open>The database\<close>

text \<open>Strings, lists, sorted sets and the levels of the order book; \<open>db_slots\<close> is the capacity of the table of strings.\<close>

record db =
  db_slots :: nat
  db_strings :: "string \<Rightarrow> string option"
  db_lists :: "string \<Rightarrow> string list"
  db_zsets :: "string \<Rightarrow> string \<Rightarrow> int option"
  db_book :: "int \<Rightarrow> (int \<times> int) option"

text \<open>The stores of the server hold the database.\<close>

definition represents :: "'w zedis_server \<Rightarrow> db \<Rightarrow> bool" where
  "represents s D \<longleftrightarrow> ht_inv (sv_kv s) \<and> ht_lookup (sv_kv s) = db_strings D \<and> ht_capacity (sv_kv s) = db_slots D \<and>
     finite (dom (db_strings D)) \<and> ht_count (sv_kv s) = card (dom (db_strings D)) \<and>
     lreg_rep (sv_lists s) (sv_aol s) (db_lists D) \<and> zreg_inv (sv_zsets s) \<and> zsets_of (sv_zsets s) = db_zsets D \<and>
     book_wf (sv_book s) \<and> book_abs (sv_book s) = db_book D"

section \<open>Outcomes of a request\<close>

definition error_text :: "string \<Rightarrow> string" where
  "error_text msg = CHR ''-'' # msg @ crlf"

definition integer_text :: "int \<Rightarrow> string" where
  "integer_text v = CHR '':'' # show_int v @ crlf"

text \<open>A bulk string that does not fit the buffer of 4096 bytes is not sent at all.\<close>

definition bulk_reply :: "string \<Rightarrow> string" where
  "bulk_reply v = (if length (bulk_text v) < 4096 then bulk_text v else [])"

text \<open>A text printed into a buffer of \<open>cap\<close> bytes: nothing is promised when it does not fit.\<close>

definition printed :: "nat \<Rightarrow> db \<Rightarrow> string \<Rightarrow> (db \<times> string) set" where
  "printed cap D t = {(D, u) | u. length t < cap \<longrightarrow> u = t}"

text \<open>A listing of a sorted set in the order of the scores.\<close>

definition lists_zset :: "(string \<Rightarrow> int option) \<Rightarrow> (int \<times> string) list \<Rightarrow> bool" where
  "lists_zset z L \<longleftrightarrow> sorted (map fst L) \<and> distinct (map snd L) \<and> (\<forall>name sc. z name = Some sc \<longleftrightarrow> (sc, name) \<in> set L)"

text \<open>An order on the book: a price without a level is refused.\<close>

definition order_outcome :: "db \<Rightarrow> order \<Rightarrow> (db \<times> string) set" where
  "order_outcome D x =
     (case db_book D (order_price x) of
        None \<Rightarrow> {(D, error_text ''ERR price out of range'')}
      | Some lv \<Rightarrow> {(D\<lparr>db_book := (db_book D)(order_price x \<mapsto> spec_step x lv)\<rparr>, integer_text (case x of Bid p q \<Rightarrow> q | Ask p q \<Rightarrow> q))})"

text \<open>The databases and replies a command with the arguments \<open>args\<close> may lead to. SET is refused exactly when a length is over its limit or
  the table is loaded to 70 percent. ZADD and LPUSH may also be refused because the registry of keys, the tree or the log is
  full. The two commands left out, DEL and PUBLISH, promise nothing here.\<close>

fun outcomes :: "command \<Rightarrow> string list \<Rightarrow> db \<Rightarrow> (db \<times> string) set" where
  "outcomes PING args D = (case args of [] \<Rightarrow> {(D, ''+PONG'' @ crlf)} | msg # _ \<Rightarrow> {(D, bulk_reply msg)})"
| "outcomes ECHO args D =
     (case args of
        msg # _ \<Rightarrow> {(D, bulk_reply msg)}
      | _ \<Rightarrow> {(D, error_text ''ERR wrong number of arguments for 'echo' command'')})"
| "outcomes SET args D =
     (case args of
        key # val # _ \<Rightarrow>
          if length key \<le> ZEDIS_HT_MAX_KEY \<and> length val \<le> ZEDIS_HT_MAX_VALUE \<and> card (dom (db_strings D)) * 10 < db_slots D * 7
          then {(D\<lparr>db_strings := (db_strings D)(key \<mapsto> val)\<rparr>, ''+OK'' @ crlf)}
          else {(D, error_text ''ERR hash table full or value too large'')}
      | _ \<Rightarrow> {(D, error_text ''ERR wrong number of arguments for 'set' command'')})"
| "outcomes GET args D =
     (case args of
        key # _ \<Rightarrow> {(D, case db_strings D key of None \<Rightarrow> ''$-1'' @ crlf | Some v \<Rightarrow> bulk_reply v)}
      | _ \<Rightarrow> {(D, error_text ''ERR wrong number of arguments for 'get' command'')})"
| "outcomes BID args D =
     (case args of
        price # qty # _ \<Rightarrow>
          (case (parse_int price, parse_i64 qty) of
             (Some p, Some q) \<Rightarrow> order_outcome D (Bid p q)
           | _ \<Rightarrow> {(D, error_text ''ERR invalid bid arguments'')})
      | _ \<Rightarrow> {(D, error_text ''ERR wrong number of arguments for 'bid' command'')})"
| "outcomes ASK args D =
     (case args of
        price # qty # _ \<Rightarrow>
          (case (parse_int price, parse_i64 qty) of
             (Some p, Some q) \<Rightarrow> order_outcome D (Ask p q)
           | _ \<Rightarrow> {(D, error_text ''ERR invalid ask arguments'')})
      | _ \<Rightarrow> {(D, error_text ''ERR wrong number of arguments for 'ask' command'')})"
| "outcomes BOOK args D =
     (case args of
        price # _ \<Rightarrow>
          (case parse_int price of
             Some p \<Rightarrow>
               (case db_book D p of
                  None \<Rightarrow> {(D, error_text ''ERR price out of range'')}
                | Some (b, a) \<Rightarrow> {(D, ''*2'' @ crlf @ integer_text b @ integer_text a)})
           | None \<Rightarrow> {(D, error_text ''ERR invalid price'')})
      | _ \<Rightarrow> {(D, error_text ''ERR wrong number of arguments for 'book' command'')})"
| "outcomes ZADD args D =
     (case args of
        key # score # member # _ \<Rightarrow>
          (case parse_i64 score of
             None \<Rightarrow> {(D, error_text ''ERR value is not a valid float'')}
           | Some sc \<Rightarrow>
               (if member \<noteq> [] \<and> length member < ZEDIS_BTREE_MAX_MEMBER
                then {(D\<lparr>db_zsets := (db_zsets D)(key := (db_zsets D key)(member \<mapsto> sc))\<rparr>,
                       integer_text (if db_zsets D key member = None then 1 else 0))} else {}) \<union>
               {(D, error_text ''ERR zset full or member too large'')})
      | _ \<Rightarrow> {(D, error_text ''ERR wrong number of arguments for 'zadd' command'')})"
| "outcomes ZSCORE args D =
     (case args of
        key # member # _ \<Rightarrow>
          (case db_zsets D key member of
             None \<Rightarrow> {(D, ''$-1'' @ crlf)}
           | Some sc \<Rightarrow> {(D, u) | u. length (score_text sc) < 64 \<longrightarrow> u = bulk_text (score_text sc)})
      | _ \<Rightarrow> {(D, error_text ''ERR wrong number of arguments for 'zscore' command'')})"
| "outcomes ZRANGE args D =
     (case args of
        key # start # stop # _ \<Rightarrow>
          (case (parse_i64 start, parse_i64 stop) of
             (Some i, Some j) \<Rightarrow> (\<Union>L \<in> Collect (lists_zset (db_zsets D key)). printed 8192 D (sent_array (lrange_spec i j (map snd L))))
           | _ \<Rightarrow> {(D, error_text ''ERR value is not an integer or out of range'')})
      | _ \<Rightarrow> {(D, error_text ''ERR wrong number of arguments for 'zrange' command'')})"
| "outcomes LPUSH args D =
     (case args of
        key # val # _ \<Rightarrow>
          (if key \<noteq> [] \<and> length key \<le> ZEDIS_AOL_MAX_KEY \<and> val \<noteq> [] \<and> length val \<le> ZEDIS_AOL_MAX_ELEM
           then {(D\<lparr>db_lists := (db_lists D)(key := val # db_lists D key)\<rparr>, integer_text (int (length (db_lists D key)) + 1))} else {}) \<union>
          {(D, error_text ''ERR list full or append log full'')}
      | _ \<Rightarrow> {(D, error_text ''ERR wrong number of arguments for 'lpush' command'')})"
| "outcomes LRANGE args D =
     (case args of
        key # start # stop # _ \<Rightarrow>
          (case (parse_i64 start, parse_i64 stop) of
             (Some i, Some j) \<Rightarrow>
               {(D, let t = sent_array (lrange_spec i j (take 1024 (db_lists D key))) in
                    if length t < 8192 then t else error_text ''ERR lrange failed'')}
           | _ \<Rightarrow> {(D, error_text ''ERR value is not an integer or out of range'')})
      | _ \<Rightarrow> {(D, error_text ''ERR wrong number of arguments for 'lrange' command'')})"
| "outcomes LLEN args D =
     (case args of
        key # _ \<Rightarrow> {(D, integer_text (int (length (db_lists D key))))}
      | _ \<Rightarrow> {(D, error_text ''ERR wrong number of arguments for 'llen' command'')})"
| "outcomes SUBSCRIBE args D =
     (case args of
        channel # _ \<Rightarrow>
          (let ch = take (sub_channel_cap - 1) channel in
           printed 512 D (''*3'' @ crlf @ ''$9'' @ crlf @ ''subscribe'' @ crlf @ ''$'' @ show_nat (length ch) @ crlf @ cstr ch @ crlf @ '':1'' @ crlf))
      | _ \<Rightarrow> {(D, error_text ''ERR wrong number of arguments for 'subscribe' command'')})"
| "outcomes QUIT args D = {(D, [])}"
| "outcomes DEL args D = UNIV"
| "outcomes PUBLISH args D = UNIV"

definition request_outcomes :: "string list \<Rightarrow> db \<Rightarrow> (db \<times> string) set" where
  "request_outcomes req D =
     (case req of
        [] \<Rightarrow> {(D, [])}
      | name # args \<Rightarrow>
          (case find_command name of
             None \<Rightarrow> printed 512 D (''-ERR unknown command '' @ CHR 0x27 # cstr name @ CHR 0x27 # crlf)
           | Some (_, fn) \<Rightarrow> outcomes fn args D))"

section \<open>Replies\<close>

text \<open>The bytes that left for the socket of \<open>a\<close> and those now queued are what was queued and \<open>t\<close>. (As \<open>outputs\<close>, but
  whether the queue grew past the payload of its block is left open.)\<close>

definition emits :: "'w os \<Rightarrow> addr \<Rightarrow> string \<Rightarrow> 'w zedis_server \<Rightarrow> 'w zedis_server \<Rightarrow> bool" where
  "emits os a t s s' \<longleftrightarrow> (\<exists>c c' bs. sv_conns s a = Some c \<and> sv_conns s' a = Some c' \<and> cn_fd c' = cn_fd c \<and>
     sends os (cn_fd c) (sv_world s) bs (sv_world s') \<and> bs @ pending c' = pending c @ t)"

lemma outputs_emits: "outputs os a t s s' \<Longrightarrow> emits os a t s s'"
  by (simp add: outputs_def emits_def)

lemma emits_trans:
  assumes "emits os a t s s1" "emits os a u s1 s2"
  shows "emits os a (t @ u) s s2"
proof -
  obtain c c1 bs where 1: "sv_conns s a = Some c" "sv_conns s1 a = Some c1" "cn_fd c1 = cn_fd c"
      "sends os (cn_fd c) (sv_world s) bs (sv_world s1)" "bs @ pending c1 = pending c @ t"
    using assms(1) by (auto simp: emits_def)
  obtain c2 bs2 where 2: "sv_conns s2 a = Some c2" "cn_fd c2 = cn_fd c1"
      "sends os (cn_fd c) (sv_world s1) bs2 (sv_world s2)" "bs2 @ pending c2 = pending c1 @ u"
    using assms(2) 1(2,3) by (auto simp: emits_def)
  have "(bs @ bs2) @ pending c2 = pending c @ t @ u" using 1(5) 2(4) by (metis append.assoc)
  then show ?thesis unfolding emits_def using 1(1,3) 2(1,2) sends_trans [OF 1(4) 2(3)] by metis
qed

lemma emits_nil:
  assumes "sv_conns s a = Some c" "sv_conns s' a = Some c'" "cn_fd c' = cn_fd c" "pending c' = pending c" "sv_world s' = sv_world s"
  shows "emits os a [] s s'"
  using assms sends_refl [of os "cn_fd c" "sv_world s"] by (auto simp: emits_def)

text \<open>The connection the request came from, when its handler starts.\<close>

definition attends :: "'w os \<Rightarrow> addr \<Rightarrow> conn \<Rightarrow> 'w zedis_server \<Rightarrow> bool" where
  "attends os a c s \<longleftrightarrow> write_progress os \<and> memory_sized os \<and> sv_conns s a = Some c \<and> conn_wf c \<and> \<not> cn_closed c"

text \<open>A step that leaves the stores alone and outputs \<open>t\<close>, or closes the connection.\<close>

definition says :: "'w os \<Rightarrow> addr \<Rightarrow> string \<Rightarrow> 'w zedis_server \<Rightarrow> (int \<times> 'w zedis_server) option \<Rightarrow> bool" where
  "says os a t s r \<longleftrightarrow> (\<exists>s' c'. r = Some (0, s') \<and> (\<forall>D. represents s' D = represents s D) \<and> sv_malloc s' = sv_malloc s \<and>
     sv_conns s' a = Some c' \<and> (cn_closed c' \<or> emits os a t s s'))"

text \<open>A step with one of the outcomes \<open>Os\<close>.\<close>

definition answers :: "'w os \<Rightarrow> addr \<Rightarrow> (db \<times> string) set \<Rightarrow> 'w zedis_server \<Rightarrow> (int \<times> 'w zedis_server) option \<Rightarrow> bool" where
  "answers os a Os s r \<longleftrightarrow> (\<exists>D t s' c'. (D, t) \<in> Os \<and> r = Some (0, s') \<and> represents s' D \<and> sv_malloc s' = sv_malloc s \<and>
     sv_conns s' a = Some c' \<and> (cn_closed c' \<or> emits os a t s s'))"

lemma says_answers: "says os a t s r \<Longrightarrow> represents s D \<Longrightarrow> (D, t) \<in> Os \<Longrightarrow> answers os a Os s r"
  unfolding says_def answers_def by blast

lemma answers_upd [simp]:
  "answers os a Os (s\<lparr>sv_kv := kv\<rparr>) r = answers os a Os s r" "answers os a Os (s\<lparr>sv_book := book\<rparr>) r = answers os a Os s r"
  "answers os a Os (s\<lparr>sv_zsets := zsets\<rparr>) r = answers os a Os s r" "answers os a Os (s\<lparr>sv_lists := reg, sv_aol := log\<rparr>) r = answers os a Os s r"
  "answers os a Os (s\<lparr>sv_metrics := mt\<rparr>) r = answers os a Os s r"
  by (simp_all add: answers_def emits_def)

lemma attends_upd [simp]:
  "attends os a c (s\<lparr>sv_kv := kv\<rparr>) = attends os a c s" "attends os a c (s\<lparr>sv_book := book\<rparr>) = attends os a c s"
  "attends os a c (s\<lparr>sv_zsets := zsets\<rparr>) = attends os a c s" "attends os a c (s\<lparr>sv_lists := reg, sv_aol := log\<rparr>) = attends os a c s"
  "attends os a c (s\<lparr>sv_metrics := mt\<rparr>) = attends os a c s"
  by (simp_all add: attends_def)

lemma queue_says:
  assumes "attends os a c s"
  shows "says os a t s (do { (rc, s) \<leftarrow> conn_queue_write os a t s; Some (0, s) })"
proof -
  have A: "write_progress os" "sv_conns s a = Some c" "conn_wf c" "\<not> cn_closed c" using assms by (auto simp: attends_def)
  obtain rc s' c' where q: "conn_queue_write os a t s = Some (rc, s')" "wrote os {a} s s'" "sv_conns s' a = Some c'"
      "cn_closed c' \<or> (\<exists>bs. sends os (cn_fd c) (sv_world s) bs (sv_world s') \<and> bs @ pending c' = pending c @ t)"
    using conn_queue_write_ok [OF A(1-3), of t] by (auto split: if_splits)
  obtain c2 where "sv_conns s' a = Some c2" "same_input c c2" by (rule wrote_conn [OF q(2) A(2)])
  then have "cn_fd c' = cn_fd c" using q(3) same_input_fields(1) by auto
  moreover have "represents s' D = represents s D" "sv_malloc s' = sv_malloc s" for D
    by (rule wrote_rest [OF q(2)], simp add: represents_def)+
  ultimately show ?thesis using q A(2) by (auto simp: says_def emits_def)
qed

lemma send_says:
  assumes "attends os a c s"
  shows "says os a (take (nat (fst r)) (snd r)) s (send_reply os a r s)"
proof (cases "fst r > 0")
  case True
  then show ?thesis using queue_says [OF assms] by (cases r) (simp add: send_reply_def)
next
  case False
  then show ?thesis using assms emits_nil [of s a c s] by (cases r) (simp add: send_reply_def says_def attends_def)
qed

lemma formats_says:
  assumes "attends os a c s" "formats t cap r"
  shows "says os a (if length t < cap then t else []) s (send_reply os a r s)"
  using send_says [OF assms(1), of r] assms(2) by (auto simp: formats_def split: if_splits)

lemma attends_memory: "attends os a c s \<Longrightarrow> length (os_memory os w n) = n"
  by (simp add: attends_def memory_sized_def)

lemma show_int_length:
  assumes "in_i64 v"
  shows "length (show_int v) \<le> 20"
proof -
  have "length (show_nat (nat (\<bar>v\<bar>))) \<le> 19" by (rule length_show_nat) (use assms in \<open>auto simp: in_i64_def nat_less_iff\<close>)
  then show ?thesis by (auto simp: show_int_def abs_if split: if_splits)
qed

lemma reply_says:
  assumes A: "attends os a c s"
  shows "NUL \<notin> set msg \<Longrightarrow> length msg < 509 \<Longrightarrow> says os a (error_text msg) s (reply_error os a msg s)"
    "NUL \<notin> set msg \<Longrightarrow> length msg < 509 \<Longrightarrow> says os a (CHR ''+'' # msg @ crlf) s (reply_simple os a msg s)"
    "in_i64 v \<Longrightarrow> says os a (integer_text v) s (reply_integer os a v s)"
    "says os a (bulk_reply data) s (reply_bulk os a data s)"
    "says os a (''$-1'' @ crlf) s (reply_null os a s)"
    "\<exists>u. (length t < cap \<longrightarrow> u = t) \<and> says os a u s (reply_printed os a cap t s)"
proof -
  note M = attends_memory [OF A, of "sv_world s"] and F = formats_says [OF A]
  show "says os a (error_text msg) s (reply_error os a msg s)" if "NUL \<notin> set msg" "length msg < 509"
    using F [OF format_error [OF M [of 512]], of msg] that by (simp add: reply_error_def error_text_def cstr_id)
  show "says os a (CHR ''+'' # msg @ crlf) s (reply_simple os a msg s)" if "NUL \<notin> set msg" "length msg < 509"
    using F [OF format_simple [OF M [of 512]], of msg] that by (simp add: reply_simple_def cstr_id)
  show "says os a (integer_text v) s (reply_integer os a v s)" if "in_i64 v"
    using F [OF format_integer [OF M [of 64]], of v] show_int_length [OF that] by (simp add: reply_integer_def integer_text_def)
  show "says os a (bulk_reply data) s (reply_bulk os a data s)"
    using F [OF format_bulk [OF M [of 4096]], of data, folded bulk_text_def] unfolding reply_bulk_def bulk_reply_def by simp
  show "says os a (''$-1'' @ crlf) s (reply_null os a s)"
    using F [OF format_null [OF M [of 64]]] by (simp add: reply_null_def)
  show "\<exists>u. (length t < cap \<longrightarrow> u = t) \<and> says os a u s (reply_printed os a cap t s)"
  proof (cases "length t < cap")
    case True
    then show ?thesis using send_says [OF A, of "snprintf (os_memory os (sv_world s) cap) cap t"] snprintf_fits [OF M [of cap], of t]
      by (auto simp: reply_printed_def max_def)
  next
    case False
    then show ?thesis using send_says [OF A] unfolding reply_printed_def by blast
  qed
qed

lemma reply_answers:
  assumes A: "attends os a c s" and R: "represents s D"
  shows "(D, error_text msg) \<in> Os \<Longrightarrow> NUL \<notin> set msg \<Longrightarrow> length msg < 509 \<Longrightarrow> answers os a Os s (reply_error os a msg s)"
    "(D, integer_text v) \<in> Os \<Longrightarrow> in_i64 v \<Longrightarrow> answers os a Os s (reply_integer os a v s)"
    "(D, bulk_reply data) \<in> Os \<Longrightarrow> answers os a Os s (reply_bulk os a data s)"
    "(D, ''$-1'' @ crlf) \<in> Os \<Longrightarrow> answers os a Os s (reply_null os a s)"
    "printed cap D t \<subseteq> Os \<Longrightarrow> answers os a Os s (reply_printed os a cap t s)"
proof -
  note S = says_answers [OF _ R]
  show "answers os a Os s (reply_error os a msg s)" if "(D, error_text msg) \<in> Os" "NUL \<notin> set msg" "length msg < 509"
    using S [OF reply_says(1) [OF A]] that by simp
  show "answers os a Os s (reply_integer os a v s)" if "(D, integer_text v) \<in> Os" "in_i64 v" using S [OF reply_says(3) [OF A]] that by simp
  show "answers os a Os s (reply_bulk os a data s)" if "(D, bulk_reply data) \<in> Os" using S [OF reply_says(4) [OF A]] that by simp
  show "answers os a Os s (reply_null os a s)" if "(D, ''$-1'' @ crlf) \<in> Os" using S [OF reply_says(5) [OF A]] that by simp
  assume "printed cap D t \<subseteq> Os"
  then have "(D, u) \<in> Os" if "length t < cap \<longrightarrow> u = t" for u using that by (auto simp: printed_def)
  moreover obtain u where "length t < cap \<longrightarrow> u = t" "says os a u s (reply_printed os a cap t s)" using reply_says(6) [OF A] by blast
  ultimately show "answers os a Os s (reply_printed os a cap t s)" using S by simp
qed

section \<open>Handlers\<close>

lemma request_bulks:
  assumes "is_request c (name # args) cmd"
  shows "cmd_bulk (p_buf (cn_parser c)) cmd (Suc 0) = (case args of x # _ \<Rightarrow> Some x | _ \<Rightarrow> None)"
    "cmd_bulk (p_buf (cn_parser c)) cmd 2 = (case args of _ # x # _ \<Rightarrow> Some x | _ \<Rightarrow> None)"
    "cmd_bulk (p_buf (cn_parser c)) cmd 3 = (case args of _ # _ # x # _ \<Rightarrow> Some x | _ \<Rightarrow> None)"
    "length (rv_array cmd) = Suc (length args)"
  using assms by (auto simp: is_request_def numeral_2_eq_2 numeral_3_eq_3 split: list.split)

lemma parse_i64_range: "parse_i64 t = Some v \<Longrightarrow> in_i64 v"
proof -
  have "in_i64 0" by (simp add: in_i64_def)
  then show "parse_i64 t = Some v \<Longrightarrow> in_i64 v" using scan_digits_in by (auto simp: parse_i64_def Let_def split: if_splits option.splits)
qed

text \<open>The record of each element takes space in the log, whose positions have 32 bits.\<close>

lemma lists_short:
  assumes "represents s D"
  shows "length (db_lists D key) < 2 ^ 32" "in_i64 (int (length (db_lists D key)))" "in_i64 (int (length (db_lists D key)) + 1)"
proof -
  show "length (db_lists D key) < 2 ^ 32"
    using assms order_le_less_trans [of "length (db_lists D key)" "lg_write_pos (sv_aol s)" "2 ^ 32"] by (auto simp: represents_def lreg_rep_def log_wf_def)
  then show "in_i64 (int (length (db_lists D key)))" "in_i64 (int (length (db_lists D key)) + 1)" by (simp_all add: in_i64_def)
qed

lemma value_reply:
  assumes "\<And>n. length (m n) = n"
  shows "bulk_reply (take (length v) (ht_copy_out v ZEDIS_HT_MAX_VALUE @ m (ZEDIS_HT_MAX_VALUE - length (ht_copy_out v ZEDIS_HT_MAX_VALUE)))) = bulk_reply v"
proof (cases "length v < ZEDIS_HT_MAX_VALUE")
  case False
  have "bulk_reply u = []" if "4096 \<le> length u" for u using that by (simp add: bulk_reply_def bulk_text_def)
  then show ?thesis using False assms by (simp add: ht_copy_out_def ZEDIS_HT_MAX_VALUE_def del: take_append)
qed (simp add: ht_copy_out_def)

lemma simple_answers:
  assumes A: "attends os a c s" and R: "represents s D" and cmd: "is_request c (name # args) cmd"
  shows "answers os a (outcomes PING args D) s (ping_command os a cmd s)" "answers os a (outcomes ECHO args D) s (echo_command os a cmd s)"
    "answers os a (outcomes GET args D) s (get_command os a cmd s)" "answers os a (outcomes LLEN args D) s (llen_command os a cmd s)"
proof -
  have c: "sv_conns s a = Some c" using A by (simp add: attends_def)
  note U = c request_bulks [OF cmd]
  have pong: "says os a (''+PONG'' @ crlf) s (reply_simple os a ''PONG'' s)" using reply_says(2) [OF A, of "''PONG''"] by simp
  show "answers os a (outcomes PING args D) s (ping_command os a cmd s)"
    using says_answers [OF pong R] by (cases args) (auto simp: ping_command_def U intro!: reply_answers [OF A R])
  show "answers os a (outcomes ECHO args D) s (echo_command os a cmd s)"
    by (cases args) (auto simp: echo_command_def U intro!: reply_answers [OF A R])
  have kv: "zedis_ht_get (sv_kv s) key ZEDIS_HT_MAX_VALUE = Some (map_option (ht_out ZEDIS_HT_MAX_VALUE) (db_strings D key))" for key
    using ht.fetch_lookup R by (simp add: represents_def)
  have pos: "0 < ZEDIS_HT_MAX_VALUE" by (simp add: ZEDIS_HT_MAX_VALUE_def)
  have stored: "(D, bulk_reply v) \<in> Os \<Longrightarrow> answers os a Os s (reply_bulk os a (take (length v) (ht_copy_out v ZEDIS_HT_MAX_VALUE @
      os_memory os w (ZEDIS_HT_MAX_VALUE - length (ht_copy_out v ZEDIS_HT_MAX_VALUE)))) s)" for v w Os
    using value_reply [of "os_memory os w", OF attends_memory [OF A], of v] by (intro reply_answers(3) [OF A R]) simp
  show "answers os a (outcomes GET args D) s (get_command os a cmd s)"
    by (cases args) (auto simp: get_command_def U kv ht_out_def pos split: option.split simp del: take_append
        intro!: reply_answers(1,4) [OF A R] stored)
  have n: "zedis_list_reg_llen (sv_lists s) key = Some (length (db_lists D key))" for key
    using list_reg_llen_spec R by (auto simp: represents_def)
  show "answers os a (outcomes LLEN args D) s (llen_command os a cmd s)"
    using lists_short [OF R] by (cases args) (auto simp: llen_command_def U n intro!: reply_answers(1,2) [OF A R])
qed

lemma set_answers:
  assumes A: "attends os a c s" and R: "represents s D" and cmd: "is_request c (name # args) cmd"
  shows "answers os a (outcomes SET args D) s (set_command os a cmd s)"
proof -
  have c: "sv_conns s a = Some c" using A by (simp add: attends_def)
  note U = c request_bulks [OF cmd]
  have I: "ht_inv (sv_kv s)" using R by (simp add: represents_def)
  have acc: "ht_accepts (sv_kv s) k v \<longleftrightarrow> length k \<le> ZEDIS_HT_MAX_KEY \<and> length v \<le> ZEDIS_HT_MAX_VALUE \<and> card (dom (db_strings D)) * 10 < db_slots D * 7" for k v
    using R by (simp add: represents_def ht_accepts_def ht_has_room_def)
  have put: "answers os a (outcomes SET (k # v # r) D) s (do {
       (rc, kv) \<leftarrow> zedis_ht_set (sv_kv s) k v;
       let s = s\<lparr>sv_kv := kv\<rparr>;
       if rc \<noteq> 0 then reply_error os a ''ERR hash table full or value too large'' s else reply_simple os a ''OK'' s })" for k v r
  proof (cases "ht_accepts (sv_kv s) k v")
    case True
    obtain kv where kv: "zedis_ht_set (sv_kv s) k v = Some (0, kv)" "ht_inv kv" "ht_lookup kv = (ht_lookup (sv_kv s))(k \<mapsto> v)"
        "ht_capacity kv = ht_capacity (sv_kv s)" "ht_count kv = ht_count (sv_kv s) + (if ht_lookup (sv_kv s) k = None then 1 else 0)"
      using zedis_ht_set_inv [OF I True] by blast
    have "card (insert k (dom (db_strings D))) = card (dom (db_strings D)) + (if db_strings D k = None then 1 else 0)"
      using R by (auto simp: represents_def card_insert_if domIff)
    then have "represents (s\<lparr>sv_kv := kv\<rparr>) (D\<lparr>db_strings := (db_strings D)(k \<mapsto> v)\<rparr>)"
      using R kv(2-5) by (simp add: represents_def)
    from says_answers [OF reply_says(2) [of os a c "s\<lparr>sv_kv := kv\<rparr>" "''OK''"] this] True show ?thesis
      using A kv(1) acc by simp
  next
    case False
    then have "zedis_ht_set (sv_kv s) k v = Some (-1, sv_kv s)" using ht.put_refused [OF I] by blast
    then show ?thesis using False acc by (auto intro!: reply_answers(1) [OF A R])
  qed
  consider "args = []" | x where "args = [x]" | k v r where "args = k # v # r" by (metis list.exhaust)
  then show ?thesis
  proof cases
    case 3
    then show ?thesis using put by (simp add: set_command_def U)
  qed (auto simp: set_command_def U intro!: reply_answers(1) [OF A R])
qed

lemma level_range:
  assumes "book_wf book" "book_abs book p = Some (b, q)"
  shows "in_i64 b \<and> in_i64 q"
proof -
  have p: "bk_price_min book \<le> p" "p \<le> bk_price_max book" using assms(2) by (auto simp: book_abs_def split: if_splits)
  from nth_mem [OF level_in_bounds [OF assms(1) p]] assms p show ?thesis by (auto simp: book_abs_def book_wf_def qty_ok_def in_i64_def Let_def dest!: bspec)
qed

lemma order_answers:
  assumes A: "attends os a c s" and R: "represents s D" and cmd: "is_request c (name # args) cmd"
  shows "answers os a (outcomes BID args D) s (bid_command os a cmd s)" "answers os a (outcomes ASK args D) s (ask_command os a cmd s)"
    "answers os a (outcomes BOOK args D) s (book_command os a cmd s)"
proof -
  have c: "sv_conns s a = Some c" using A by (simp add: attends_def)
  note U = c request_bulks [OF cmd] and E = reply_answers(1) [OF A R]
  have B: "book_wf (sv_book s)" "book_abs (sv_book s) = db_book D" using R by (simp_all add: represents_def)
  have ok: "answers os a {(D\<lparr>db_book := b\<rparr>, integer_text q)} s (reply_integer os a q (s\<lparr>sv_book := book\<rparr>))"
    if "book_wf book" "book_abs book = b" "in_i64 q" for book b q
  proof -
    have "represents (s\<lparr>sv_book := book\<rparr>) (D\<lparr>db_book := b\<rparr>)" using R that by (simp add: represents_def)
    from reply_answers(2) [OF _ this] A that(3) show ?thesis by simp
  qed
  have bid: "answers os a (order_outcome D (Bid p q)) s (case zedis_book_bid (sv_book s) p q of (rc, book) \<Rightarrow>
      if rc \<noteq> 0 then reply_error os a ''ERR price out of range'' (s\<lparr>sv_book := book\<rparr>) else reply_integer os a q (s\<lparr>sv_book := book\<rparr>))"
    if "in_i64 q" for p q
    using book_bid_step [OF B(1), of p q] B that by (auto simp: order_outcome_def split: option.splits intro!: E ok)
  have ask: "answers os a (order_outcome D (Ask p q)) s (case zedis_book_ask (sv_book s) p q of (rc, book) \<Rightarrow>
      if rc \<noteq> 0 then reply_error os a ''ERR price out of range'' (s\<lparr>sv_book := book\<rparr>) else reply_integer os a q (s\<lparr>sv_book := book\<rparr>))"
    if "in_i64 q" for p q
    using book_ask_step [OF B(1), of p q] B that by (auto simp: order_outcome_def split: option.splits intro!: E ok)
  show "answers os a (outcomes BID args D) s (bid_command os a cmd s)"
    using bid parse_i64_range by (auto simp: bid_command_def U split: list.split option.split intro!: E)
  show "answers os a (outcomes ASK args D) s (ask_command os a cmd s)"
    using ask parse_i64_range by (auto simp: ask_command_def U split: list.split option.split intro!: E)
  have level: "answers os a {(D, ''*2'' @ crlf @ integer_text b @ integer_text q)} s
      (reply_printed os a 128 (''*2'' @ crlf @ '':'' @ show_int b @ crlf @ '':'' @ show_int q @ crlf) s)" if "db_book D p = Some (b, q)" for p b q
  proof (rule reply_answers(5) [OF A R])
    have "in_i64 b" "in_i64 q" using level_range [OF B(1), of p] B(2) that by auto
    then show "printed 128 D (''*2'' @ crlf @ '':'' @ show_int b @ crlf @ '':'' @ show_int q @ crlf) \<subseteq> {(D, ''*2'' @ crlf @ integer_text b @ integer_text q)}"
      using show_int_length [of b] show_int_length [of q] by (auto simp: printed_def integer_text_def)
  qed
  show "answers os a (outcomes BOOK args D) s (book_command os a cmd s)"
    using level zedis_book_level_abs [OF B(1)] B(2) by (auto simp: book_command_def U split: list.split option.split intro!: E)
qed

lemma score_text_nonempty: "score_text v \<noteq> []"
  by (auto simp: score_text_def show_g17_def Let_def split: prod.split)

lemma zset_answers:
  assumes A: "attends os a c s" and R: "represents s D" and cmd: "is_request c (name # args) cmd"
  shows "answers os a (outcomes ZADD args D) s (zadd_command os a cmd s)" "answers os a (outcomes ZSCORE args D) s (zscore_command os a cmd s)"
    "answers os a (outcomes ZRANGE args D) s (zrange_command os a cmd s)"
proof -
  have c: "sv_conns s a = Some c" using A by (simp add: attends_def)
  note U = c request_bulks [OF cmd] and E = reply_answers(1) [OF A R]
  have Z: "zreg_inv (sv_zsets s)" "zsets_of (sv_zsets s) = db_zsets D" using R by (simp_all add: represents_def)
  have score: "zedis_zset_reg_score (sv_zsets s) key member = Some (db_zsets D key member)" for key member
    using zset_reg_score_spec [OF Z(1)] Z(2) by simp
  have add: "answers os a (outcomes ZADD (key # t # member # r) D) s (do {
       prev \<leftarrow> zedis_zset_reg_score (sv_zsets s) key member;
       (rc, zsets) \<leftarrow> zedis_zset_reg_add (sv_zsets s) key sc member;
       let s = s\<lparr>sv_zsets := zsets\<rparr>;
       if rc \<noteq> 0 then reply_error os a ''ERR zset full or member too large'' s
       else reply_integer os a (if prev \<noteq> None then 0 else 1) s })" if "parse_i64 t = Some sc" for key t member r sc
  proof -
    let ?D = "D\<lparr>db_zsets := (db_zsets D)(key := (db_zsets D key)(member \<mapsto> sc))\<rparr>"
    obtain reg where reg: "zedis_zset_reg_add (sv_zsets s) key sc member = Some (if zreg_admits (sv_zsets s) key member then 0 else -1, reg)"
        "zreg_inv reg" "zsets_of reg = (if zreg_admits (sv_zsets s) key member then db_zsets ?D else db_zsets D)"
      using zset_reg_add_spec [OF Z(1), of key sc member] Z(2) by auto
    have A': "attends os a c (s\<lparr>sv_zsets := reg\<rparr>)" using A by simp
    have one: "in_i64 0" "in_i64 1" by (simp_all add: in_i64_def)
    show ?thesis
    proof (cases "zreg_admits (sv_zsets s) key member")
      case True
      then have "represents (s\<lparr>sv_zsets := reg\<rparr>) ?D" using R reg(2,3) by (simp add: represents_def)
      moreover have "member \<noteq> []" "length member < ZEDIS_BTREE_MAX_MEMBER" using True by (auto simp: zreg_admits_def zset_admits_def split: option.splits)
      ultimately show ?thesis using reply_answers(2) [OF A'] True reg(1) that one by (simp add: score)
    next
      case False
      then have "represents (s\<lparr>sv_zsets := reg\<rparr>) D" using R reg(2,3) by (simp add: represents_def)
      from reply_answers(1) [OF A' this] show ?thesis using False reg(1) that by (simp add: score)
    qed
  qed
  show "answers os a (outcomes ZADD args D) s (zadd_command os a cmd s)"
  proof (cases "\<exists>key t member r. args = key # t # member # r")
    case True
    then obtain key t member r where args: "args = key # t # member # r" by blast
    show ?thesis
    proof (cases "parse_i64 t")
      case (Some sc)
      from add [OF this, of key member r] show ?thesis using Some args by (simp add: zadd_command_def U Let_def split del: if_split)
    qed (auto simp: zadd_command_def U args intro!: E)
  next
    case False
    then show ?thesis by (auto simp: zadd_command_def U split: list.split intro!: E)
  qed
  have bulk: "answers os a {(D, u) | u. length t < 64 \<longrightarrow> u = bulk_text t} s
      (case snprintf (os_memory os (sv_world s) 64) 64 t of (len, buf) \<Rightarrow> if len > 0 then reply_bulk os a (take (nat len) buf) s else Some (0, s))"
    if "t \<noteq> []" for t
  proof -
    have "bulk_reply (take (length t) (snd (snprintf (os_memory os (sv_world s) 64) 64 t))) = bulk_text t" if "length t < 64"
      using snprintf_fits [OF attends_memory [OF A], of t] that length_show_nat [of "length t" 2] by (simp add: bulk_reply_def bulk_text_def)
    then show ?thesis using \<open>t \<noteq> []\<close> reply_answers(3) [OF A R] by (auto simp: snprintf_def)
  qed
  show "answers os a (outcomes ZSCORE args D) s (zscore_command os a cmd s)"
    using bulk score_text_nonempty reply_answers(4) [OF A R] by (auto simp: zscore_command_def U score Let_def split: list.split option.split intro!: E)
  have range: "answers os a (\<Union>L \<in> Collect (lists_zset (db_zsets D key)). printed 8192 D (sent_array (lrange_spec i j (map snd L)))) s
      (do { r \<leftarrow> zedis_zset_reg_range (sv_zsets s) key i j 8192; queue_range os a r ''ERR zrange failed'' s })" for key i j
  proof -
    obtain L where L: "sorted (map fst L)" "distinct (map snd L)" "\<And>name sc. zsets_of (sv_zsets s) key name = Some sc \<longleftrightarrow> (sc, name) \<in> set L"
        "\<And>start stop cap. length (sent_array (lrange_spec start stop (map snd L))) < cap \<Longrightarrow>
           zedis_zset_reg_range (sv_zsets s) key start stop cap = Some (Some (sent_array (lrange_spec start stop (map snd L))))"
      by (rule zset_reg_range_spec [OF Z(1), of key]) (rule that)
    have "lists_zset (db_zsets D key) L" using L(1-3) Z(2) by (simp add: lists_zset_def)
    obtain r where r: "zedis_zset_reg_range (sv_zsets s) key i j 8192 = Some r" using zset_reg_range_returns [OF Z(1)] by blast
    have "\<exists>u. says os a u s (queue_range os a r ''ERR zrange failed'' s) \<and> (\<forall>t. r = Some t \<longrightarrow> u = t)"
      using queue_says [OF A] reply_says(1) [OF A, of "''ERR zrange failed''"] by (cases r) (auto simp: queue_range_def)
    then obtain u where u: "says os a u s (queue_range os a r ''ERR zrange failed'' s)" "\<And>t. r = Some t \<Longrightarrow> u = t" by blast
    have "(D, u) \<in> printed 8192 D (sent_array (lrange_spec i j (map snd L)))" using L(4) [of i j 8192] r u(2) by (auto simp: printed_def)
    then have "(D, u) \<in> (\<Union>L \<in> Collect (lists_zset (db_zsets D key)). printed 8192 D (sent_array (lrange_spec i j (map snd L))))"
      using \<open>lists_zset (db_zsets D key) L\<close> by blast
    from says_answers [OF u(1) R this] show ?thesis using r by simp
  qed
  show "answers os a (outcomes ZRANGE args D) s (zrange_command os a cmd s)"
    using range by (auto simp: zrange_command_def U Let_def split: list.split option.split intro!: E)
qed

lemma list_answers:
  assumes A: "attends os a c s" and R: "represents s D" and cmd: "is_request c (name # args) cmd"
  shows "answers os a (outcomes LPUSH args D) s (lpush_command os a cmd s)" "answers os a (outcomes LRANGE args D) s (lrange_command os a cmd s)"
proof -
  have c: "sv_conns s a = Some c" using A by (simp add: attends_def)
  note U = c request_bulks [OF cmd] and E = reply_answers(1) [OF A R]
  have L: "lreg_rep (sv_lists s) (sv_aol s) (db_lists D)" using R by (simp add: represents_def)
  have push: "answers os a (outcomes LPUSH (key # val # r) D) s (do {
       (rc, lists, aol) \<leftarrow> zedis_list_reg_lpush (sv_lists s) (sv_aol s) key val;
       let s = s\<lparr>sv_lists := lists, sv_aol := aol\<rparr>;
       if rc \<noteq> 0 then reply_error os a ''ERR list full or append log full'' s
       else do { len \<leftarrow> zedis_list_reg_llen (sv_lists s) key; reply_integer os a (int len) s } })" for key val r
  proof -
    let ?D = "D\<lparr>db_lists := (db_lists D)(key := val # db_lists D key)\<rparr>"
    obtain reg log where reg: "zedis_list_reg_lpush (sv_lists s) (sv_aol s) key val = Some (if lreg_admits (sv_lists s) (sv_aol s) key val then 0 else -1, reg, log)"
        "lreg_rep reg log (if lreg_admits (sv_lists s) (sv_aol s) key val then db_lists ?D else db_lists D)"
      using list_reg_lpush_spec [OF L, of key val] by (cases "lreg_admits (sv_lists s) (sv_aol s) key val") auto
    have A': "attends os a c (s\<lparr>sv_lists := reg, sv_aol := log\<rparr>)" using A by simp
    show ?thesis
    proof (cases "lreg_admits (sv_lists s) (sv_aol s) key val")
      case True
      then have R': "represents (s\<lparr>sv_lists := reg, sv_aol := log\<rparr>) ?D" using R reg(2) by (simp add: represents_def)
      have len: "zedis_list_reg_llen reg key = Some (Suc (length (db_lists D key)))" using list_reg_llen_spec [OF reg(2), of key] True by simp
      have "key \<noteq> []" "length key \<le> ZEDIS_AOL_MAX_KEY" "val \<noteq> []" "length val \<le> ZEDIS_AOL_MAX_ELEM"
        using True by (auto simp: lreg_admits_def log_admits_def)
      then show ?thesis using reply_answers(2) [OF A' R'] True reg(1) len lists_short(3) [OF R, of key] by (simp add: add.commute)
    next
      case False
      then have "represents (s\<lparr>sv_lists := reg, sv_aol := log\<rparr>) D" using R reg(2) by (simp add: represents_def)
      from reply_answers(1) [OF A' this] show ?thesis using False reg(1) by simp
    qed
  qed
  show "answers os a (outcomes LPUSH args D) s (lpush_command os a cmd s)"
    using push by (auto simp: lpush_command_def U Let_def split: list.split intro!: E)
  have "answers os a {(D, let t = sent_array (lrange_spec i j (take 1024 (db_lists D key))) in if length t < 8192 then t else error_text ''ERR lrange failed'')} s
      (do { r \<leftarrow> zedis_list_reg_lrange (sv_lists s) (sv_aol s) key i j 8192; queue_range os a r ''ERR lrange failed'' s })" for key i j
    using says_answers [OF queue_says [OF A] R] by (simp add: list_reg_lrange_spec [OF L] Let_def queue_range_def E)
  then show "answers os a (outcomes LRANGE args D) s (lrange_command os a cmd s)"
    by (auto simp: lrange_command_def U Let_def split: list.split option.split intro!: E)
qed

lemma represents_conns [simp]: "represents (s\<lparr>sv_conns := cs\<rparr>) D = represents s D" "represents (s\<lparr>sv_metrics := mt\<rparr>) D = represents s D"
  by (simp_all add: represents_def)

lemma subscribe_answers:
  assumes A: "attends os a c s" and R: "represents s D" and cmd: "is_request c (name # args) cmd"
  shows "answers os a (outcomes SUBSCRIBE args D) s (subscribe_command os a cmd s)"
proof (cases args)
  case Nil
  have "sv_conns s a = Some c" using A by (simp add: attends_def)
  with Nil show ?thesis using request_bulks [OF cmd] by (auto simp: subscribe_command_def intro!: reply_answers(1) [OF A R])
next
  case (Cons ch r)
  let ?n = "if length ch < sub_channel_cap - 1 then length ch else sub_channel_cap - 1"
  let ?f = "write_at 0 (take ?n ch @ [NUL]) (cn_channel c)" and ?t = "take (sub_channel_cap - 1) ch"
  let ?s = "s\<lparr>sv_conns := (sv_conns s)(a \<mapsto> c\<lparr>cn_channel := ?f, cn_subscribed := True\<rparr>)\<rparr>"
  have c: "sv_conns s a = Some c" "conn_wf c" "\<not> cn_closed c" using A by (simp_all add: attends_def)
  have n: "take ?n ch = ?t" "?n = length ?t" "sub_channel_cap > 0" by (auto simp: sub_channel_cap_def)
  then have "length ?f = sub_channel_cap" "take ?n ?f = ?t" using c(2) by (auto simp: write_at_def conn_wf_def min_def)
  have A': "attends os a (c\<lparr>cn_channel := ?f, cn_subscribed := True\<rparr>) ?s"
    using A \<open>length ?f = sub_channel_cap\<close> by (simp add: attends_def conn_wf_def)
  have "answers os a (outcomes SUBSCRIBE args D) ?s (reply_printed os a 512 (''*3'' @ crlf @ ''$9'' @ crlf @ ''subscribe'' @ crlf @ ''$'' @ show_nat ?n @ crlf @
               cstr (take ?n ?f) @ crlf @ '':1'' @ crlf) ?s)"
    by (rule reply_answers(5) [OF A', of D]) (use R Cons n(2) \<open>take ?n ?f = ?t\<close> in \<open>simp_all add: Let_def\<close>)
  then have "answers os a (outcomes SUBSCRIBE args D) ?s (subscribe_command os a cmd s)"
    using c(1) Cons request_bulks(1) [OF cmd] by (simp add: subscribe_command_def upd_conn_def Let_def)
  then show ?thesis using c(1) by (auto simp: answers_def emits_def pending_def)
qed

text \<open>A request is supported when it is not DEL, PUBLISH or QUIT.\<close>

definition answered :: "string list \<Rightarrow> bool" where
  "answered req \<longleftrightarrow> (case req of [] \<Rightarrow> True | name # _ \<Rightarrow> map_option snd (find_command name) \<notin> {Some DEL, Some PUBLISH, Some QUIT})"

lemma handle_answers:
  assumes A: "attends os a c s" and R: "represents s D" and cmd: "is_request c req cmd" and ok: "answered req"
  shows "answers os a (request_outcomes req D) s (server_handle_command os a cmd s)"
proof (cases req)
  case Nil
  have "sv_conns s a = Some c" using A by (simp add: attends_def)
  then show ?thesis using Nil cmd R emits_nil [of s a c s] by (auto simp: server_handle_command_def is_request_def answers_def request_outcomes_def)
next
  case (Cons name args)
  have c: "sv_conns s a = Some c" using A by (simp add: attends_def)
  have b: "rv_type cmd = RESP_TYPE_ARRAY" "cmd_bulk (p_buf (cn_parser c)) cmd 0 = Some name" "rv_array cmd \<noteq> []"
    using cmd Cons by (auto simp: is_request_def)
  show ?thesis
  proof (cases "find_command name")
    case None
    then show ?thesis using Cons c b by (auto simp: server_handle_command_def request_outcomes_def intro!: reply_answers(5) [OF A R])
  next
    case (Some e)
    obtain entry fn where fn: "find_command name = Some (entry, fn)" using Some by (cases e) simp
    obtain mt where mt: "zedis_metrics_record_command entry s = s\<lparr>sv_metrics := mt\<rparr>" using metrics_only by blast
    let ?s = "s\<lparr>sv_metrics := mt\<rparr>"
    have A': "attends os a c ?s" "represents ?s D" using A R by simp_all
    note H = simple_answers [OF A' cmd [unfolded Cons]] set_answers [OF A' cmd [unfolded Cons]] order_answers [OF A' cmd [unfolded Cons]]
      zset_answers [OF A' cmd [unfolded Cons]] list_answers [OF A' cmd [unfolded Cons]] subscribe_answers [OF A' cmd [unfolded Cons]]
    have "answers os a (outcomes fn args D) ?s (run_command fn os a cmd ?s)"
      using H ok Cons fn by (cases fn) (simp_all add: answered_def del: outcomes.simps answers_upd)
    then show ?thesis using Cons fn handle_known [OF c b(1,2) fn, of os] mt by (simp add: request_outcomes_def)
  qed
qed

end
