(* ===== verification/Server_Session.thy ===== *)
theory Server_Session
  imports Server_Answers
begin

text \<open>
  A whole conversation: any sequence of requests that is waiting in the read buffer of a connection is
  executed in order on the database, and the replies leave in the same order.
\<close>

section \<open>Conversations\<close>

definition quits :: "string list \<Rightarrow> bool" where
  "quits req \<longleftrightarrow> (case req of [] \<Rightarrow> False | name # _ \<Rightarrow> map_option snd (find_command name) = Some QUIT)"

text \<open>The requests take the database from the first to the last, and \<open>t\<close> is what they are answered. Nothing follows a QUIT.\<close>

inductive session :: "db \<Rightarrow> string list list \<Rightarrow> string \<Rightarrow> db \<Rightarrow> bool" where
  session_end: "session D [] [] D"
| session_request: "(D1, t) \<in> request_outcomes req D \<Longrightarrow> quits req \<longrightarrow> reqs = [] \<Longrightarrow> session D1 reqs u D2 \<Longrightarrow>
    session D (req # reqs) (t @ u) D2"

inductive_simps session_simps: "session D [] t D'" "session D (req # reqs) t D'"

text \<open>A request of at most \<open>n\<close> bulk strings that is not DEL or PUBLISH.\<close>

definition talks :: "nat \<Rightarrow> string list \<Rightarrow> bool" where
  "talks n req \<longleftrightarrow> (answered req \<or> quits req) \<and> length req \<le> n \<and> length req < 2 ^ 63 \<and> (\<forall>x \<in> set req. length x < 2 ^ 63)"

text \<open>The dispatcher is about to look for a request in \<open>rest\<close>; the parser can get \<open>n\<close> nodes.\<close>

definition listening :: "'w kernel \<Rightarrow> addr list \<Rightarrow> addr \<Rightarrow> string \<Rightarrow> nat \<Rightarrow> db \<Rightarrow> 'w zedis_server \<Rightarrow> bool" where
  "listening K xs a rest n D s \<longleftrightarrow> server_inv K s xs \<and> a \<in> set xs \<and> represents s D \<and>
     (\<exists>c. sv_conns s a = Some c \<and> \<not> cn_closed c \<and> unread (cn_parser c) = rest \<and> ready n s c)"

text \<open>The beginning of a request, or nothing.\<close>

definition unfinished :: "nat \<Rightarrow> string \<Rightarrow> bool" where
  "unfinished n rest \<longleftrightarrow> (\<exists>req v. talks n req \<and> v \<noteq> [] \<and> rest @ v = request req)"

lemma unfinished_nil: "unfinished n []"
proof -
  have "talks n []" "request [] \<noteq> []" by (simp_all add: talks_def answered_def request_def)
  then show ?thesis unfolding unfinished_def by blast
qed

lemma unfinished_prefix: "unfinished n (u @ v) \<Longrightarrow> unfinished n u"
  by (auto simp: unfinished_def)

section \<open>A request that has not arrived completely\<close>

lemma drawn_ready: "drawn p as q \<Longrightarrow> length (np_malloc p) \<le> length as + length (np_malloc q)"
proof (induction rule: drawn.induct)
  case (drawn_snoc pool as q a r pool')
  have "length (np_malloc q) \<le> Suc (length (np_malloc r))"
    using drawn_snoc.hyps(2) by (auto simp: resp__node_alloc_def node_malloc_def split: option.splits prod.splits list.splits)
  then show ?case using drawn_snoc.IH drawn_snoc.hyps(4) by simp
qed simp

lemma balanced_ready:
  assumes "balanced p {#} q {#}" "pool_ready n p"
  shows "pool_ready n q"
proof -
  obtain as where as: "drawn p as q" "mset (np_free p) + mset as = mset (np_free q)" using assms(1) by (auto simp: balanced_def)
  have "length (np_free q) = length (np_free p) + length as" using arg_cong [OF as(2), of size] by simp
  then show ?thesis using drawn_ready [OF as(1)] assms(2) by (simp add: pool_ready_def)
qed

text \<open>The parser asks for more: with an answer on the beginning alone, it would give the same answer on the whole request,
  where it reads all bytes.\<close>

lemma next_unfinished:
  assumes wf: "parser_wf q" and u: "unfinished n (unread q)" and k: "pool_ready n (p_pool q)"
  shows "\<exists>p v. resp_parser_next q = Some (RESP_NEED_MORE, p, v) \<and> parser_wf p \<and> unread p = unread q \<and> pool_ready n (p_pool p)"
proof -
  obtain req r where r: "talks n req" "r \<noteq> []" "unread q @ r = request req" using u by (auto simp: unfinished_def)
  let ?b = "request req"
  obtain st p v where nx: "resp_parser_next q = Some (st, p, v)" "parser_wf p"
      "st \<noteq> RESP_OK \<Longrightarrow> unread p = unread q \<and> balanced (p_pool q) {#} (p_pool p) {#}"
    using next_safe [OF wf] by (metis (full_types))
  have "st = RESP_NEED_MORE"
  proof (rule ccontr)
    assume st: "st \<noteq> RESP_NEED_MORE"
    obtain m v0 where d: "decodes (unread q) (p_pool q) (st, p_pool p, m, v0)" by (rule next_answer [OF wf nx(1) st])
    then have d': "decodes ?b (p_pool q) (st, p_pool p, m, v0)" using decodes_more [OF d, of r] st r(3) by simp
    let ?q = "\<lparr>p_buf = ?b, p_buf_cap = length ?b, p_r_pos = 0, p_w_pos = length ?b, p_pool = p_pool q\<rparr>"
    have q: "parser_wf ?q" "unread ?q = resp_bytes (RArray (map RBulk req)) @ []" by (simp_all add: parser_wf_def unread_def slice_def request_def)
    have nodes: "resp_nodes (RArray (map RBulk req)) = length req" by (induction req) auto
    have ok: "resp_ok (RArray (map RBulk req))" using r(1) by (auto simp: talks_def list_all_iff)
    have pool: "pool_ready (resp_nodes (RArray (map RBulk req))) (p_pool ?q)" unfolding nodes using r(1) k by (simp add: talks_def pool_ready_def)
    obtain p2 v2 where n2: "resp_parser_next ?q = Some (RESP_OK, p2, v2)" "unread p2 = []" using next_round_trip [OF q ok pool] by blast
    obtain m2 w2 where "decodes (unread ?q) (p_pool ?q) (RESP_OK, p_pool p2, m2, w2)" "unread p2 = drop m2 (unread ?q)"
      by (rule next_answer [OF q(1) n2(1)]) auto
    then have "st = RESP_OK" and m: "length ?b \<le> m" using d' n2(2) q(2) by (auto simp: decodes_def request_def)
    have "length ?b = length (unread q) + length r" using arg_cong [OF r(3), of length] by simp
    moreover have "m \<le> length (unread q)" using decodes_within d \<open>st = RESP_OK\<close> by blast
    ultimately show False using m r(2) by (cases r) simp_all
  qed
  then show ?thesis using nx balanced_ready k by auto
qed

section \<open>One request\<close>

lemma unlink_stores: "server_unlink_conn a s = Some s' \<Longrightarrow> represents s' D = represents s D"
  by (auto simp: server_unlink_conn_def upd_conn_def represents_def split: option.splits if_splits bind_splits)

lemma destroy_stores:
  assumes "conn_destroy os a s = Some s'"
  shows "represents s' D = represents s D"
proof -
  obtain s1 where s1: "server_unlink_conn a s = Some s1" using assms by (cases "server_unlink_conn a s") (auto simp: conn_destroy_def)
  have "represents s' D = represents s1 D"
    using assms s1 by (auto simp: conn_destroy_def slab_free_def represents_def Let_def split: option.splits prod.splits bind_splits)
  then show ?thesis using unlink_stores [OF s1] by simp
qed

lemma destroyed:
  assumes "kernel_ok os K" "server_inv K s xs" "a \<in> set xs"
  obtains s' where "conn_destroy os a s = Some s'" "server_inv K s' (remove1 a xs)" "\<And>D. represents s' D = represents s D"
  using conn_destroy_ok [OF assms] destroy_stores by blast

text \<open>All nodes of a command come back.\<close>

lemma node_count: "length ns \<le> size (list_addrs ns)"
proof (induction ns)
  case (Cons n ns)
  then show ?case by (cases n) (simp add: node_addrs_list)
qed simp

lemma release_ready:
  assumes "ready k s c" "rv_type cmd = RESP_TYPE_ARRAY"
  shows "ready (k + length (rv_array cmd)) (s\<lparr>sv_conns := cs\<rparr>) (release_cmd cmd c)"
proof -
  have "length (np_free (resp__node_list_release (p_pool (cn_parser c)) (rv_array cmd))) = length (np_free (p_pool (cn_parser c))) + size (list_addrs (rv_array cmd))"
    using arg_cong [OF list_release_addrs(1), of size] by simp
  then show ?thesis using assms node_count [of "rv_array cmd"] by (auto simp: ready_def release_cmd_def resp_value_release_def)
qed

lemma quit_request:
  assumes K: "kernel_ok os K" and I: "server_inv K s xs" and a: "a \<in> set xs" and c: "sv_conns s a = Some c" and cmd: "is_request c req cmd" and q: "quits req"
  shows "\<exists>s'. server_handle_command os a cmd s = Some (1, s') \<and> server_inv K s' (remove1 a xs) \<and> (\<forall>D. represents s' D = represents s D)"
proof -
  obtain name args entry where req: "req = name # args" "find_command name = Some (entry, QUIT)"
    using q by (auto simp: quits_def split: list.splits)
  have b: "rv_type cmd = RESP_TYPE_ARRAY" "cmd_bulk (p_buf (cn_parser c)) cmd 0 = Some name" using cmd req(1) by (auto simp: is_request_def)
  obtain mt where mt: "zedis_metrics_record_command entry s = s\<lparr>sv_metrics := mt\<rparr>" using metrics_only by blast
  obtain s' where s': "conn_destroy os a (s\<lparr>sv_metrics := mt\<rparr>) = Some s'" "server_inv K s' (remove1 a xs)"
      "\<And>D. represents s' D = represents (s\<lparr>sv_metrics := mt\<rparr>) D"
    using destroyed [OF K stores_updates(6) [OF I] a] by metis
  then show ?thesis using handle_known [OF c b req(2), of os] mt by (simp add: quit_command_def)
qed

text \<open>After a handler that did not destroy the connection: the command's nodes are released, and the dispatcher closes the
  connection or goes on.\<close>

lemma after_handler:
  assumes K: "kernel_ok os K" and a: "a \<in> set xs" and I2: "server_inv K s2 xs" and c2: "sv_conns s2 a = Some c2" and R2: "represents s2 D"
    and cmd: "rv_type cmd = RESP_TYPE_ARRAY" "ready k s2 c2"
    and X: "server_dispatch_commands os a s =
         do {
           c \<leftarrow> sv_conns s2 a;
           s \<leftarrow> upd_conn a (release_cmd cmd) s2;
           if cn_closed c then do { s \<leftarrow> conn_destroy os a s; Some (1, s) } else server_dispatch_commands os a s
         }"
  shows "if cn_closed c2 then \<exists>s'. server_dispatch_commands os a s = Some (1, s') \<and> server_inv K s' (remove1 a xs) \<and> represents s' D
    else \<exists>s'. server_dispatch_commands os a s = server_dispatch_commands os a s' \<and>
      listening K xs a (unread (cn_parser c2)) (k + length (rv_array cmd)) D s' \<and> emits os a [] s2 s'"
proof -
  let ?s3 = "s2\<lparr>sv_conns := (sv_conns s2)(a \<mapsto> release_cmd cmd c2)\<rparr>"
  have wf: "conn_wf c2" using I2 c2 by (auto simp: server_inv_def conns_ok_def)
  note R = released_ok [OF I2 c2 wf, where cmd = cmd]
  obtain s' where s': "conn_destroy os a ?s3 = Some s'" "server_inv K s' (remove1 a xs)" "represents s' D"
    using destroyed [OF K R(1) a] R2 by (metis represents_conns(1))
  have "listening K xs a (unread (cn_parser c2)) (k + length (rv_array cmd)) D ?s3" if "\<not> cn_closed c2"
    using R(1,3,6) a R2 release_ready [OF cmd(2,1)] that by (simp add: listening_def)
  then show ?thesis using X c2 R(7) s' outputs_emits [OF R(2), of os] by auto
qed

lemma one_answer:
  assumes K: "kernel_ok os K" and L: "listening K xs a (request req @ rest) n D s" and t: "talks n req"
  shows "\<exists>D' t. (D', t) \<in> request_outcomes req D \<and>
    ((\<exists>s'. server_dispatch_commands os a s = Some (1, s') \<and> server_inv K s' (remove1 a xs) \<and> represents s' D') \<or>
     (\<not> quits req \<and> (\<exists>s'. server_dispatch_commands os a s = server_dispatch_commands os a s' \<and> listening K xs a rest n D' s' \<and> emits os a t s s')))"
proof -
  obtain c where I: "server_inv K s xs" "a \<in> set xs" "represents s D" and c: "sv_conns s a = Some c" "\<not> cn_closed c"
      "unread (cn_parser c) = request req @ rest" "ready n s c" using L by (auto simp: listening_def)
  have ok: "length req < 2 ^ 63" "\<forall>x \<in> set req. length x < 2 ^ 63" and n: "n = length req + (n - length req)" using t by (simp_all add: talks_def)
  obtain p cmd where p: "server_inv K (parsed a c p s) xs" "unread p = rest" "parser_wf p" "ready (n - length req) (parsed a c p s) (c\<lparr>cn_parser := p\<rparr>)"
    and cmd: "is_request (c\<lparr>cn_parser := p\<rparr>) req cmd"
    and X: "server_dispatch_commands os a s =
       do {
         (closed, s) \<leftarrow> server_handle_command os a cmd (parsed a c p s);
         if closed \<noteq> 0 then Some (1, s)
         else do {
           c \<leftarrow> sv_conns s a;
           s \<leftarrow> upd_conn a (release_cmd cmd) s;
           if cn_closed c then do { s \<leftarrow> conn_destroy os a s; Some (1, s) } else server_dispatch_commands os a s
         }
       }"
    by (rule dispatch_request [OF I(1,2) c(1,3) ok, where os = os and k = "n - length req"]) (use c(4) n in simp_all)
  let ?s = "parsed a c p s" and ?c = "c\<lparr>cn_parser := p\<rparr>"
  have s1: "sv_conns ?s a = Some ?c" "represents ?s D" "sv_world ?s = sv_world s"
    using I(3) by (simp_all add: parsed_def put_pool_def represents_def split: option.split)
  have e1: "emits os a [] s ?s" by (rule emits_nil [OF c(1) s1(1) _ _ s1(3)]) (simp_all add: pending_def)
  have A: "attends os a ?c ?s" using kernel_calls(1,2) [OF K] s1(1) p(1) c(2) by (auto simp: attends_def server_inv_def conns_ok_def)
  show ?thesis
  proof (cases "quits req")
    case True
    obtain s' where "server_handle_command os a cmd ?s = Some (1, s')" "server_inv K s' (remove1 a xs)" "represents s' D"
      using quit_request [OF K p(1) I(2) s1(1) cmd True] s1(2) by blast
    moreover have "(D, []) \<in> request_outcomes req D" using True by (auto simp: quits_def request_outcomes_def split: list.splits)
    ultimately show ?thesis using X by auto
  next
    case False
    then have "answered req" using t by (simp add: talks_def)
    from handle_answers [OF A s1(2) cmd this] obtain D' t s2 c2 where h: "(D', t) \<in> request_outcomes req D"
        "server_handle_command os a cmd ?s = Some (0, s2)" "represents s2 D'" "sv_malloc s2 = sv_malloc ?s" "sv_conns s2 a = Some c2"
        "cn_closed c2 \<or> emits os a t ?s s2"
      by (auto simp: answers_def)
    have I2: "server_inv K s2 xs" "cn_parser c2 = p"
      using handle_command_ok [OF K p(1) I(2), of cmd] h(2,5) s1(1) by (auto simp: safe_def same_parsers_def dest: spec [of _ a])
    have r: "ready (n - length req) s2 c2" "rv_type cmd = RESP_TYPE_ARRAY" "n - length req + length (rv_array cmd) = n"
      using p(4) h(4) I2(2) cmd n by (simp_all add: ready_def is_request_def)
    have "server_dispatch_commands os a s =
         do {
           c \<leftarrow> sv_conns s2 a;
           s \<leftarrow> upd_conn a (release_cmd cmd) s2;
           if cn_closed c then do { s \<leftarrow> conn_destroy os a s; Some (1, s) } else server_dispatch_commands os a s
         }"
      using X h(2) by simp
    note C = after_handler [OF K I(2) I2(1) h(5,3) r(2,1) this, unfolded r(3) I2(2) p(2)]
    have e: "emits os a t s s'" if "\<not> cn_closed c2" "emits os a [] s2 s'" for s'
      using emits_trans [OF e1 emits_trans [of os a t ?s s2 "[]" s']] h(6) that by simp
    show ?thesis
    proof (cases "cn_closed c2")
      case True
      then show ?thesis using C h(1) by (simp only: if_True) blast
    next
      case closed: False
      then show ?thesis using C h(1) False e [OF closed] by (simp only: if_False) blast
    qed
  qed
qed

lemma listening_idle:
  assumes L: "listening K xs a rest n D s" and u: "unfinished n rest"
  shows "\<exists>s'. server_dispatch_commands os a s = Some (0, s') \<and> listening K xs a rest n D s' \<and> emits os a [] s s'"
proof -
  obtain c where I: "server_inv K s xs" "represents s D" "a \<in> set xs" and c: "sv_conns s a = Some c" "unread (cn_parser c) = rest" "ready n s c" "\<not> cn_closed c"
    using L by (auto simp: listening_def)
  let ?q = "with_pool s (cn_parser c)"
  have wf: "parser_wf ?q" using I(1) c(1) by (auto simp: server_inv_def conns_ok_def conn_wf_def)
  have "pool_ready n (p_pool ?q)" using c(3) by (simp add: pool_ready_def ready_def with_pool_def)
  then obtain p v where n: "resp_parser_next ?q = Some (RESP_NEED_MORE, p, v)" "parser_wf p" "unread p = rest" "pool_ready n (p_pool p)"
    using next_unfinished [OF wf, of n] u c(2) by auto
  obtain sl h where sl: "np_slab (p_pool p) = Some (sl, h)" using next_keeps_slab [OF wf n(1)] by (auto simp: with_pool_def)
  have s1: "sv_conns (parsed a c p s) a = Some (c\<lparr>cn_parser := p\<rparr>)" "represents (parsed a c p s) D" "sv_world (parsed a c p s) = sv_world s"
    using I(2) by (simp_all add: parsed_def put_pool_def represents_def split: option.split)
  have "server_inv K (parsed a c p s) xs" using next_step [OF I(1) c(1)] n(1) by (simp add: parsed_def)
  moreover have "ready n (parsed a c p s) (c\<lparr>cn_parser := p\<rparr>)" using n(4) sl by (simp add: ready_def pool_ready_def parsed_def put_pool_def)
  ultimately have "listening K xs a rest n D (parsed a c p s)" using s1 I(3) n(3) c(4) by (simp add: listening_def)
  moreover have "server_dispatch_commands os a s = Some (0, parsed a c p s)"
    using c(1) n(1) by (subst server_dispatch_commands.simps) (simp add: upd_conn_def parsed_def)
  moreover have "emits os a [] s (parsed a c p s)" by (rule emits_nil [OF c(1) s1(1) _ _ s1(3)]) (simp_all add: pending_def)
  ultimately show ?thesis by blast
qed

section \<open>All requests\<close>

lemma dispatch_session:
  assumes K: "kernel_ok os K" and L: "listening K xs a (concat (map request reqs) @ rest) n D s" and T: "\<forall>req \<in> set reqs. talks n req" and U: "unfinished n rest"
  shows "\<exists>rc s' k t D'. server_dispatch_commands os a s = Some (rc, s') \<and> k \<le> length reqs \<and> session D (take k reqs) t D' \<and> represents s' D' \<and>
    (rc = 1 \<and> 0 < k \<and> server_inv K s' (remove1 a xs) \<or>
     rc = 0 \<and> k = length reqs \<and> \<not> list_ex quits reqs \<and> listening K xs a rest n D' s' \<and> emits os a t s s')"
  using L T
proof (induction reqs arbitrary: D s)
  case Nil
  then obtain s' where "server_dispatch_commands os a s = Some (0, s')" "listening K xs a rest n D s'" "emits os a [] s s'"
    using listening_idle [OF _ U, of K xs a D s os] by auto
  moreover have "represents s' D" using \<open>listening K xs a rest n D s'\<close> by (simp add: listening_def)
  ultimately show ?case using session_end by fastforce
next
  case (Cons req reqs)
  let ?rest = "concat (map request reqs) @ rest"
  obtain D1 t where 1: "(D1, t) \<in> request_outcomes req D" and C:
    "(\<exists>s'. server_dispatch_commands os a s = Some (1, s') \<and> server_inv K s' (remove1 a xs) \<and> represents s' D1) \<or>
     (\<not> quits req \<and> (\<exists>s'. server_dispatch_commands os a s = server_dispatch_commands os a s' \<and> listening K xs a ?rest n D1 s' \<and> emits os a t s s'))"
    using one_answer [OF K, of xs a req ?rest n D s] Cons.prems by auto
  from C show ?case
  proof
    assume "\<exists>s'. server_dispatch_commands os a s = Some (1, s') \<and> server_inv K s' (remove1 a xs) \<and> represents s' D1"
    then obtain s' where "server_dispatch_commands os a s = Some (1, s')" "server_inv K s' (remove1 a xs)" "represents s' D1" by blast
    moreover have "session D (take 1 (req # reqs)) t D1" using 1 by (auto simp: session_simps)
    ultimately show ?thesis by (intro exI [of _ 1] exI [of _ s'] exI [of _ "1 :: nat"] exI [of _ t] exI [of _ D1]) simp
  next
    assume "\<not> quits req \<and> (\<exists>s'. server_dispatch_commands os a s = server_dispatch_commands os a s' \<and> listening K xs a ?rest n D1 s' \<and> emits os a t s s')"
    then obtain s1 where s1: "\<not> quits req" "server_dispatch_commands os a s = server_dispatch_commands os a s1"
        "listening K xs a ?rest n D1 s1" "emits os a t s s1" by blast
    obtain rc s' k u D' where r: "server_dispatch_commands os a s1 = Some (rc, s')" "k \<le> length reqs" "session D1 (take k reqs) u D'" "represents s' D'"
        "rc = 1 \<and> 0 < k \<and> server_inv K s' (remove1 a xs) \<or>
         rc = 0 \<and> k = length reqs \<and> \<not> list_ex quits reqs \<and> listening K xs a rest n D' s' \<and> emits os a u s1 s'"
      using Cons.IH [OF s1(3)] Cons.prems(2) by auto
    have "session D (take (Suc k) (req # reqs)) (t @ u) D'" using 1 s1(1) r(3) by (auto intro: session_request)
    then show ?thesis using s1(1,2) r emits_trans [OF s1(4), of u s']
      by (intro exI [of _ rc] exI [of _ s'] exI [of _ "Suc k"] exI [of _ "t @ u"] exI [of _ D']) auto
  qed
qed

section \<open>Property\<close>


end
