(* ===== verification/Server_Client.thy ===== *)
theory Server_Client
  imports Server_Session Server_Loop
begin

text \<open>
  A client's stream of requests through \<^verbatim>\<open>conn_on_readable\<close>: however the reads cut it into pieces, all requests that have
  arrived are executed and answered.
\<close>

section \<open>The client\<close>

text \<open>\<open>left w\<close> is what the client sent and the server has not read: the socket is a stream, which delivers these bytes in order,
  reports \<open>EAGAIN\<close> only when there are none, and is not affected by writes and by changes of the interest list.\<close>

definition stream_socket :: "'w os \<Rightarrow> int \<Rightarrow> ('w \<Rightarrow> string) \<Rightarrow> bool" where
  "stream_socket os fd left \<longleftrightarrow>
     (\<forall>w n bs w'. os_read os w fd n = (ReadBytes bs, w') \<longrightarrow> left w = bs @ left w') \<and>
     (\<forall>w n w'. os_read os w fd n = (ReadAgain, w') \<longrightarrow> left w = [] \<and> left w' = []) \<and>
     (\<forall>w fd' data. left (snd (os_write os w fd' data)) = left w) \<and>
     (\<forall>w op fd' ev. left (snd (os_epoll_ctl os w op fd' ev)) = left w)"

lemma sends_left: "sends os fd w bs w' \<Longrightarrow> stream_socket os fd left \<Longrightarrow> left w' = left w"
proof (induction rule: sends.induct)
  case (sends_write w data n w1 bs w2)
  then show ?case by (metis snd_conv stream_socket_def)
next
  case (sends_fail w data r w1 bs w2)
  then show ?case by (metis snd_conv stream_socket_def)
next
  case (sends_ctl w fd' ev rc w1 bs w2)
  then show ?case by (metis snd_conv stream_socket_def)
qed simp

text \<open>Reads and writes on the socket, in any order; \<open>bs\<close> was written.\<close>

inductive exchange :: "'w os \<Rightarrow> int \<Rightarrow> 'w \<Rightarrow> string \<Rightarrow> 'w \<Rightarrow> bool" for os fd where
  exchange_none: "exchange os fd w [] w"
| exchange_read: "os_read os w fd n = (r, w1) \<Longrightarrow> exchange os fd w1 bs w2 \<Longrightarrow> exchange os fd w bs w2"
| exchange_sends: "sends os fd w bs w1 \<Longrightarrow> exchange os fd w1 cs w2 \<Longrightarrow> exchange os fd w (bs @ cs) w2"

definition serves :: "'w os \<Rightarrow> addr \<Rightarrow> string \<Rightarrow> 'w zedis_server \<Rightarrow> 'w zedis_server \<Rightarrow> bool" where
  "serves os a t s s' \<longleftrightarrow> (\<exists>c c' bs. sv_conns s a = Some c \<and> sv_conns s' a = Some c' \<and> cn_fd c' = cn_fd c \<and>
     exchange os (cn_fd c) (sv_world s) bs (sv_world s') \<and> bs @ pending c' = pending c @ t)"

text \<open>One read and the replies to what it brought.\<close>

lemma serves_step:
  assumes c: "sv_conns s a = Some c" and r: "os_read os (sv_world s) (cn_fd c) n = (r, w)"
    and s1: "sv_world s1 = w" "sv_conns s1 a = Some c1" "cn_fd c1 = cn_fd c" "pending c1 = pending c"
    and e: "emits os a t s1 s2" and v: "serves os a u s2 s3"
  shows "serves os a (t @ u) s s3"
proof -
  obtain c2 bs where 2: "sv_conns s2 a = Some c2" "cn_fd c2 = cn_fd c" "sends os (cn_fd c) w bs (sv_world s2)" "bs @ pending c2 = pending c @ t"
    using e s1 by (auto simp: emits_def)
  obtain c3 cs where 3: "sv_conns s3 a = Some c3" "cn_fd c3 = cn_fd c" "exchange os (cn_fd c) (sv_world s2) cs (sv_world s3)" "cs @ pending c3 = pending c2 @ u"
    using v 2(1,2) by (auto simp: serves_def)
  have "exchange os (cn_fd c) (sv_world s) (bs @ cs) (sv_world s3)" by (rule exchange_read [OF r exchange_sends [OF 2(3) 3(3)]])
  moreover have "(bs @ cs) @ pending c3 = pending c @ t @ u" using 2(4) 3(4) by (metis append.assoc)
  ultimately show ?thesis using c 3(1,2) unfolding serves_def by metis
qed

section \<open>Pieces of a stream\<close>

lemma session_append:
  "session D r1 t D1 \<Longrightarrow> \<not> list_ex quits r1 \<Longrightarrow> session D1 r2 u D2 \<Longrightarrow> session D (r1 @ r2) (t @ u) D2"
  by (induction rule: session.induct) (auto intro: session_request)

text \<open>What has arrived is a number of requests and a piece of the next; \<open>y\<close> is to come.\<close>

lemma stream_split:
  assumes "x @ y = concat (map request reqs) @ rest"
  shows "\<exists>j x'. j \<le> length reqs \<and> x = concat (map request (take j reqs)) @ x' \<and> x' @ y = concat (map request (drop j reqs)) @ rest \<and>
    (drop j reqs = [] \<or> length x' < length (request (hd (drop j reqs))))"
  using assms
proof (induction reqs arbitrary: x)
  case Nil
  then show ?case by auto
next
  case (Cons req reqs)
  show ?case
  proof (cases "length x < length (request req)")
    case True
    then show ?thesis using Cons.prems by (intro exI [of _ 0] exI [of _ x]) simp
  next
    case False
    then have "take (length (request req)) x = request req" using arg_cong [OF Cons.prems, of "take (length (request req))"] by simp
    then obtain z where z: "x = request req @ z" "z @ y = concat (map request reqs) @ rest" using Cons.prems by (metis append_take_drop_id append.assoc concat.simps(2) list.simps(9) same_append_eq)
    from Cons.IH [OF z(2)] obtain j x' where "j \<le> length reqs" "z = concat (map request (take j reqs)) @ x'"
        "x' @ y = concat (map request (drop j reqs)) @ rest" "drop j reqs = [] \<or> length x' < length (request (hd (drop j reqs)))" by blast
    then show ?thesis using z(1) by (intro exI [of _ "Suc j"] exI [of _ x']) simp
  qed
qed

lemma piece_unfinished:
  assumes "x @ y = concat (map request reqs) @ rest" "reqs = [] \<or> length x < length (request (hd reqs))" "\<forall>req \<in> set reqs. talks n req" "unfinished n rest"
  shows "unfinished n x"
proof (cases reqs)
  case Nil
  then show ?thesis using assms(1,4) unfinished_prefix [of n x y] by simp
next
  case (Cons req reqs')
  then have l: "length x < length (request req)" "x @ y = request req @ concat (map request reqs') @ rest" using assms(1,2) by simp_all
  then obtain v where v: "x @ v = request req" by (auto simp: append_eq_append_conv2)
  then have "v \<noteq> []" using l(1) by auto
  then show ?thesis using v assms(3) Cons by (auto simp: unfinished_def)
qed

section \<open>Reading\<close>

lemma store_input_unread:
  assumes "conn_wf c" "length bs \<le> resp_parser_space (cn_parser c)"
  shows "unread (cn_parser (store_input bs c)) = unread (cn_parser c) @ bs"
  using assms by (auto simp: conn_wf_def store_input_def parser_wf_def resp_parser_commit_def resp_parser_write_ptr_def resp_parser_space_def
      unread_def slice_def write_at_def drop_take)

text \<open>What is left to do for the connection when \<open>u\<close> is in its buffer.\<close>

definition awaits :: "'w os \<Rightarrow> 'w kernel \<Rightarrow> addr list \<Rightarrow> addr \<Rightarrow> int \<Rightarrow> ('w \<Rightarrow> string) \<Rightarrow> nat \<Rightarrow> string list list \<Rightarrow> string \<Rightarrow> db \<Rightarrow> 'w zedis_server \<Rightarrow> bool" where
  "awaits os K xs a fd left n reqs rest D s \<longleftrightarrow>
     (\<exists>u c. listening K xs a u n D s \<and> sv_conns s a = Some c \<and> cn_fd c = fd \<and> u @ left (sv_world s) = concat (map request reqs) @ rest \<and>
        (reqs = [] \<or> length u < length (request (hd reqs))))"

definition answered_all :: "'w os \<Rightarrow> 'w kernel \<Rightarrow> addr list \<Rightarrow> addr \<Rightarrow> nat \<Rightarrow> string list list \<Rightarrow> string \<Rightarrow> db \<Rightarrow> 'w zedis_server \<Rightarrow> 'w zedis_server option \<Rightarrow> bool" where
  "answered_all os K xs a n reqs rest D s r \<longleftrightarrow>
     (\<exists>s' k t D'. r = Some s' \<and> k \<le> length reqs \<and> session D (take k reqs) t D' \<and> represents s' D' \<and>
        (server_inv K s' (remove1 a xs) \<or>
         k = length reqs \<and> \<not> list_ex quits reqs \<and> listening K xs a rest n D' s' \<and> serves os a t s s'))"

lemma answered_gone:
  assumes "kernel_ok os K" "server_inv K s1 xs" "a \<in> set xs" "represents s1 D"
  shows "answered_all os K xs a n reqs rest D s (conn_destroy os a s1)"
proof -
  obtain s' where "conn_destroy os a s1 = Some s'" "server_inv K s' (remove1 a xs)" "\<And>D. represents s' D = represents s1 D"
    using destroyed [OF assms(1-3)] by metis
  then show ?thesis unfolding answered_all_def using assms(4) session_end by (intro exI [of _ s'] exI [of _ 0] exI [of _ "[]"] exI [of _ D]) simp
qed

text \<open>Some bytes were read: the requests they complete are executed, and reading goes on.\<close>

lemma answered_more:
  assumes c: "sv_conns s a = Some c" "os_read os (sv_world s) (cn_fd c) m = (r, w)"
    and s1: "sv_world s1 = w" "sv_conns s1 a = Some c1" "cn_fd c1 = cn_fd c" "pending c1 = pending c"
    and d: "session D (take j reqs) t D1" "\<not> list_ex quits (take j reqs)" "emits os a t s1 s2" and j: "j \<le> length reqs"
    and A: "answered_all os K xs a n (drop j reqs) rest D1 s2 res"
  shows "answered_all os K xs a n reqs rest D s res"
proof -
  obtain s' k u D' where r: "res = Some s'" "k \<le> length (drop j reqs)" "session D1 (take k (drop j reqs)) u D'" "represents s' D'"
      "server_inv K s' (remove1 a xs) \<or>
        k = length (drop j reqs) \<and> \<not> list_ex quits (drop j reqs) \<and> listening K xs a rest n D' s' \<and> serves os a u s2 s'"
    using A by (auto simp: answered_all_def)
  have "session D (take (j + k) reqs) (t @ u) D'" using session_append [OF d(1,2) r(3)] by (simp add: take_add)
  moreover have "list_ex quits reqs \<longleftrightarrow> list_ex quits (take j reqs) \<or> list_ex quits (drop j reqs)" by (metis append_take_drop_id list_ex_append)
  moreover have "serves os a (t @ u) s s'" if "serves os a u s2 s'" by (rule serves_step [OF c s1 d(3) that])
  ultimately show ?thesis unfolding answered_all_def using r d(2) j
    by (intro exI [of _ s'] exI [of _ "j + k"] exI [of _ "t @ u"] exI [of _ D']) auto
qed

lemma bytes_session:
  assumes K: "kernel_ok os K" and P: "stream_socket os fd left" and L: "listening K xs a u n D s" and c: "sv_conns s a = Some c" "cn_fd c = fd"
    and st: "u @ left (sv_world s) = concat (map request reqs) @ rest" and T: "\<forall>req \<in> set reqs. talks n req" and U: "unfinished n rest"
    and r: "os_read os (sv_world s) fd (resp_parser_space (cn_parser c)) = (ReadBytes bs, w)" "bs \<noteq> []"
    and IH: "\<And>s' reqs' D'. k_input K (sv_world s') < k_input K (sv_world s) \<Longrightarrow> awaits os K xs a fd left n reqs' rest D' s' \<Longrightarrow>
      \<forall>req \<in> set reqs'. talks n req \<Longrightarrow> answered_all os K xs a n reqs' rest D' s' (conn_on_readable os a s')"
  defines "s1 \<equiv> s\<lparr>sv_world := w, sv_conns := (sv_conns s)(a \<mapsto> store_input bs c)\<rparr>"
  shows "answered_all os K xs a n reqs rest D s (do { (rc, s) \<leftarrow> server_dispatch_commands os a s1; if rc = 1 then Some s else conn_on_readable os a s })"
proof -
  have I: "server_inv K s xs" "a \<in> set xs" "represents s D" "conn_wf c" "\<not> cn_closed c" "unread (cn_parser c) = u" "ready n s c"
    using L c(1) by (auto simp: listening_def server_inv_def conns_ok_def)
  have bs: "length bs \<le> resp_parser_space (cn_parser c)" "k_input K w < k_input K (sv_world s)" using kernel_tables(6) [OF K r(1)] r(2) by auto
  have left: "left (sv_world s) = bs @ left w" using P r(1) unfolding stream_socket_def by blast
  let ?c = "store_input bs c"
  have c1: "sv_conns s1 a = Some ?c" "cn_fd ?c = cn_fd c" "pending ?c = pending c" "sv_world s1 = w" "\<not> cn_closed ?c" "ready n s1 ?c" "represents s1 D"
    using I(3,5,7) by (simp_all add: s1_def store_input_def pending_def ready_def represents_def resp_parser_commit_def)
  have I1: "server_inv K s1 xs" unfolding s1_def
    using inv_upd [OF inv_undisturbed [OF I(1) kernel_calls(6) [OF K r(1)]], of a c ?c] c(1) store_input_ok [OF I(4) bs(1)] by (simp add: store_input_def)
  have L1: "listening K xs a (u @ bs) n D s1" using c1 I1 I(2,6) store_input_unread [OF I(4) bs(1)] by (simp add: listening_def)
  obtain j x where j: "j \<le> length reqs" "u @ bs = concat (map request (take j reqs)) @ x" "x @ left w = concat (map request (drop j reqs)) @ rest"
      "drop j reqs = [] \<or> length x < length (request (hd (drop j reqs)))"
    using stream_split [of "u @ bs" "left w" reqs rest] st left by (simp only: append.assoc) blast
  have T': "\<forall>req \<in> set (take j reqs). talks n req" "\<forall>req \<in> set (drop j reqs). talks n req" using T by (auto dest: in_set_takeD in_set_dropD)
  have "unfinished n x" by (rule piece_unfinished [OF j(3,4) T'(2) U])
  from dispatch_session [OF K L1 [unfolded j(2)] T'(1) this] obtain rc s2 k t D1 where
      d: "server_dispatch_commands os a s1 = Some (rc, s2)" "k \<le> length (take j reqs)" "session D (take k (take j reqs)) t D1" "represents s2 D1"
      "rc = 1 \<and> 0 < k \<and> server_inv K s2 (remove1 a xs) \<or>
       rc = 0 \<and> k = length (take j reqs) \<and> \<not> list_ex quits (take j reqs) \<and> listening K xs a x n D1 s2 \<and> emits os a t s1 s2"
    by blast
  show ?thesis
  proof (cases "rc = 1")
    case True
    then show ?thesis using d j(1) by (auto simp: answered_all_def intro!: exI [of _ k])
  next
    case False
    then have e: "listening K xs a x n D1 s2" "emits os a t s1 s2" "\<not> list_ex quits (take j reqs)" "session D (take j reqs) t D1" using d(3,5) j(1) by (auto simp: min_absorb2)
    obtain c2 bs' where c2: "sv_conns s2 a = Some c2" "cn_fd c2 = fd" "sends os fd w bs' (sv_world s2)"
      using e(2) c1(1,2,4) c(2) by (auto simp: emits_def)
    have "k_input K (sv_world s2) < k_input K (sv_world s)" using dispatch_ok [OF K I1 I(2)] d(1) bs(2) c1(4) by auto
    moreover have "awaits os K xs a fd left n (drop j reqs) rest D1 s2"
      unfolding awaits_def using e(1) c2(1,2) sends_left [OF c2(3) P] j(3,4) by auto
    ultimately have "answered_all os K xs a n (drop j reqs) rest D1 s2 (conn_on_readable os a s2)" using IH T'(2) by blast
    from answered_more [OF c(1) r(1) [folded c(2)] c1(4,1,2,3) e(4,3,2) j(1) this] show ?thesis using d(1) False by simp
  qed
qed

lemma readable_session:
  assumes K: "kernel_ok os K" and P: "stream_socket os fd left" and "awaits os K xs a fd left n reqs rest D s"
    and "\<forall>req \<in> set reqs. talks n req" and U: "unfinished n rest"
  shows "answered_all os K xs a n reqs rest D s (conn_on_readable os a s)"
  using assms(3,4)
proof (induction "k_input K (sv_world s)" arbitrary: s reqs D rule: less_induct)
  case less
  obtain u c where u: "listening K xs a u n D s" and c: "sv_conns s a = Some c" "cn_fd c = fd"
    and st: "u @ left (sv_world s) = concat (map request reqs) @ rest" "reqs = [] \<or> length u < length (request (hd reqs))"
    using less.prems(1) by (auto simp: awaits_def)
  have I: "server_inv K s xs" "a \<in> set xs" "represents s D" "conn_wf c" "\<not> cn_closed c" "unread (cn_parser c) = u" "ready n s c"
    using u c(1) by (auto simp: listening_def server_inv_def conns_ok_def)
  let ?sp = "resp_parser_space (cn_parser c)"
  obtain r w where r: "os_read os (sv_world s) fd ?sp = (r, w)" by (metis surj_pair)
  have un: "undisturbed K (sv_world s) w" by (rule kernel_calls(6) [OF K r])
  have I1: "server_inv K (s\<lparr>sv_world := w\<rparr>) xs" by (rule inv_undisturbed [OF I(1) un])
  have R1: "represents (s\<lparr>sv_world := w\<rparr>) D" using I(3) by (simp add: represents_def)
  note unf = conn_on_readable.simps [of os a s] c r upd_conn_def
  note gone = answered_gone [OF K I1 I(2) R1, of n reqs rest s]
  show ?case
  proof (cases "?sp = 0")
    case True
    then show ?thesis using answered_gone [OF K I(1-3)] by (simp add: unf)
  next
    case sp: False
    show ?thesis
    proof (cases r)
      case (ReadBytes bs)
      show ?thesis
      proof (cases "bs = []")
        case True
        then show ?thesis using gone sp ReadBytes by (simp add: unf)
      next
        case False
        have eq: "conn_on_readable os a s = do {
            (rc, s) \<leftarrow> server_dispatch_commands os a (s\<lparr>sv_world := w, sv_conns := (sv_conns s)(a \<mapsto> store_input bs c)\<rparr>);
            if rc = 1 then Some s else conn_on_readable os a s }"
          using sp ReadBytes False by (simp add: unf)
        show ?thesis by (subst eq) (rule bytes_session [OF K P u c st(1) less.prems(2) U r [unfolded ReadBytes] False less.hyps])
      qed
    next
      case ReadAgain
      have l: "left (sv_world s) = []" using P r ReadAgain unfolding stream_socket_def by blast
      then have "reqs = []" "u = rest" using st by (cases reqs; auto)+
      moreover have "listening K xs a rest n D (s\<lparr>sv_world := w\<rparr>)" using I I1 R1 c(1) \<open>u = rest\<close> by (simp add: listening_def ready_def)
      moreover have "serves os a [] s (s\<lparr>sv_world := w\<rparr>)"
        using c exchange_read [OF r exchange_none] by (auto simp: serves_def)
      moreover have "conn_on_readable os a s = Some (s\<lparr>sv_world := w\<rparr>)" using sp ReadAgain by (simp add: unf)
      ultimately show ?thesis using R1 session_end unfolding answered_all_def
        by (intro exI [of _ "s\<lparr>sv_world := w\<rparr>"] exI [of _ 0] exI [of _ "[]"] exI [of _ D]) simp
    next
      case ReadError
      then show ?thesis using sp gone by (simp add: unf)
    qed
  qed
qed

section \<open>Property\<close>


end
