(* ===== verification/Demo_System.thy ===== *)
theory Demo_System
  imports Zedis_Main Server_PubSub Server_Client
begin

text \<open>
  A small operating system and a server on it. They show that what the theorems about the server assume of the
  system calls can hold together, and the theorems are applied to them.
\<close>

section \<open>An operating system\<close>

text \<open>Every write is taken whole and every wait reports all watched descriptors. The signal arrives while a message is
  printed on the standard error stream.\<close>

record demo_world =
  d_open :: "int list"
  d_watched :: "int list"
  d_waiting :: nat
  d_input :: string
  d_output :: string
  d_signal :: int
  d_disposition :: "int \<Rightarrow> disposition"
  d_files :: "string \<Rightarrow> string option"
  d_streams :: "int \<Rightarrow> (string \<times> string) option"

definition fresh_fd :: "demo_world \<Rightarrow> int" where "fresh_fd w = foldr max (d_open w) 2 + 1"

definition demo_open :: "demo_world \<Rightarrow> int \<times> demo_world" where
  "demo_open w = (fresh_fd w, w\<lparr>d_open := fresh_fd w # d_open w\<rparr>)"

definition demo_close :: "demo_world \<Rightarrow> int \<Rightarrow> demo_world" where
  "demo_close w fd = w\<lparr>d_open := removeAll fd (d_open w), d_watched := removeAll fd (d_watched w)\<rparr>"

definition demo_ctl :: "demo_world \<Rightarrow> epoll_op \<Rightarrow> int \<Rightarrow> nat \<Rightarrow> int \<times> demo_world" where
  "demo_ctl w op fd ev =
     (case op of
        EPOLL_CTL_ADD \<Rightarrow> (0, w\<lparr>d_watched := fd # d_watched w\<rparr>)
      | EPOLL_CTL_MOD \<Rightarrow> (if fd \<in> set (d_watched w) then 0 else -1, w)
      | EPOLL_CTL_DEL \<Rightarrow> (if fd \<in> set (d_watched w) then 0 else -1, w\<lparr>d_watched := removeAll fd (d_watched w)\<rparr>))"

definition demo_mkstemp :: "demo_world \<Rightarrow> string \<Rightarrow> (int \<times> string) \<times> demo_world" where
  "demo_mkstemp w template =
     (let p = take (length template - 6) template @ ''000000'' in
      if length template < 6 \<or> d_files w p \<noteq> None then ((-1, template), w)
      else ((fresh_fd w, p), w\<lparr>d_open := fresh_fd w # d_open w, d_files := (d_files w)(p \<mapsto> []), d_streams := (d_streams w)(fresh_fd w \<mapsto> (p, []))\<rparr>))"

definition demo_fprintf :: "demo_world \<Rightarrow> int \<Rightarrow> string \<Rightarrow> int \<times> demo_world" where
  "demo_fprintf w fd t =
     (case d_streams w fd of
        None \<Rightarrow> (-1, w)
      | Some (p, c) \<Rightarrow> (int (length t), w\<lparr>d_streams := (d_streams w)(fd \<mapsto> (p, c @ t))\<rparr>))"

definition demo_fclose :: "demo_world \<Rightarrow> int \<Rightarrow> int \<times> demo_world" where
  "demo_fclose w fd =
     (case d_streams w fd of
        None \<Rightarrow> (-1, demo_close w fd)
      | Some (p, c) \<Rightarrow> (0, (demo_close w fd)\<lparr>d_files := (d_files w)(p \<mapsto> c), d_streams := (d_streams w)(fd := None)\<rparr>))"

definition demo_os :: "demo_world os" where
  "demo_os =
     \<lparr>os_epoll_create = demo_open, os_epoll_ctl = demo_ctl,
      os_epoll_wait = (\<lambda>w t. (Ready (map (\<lambda>fd. (fd, EPOLLIN)) (d_watched w)), w)),
      os_signal = d_signal, os_set_signal = (\<lambda>w n. w\<lparr>d_signal := n\<rparr>),
      os_sigaction = (\<lambda>w s d. ((0, d_disposition w s), w\<lparr>d_disposition := (d_disposition w)(s := d)\<rparr>)),
      os_close = demo_close,
      os_read = (\<lambda>w fd n. if d_input w = [] then (ReadAgain, w) else (ReadBytes (take n (d_input w)), w\<lparr>d_input := drop n (d_input w)\<rparr>)),
      os_write = (\<lambda>w fd data. (WroteBytes (length data), w\<lparr>d_output := d_output w @ data\<rparr>)),
      os_socket = demo_open, os_setsockopt = (\<lambda>w fd. (0, w)), os_bind = (\<lambda>w fd port. (0, w)), os_listen = (\<lambda>w fd. (0, w)),
      os_accept = (\<lambda>w fd. if d_waiting w = 0 then (-1, w) else demo_open (w\<lparr>d_waiting := d_waiting w - 1\<rparr>)),
      os_getfl = (\<lambda>w fd. (0, w)), os_setfl = (\<lambda>w fd fl. (0, w)),
      os_malloc = (\<lambda>w n. (Some (replicate n NUL), w)), os_calloc = (\<lambda>w. (True, w)), os_memory = (\<lambda>w n. replicate n NUL),
      os_mmap = (\<lambda>w huge n. (if huge \<or> n > 2 ^ 40 then None else Some 4096, w)),
      os_open = (\<lambda>w path. demo_open w), os_ftruncate = (\<lambda>w fd n. (0, w)), os_map_log = (\<lambda>w fd n. (Some (\<lambda>_. NUL), w)),
      os_msync = (\<lambda>w n. w), os_munmap = (\<lambda>w n. w), os_clock = (\<lambda>w. (Some (7, 0), w)), os_mkstemp = demo_mkstemp,
      os_fchmod = (\<lambda>w fd. (0, w)), os_fdopen = (\<lambda>w fd. (True, w)), os_fprintf = demo_fprintf, os_fflush = (\<lambda>w fd. (0, w)),
      os_fsync = (\<lambda>w fd. (0, w)), os_fclose = demo_fclose,
      os_rename = (\<lambda>w p q. if d_files w p = None then (-1, w) else (0, w\<lparr>d_files := (d_files w)(q := d_files w p, p := None)\<rparr>)),
      os_unlink = (\<lambda>w p. w\<lparr>d_files := (d_files w)(p := None)\<rparr>),
      os_setaffinity = (\<lambda>w core. (0, w)), os_stderr = (\<lambda>w t. w\<lparr>d_signal := SIGTERM\<rparr>)\<rparr>"

definition demo_kernel :: "demo_world kernel" where
  "demo_kernel = \<lparr>k_watched = (\<lambda>w. set (d_watched w)), k_open = (\<lambda>w. set (d_open w)), k_input = (\<lambda>w. length (d_input w) + d_waiting w)\<rparr>"

definition demo_files :: "demo_world files" where
  "demo_files = \<lparr>f_files = d_files, f_stream = d_streams\<rparr>"

lemma fresh_fd_new: "fresh_fd w \<notin> set (d_open w)" "\<not> fresh_fd w < 0"
proof -
  have b: "x \<le> foldr max l (2 :: int)" if "x \<in> set l" for x l using that by (induction l) auto
  have "2 \<le> foldr max l (2 :: int)" for l by (induction l) auto
  then show "fresh_fd w \<notin> set (d_open w)" "\<not> fresh_fd w < 0" using b [of "fresh_fd w" "d_open w"] by (auto simp: fresh_fd_def) (smt (verit))
qed

lemma fresh_fd_waiting [simp]: "fresh_fd (w\<lparr>d_waiting := n\<rparr>) = fresh_fd w"
  by (simp add: fresh_fd_def)

lemmas demo_simps = demo_os_def demo_kernel_def demo_files_def demo_open_def demo_close_def demo_ctl_def demo_mkstemp_def
  demo_fprintf_def demo_fclose_def undisturbed_def touches_def Let_def

lemma demo_kernel_ok: "kernel_ok demo_os demo_kernel"
  unfolding kernel_ok_def write_progress_def memory_sized_def
  by (intro conjI allI impI) (auto simp: demo_simps fresh_fd_new split: if_splits)

lemma demo_stdio_ok: "stdio_ok demo_os demo_kernel"
  unfolding stdio_ok_def
  by (intro conjI allI impI) (auto simp: demo_simps fresh_fd_new split: if_splits option.splits)

lemma demo_files_ok: "files_ok demo_os demo_files"
  unfolding files_ok_def
  by (intro conjI allI impI) (auto simp: demo_simps fresh_fd_new split: if_splits option.splits)

lemma demo_mmap_ok: "mmap_ok demo_os"
  unfolding mmap_ok_def by (auto simp: demo_simps word_less_nat_alt split: if_splits)

lemma demo_signal_stays: "signal_stays demo_os"
  unfolding signal_stays_def by (auto simp: demo_simps)

lemma demo_sigaction_ok: "sigaction_ok demo_os d_disposition"
  unfolding sigaction_ok_def by (auto simp: demo_simps)

section \<open>A created server\<close>

definition demo_world0 :: demo_world where
  "demo_world0 = \<lparr>d_open = [0, 1, 2], d_watched = [], d_waiting = 1, d_input = [], d_output = [], d_signal = 0,
     d_disposition = (\<lambda>_. Previous 0), d_files = Map.empty, d_streams = Map.empty\<rparr>"

lemma demo_world0_open: "d_open demo_world0 = [0, 1, 2]"
  by (simp add: demo_world0_def)

definition demo_config :: "string \<Rightarrow> zedis_config" where
  "demo_config dir = default_config\<lparr>cf_metrics_dir := Some dir, cf_arena_size := 2097152, cf_max_keys := 8, cf_max_connections := 1, cf_ring_capacity := 2, cf_max_zsets := 1,
     cf_zset_members := 1, cf_max_lists := 1, cf_aol_size := 4096, cf_book_price_max := 9\<rparr>"

definition arena_at :: "u64 \<Rightarrow> zedis_arena" where
  "arena_at n = \<lparr>ar_base = 4096, ar_size = 2097152, ar_offset = n, ar_used_hugepages = False\<rparr>"

lemma demo_slab: "\<exists>sl h. zedis_slab_init (arena_at 0) 32 8 2 66 (\<lambda>_. 0) = (0, sl, arena_at 275456, h)"
  by (simp add: zedis_slab_init_def init_pool_def ZEDIS_SLAB_64_def ZEDIS_SLAB_256_def ZEDIS_SLAB_512_def ZEDIS_SLAB_4096_def
      zedis_arena_alloc_def arena_at_def align_up_def split_beta Let_def)

lemma demo_ht: "\<exists>ht m'. zedis_ht_init ht_zero (arena_at 275456) 8 m = (0, ht, arena_at 310528, m')"
  by (simp add: zedis_ht_init_def zedis_arena_calloc_def zedis_arena_alloc_def arena_at_def align_up_def sizeof_ht_entry_def)

lemma demo_book: "\<exists>b m'. zedis_book_init book_zero (arena_at 310528) 0 9 m = (0, b, arena_at 310688, m')"
  by (simp add: zedis_book_init_def zedis_arena_calloc_def zedis_arena_alloc_def arena_at_def align_up_def sizeof_price_level_def wrap_i32_def)

lemma demo_ring: "\<exists>r m'. zedis_ring_init ring_zero (arena_at 310688) 2 m = (0, r, arena_at 311904, m')"
  by (simp add: zedis_ring_init_def next_power_of_two_def zedis_arena_calloc_def zedis_arena_alloc_def arena_at_def align_up_def sizeof_ring_slot_def)

lemma demo_zsets: "\<exists>z m'. zedis_zset_reg_init zset_reg_zero (arena_at 311904) 1 1 m = (0, z, arena_at 321216, m')"
  by (simp add: zedis_zset_reg_init_def zedis_btree_init_def zedis_ht_init_def zset_reg_zero_def btree_zero_def zedis_arena_calloc_def
      zedis_arena_alloc_def arena_at_def align_up_def sizeof_ht_entry_def sizeof_zedis_btree_def sizeof_btree_member_def
      ZEDIS_BTREE_NODE_SIZE_def ZEDIS_BTREE_MAX_ENTRIES_def wrap_u32_def)

lemma demo_lists: "\<exists>l m'. zedis_list_reg_init list_reg_zero (arena_at 321216) 1 m = (0, l, arena_at 330048, m')"
  by (simp add: zedis_list_reg_init_def zedis_ht_init_def list_reg_zero_def zedis_arena_calloc_def
      zedis_arena_alloc_def arena_at_def align_up_def sizeof_ht_entry_def sizeof_list_meta_def wrap_u32_def)

lemma demo_loop:
  "\<exists>m'. event_loop_create demo_os w (arena_at 330048) ZEDIS_MAX_FDS m =
     (Some \<lparr>el_epfd = fresh_fd w, el_stop = False, el_max_fds = 4096, el_handlers = replicate 4096 (None, 0)\<rparr>,
      arena_at 407936, m', w\<lparr>d_open := fresh_fd w # d_open w\<rparr>)"
  using fresh_fd_new(2) [of w]
  by (simp add: event_loop_create_def ZEDIS_MAX_FDS_def zedis_arena_calloc_def zedis_arena_alloc_def arena_at_def align_up_def
      sizeof_event_loop_def sizeof_handler_def demo_os_def demo_open_def)

lemma demo_config_fields:
  "create_config (Some (demo_config dir)) = demo_config dir" "cf_arena_size (demo_config dir) = 2097152" "cf_max_keys (demo_config dir) = 8"
  "cf_max_connections (demo_config dir) = 1" "cf_ring_capacity (demo_config dir) = 2" "cf_max_zsets (demo_config dir) = 1" "cf_zset_members (demo_config dir) = 1"
  "cf_max_lists (demo_config dir) = 1" "cf_aol_size (demo_config dir) = 4096" "cf_aol_path (demo_config dir) = None"
  "cf_book_price_min (demo_config dir) = 0" "cf_book_price_max (demo_config dir) = 9" "cf_metrics_dir (demo_config dir) = Some dir"
  "cf_cpu_core (demo_config dir) = -1"
  by (simp_all add: demo_config_def default_config_def create_config_def ZEDIS_DEFAULT_BOOK_MIN_def)

lemma demo_config_ok: "config_ok (create_config (Some (demo_config dir)))"
  unfolding demo_config_fields(1) by (simp add: config_ok_def demo_config_fields)

lemma demo_arena_start: "arena_start demo_os 2097152 w = (0, arena_at 0, w)"
  by (simp add: arena_start_def zedis_arena_init_def align_up_def demo_os_def arena_at_def)

lemma demo_stores: "\<exists>st. create_stores demo_os (demo_config dir) (arena_at 0) w = Inr (st, w) \<and> st_arena st = arena_at 330048"
proof -
  obtain sl h where 1: "zedis_slab_init (arena_at 0) 32 8 2 66 (\<lambda>_. 0) = (0, sl, arena_at 275456, h)" using demo_slab by blast
  obtain kv m1 where 2: "zedis_ht_init ht_zero (arena_at 275456) 8 (\<lambda>_. 0) = (0, kv, arena_at 310528, m1)" using demo_ht by blast
  obtain b m2 where 3: "zedis_book_init book_zero (arena_at 310528) 0 9 m1 = (0, b, arena_at 310688, m2)" using demo_book by blast
  obtain r m3 where 4: "zedis_ring_init ring_zero (arena_at 310688) 2 m2 = (0, r, arena_at 311904, m3)" using demo_ring by blast
  obtain z m4 where 5: "zedis_zset_reg_init zset_reg_zero (arena_at 311904) 1 1 m3 = (0, z, arena_at 321216, m4)" using demo_zsets by blast
  obtain l m5 where 6: "zedis_list_reg_init list_reg_zero (arena_at 321216) 1 m4 = (0, l, arena_at 330048, m5)" using demo_lists by blast
  have t: "create_tables (demo_config dir) (arena_at 0) = Inr (sl, h, kv, b, r, arena_at 311904, m3)"
    by (simp add: create_tables_def demo_config_fields wrap_u64_def 1 2 3 4)
  have "\<exists>log. aol_start demo_os 4096 None w = (0, log, w)" by (simp add: aol_start_def zedis_aol_init_def demo_os_def)
  then show ?thesis by (auto simp: create_stores_def demo_config_fields wrap_u32_def t 5 [simplified] 6 [simplified])
qed

lemma demo_created:
  assumes "d_open w = [0, 1, 2]"
  shows "\<exists>s. zedis_create demo_os (Some (demo_config dir)) mallocs w = Inr s \<and> (dir = [] \<longrightarrow> sv_metrics s = None)"
proof -
  obtain st where st: "create_stores demo_os (demo_config dir) (arena_at 0) w = Inr (st, w)" "st_arena st = arena_at 330048" using demo_stores by blast
  let ?w = "w\<lparr>d_open := 3 # d_open w\<rparr>"
  let ?l = "\<lparr>el_epfd = 3, el_stop = False, el_max_fds = 4096, el_handlers = replicate 4096 (None, 0)\<rparr>"
  have f: "fresh_fd w = 3" "fresh_fd ?w = 4" using assms by (simp_all add: fresh_fd_def)
  obtain m' where l: "event_loop_create demo_os w (arena_at 330048) ZEDIS_MAX_FDS (st_mem st) = (Some ?l, arena_at 407936, m', ?w)"
    using demo_loop [of w "st_mem st"] f by auto
  obtain w2 where so: "create_listen_socket demo_os (cf_port (demo_config dir)) ?w = (4, w2)"
    using f(2) by (auto simp: create_listen_socket_def set_nonblocking_def demo_os_def demo_open_def)
  obtain l' w3 where ad: "event_loop_add demo_os w2 ?l 4 (EPOLLIN OR EPOLLET) SERVER_ON_ACCEPT 0 = (0, l', w3)"
    by (simp add: event_loop_add_def demo_os_def demo_ctl_def)
  have c: "os_calloc demo_os w = (True, w)" by (simp add: demo_os_def)
  have a: "arena_start demo_os (of_nat (cf_arena_size (demo_config dir))) w = (0, arena_at 0, w)" by (simp add: demo_config_fields demo_arena_start)
  show ?thesis unfolding zedis_create_def Let_def demo_config_fields(1)
    by (simp add: c a st l so ad split_beta zedis_metrics_init_def demo_config_fields(13) cstr_def)
qed



section \<open>The program on it\<close>


lemma demo_config_typed: "config_typed (demo_config dir)"
  using default_config_typed by (simp add: config_typed_def demo_config_def in_i32_def)

theorem config_args_round_trip_witness:
  "parse_args (config_args (demo_config ''/tmp'')) default_config = Go (demo_config ''/tmp'')"
  by (rule config_args_round_trip [OF demo_config_typed]) (simp add: demo_config_fields)

definition no_signals :: signals where
  "no_signals = \<lparr>sg_previous_sigterm = Previous 0, sg_previous_sigint = Previous 0, sg_installed = False\<rparr>"

lemma demo_install:
  "\<exists>sg1. event_loop_install_signal_handlers demo_os no_signals demo_world0 =
     (0, sg1, demo_world0\<lparr>d_disposition := (\<lambda>_. Previous 0)(SIGTERM := HANDLE_SHUTDOWN_SIGNAL, SIGINT := HANDLE_SHUTDOWN_SIGNAL)\<rparr>)"
  by (simp add: event_loop_install_signal_handlers_def demo_os_def demo_world0_def)


lemma demo_messages: "ms \<noteq> [] \<Longrightarrow> d_signal (fold (\<lambda>t w. os_stderr demo_os w t) ms w) = SIGTERM"
  by (induction ms arbitrary: w rule: rev_induct) (auto simp: demo_os_def)


section \<open>A server with a connection\<close>

text \<open>The first connection of a server with one block of each large class; two requests have arrived on it.\<close>

definition demo_alloc :: "addr option \<times> zedis_slab \<times> heap" where
  "demo_alloc = zedis_slab_alloc 0 (fst (snd slab_demo)) (snd (snd (snd slab_demo))) ZEDIS_SLAB_512"

definition demo_alloc2 :: "addr option \<times> zedis_slab \<times> heap" where
  "demo_alloc2 = zedis_slab_alloc 0 (fst (snd demo_alloc)) (snd (snd demo_alloc)) ZEDIS_CONN_WRITE_SIZE"

definition demo_requests :: string where
  "demo_requests = request [''SET'', ''k'', ''v''] @ request [''GET'', ''k'']"

definition demo_conn :: conn where
  "demo_conn = \<lparr>cn_fd = 5, cn_parser = \<lparr>p_buf = demo_requests, p_buf_cap = length demo_requests, p_r_pos = 0, p_w_pos = length demo_requests,
       p_pool = \<lparr>np_free = [9000, 9064, 9128, 9192, 9256], np_slab = None, np_malloc = []\<rparr>\<rparr>,
     cn_write_buf = 5000, cn_write_data = replicate 4096 NUL, cn_write_len = 0, cn_write_sent = 0, cn_channel = replicate 64 NUL,
     cn_subscribed = False, cn_closed = False, cn_next = 0, cn_prev = 0\<rparr>"

definition demo_server :: "demo_world zedis_server" where
  "demo_server = \<lparr>sv_config = demo_config ''/tmp'', sv_metrics = None,
     sv_loop = \<lparr>el_epfd = 3, el_stop = False, el_max_fds = 1, el_handlers = [(None, 0)]\<rparr>, sv_listen_fd = 4, sv_running = True,
     sv_arena = slab_arena, sv_slab = fst (snd demo_alloc2), sv_kv = demo_table,
     sv_book = \<lparr>bk_levels = [\<lparr>bid_qty = 0, ask_qty = 0\<rparr>], bk_price_min = 0, bk_price_max = 0, bk_num_levels = 1\<rparr>,
     sv_ring = \<lparr>rg_slots = [empty_slot], rg_capacity = 1, rg_write_seq = 0, rg_read_seq = 0\<rparr>, sv_aol = demo_log, sv_zsets = demo_zreg,
     sv_lists = demo_lreg, sv_conns_head = 4488, sv_conn_count = 1, sv_heap = snd (snd demo_alloc2), sv_malloc = [],
     sv_conns = [4488 \<mapsto> demo_conn], sv_overrun = False, sv_world = demo_world0\<lparr>d_open := [0, 1, 2, 3, 4, 5]\<rparr>\<rparr>"

lemma demo_allocs: "fst demo_alloc = Some 4488" "fst demo_alloc2 = Some 5000"
  by (simp_all add: demo_alloc2_def demo_alloc_def slab_demo_eq zedis_slab_alloc_def pool_for_size_def ZEDIS_SLAB_64_def ZEDIS_SLAB_256_def
      ZEDIS_SLAB_512_def ZEDIS_SLAB_4096_def ZEDIS_CONN_WRITE_SIZE_def pool_pop.simps slab_hdr_def)

lemma demo_slab_ok: "slab_ok [4488 \<mapsto> (5, 5000)] (snd (snd demo_alloc2), fst (snd demo_alloc2))"
proof -
  have A: "arena_wf slab_arena" "0 < unat (ar_base slab_arena)" "unat (ar_size slab_arena) < 2 ^ 62"
    by (simp_all add: slab_arena_def arena_wf_def)
  have i: "zedis_slab_init slab_arena 2 1 1 1 (\<lambda>_. 0) = (0, fst (snd slab_demo), fst (snd (snd slab_demo)), snd (snd (snd slab_demo)))"
    unfolding slab_demo_def [symmetric] by (subst slab_demo_eq)+ simp
  have 1: "zedis_slab_alloc 0 (fst (snd slab_demo)) (snd (snd (snd slab_demo))) ZEDIS_SLAB_512 = (Some 4488, fst (snd demo_alloc), snd (snd demo_alloc))"
    using demo_allocs(1) by (metis demo_alloc_def prod.collapse)
  have 2: "zedis_slab_alloc 0 (fst (snd demo_alloc)) (snd (snd demo_alloc)) ZEDIS_CONN_WRITE_SIZE = (Some 5000, fst (snd demo_alloc2), snd (snd demo_alloc2))"
    using demo_allocs(2) by (metis demo_alloc2_def prod.collapse)
  show ?thesis by (rule slab_open(1) [OF fresh_slab_ok [OF A _ _ _ _ i] 1 2]) simp_all
qed

lemma demo_conn_wf: "conn_wf demo_conn"
  by (simp add: demo_conn_def conn_wf_def parser_wf_def ZEDIS_CONN_WRITE_SIZE_def sub_channel_cap_def)

lemma demo_server_inv: "server_inv demo_kernel demo_server [4488]"
proof -
  have ids: "ids (sv_conns demo_server) = [4488 \<mapsto> (5, 5000)]" by (auto simp: ids_def demo_server_def demo_conn_def fun_eq_iff)
  have "conns_ok demo_server [4488]"
    using demo_conn_wf by (auto simp: conns_ok_def conn_list_def demo_server_def split: if_splits) (simp_all add: demo_conn_def)
  moreover have "stores_ok demo_server"
    using demo_table_inv(2) demo_zreg_inv(1) demo_lreg_rep(1)
    by (auto simp: stores_ok_def demo_server_def book_wf_def qty_ok_def ring_shape_def intro!: exI [of _ 0])
  moreover have "io_ok demo_kernel [4488 \<mapsto> (5, 5000)] (sv_world demo_server) (sv_loop demo_server)"
    by (simp add: io_ok_def demo_kernel_def demo_server_def)
  ultimately show ?thesis using demo_slab_ok unfolding server_inv_def ids by (simp add: demo_server_def)
qed


definition demo_db :: db where
  "demo_db = \<lparr>db_slots = 8, db_strings = Map.empty, db_lists = (\<lambda>_. []), db_zsets = (\<lambda>_. Map.empty), db_book = [0 \<mapsto> (0, 0)]\<rparr>"

lemma demo_represents: "represents demo_server demo_db"
proof -
  have "book_wf (sv_book demo_server)" "book_abs (sv_book demo_server) = db_book demo_db"
    by (auto simp: demo_server_def demo_db_def book_wf_def qty_ok_def book_abs_def fun_eq_iff)
  then show ?thesis using demo_table_inv demo_zreg_inv(1,2) demo_lreg_rep(1)
    by (simp add: represents_def) (simp add: demo_server_def demo_db_def demo_table_def)
qed

lemma demo_session:
  assumes "session demo_db [[''SET'', ''k'', ''v''], [''GET'', ''k'']] t D"
  shows "t = ''+OK'' @ crlf @ bulk_text ''v''" "db_strings D = [''k'' \<mapsto> ''v'']"
proof -
  have "length (bulk_text ''v'') = 7" by (simp add: bulk_text_def show_nat.simps)
  then have "bulk_reply ''v'' = bulk_text ''v''" by (simp add: bulk_reply_def)
  then show "t = ''+OK'' @ crlf @ bulk_text ''v''" "db_strings D = [''k'' \<mapsto> ''v'']"
    using assms by (auto simp: session_simps request_outcomes_def find_commands demo_db_def ZEDIS_HT_MAX_KEY_def ZEDIS_HT_MAX_VALUE_def)
qed


text \<open>Five bytes of the requests were read, the others are still to be read.\<close>

definition demo_typing :: conn where
  "demo_typing = demo_conn\<lparr>cn_parser := (cn_parser demo_conn)\<lparr>p_buf := take 5 demo_requests @ replicate 95 NUL, p_buf_cap := 100, p_w_pos := 5\<rparr>\<rparr>"

definition demo_reading :: "demo_world zedis_server" where
  "demo_reading = demo_server\<lparr>sv_world := (sv_world demo_server)\<lparr>d_input := drop 5 demo_requests\<rparr>, sv_conns := [4488 \<mapsto> demo_typing]\<rparr>"

lemma demo_stream: "stream_socket demo_os fd d_input"
  unfolding stream_socket_def by (intro conjI allI impI) (auto simp: demo_simps split: if_splits epoll_op.splits)

lemma demo_lengths: "5 < length (request [''SET'', ''k'', ''v''])" "5 < length demo_requests"
  by code_simp+

lemma demo_reading_ok: "listening demo_kernel [4488] 4488 (take 5 demo_requests) 5 demo_db demo_reading"
proof -
  let ?w = "(sv_world demo_server)\<lparr>d_input := drop 5 demo_requests\<rparr>"
  have I: "server_inv demo_kernel (demo_server\<lparr>sv_world := ?w\<rparr>) [4488]"
    by (rule inv_world [OF demo_server_inv]) (simp_all add: demo_kernel_def)
  have wf: "conn_wf demo_typing" using demo_conn_wf demo_lengths(2) by (simp add: demo_typing_def conn_wf_def parser_wf_def) (simp add: demo_conn_def)
  have "server_inv demo_kernel demo_reading [4488]"
    using inv_upd [OF I, of 4488 demo_conn demo_typing] wf by (simp add: demo_reading_def demo_server_def demo_typing_def)
  moreover have "unread (cn_parser demo_typing) = take 5 demo_requests" using demo_lengths(2) by (simp add: demo_typing_def demo_conn_def unread_def slice_def)
  moreover have "represents demo_reading demo_db" using demo_represents by (simp add: demo_reading_def represents_def)
  ultimately show ?thesis by (simp add: listening_def demo_reading_def demo_typing_def demo_conn_def ready_def)
qed


text \<open>The connection listens to the channel it publishes to.\<close>

definition demo_listener :: conn where
  "demo_listener = demo_conn\<lparr>cn_parser := (cn_parser demo_conn)\<lparr>p_buf := ''newshello'', p_buf_cap := 9, p_r_pos := 9, p_w_pos := 9\<rparr>,
     cn_channel := ''news'' @ replicate 60 NUL, cn_subscribed := True\<rparr>"

definition demo_publish :: resp_value where
  "demo_publish = \<lparr>rv_type = RESP_TYPE_ARRAY, rv_integer = 0, rv_bulk = 0, rv_bulk_len = 0,
     rv_array = map (\<lambda>(at, n). RespNode 0 RESP_TYPE_BULK 0 at n []) [(0, 0), (0, 4), (4, 5)]\<rparr>"

theorem publish_delivers_witness:
  "\<exists>s'. publish_command demo_os 4488 demo_publish (demo_server\<lparr>sv_conns := [4488 \<mapsto> demo_listener]\<rparr>) = Some (0, s') \<and>
     server_inv demo_kernel s' [4488] \<and> subscribers (''news'' @ [NUL]) (demo_server\<lparr>sv_conns := [4488 \<mapsto> demo_listener]\<rparr>) [4488] = [4488]"
proof -
  let ?s = "demo_server\<lparr>sv_conns := [4488 \<mapsto> demo_listener]\<rparr>" and ?ch = "take 63 ''news'' @ [NUL]"
  have wf: "conn_wf demo_listener"
    by (simp add: demo_listener_def demo_conn_def conn_wf_def parser_wf_def ZEDIS_CONN_WRITE_SIZE_def sub_channel_cap_def)
  have "server_inv demo_kernel (demo_server\<lparr>sv_conns := (sv_conns demo_server)(4488 \<mapsto> demo_listener)\<rparr>) [4488]"
    by (rule inv_upd [OF demo_server_inv, of 4488 demo_conn]) (simp_all add: demo_server_def wf, simp_all add: demo_listener_def)
  then have I: "server_inv demo_kernel ?s [4488]" by (simp add: demo_server_def)
  have args: "cmd_bulk (p_buf (cn_parser demo_listener)) demo_publish 1 = Some ''news''"
    "cmd_bulk (p_buf (cn_parser demo_listener)) demo_publish 2 = Some ''hello''"
    by (simp_all add: cmd_bulk_def demo_publish_def demo_listener_def slice_def numeral_2_eq_2)
  obtain ring where ring: "zedis_ring_publish (sv_ring ?s) (Some ?ch) (Some ''hello'') = (0, ring)"
    by (simp add: zedis_ring_publish_def publish_check_def demo_server_def ZEDIS_RING_MSG_MAX_def)
  have "length (message_text ?ch ''hello'') = 38"
    by (simp add: message_text_def message_head_def cstr_def show_nat.simps)
  then have room: "has_room (length (message_text ?ch ''hello'') + 32) demo_listener"
    using wf by (simp add: has_room_def demo_listener_def demo_conn_def ZEDIS_CONN_WRITE_SIZE_def slab_hdr_def)
  have "subscribers (''news'' @ [NUL]) ?s [4488] = [4488]"
    by (simp add: subscribers_def listens_def demo_listener_def str_case_equal_def cstr_def)
  then show ?thesis
    using publish_delivers [OF demo_kernel_ok I _ _ args refl ring, of 4488] room by (auto split: if_splits)
qed

theorem queued_bytes_conserved_witness:
  "\<exists>s' c' bs. conn_queue_write demo_os 4488 ''abc'' demo_server = Some (0, s') \<and> sv_conns s' 4488 = Some c' \<and>
     sends demo_os 5 (sv_world demo_server) bs (sv_world s') \<and> bs @ pending c' = ''abc'' \<and> \<not> sv_overrun s'"
proof -
  have P: "write_progress demo_os" by (rule kernel_calls(1) [OF demo_kernel_ok])
  have c: "sv_conns demo_server 4488 = Some demo_conn" by (simp add: demo_server_def)
  have f: "\<not> cn_closed demo_conn" "cn_write_len demo_conn = 0" "cn_fd demo_conn = 5" "pending demo_conn = []" "\<not> sv_overrun demo_server"
    by (simp_all add: demo_conn_def pending_def demo_server_def slice_def)
  have "fst (the (conn_queue_write demo_os 4488 ''abc'' demo_server)) = 0"
    by (simp add: conn_queue_write_def write_buf_append_def conn_flush.simps conn_disable_write_def event_loop_mod_def upd_conn_def demo_server_def
        demo_conn_def demo_os_def ZEDIS_CONN_WRITE_SIZE_def)
  then show ?thesis using queued_bytes_conserved [OF P c demo_conn_wf, of "''abc''"] f
    by (auto simp: ZEDIS_CONN_WRITE_SIZE_def slab_hdr_def)
qed

section \<open>A snapshot\<close>

definition demo_metrics :: zedis_metrics where
  "demo_metrics = \<lparr>mt_collector_dir = ''/m'', mt_interval_ms = 1000, mt_last_write_ms = 0, mt_command_counts = replicate 17 0\<rparr>"

lemma demo_print_lines:
  "d_streams w fd = Some (p, c) \<Longrightarrow> print_lines demo_os fd ls failed w = (failed, w\<lparr>d_streams := (d_streams w)(fd \<mapsto> (p, c @ concat ls))\<rparr>)"
proof (induction ls arbitrary: w c)
  case Nil
  then have "(d_streams w)(fd \<mapsto> (p, c)) = d_streams w" by auto
  then show ?case by simp
next
  case (Cons l ls)
  have f: "os_fprintf demo_os w fd l = (int (length l), w\<lparr>d_streams := (d_streams w)(fd \<mapsto> (p, c @ l))\<rparr>)"
    using Cons.prems by (simp add: demo_os_def demo_fprintf_def)
  show ?case using Cons.IH [of "w\<lparr>d_streams := (d_streams w)(fd \<mapsto> (p, c @ l))\<rparr>" "c @ l"]
    by (auto simp: f intro!: arg_cong [where f = "\<lambda>d. w\<lparr>d_streams := d\<rparr>"])
qed

lemma demo_ops:
  "os_malloc demo_os w n = (Some (replicate n NUL), w)" "os_mkstemp demo_os w t = demo_mkstemp w t" "os_fchmod demo_os w fd = (0, w)"
  "os_fdopen demo_os w fd = (True, w)" "os_fflush demo_os w fd = (0, w)" "os_fsync demo_os w fd = (0, w)" "os_fclose demo_os w fd = demo_fclose w fd"
  "os_rename demo_os w p q = (if d_files w p = None then (-1, w) else (0, w\<lparr>d_files := (d_files w)(q := d_files w p, p := None)\<rparr>))"
  by (simp_all add: demo_os_def)

lemma demo_publish: "d_streams w fd = Some (p, []) \<Longrightarrow> fst (publish_snapshot demo_os fd p final ls w) = 0"
  by (simp add: publish_snapshot_def flush_sync_def demo_print_lines demo_ops demo_fclose_def demo_close_def Let_def)


end
